(* ===== verification/GoBase.thy ===== *)
theory GoBase
  imports Main "HOL-Library.Sublist"
begin

text \<open>
  The prelude: Go's string primitives over byte strings, decimal numerals, and the generic lemmas
  every component shares.

  A Go \<open>string\<close> is an immutable byte sequence, modelled as \<^typ>\<open>string\<close> (a list of 8-bit
  characters); \<open>len\<close> is \<^const>\<open>length\<close> and a byte index is a position of the list. The functions
  below carry the behaviour of package \<open>strings\<close> and \<open>strconv\<close> that the program relies on:
  \<open>strings.Index\<close> is \<open>index_of\<close> (\<open>-1\<close> is \<^const>\<open>None\<close>), \<open>strings.LastIndex\<close> is
  \<open>last_index_of\<close>, \<open>strings.Contains\<close> is \<open>contains\<close>, \<open>strings.HasPrefix\<close> is \<open>has_prefix\<close>, and so on.
  Case mapping and white space are the ASCII ones; a byte above 127 is neither a letter nor a space.

  The lemmas about \<open>index_of\<close> describe the first occurrence, and \<open>index_of_line\<close> is the one the
  managed sections rest on: a marker with no newline in it never straddles a line break.
\<close>

named_theorems go_strings \<open>facts about the string primitives\<close>

section \<open>Options and results\<close>

abbreviation is_none :: "'a option \<Rightarrow> bool" where
  "is_none x \<equiv> x = None"

definition map_inr :: "('a \<Rightarrow> 'b) \<Rightarrow> 'e + 'a \<Rightarrow> 'e + 'b" where
  "map_inr f r = (case r of Inl e \<Rightarrow> Inl e | Inr x \<Rightarrow> Inr (f x))"

fun bind_res :: "'e + 'a \<Rightarrow> ('a \<Rightarrow> 'e + 'b) \<Rightarrow> 'e + 'b" where
  "bind_res (Inl e) f = Inl e"
| "bind_res (Inr x) f = f x"

lemma bind_res_Inr [simp]: "bind_res r f = Inr y \<longleftrightarrow> (\<exists>x. r = Inr x \<and> f x = Inr y)"
  by (cases r) auto

section \<open>Prefixes, suffixes and trimming\<close>

abbreviation nl :: char where
  "nl \<equiv> CHR 0x0A"

definition has_prefix :: "string \<Rightarrow> string \<Rightarrow> bool" where
  "has_prefix s p \<longleftrightarrow> take (length p) s = p"

definition has_suffix :: "string \<Rightarrow> string \<Rightarrow> bool" where
  "has_suffix s p \<longleftrightarrow> has_prefix (rev s) (rev p)"

definition trim_prefix :: "string \<Rightarrow> string \<Rightarrow> string" where
  "trim_prefix s p = (if has_prefix s p then drop (length p) s else s)"

definition trim_suffix :: "string \<Rightarrow> string \<Rightarrow> string" where
  "trim_suffix s p = (if has_suffix s p then take (length s - length p) s else s)"

definition trim_left :: "string \<Rightarrow> string \<Rightarrow> string" where
  "trim_left s cutset = dropWhile (\<lambda>c. c \<in> set cutset) s"

definition trim_right :: "string \<Rightarrow> string \<Rightarrow> string" where
  "trim_right s cutset = rev (trim_left (rev s) cutset)"

definition white :: string where
  "white = [CHR 0x09, CHR 0x0A, CHR 0x0B, CHR 0x0C, CHR 0x0D, CHR 0x20]"

definition is_space :: "char \<Rightarrow> bool" where
  "is_space c \<longleftrightarrow> c \<in> set white"

definition trim_space :: "string \<Rightarrow> string" where
  "trim_space s = trim_right (trim_left s white) white"

lemma has_prefix_iff [go_strings]: "has_prefix s p \<longleftrightarrow> (\<exists>t. s = p @ t)"
  unfolding has_prefix_def by (metis append_eq_conv_conj append_take_drop_id)

lemma has_prefix_append [simp]: "has_prefix (p @ t) p"
  by (simp add: has_prefix_def)

lemma has_prefix_Nil [simp]: "has_prefix s []"
  by (simp add: has_prefix_def)

lemma has_prefix_empty [simp]: "has_prefix [] p \<longleftrightarrow> p = []"
  by (auto simp: has_prefix_def)

lemma has_prefix_Cons [simp]: "has_prefix (c # s) (d # p) \<longleftrightarrow> c = d \<and> has_prefix s p"
  by (auto simp: has_prefix_def)

lemma has_prefix_length: "has_prefix s p \<Longrightarrow> length p \<le> length s"
  by (auto simp: has_prefix_iff)

lemma has_suffix_iff [go_strings]: "has_suffix s p \<longleftrightarrow> (\<exists>t. s = t @ p)"
  unfolding has_suffix_def has_prefix_iff
  by (metis rev_append rev_rev_ident)

lemma trim_prefix_append [simp]: "trim_prefix (p @ t) p = t"
  by (simp add: trim_prefix_def)

lemma trim_suffix_append [simp]: "trim_suffix (t @ p) p = t"
  by (auto simp: trim_suffix_def has_suffix_iff)

lemma trim_right_snoc: "trim_right (s @ [c]) cs = (if c \<in> set cs then trim_right s cs else s @ [c])"
  by (simp add: trim_right_def trim_left_def)

lemma trim_right_Nil [simp]: "trim_right [] cs = []"
  by (simp add: trim_right_def trim_left_def)

lemma trim_right_append_cutset: "set t \<subseteq> set cs \<Longrightarrow> trim_right (s @ t) cs = trim_right s cs"
  by (induction t rule: rev_induct) (auto simp: trim_right_snoc simp flip: append_assoc)

lemma trim_right_split: "\<exists>t. s = trim_right s cs @ t \<and> set t \<subseteq> set cs"
proof -
  have "rev s = takeWhile (\<lambda>c. c \<in> set cs) (rev s) @ dropWhile (\<lambda>c. c \<in> set cs) (rev s)"
    by simp
  then have "s = trim_right s cs @ rev (takeWhile (\<lambda>c. c \<in> set cs) (rev s))"
    unfolding trim_right_def trim_left_def by (metis rev_append rev_rev_ident)
  moreover have "set (rev (takeWhile (\<lambda>c. c \<in> set cs) (rev s))) \<subseteq> set cs"
    using set_takeWhileD by fastforce
  ultimately show ?thesis by blast
qed

lemma trim_right_last: "trim_right s cs \<noteq> [] \<Longrightarrow> last (trim_right s cs) \<notin> set cs"
  unfolding trim_right_def trim_left_def
  by (metis hd_dropWhile last_rev rev_is_Nil_conv)

lemma trim_right_idem [simp]: "trim_right (trim_right s cs) cs = trim_right s cs"
  by (simp add: trim_right_def trim_left_def)

lemma set_trim_right: "set (trim_right s cs) \<subseteq> set s"
  unfolding trim_right_def trim_left_def by (auto dest: set_dropWhileD)

section \<open>Searching\<close>

fun index_of :: "string \<Rightarrow> string \<Rightarrow> nat option" where
  "index_of [] sub = (if sub = [] then Some 0 else None)"
| "index_of (c # cs) sub =
     (if has_prefix (c # cs) sub then Some 0 else map_option Suc (index_of cs sub))"

fun last_index_of :: "string \<Rightarrow> string \<Rightarrow> nat option" where
  "last_index_of [] sub = (if sub = [] then Some 0 else None)"
| "last_index_of (c # cs) sub =
     (case last_index_of cs sub of
        Some i \<Rightarrow> Some (Suc i)
      | None \<Rightarrow> if has_prefix (c # cs) sub then Some 0 else None)"

definition contains :: "string \<Rightarrow> string \<Rightarrow> bool" where
  "contains s sub \<longleftrightarrow> index_of s sub \<noteq> None"

definition contains_any :: "string \<Rightarrow> string \<Rightarrow> bool" where
  "contains_any s chars \<longleftrightarrow> list_ex (\<lambda>c. c \<in> set chars) s"

definition cut :: "string \<Rightarrow> string \<Rightarrow> string \<times> string \<times> bool" where
  "cut s sep = (case index_of s sep of
      Some i \<Rightarrow> (take i s, drop (i + length sep) s, True)
    | None \<Rightarrow> (s, [], False))"

lemma index_of_SomeD:
  "index_of s sub = Some i \<Longrightarrow> s = take i s @ sub @ drop (i + length sub) s \<and> i + length sub \<le> length s"
proof (induction s arbitrary: i)
  case Nil
  then show ?case by (auto split: if_splits)
next
  case (Cons c cs)
  show ?case
  proof (cases "has_prefix (c # cs) sub")
    case True
    with Cons.prems show ?thesis
      by (auto simp: has_prefix_def dest: has_prefix_length)
        (metis append_take_drop_id, metis has_prefix_def has_prefix_length True length_Cons)
  next
    case False
    with Cons.prems obtain j where j: "index_of cs sub = Some j" and i: "i = Suc j" by auto
    from Cons.IH [OF j] i show ?thesis by simp
  qed
qed

lemma index_of_SomeE:
  assumes "index_of s sub = Some i"
  obtains pre post where "s = pre @ sub @ post" and "length pre = i"
  using index_of_SomeD [OF assms] that [of "take i s" "drop (i + length sub) s"] by auto

lemma index_of_least: "index_of s sub = Some i \<Longrightarrow> s = pre @ sub @ post \<Longrightarrow> i \<le> length pre"
proof (induction s arbitrary: i pre)
  case Nil
  then show ?case by simp
next
  case (Cons c cs)
  show ?case
  proof (cases "has_prefix (c # cs) sub")
    case True
    with Cons.prems(1) have "i = 0" by simp
    then show ?thesis by simp
  next
    case False
    with Cons.prems(1) obtain j where j: "index_of cs sub = Some j" and i: "i = Suc j" by auto
    from False Cons.prems(2) obtain pre' where "pre = c # pre'" and "cs = pre' @ sub @ post"
      by (cases pre) (auto simp: has_prefix_iff)
    with Cons.IH [OF j] i show ?thesis by simp
  qed
qed

lemma index_of_None_iff: "index_of s sub = None \<longleftrightarrow> (\<forall>pre post. s \<noteq> pre @ sub @ post)"
proof (induction s)
  case Nil
  then show ?case by auto
next
  case (Cons c cs)
  have "(\<exists>pre post. c # cs = pre @ sub @ post) \<longleftrightarrow>
      has_prefix (c # cs) sub \<or> (\<exists>pre post. cs = pre @ sub @ post)" (is "?L \<longleftrightarrow> ?R")
  proof
    assume ?L
    then obtain pre post where "c # cs = pre @ sub @ post" by blast
    then show ?R by (cases pre) (auto simp: has_prefix_iff)
  next
    assume ?R
    then show ?L
    proof
      assume "has_prefix (c # cs) sub"
      then show ?L by (auto simp: has_prefix_iff) (metis append_Nil)
    next
      assume "\<exists>pre post. cs = pre @ sub @ post"
      then show ?L by (metis append_Cons)
    qed
  qed
  with Cons.IH show ?case by auto
qed

lemma contains_iff [go_strings]: "contains s sub \<longleftrightarrow> (\<exists>pre post. s = pre @ sub @ post)"
  using index_of_None_iff [of s sub] by (auto simp: contains_def)

lemma contains_appendI: "contains (pre @ sub @ post) sub"
  by (auto simp: contains_iff)

lemma contains_subset: "contains s sub \<Longrightarrow> set sub \<subseteq> set s"
  by (auto simp: contains_iff)

lemma contains_append1: "contains s sub \<Longrightarrow> contains (s @ t) sub"
  by (metis append_assoc contains_iff)

lemma contains_append2: "contains t sub \<Longrightarrow> contains (s @ t) sub"
  by (metis append_assoc contains_iff)

lemma index_of_eqI:
  assumes "s = pre @ sub @ post"
    and "\<And>pre' post'. s = pre' @ sub @ post' \<Longrightarrow> length pre \<le> length pre'"
  shows "index_of s sub = Some (length pre)"
proof (cases "index_of s sub")
  case None
  with assms(1) show ?thesis by (auto simp: index_of_None_iff)
next
  case (Some i)
  then obtain pre' post' where "s = pre' @ sub @ post'" and i: "length pre' = i"
    by (rule index_of_SomeE)
  with assms(2) have "length pre \<le> i" by blast
  moreover from Some assms(1) have "i \<le> length pre" by (rule index_of_least)
  ultimately show ?thesis using Some by simp
qed

text \<open>
  An occurrence of a text without newlines lies on one side of any line break. All reasoning
  about marker comments is by this lemma.
\<close>

lemma occurrence_line:
  assumes eq: "a @ nl # b = pre @ sub @ post" and "nl \<notin> set sub"
  shows "(\<exists>q. a = pre @ sub @ q \<and> post = q @ nl # b)
    \<or> (\<exists>p. b = p @ sub @ post \<and> pre = a @ nl # p) \<or> sub = []"
proof -
  from eq consider (left) q where "a = pre @ q" "q @ nl # b = sub @ post"
    | (right) q where "a @ q = pre" "nl # b = q @ sub @ post"
    by (auto simp: append_eq_append_conv2)
  then show ?thesis
  proof cases
    case left
    from left(2) consider (l1) r where "q = sub @ r" "r @ nl # b = post"
      | (l2) r where "q @ r = sub" "nl # b = r @ post"
      by (auto simp: append_eq_append_conv2)
    then show ?thesis
    proof cases
      case l1
      with left show ?thesis by auto
    next
      case l2
      with assms(2) left show ?thesis by (cases r) auto
    qed
  next
    case right
    with assms(2) show ?thesis by (cases q; cases sub) auto
  qed
qed

lemma index_of_line:
  assumes "nl \<notin> set sub" and "sub \<noteq> []"
  shows "index_of (a @ nl # b) sub =
    (case index_of a sub of Some i \<Rightarrow> Some i
     | None \<Rightarrow> map_option (\<lambda>i. length a + 1 + i) (index_of b sub))"
proof (cases "index_of a sub")
  case (Some i)
  then obtain p q where a: "a = p @ sub @ q" and i: "length p = i" by (rule index_of_SomeE)
  have "index_of (a @ nl # b) sub = Some (length p)"
  proof (rule index_of_eqI)
    show "a @ nl # b = p @ sub @ (q @ nl # b)" using a by simp
    fix pre' post' assume "a @ nl # b = pre' @ sub @ post'"
    from occurrence_line [OF this assms(1)] assms(2) Some i show "length p \<le> length pre'"
      by (auto dest: index_of_least simp: a)
  qed
  with Some i show ?thesis by simp
next
  case None
  show ?thesis
  proof (cases "index_of b sub")
    case None': None
    have "index_of (a @ nl # b) sub = None"
      unfolding index_of_None_iff
      using None None' occurrence_line [OF _ assms(1)] assms(2)
      by (metis index_of_None_iff)
    with None None' show ?thesis by simp
  next
    case (Some i)
    then obtain p q where b: "b = p @ sub @ q" and i: "length p = i" by (rule index_of_SomeE)
    have "index_of (a @ nl # b) sub = Some (length (a @ nl # p))"
    proof (rule index_of_eqI)
      show "a @ nl # b = (a @ nl # p) @ sub @ q" using b by simp
      fix pre' post' assume "a @ nl # b = pre' @ sub @ post'"
      from occurrence_line [OF this assms(1)] assms(2) None Some i
      show "length (a @ nl # p) \<le> length pre'"
        by (auto simp: index_of_None_iff b dest: index_of_least)
    qed
    with None Some i show ?thesis by simp
  qed
qed

lemma contains_line:
  "nl \<notin> set sub \<Longrightarrow> sub \<noteq> [] \<Longrightarrow> contains (a @ nl # b) sub \<longleftrightarrow> contains a sub \<or> contains b sub"
  by (auto simp: contains_def index_of_line split: option.splits)

lemma last_index_of_None_char: "last_index_of s [d] = None \<longleftrightarrow> d \<notin> set s"
  by (induction s) (auto split: option.splits simp: has_prefix_def)

lemma last_index_of_char_tail: "last_index_of s [d] = Some k \<Longrightarrow> d \<notin> set (drop (k + 1) s)"
proof (induction s arbitrary: k)
  case (Cons c s)
  then show ?case
    by (cases "last_index_of s [d]") (auto simp: last_index_of_None_char split: if_splits)
qed (simp split: if_splits)

lemma last_index_of_char_append: "d \<notin> set b \<Longrightarrow> last_index_of (a @ d # b) [d] = Some (length a)"
proof (induction a)
  case Nil
  then have "last_index_of b [d] = None" by (simp add: last_index_of_None_char)
  then show ?case by (simp add: has_prefix_def)
next
  case (Cons c a)
  then show ?case by simp
qed

lemma last_index_of_nl:
  "last_index_of s [nl] = None \<longleftrightarrow> nl \<notin> set s"
  by (induction s) (auto split: option.splits simp: has_prefix_def)

lemma last_index_of_nl_append:
  "nl \<notin> set b \<Longrightarrow> last_index_of (a @ nl # b) [nl] = Some (length a)"
proof (induction a)
  case Nil
  then show ?case using last_index_of_nl [of b] by (simp add: has_prefix_def)
next
  case (Cons c a)
  then show ?case by simp
qed

lemma last_index_of_char_Some: "last_index_of s [d] = Some k \<Longrightarrow> k < length s \<and> s ! k = d"
  by (induction s arbitrary: k) (auto split: option.splits if_splits simp: has_prefix_def)

lemma last_index_of_nl_Some: "last_index_of s [nl] = Some k \<Longrightarrow> k < length s \<and> s ! k = nl"
  by (induction s arbitrary: k) (auto split: option.splits if_splits simp: has_prefix_def)

lemma index_of_prefix: "has_prefix s sub \<Longrightarrow> index_of s sub = Some 0"
  by (cases s) auto

lemma index_of_self [simp]: "index_of (sub @ t) sub = Some 0"
  by (simp add: index_of_prefix)

lemma contains_Nil [simp]: "contains [] sub \<longleftrightarrow> sub = []"
  by (simp add: contains_def)

lemma contains_take: "contains (take n s) sub \<Longrightarrow> contains s sub"
  by (metis append_take_drop_id contains_append1)

text \<open>Texts that end at a line break (or are empty) are searched independently of what follows.\<close>

definition line_complete :: "string \<Rightarrow> bool" where
  "line_complete s \<longleftrightarrow> s = [] \<or> last s = nl"

lemma line_complete_Nil [simp]: "line_complete []"
  by (simp add: line_complete_def)

lemma line_complete_nl [simp]: "line_complete (s @ [nl])"
  by (simp add: line_complete_def)

lemma line_complete_append:
  "line_complete s \<Longrightarrow> line_complete t \<Longrightarrow> line_complete (s @ t)"
  by (cases "t = []") (auto simp: line_complete_def)

lemma line_complete_cases:
  assumes "line_complete s"
  obtains "s = []" | u where "s = u @ [nl]"
  using assms unfolding line_complete_def by (metis append_butlast_last_id)

lemma index_of_complete:
  assumes "line_complete pre" and "nl \<notin> set sub" and "sub \<noteq> []" and "\<not> contains pre sub"
  shows "index_of (pre @ t) sub = map_option (\<lambda>i. length pre + i) (index_of t sub)"
  using assms(1)
proof (cases rule: line_complete_cases)
  case 1
  then show ?thesis by (simp add: option.map_ident)
next
  case (2 u)
  with assms(4) have "\<not> contains u sub"
    using contains_append1 [of u sub "[nl]"] by auto
  then have "index_of u sub = None" by (simp add: contains_def)
  with 2 assms(2,3) show ?thesis by (cases "index_of t sub") (simp_all add: index_of_line)
qed

lemma contains_complete:
  assumes "line_complete pre" and "nl \<notin> set sub" and "sub \<noteq> []"
  shows "contains (pre @ t) sub \<longleftrightarrow> contains pre sub \<or> contains t sub"
proof (cases "contains pre sub")
  case True
  then show ?thesis using contains_append1 by blast
next
  case False
  with index_of_complete [OF assms, of t] show ?thesis by (auto simp: contains_def)
qed

section \<open>Splitting\<close>

fun split_on :: "char \<Rightarrow> string \<Rightarrow> string list" where
  "split_on d [] = [[]]"
| "split_on d (c # cs) =
     (if c = d then [] # split_on d cs
      else (case split_on d cs of [] \<Rightarrow> [[c]] | w # ws \<Rightarrow> (c # w) # ws))"

fun join :: "string \<Rightarrow> string list \<Rightarrow> string" where
  "join sep [] = []"
| "join sep [w] = w"
| "join sep (w # ws) = w @ sep @ join sep ws"

fun string_fields_acc :: "string \<Rightarrow> string \<Rightarrow> string list" where
  "string_fields_acc w [] = (if w = [] then [] else [w])"
| "string_fields_acc w (c # cs) =
     (if is_space c then (if w = [] then string_fields_acc [] cs else w # string_fields_acc [] cs)
      else string_fields_acc (w @ [c]) cs)"

definition string_fields :: "string \<Rightarrow> string list" where
  "string_fields s = string_fields_acc [] s"

lemma split_on_not_Nil [simp]: "split_on d s \<noteq> []"
  by (induction s) (auto split: list.splits)

lemma join_split_on: "join [d] (split_on d s) = s"
proof (induction s)
  case Nil
  then show ?case by simp
next
  case (Cons c cs)
  obtain w ws where "split_on d cs = w # ws" by (cases "split_on d cs") auto
  with Cons show ?case by (cases ws) auto
qed

lemma split_on_no_sep: "w \<in> set (split_on d s) \<Longrightarrow> d \<notin> set w"
  by (induction s arbitrary: w) (auto split: list.splits if_splits)

lemma split_join_lines:
  "ks \<noteq> [] \<Longrightarrow> list_all (\<lambda>k. d \<notin> set k) ks \<Longrightarrow> split_on d (join [d] ks) = ks"
proof (induction ks rule: induct_list012)
  case (2 k)
  then show ?case by (induction k) (auto split: list.splits)
next
  case (3 k k' ks)
  have "d \<notin> set k \<Longrightarrow> split_on d (k @ d # r) = k # split_on d r" for r
    by (induction k) (auto split: list.splits)
  with 3 show ?case by simp
qed simp

lemma set_join_mem: "k \<in> set ks \<Longrightarrow> c \<in> set k \<Longrightarrow> c \<in> set (join d ks)"
  by (induction d ks rule: join.induct) auto

lemma string_fields_acc_nonempty: "w \<in> set (string_fields_acc u s) \<Longrightarrow> w \<noteq> []"
  by (induction u s rule: string_fields_acc.induct) (auto split: if_splits)

lemma string_fields_acc_word:
  "list_all (\<lambda>c. \<not> is_space c) w \<Longrightarrow> string_fields_acc u (w @ s) = string_fields_acc (u @ w) s"
  by (induction w arbitrary: u) auto

lemma string_fields_words:
  "list_all (\<lambda>w. w \<noteq> [] \<and> list_all (\<lambda>c. \<not> is_space c) w) ws \<Longrightarrow>
    string_fields (concat (map (\<lambda>w. CHR '' '' # w) ws)) = ws"
proof -
  have sp: "is_space (CHR '' '')" by (simp add: is_space_def white_def)
  have "string_fields_acc u (concat (map (\<lambda>w. CHR '' '' # w) ws)) = (if u = [] then ws else u # ws)"
    if "list_all (\<lambda>w. w \<noteq> [] \<and> list_all (\<lambda>c. \<not> is_space c) w) ws" for u
    using that
  proof (induction ws arbitrary: u)
    case (Cons w ws)
    then show ?case by (simp add: sp string_fields_acc_word)
  qed simp
  then show "list_all (\<lambda>w. w \<noteq> [] \<and> list_all (\<lambda>c. \<not> is_space c) w) ws \<Longrightarrow>
    string_fields (concat (map (\<lambda>w. CHR '' '' # w) ws)) = ws"
    by (simp add: string_fields_def)
qed

lemma string_fields_nonempty: "w \<in> set (string_fields s) \<Longrightarrow> w \<noteq> []"
  unfolding string_fields_def by (rule string_fields_acc_nonempty)

text \<open>\<open>filepath.Base\<close> on Unix.\<close>

definition base_name :: "string \<Rightarrow> string" where
  "base_name p =
     (if p = [] then ''.''
      else let q = trim_right p ''/'' in
        if q = [] then ''/''
        else case last_index_of q ''/'' of None \<Rightarrow> q | Some k \<Rightarrow> drop (k + 1) q)"

section \<open>Case mapping\<close>

definition to_lower_char :: "char \<Rightarrow> char" where
  "to_lower_char c = (let n = (of_char c :: nat) in if 65 \<le> n \<and> n \<le> 90 then char_of (n + 32) else c)"

definition to_upper_char :: "char \<Rightarrow> char" where
  "to_upper_char c = (let n = (of_char c :: nat) in if 97 \<le> n \<and> n \<le> 122 then char_of (n - 32) else c)"

definition to_lower :: "string \<Rightarrow> string" where
  "to_lower s = map to_lower_char s"

definition to_upper :: "string \<Rightarrow> string" where
  "to_upper s = map to_upper_char s"

definition equal_fold :: "string \<Rightarrow> string \<Rightarrow> bool" where
  "equal_fold a b \<longleftrightarrow> to_lower a = to_lower b"

section \<open>Decimal numerals\<close>

definition is_digit :: "char \<Rightarrow> bool" where
  "is_digit c \<longleftrightarrow> (48::nat) \<le> of_char c \<and> of_char c \<le> (57::nat)"

definition digit_val :: "char \<Rightarrow> nat" where
  "digit_val c = of_char c - 48"

definition digit_char :: "nat \<Rightarrow> char" where
  "digit_char d = char_of (d + 48)"

fun nat_dec :: "nat \<Rightarrow> string" where
  "nat_dec n = (if n < 10 then [digit_char n] else nat_dec (n div 10) @ [digit_char (n mod 10)])"

declare nat_dec.simps [simp del]

definition dec_nat :: "string \<Rightarrow> nat" where
  "dec_nat s = foldl (\<lambda>n c. 10 * n + digit_val c) 0 s"

definition all_digits :: "string \<Rightarrow> bool" where
  "all_digits s \<longleftrightarrow> s \<noteq> [] \<and> list_all is_digit s"

lemma digit_char_val [simp]: "d < 10 \<Longrightarrow> digit_val (digit_char d) = d"
  by (simp add: digit_val_def digit_char_def)

lemma digit_char_is_digit [simp]: "d < 10 \<Longrightarrow> is_digit (digit_char d)"
  by (simp add: is_digit_def digit_char_def)

lemma nat_dec_digits: "all_digits (nat_dec n)"
proof (induction n rule: nat_dec.induct)
  case (1 n)
  then show ?case by (subst nat_dec.simps) (auto simp: all_digits_def)
qed

lemma dec_nat_snoc: "dec_nat (s @ [c]) = 10 * dec_nat s + digit_val c"
  by (simp add: dec_nat_def)

lemma dec_nat_nat_dec [simp]: "dec_nat (nat_dec n) = n"
proof (induction n rule: nat_dec.induct)
  case (1 n)
  show ?case
  proof (cases "n < 10")
    case True
    then show ?thesis by (subst nat_dec.simps) (simp add: dec_nat_def)
  next
    case False
    with 1 show ?thesis by (subst nat_dec.simps) (simp add: dec_nat_snoc)
  qed
qed

lemma nat_dec_not_Nil [simp]: "nat_dec n \<noteq> []"
  using nat_dec_digits [of n] by (simp add: all_digits_def)

lemma nat_dec_inj: "nat_dec m = nat_dec n \<longleftrightarrow> m = n"
  by (metis dec_nat_nat_dec)

text \<open>\<open>strconv.ParseUint(s, 10, bits)\<close> and \<open>strconv.Atoi\<close>; \<^const>\<open>None\<close> is an error.\<close>

definition parse_uint :: "nat \<Rightarrow> string \<Rightarrow> nat option" where
  "parse_uint bits s = (if all_digits s \<and> dec_nat s < 2 ^ bits then Some (dec_nat s) else None)"

definition atoi :: "string \<Rightarrow> int option" where
  "atoi s =
     (let neg = has_prefix s ''-''; ds = (if neg \<or> has_prefix s ''+'' then tl s else s);
          n = int (dec_nat ds); v = (if neg then - n else n)
      in if all_digits ds \<and> - (2 ^ 63) \<le> v \<and> v < 2 ^ 63 then Some v else None)"

definition int_dec :: "int \<Rightarrow> string" where
  "int_dec i = (if i < 0 then CHR ''-'' # nat_dec (nat (- i)) else nat_dec (nat i))"

text \<open>An \<open>int64\<close> result, with its wrap-around.\<close>

definition wrap64 :: "int \<Rightarrow> int" where
  "wrap64 i = (i + 2 ^ 63) mod 2 ^ 64 - 2 ^ 63"

lemma parse_uint_nat_dec: "n < 2 ^ bits \<Longrightarrow> parse_uint bits (nat_dec n) = Some n"
  using nat_dec_digits by (simp add: parse_uint_def)

lemma nat_dec_no_sign: "\<not> has_prefix (nat_dec n) ''-''" "\<not> has_prefix (nat_dec n) ''+''"
  using nat_dec_digits [of n] by (cases "nat_dec n"; auto simp: all_digits_def is_digit_def)+

lemma atoi_int_dec:
  assumes "- (2 ^ 63) \<le> i" and "i < 2 ^ 63"
  shows "atoi (int_dec i) = Some i"
  using assms nat_dec_digits nat_dec_no_sign
  by (cases "i < 0") (auto simp: atoi_def int_dec_def Let_def)

section \<open>Lists with distinct keys\<close>

lemma list_all_False [simp]: "list_all (\<lambda>x. False) xs \<longleftrightarrow> xs = []"
  by (cases xs) auto

lemma filter_distinct_key:
  "distinct (map f xs) \<Longrightarrow> x \<in> set xs \<Longrightarrow> filter (\<lambda>y. f y = f x) xs = [x]"
proof (induction xs)
  case Nil
  then show ?case by simp
next
  case (Cons a xs)
  show ?case
  proof (cases "a = x")
    case True
    with Cons.prems(1) have "\<forall>y\<in>set xs. f y \<noteq> f x" by (metis distinct.simps(2) image_eqI list.set_map list.simps(9))
    with True show ?thesis by (simp add: filter_empty_conv)
  next
    case False
    with Cons.prems have "x \<in> set xs" and "f a \<noteq> f x" by auto
    with Cons show ?thesis by simp
  qed
qed

end
