(* ===== verification/Files.thy ===== *)
theory Files
  imports GoBase
begin

text \<open>
  The file system the components read and write, with its failures.

  A path maps to the bytes of a regular file. Failures are part of the state, so that every error
  return of the source is reachable: a path may be unreadable, a write may fail before anything
  changes or after leaving other bytes behind (\<open>os.WriteFile\<close> truncates first), a parent
  directory may be impossible to create, and a removal may fail. The locale \<open>file_store\<close> is the
  interface the components rely on (what a read returns after a write or a removal, and that other
  paths keep their bytes); it is interpreted on this model.
\<close>

section \<open>State and operations\<close>

datatype fserr = ErrNotExist | ErrIO

record fsys =
  contents :: "string \<Rightarrow> string option"
  read_fault :: "string \<Rightarrow> bool"
  torn_write :: "string \<Rightarrow> string option option"
  remove_fault :: "string \<Rightarrow> bool"
  mkdir_fault :: "string \<Rightarrow> bool"

definition sound_fsys :: "(string \<Rightarrow> string option) \<Rightarrow> fsys" where
  "sound_fsys m = \<lparr>contents = m, read_fault = (\<lambda>_. False), torn_write = (\<lambda>_. None),
     remove_fault = (\<lambda>_. False), mkdir_fault = (\<lambda>_. False)\<rparr>"

definition read_file :: "fsys \<Rightarrow> string \<Rightarrow> fserr + string" where
  "read_file fs p =
     (if read_fault fs p then Inl ErrIO
      else case contents fs p of None \<Rightarrow> Inl ErrNotExist | Some d \<Rightarrow> Inr d)"

definition write_file :: "fsys \<Rightarrow> string \<Rightarrow> string \<Rightarrow> fserr option \<times> fsys" where
  "write_file fs p d =
     (case torn_write fs p of
        None \<Rightarrow> (None, fs\<lparr>contents := (contents fs)(p \<mapsto> d)\<rparr>)
      | Some None \<Rightarrow> (Some ErrIO, fs)
      | Some (Some left) \<Rightarrow> (Some ErrIO, fs\<lparr>contents := (contents fs)(p \<mapsto> left)\<rparr>))"

definition remove_file :: "fsys \<Rightarrow> string \<Rightarrow> fserr option \<times> fsys" where
  "remove_file fs p =
     (if contents fs p = None then (Some ErrNotExist, fs)
      else if remove_fault fs p then (Some ErrIO, fs)
      else (None, fs\<lparr>contents := (contents fs)(p := None)\<rparr>))"

text \<open>\<open>os.MkdirAll(filepath.Dir(p))\<close>: directories hold no bytes of their own.\<close>

definition mkdir_parent :: "fsys \<Rightarrow> string \<Rightarrow> fserr option" where
  "mkdir_parent fs p = (if mkdir_fault fs p then Some ErrIO else None)"

section \<open>The interface\<close>

locale file_store =
  fixes rd :: "'s \<Rightarrow> string \<Rightarrow> fserr + string"
    and wr :: "'s \<Rightarrow> string \<Rightarrow> string \<Rightarrow> fserr option \<times> 's"
    and rm :: "'s \<Rightarrow> string \<Rightarrow> fserr option \<times> 's"
    and readable :: "'s \<Rightarrow> string \<Rightarrow> bool"
  assumes rd_wr_same: "wr s p d = (None, s') \<Longrightarrow> readable s p \<Longrightarrow> rd s' p = Inr d"
    and rd_wr_other: "wr s p d = (r, s') \<Longrightarrow> p \<noteq> q \<Longrightarrow> rd s' q = rd s q"
    and rd_rm_same: "rm s p = (None, s') \<Longrightarrow> readable s p \<Longrightarrow> rd s' p = Inl ErrNotExist"
    and rd_rm_other: "rm s p = (r, s') \<Longrightarrow> p \<noteq> q \<Longrightarrow> rd s' q = rd s q"
    and rm_failed: "rm s p = (Some err, s') \<Longrightarrow> s' = s"
    and readable_wr: "wr s p d = (r, s') \<Longrightarrow> readable s' q = readable s q"
    and readable_rm: "rm s p = (r, s') \<Longrightarrow> readable s' q = readable s q"
begin

text \<open>The last of two writes wins, and a failed removal is invisible.\<close>

lemma store_overwrite:
  assumes "wr s p d1 = (None, s1)" and "wr s1 p d2 = (None, s2)" and "readable s p"
  shows "rd s2 p = Inr d2"
  using assms readable_wr rd_wr_same by metis

lemma store_write_remove:
  assumes "wr s p d = (None, s1)" and "rm s1 p = (None, s2)" and "readable s p"
  shows "rd s2 p = Inl ErrNotExist"
  using assms readable_wr rd_rm_same by metis

lemma store_independent:
  assumes "wr s p d1 = (r1, s1)" and "wr s1 q d2 = (None, s2)" and "p \<noteq> q"
    and "r1 = None" and "readable s p"
  shows "rd s2 p = Inr d1"
  using assms rd_wr_same rd_wr_other by metis

end

interpretation disk: file_store read_file write_file remove_file "\<lambda>fs p. \<not> read_fault fs p"
  by unfold_locales
    (auto simp: read_file_def write_file_def remove_file_def split: option.splits if_splits)

lemma read_sound [simp]:
  "read_file (sound_fsys m) p = (case m p of None \<Rightarrow> Inl ErrNotExist | Some d \<Rightarrow> Inr d)"
  by (simp add: read_file_def sound_fsys_def)

lemma write_sound [simp]:
  "write_file (sound_fsys m) p d = (None, sound_fsys (m(p \<mapsto> d)))"
  by (simp add: write_file_def sound_fsys_def)

lemma remove_sound [simp]:
  "m p = Some d \<Longrightarrow> remove_file (sound_fsys m) p = (None, sound_fsys (m(p := None)))"
  by (simp add: remove_file_def sound_fsys_def)

lemma mkdir_sound [simp]: "mkdir_parent (sound_fsys m) p = None"
  by (simp add: mkdir_parent_def sound_fsys_def)

end
