(* ===== verification/Markdown.thy ===== *)
theory Markdown
  imports Files
begin

text \<open>
  Managed sections in Markdown files and Makefiles: \<open>internal/markdown/markdown.go\<close>.

  A marker pair brackets the lines harnez owns. \<open>section_bounds\<close> finds the bracketed range,
  \<open>apply_text\<close> is the text that \<open>applySection\<close> writes, and \<open>apply_section\<close> and \<open>clean_section\<close> are the
  whole operations with their reads, writes and error returns. The locale \<open>section_markers\<close> states
  what a marker pair must satisfy; the Markdown and the Makefile pairs are its interpretations.
\<close>

named_theorems markdown_defs \<open>definitions of the section operations\<close>

section \<open>Markers\<close>

record markers =
  mbegin :: "string \<Rightarrow> string"
  mend :: "string \<Rightarrow> string"

definition MDMarkers :: markers where
  "MDMarkers = \<lparr>mbegin = (\<lambda>s. ''<!-- harnez:begin '' @ s @ '' -->''),
                mend = (\<lambda>s. ''<!-- harnez:end '' @ s @ '' -->'')\<rparr>"

definition MKMarkers :: markers where
  "MKMarkers = \<lparr>mbegin = (\<lambda>s. ''# harnez:begin '' @ s),
                mend = (\<lambda>s. ''# harnez:end '' @ s)\<rparr>"

definition LegacyMDMarkers :: markers where
  "LegacyMDMarkers = \<lparr>mbegin = (\<lambda>s. ''<!-- claudeconfig:begin '' @ s @ '' -->''),
                      mend = (\<lambda>s. ''<!-- claudeconfig:end '' @ s @ '' -->'')\<rparr>"

definition LegacyMKMarkers :: markers where
  "LegacyMKMarkers = \<lparr>mbegin = (\<lambda>s. ''# claudeconfig:begin '' @ s),
                      mend = (\<lambda>s. ''# claudeconfig:end '' @ s)\<rparr>"

section \<open>Finding a section\<close>

text \<open>\<open>strings.LastIndex(existing[:bi], "\n") + 1\<close>, the start of the line of byte \<open>bi\<close>.\<close>

definition line_start :: "string \<Rightarrow> nat \<Rightarrow> nat" where
  "line_start s bi = (case last_index_of (take bi s) [nl] of None \<Rightarrow> 0 | Some k \<Rightarrow> k + 1)"

text \<open>The byte after a position, or after the newline that stands there.\<close>

definition skip_newline :: "string \<Rightarrow> nat \<Rightarrow> nat" where
  "skip_newline s le = (if le < length s \<and> s ! le = nl then le + 1 else le)"

definition section_bounds :: "string \<Rightarrow> string \<Rightarrow> string \<Rightarrow> (nat \<times> nat) option" where
  "section_bounds existing begin_marker end_marker =
     (case (index_of existing begin_marker, index_of existing end_marker) of
        (Some bi, Some ei) \<Rightarrow>
          if ei \<le> bi then None
          else Some (line_start existing bi, skip_newline existing (ei + length end_marker))
      | _ \<Rightarrow> None)"

definition locate_section :: "string \<Rightarrow> string \<Rightarrow> markers \<Rightarrow> (nat \<times> nat) option" where
  "locate_section existing name m =
     (case section_bounds existing (mbegin m name) (mend m name) of
        Some r \<Rightarrow> Some r
      | None \<Rightarrow>
          let sample = mbegin m ''x'' in
          if contains sample ''<!--''
          then section_bounds existing (mbegin LegacyMDMarkers name) (mend LegacyMDMarkers name)
          else if has_prefix sample ''#''
          then section_bounds existing (mbegin LegacyMKMarkers name) (mend LegacyMKMarkers name)
          else None)"

section \<open>Applying, cleaning and querying a section\<close>

definition section_block :: "string \<Rightarrow> string \<Rightarrow> markers \<Rightarrow> string" where
  "section_block name content m =
     mbegin m name @ [nl] @ trim_right content [nl] @ [nl] @ mend m name @ [nl]"

definition newline_tail :: "string \<Rightarrow> string" where
  "newline_tail s = (if s \<noteq> [] \<and> \<not> has_suffix s [nl] then s @ [nl] else s)"

definition apply_text :: "string \<Rightarrow> string \<Rightarrow> string \<Rightarrow> markers \<Rightarrow> string" where
  "apply_text existing name content m =
     (case locate_section existing name m of
        Some (ls, le) \<Rightarrow> take ls existing @ section_block name content m @ drop le existing
      | None \<Rightarrow> newline_tail existing @ section_block name content m)"

text \<open>The results are \<open>(changed, existed, err)\<close> and \<open>(removed, cleaned, err)\<close>.\<close>

definition apply_section ::
  "fsys \<Rightarrow> string \<Rightarrow> string \<Rightarrow> string \<Rightarrow> markers \<Rightarrow> (bool \<times> bool \<times> fserr option) \<times> fsys" where
  "apply_section fs path name content m =
     (let existing = (case read_file fs path of Inr d \<Rightarrow> d | Inl _ \<Rightarrow> []);
          existed = (locate_section existing name m \<noteq> None);
          new_content = apply_text existing name content m
      in if new_content = existing then ((False, existed, None), fs)
         else case mkdir_parent fs path of
           Some err \<Rightarrow> ((False, existed, Some err), fs)
         | None \<Rightarrow>
             (case write_file fs path new_content of
                (Some err, fs') \<Rightarrow> ((False, existed, Some err), fs')
              | (None, fs') \<Rightarrow> ((True, existed, None), fs')))"

definition clean_text :: "string \<Rightarrow> string \<Rightarrow> markers \<Rightarrow> string option" where
  "clean_text existing name m =
     map_option (\<lambda>(ls, le). take ls existing @ drop le existing) (locate_section existing name m)"

definition clean_section ::
  "fsys \<Rightarrow> string \<Rightarrow> string \<Rightarrow> markers \<Rightarrow> (bool \<times> bool \<times> fserr option) \<times> fsys" where
  "clean_section fs path name m =
     (case read_file fs path of
        Inl ErrNotExist \<Rightarrow> ((False, False, None), fs)
      | Inl err \<Rightarrow> ((False, False, Some err), fs)
      | Inr existing \<Rightarrow>
          (case clean_text existing name m of
             None \<Rightarrow> ((False, False, None), fs)
           | Some result \<Rightarrow>
               if trim_space result = []
               then (case remove_file fs path of (err, fs') \<Rightarrow> ((True, False, err), fs'))
               else (case write_file fs path result of (err, fs') \<Rightarrow> ((False, True, err), fs'))))"

text \<open>
  The comparison of \<open>diffSection\<close>: the old block and the new one. The external \<open>diff\<close> that
  prints a change is not modelled; the result is whether the two blocks differ.
\<close>

definition diff_section :: "fsys \<Rightarrow> string \<Rightarrow> string \<Rightarrow> string \<Rightarrow> markers \<Rightarrow> bool" where
  "diff_section fs path name content m =
     (let old_block = (case read_file fs path of
            Inl _ \<Rightarrow> []
          | Inr existing \<Rightarrow> (case locate_section existing name m of
                None \<Rightarrow> []
              | Some (ls, le) \<Rightarrow> take (le - ls) (drop ls existing)))
      in old_block \<noteq> section_block name content m)"

definition contains_section :: "fsys \<Rightarrow> string \<Rightarrow> string \<Rightarrow> bool" where
  "contains_section fs path name =
     (case read_file fs path of
        Inl _ \<Rightarrow> False
      | Inr c \<Rightarrow> contains c (mbegin MDMarkers name) \<or> contains c (mbegin LegacyMDMarkers name))"

definition contains_section_mk :: "fsys \<Rightarrow> string \<Rightarrow> string \<Rightarrow> bool" where
  "contains_section_mk fs path name =
     (case read_file fs path of
        Inl _ \<Rightarrow> False
      | Inr c \<Rightarrow> contains c (mbegin MKMarkers name) \<or> contains c (mbegin LegacyMKMarkers name))"

section \<open>Stop markers of managed docs\<close>

definition DocStopMarker :: string where "DocStopMarker = ''<!-- harnez:stop -->''"
definition DocEndMarker :: string where "DocEndMarker = ''<!-- harnez:end -->''"
definition LegacyDocStopMarker :: string where "LegacyDocStopMarker = ''<!-- claudeconfig:stop -->''"
definition LegacyDocEndMarker :: string where "LegacyDocEndMarker = ''<!-- claudeconfig:end -->''"

definition doc_markers :: "string list" where
  "doc_markers = [DocStopMarker, DocEndMarker, LegacyDocStopMarker, LegacyDocEndMarker]"

definition crlf :: string where "crlf = [CHR 0x0D, nl]"

fun extract_loop :: "string list \<Rightarrow> string \<Rightarrow> string" where
  "extract_loop [] content = trim_right content crlf @ [nl]"
| "extract_loop (marker # ms) content =
     (case index_of content marker of
        Some idx \<Rightarrow> trim_right (take idx content) crlf @ [nl]
      | None \<Rightarrow> extract_loop ms content)"

definition extract_managed_doc_content :: "string \<Rightarrow> string" where
  "extract_managed_doc_content content = extract_loop doc_markers content"

definition VariantMarkerLite :: string where
  "VariantMarkerLite = ''<!-- harnez:variant=lite -->''"

definition parse_variant_marker :: "string \<Rightarrow> string" where
  "parse_variant_marker content =
     (let line = fst (cut (trim_left content crlf) [nl])
      in if trim_space line = VariantMarkerLite then ''lite'' else [])"

fun stop_index_loop :: "string list \<Rightarrow> string \<Rightarrow> nat option \<Rightarrow> nat option" where
  "stop_index_loop [] content idx = idx"
| "stop_index_loop (marker # ms) content idx =
     stop_index_loop ms content
       (case index_of content marker of
          Some i \<Rightarrow> (case idx of None \<Rightarrow> Some i | Some j \<Rightarrow> if i < j then Some i else idx)
        | None \<Rightarrow> idx)"

definition stop_marker_index :: "string \<Rightarrow> nat option" where
  "stop_marker_index content = stop_index_loop doc_markers content None"

definition merge_doc_text :: "string \<Rightarrow> string \<Rightarrow> string" where
  "merge_doc_text existing bundled =
     (case stop_marker_index existing of
        None \<Rightarrow> bundled
      | Some idx \<Rightarrow> trim_right bundled crlf @ [nl, nl] @ drop idx existing)"

definition merge_managed_doc :: "fsys \<Rightarrow> string \<Rightarrow> string \<Rightarrow> string" where
  "merge_managed_doc fs dst bundled =
     (case read_file fs dst of
        Inl _ \<Rightarrow> bundled
      | Inr existing \<Rightarrow> merge_doc_text existing bundled)"

section \<open>Ranges of lines\<close>

lemma line_start_complete:
  "line_complete pre \<Longrightarrow> line_start (pre @ t) (length pre) = length pre"
  by (erule line_complete_cases) (auto simp: line_start_def last_index_of_nl_append)

lemma line_start_le: "line_start s bi \<le> bi"
  unfolding line_start_def
  by (auto split: option.splits dest!: last_index_of_nl_Some)

lemma line_start_line_complete: "line_complete (take (line_start s bi) s)"
proof (cases "last_index_of (take bi s) [nl]")
  case None
  then show ?thesis by (simp add: line_start_def)
next
  case (Some k)
  then have "k < length s" "k < bi" "s ! k = nl"
    using last_index_of_nl_Some [OF Some] by auto
  with Some show ?thesis
    by (simp add: line_start_def line_complete_def take_Suc_conv_app_nth)
qed

lemma skip_newline_ge: "n \<le> skip_newline s n"
  by (simp add: skip_newline_def)

lemma skip_newline_at: "n = length a \<Longrightarrow> skip_newline (a @ nl # t) n = Suc n"
  by (simp add: skip_newline_def)

lemma newline_tail_complete: "line_complete (newline_tail s)"
  by (auto simp: newline_tail_def line_complete_def has_suffix_iff)

lemma newline_tail_of_complete: "line_complete s \<Longrightarrow> newline_tail s = s"
  by (erule line_complete_cases) (auto simp: newline_tail_def has_suffix_iff)

lemma newline_tail_contains:
  "nl \<notin> set sub \<Longrightarrow> sub \<noteq> [] \<Longrightarrow> contains (newline_tail s) sub \<longleftrightarrow> contains s sub"
  using contains_line [of sub s "[]"] by (auto simp: newline_tail_def)

text \<open>What a located section is: complete lines before it, with neither marker among them.\<close>

lemma section_bounds_SomeD:
  assumes "section_bounds s b e = Some (ls, le)" and "b \<noteq> []"
  shows "ls < le" and "line_complete (take ls s)"
    and "\<not> contains (take ls s) b" and "\<not> contains (take ls s) e"
    and "contains s b" and "contains s e"
proof -
  from assms(1) obtain bi ei where bi: "index_of s b = Some bi" and ei: "index_of s e = Some ei"
    and lt: "bi < ei" and ls: "ls = line_start s bi" and le: "le = skip_newline s (ei + length e)"
    unfolding section_bounds_def by (auto split: option.splits if_splits)
  have "ls \<le> bi" unfolding ls by (rule line_start_le)
  with lt le skip_newline_ge [of "ei + length e" s] show "ls < le" by linarith
  show "line_complete (take ls s)" unfolding ls by (rule line_start_line_complete)
  have early: "\<not> contains (take ls s) sub" if "index_of s sub = Some i" "bi \<le> i" "sub \<noteq> []" for sub i
  proof
    assume "contains (take ls s) sub"
    then obtain p q where eq: "take ls s = p @ sub @ q" by (auto simp: contains_iff)
    then have "s = p @ sub @ (q @ drop ls s)"
      by (metis append.assoc append_take_drop_id)
    with that(1) have "i \<le> length p" by (rule index_of_least)
    moreover from eq have "length p + length sub \<le> ls"
      by (metis add_leD1 append.assoc length_append length_take min.cobounded2 min.bounded_iff)
    ultimately show False using \<open>ls \<le> bi\<close> that by (cases sub) auto
  qed
  show "contains s b" "contains s e" using bi ei by (auto simp: contains_def)
  have "e \<noteq> []" using ei lt by (cases s; auto split: if_splits)
  then show "\<not> contains (take ls s) e" using early ei lt by auto
  show "\<not> contains (take ls s) b" using early [OF bi] assms(2) by simp
qed

text \<open>
  A file is \<open>well_marked\<close> for a section when the section is bracketed in the current style, or
  neither of its two markers occurs: no stray half of a pair.
\<close>

definition well_marked :: "string \<Rightarrow> string \<Rightarrow> markers \<Rightarrow> bool" where
  "well_marked existing name m \<longleftrightarrow>
     section_bounds existing (mbegin m name) (mend m name) \<noteq> None
     \<or> (\<not> contains existing (mbegin m name) \<and> \<not> contains existing (mend m name))"

lemma legacy_begin_ne: "mbegin LegacyMDMarkers s \<noteq> []" "mbegin LegacyMKMarkers s \<noteq> []"
  by (simp_all add: LegacyMDMarkers_def LegacyMKMarkers_def)

section \<open>What a marker pair must satisfy\<close>

locale section_markers =
  fixes m :: markers
  assumes begin_ne: "mbegin m s \<noteq> []"
    and end_ne: "mend m s \<noteq> []"
    and begin_line: "nl \<notin> set s \<Longrightarrow> nl \<notin> set (mbegin m s)"
    and end_line: "nl \<notin> set s \<Longrightarrow> nl \<notin> set (mend m s)"
    and begin_no_end: "\<not> contains (mbegin m s) (mend m s)"
begin

text \<open>A block written after complete lines free of its markers is found again exactly.\<close>

lemma block_bounds:
  assumes "nl \<notin> set name" and pre: "line_complete pre"
    and "\<not> contains pre (mbegin m name)" and "\<not> contains pre (mend m name)"
    and content: "\<not> contains (trim_right content [nl]) (mend m name)"
  shows "section_bounds (pre @ section_block name content m @ post) (mbegin m name) (mend m name)
    = Some (length pre, length (pre @ section_block name content m))"
proof -
  let ?b = "mbegin m name" and ?e = "mend m name" and ?c = "trim_right content [nl]"
  let ?blk = "section_block name content m"
  note b = begin_line [OF assms(1)] begin_ne [of name]
  note e = end_line [OF assms(1)] end_ne [of name]
  have blk: "?blk @ post = ?b @ nl # ?c @ nl # ?e @ nl # post"
    by (simp add: section_block_def)
  have ib: "index_of (pre @ ?blk @ post) ?b = Some (length pre)"
    using index_of_complete [OF pre b assms(3)] by (simp add: blk)
  have "index_of (?b @ nl # ?c @ nl # ?e @ nl # post) ?e = Some (length ?b + 1 + (length ?c + 1))"
    using begin_no_end [of name] content
    by (simp add: index_of_line [OF e] contains_def)
  then have ie: "index_of (pre @ ?blk @ post) ?e = Some (length pre + (length ?b + length ?c + 2))"
    using index_of_complete [OF pre e assms(4)] by (simp add: blk)
  let ?a = "pre @ ?b @ nl # ?c @ nl # ?e"
  have "pre @ ?blk @ post = ?a @ nl # post"
    by (simp add: blk)
  then have "skip_newline (pre @ ?blk @ post) (length ?a) = Suc (length ?a)"
    using skip_newline_at [of "length ?a" ?a post] by simp
  moreover have "length pre + (length ?b + length ?c + 2) + length ?e = length ?a"
    and "length (pre @ ?blk) = Suc (length ?a)"
    by (simp_all add: section_block_def)
  ultimately show ?thesis
    using line_start_complete [OF pre, of "?blk @ post"]
    by (simp only: section_bounds_def ib ie prod.case option.case) simp
qed

lemma located_prefix:
  assumes "well_marked existing name m" and "nl \<notin> set name"
    and "locate_section existing name m = Some (ls, le)"
  shows "line_complete (take ls existing) \<and> ls < le
    \<and> \<not> contains (take ls existing) (mbegin m name) \<and> \<not> contains (take ls existing) (mend m name)"
proof (cases "section_bounds existing (mbegin m name) (mend m name)")
  case (Some r)
  with assms(3) have "section_bounds existing (mbegin m name) (mend m name) = Some (ls, le)"
    by (simp add: locate_section_def)
  from section_bounds_SomeD [OF this begin_ne] show ?thesis by simp
next
  case None
  with assms(1) have no: "\<not> contains existing (mbegin m name)" "\<not> contains existing (mend m name)"
    by (auto simp: well_marked_def)
  from None assms(3) consider
      "section_bounds existing (mbegin LegacyMDMarkers name) (mend LegacyMDMarkers name) = Some (ls, le)"
    | "section_bounds existing (mbegin LegacyMKMarkers name) (mend LegacyMKMarkers name) = Some (ls, le)"
    by (auto simp: locate_section_def Let_def split: if_splits)
  then have "line_complete (take ls existing) \<and> ls < le"
    using section_bounds_SomeD(1,2) legacy_begin_ne by cases blast+
  with no show ?thesis using contains_take by blast
qed

text \<open>The shape of what is written: untouched lines around one fresh block.\<close>

lemma apply_text_shape:
  assumes "well_marked existing name m" and "nl \<notin> set name"
  obtains pre post where "apply_text existing name content m = pre @ section_block name content m @ post"
    and "line_complete pre"
    and "\<not> contains pre (mbegin m name)" and "\<not> contains pre (mend m name)"
proof (cases "locate_section existing name m")
  case None
  then have "\<not> contains existing (mbegin m name) \<and> \<not> contains existing (mend m name)"
    using assms(1) by (auto simp: well_marked_def locate_section_def)
  then show ?thesis
    using None that [of "newline_tail existing" "[]"] newline_tail_complete
      newline_tail_contains [OF begin_line begin_ne] newline_tail_contains [OF end_line end_ne] assms(2)
    by (simp add: apply_text_def)
next
  case (Some r)
  then obtain ls le where r: "locate_section existing name m = Some (ls, le)" by (cases r) auto
  from located_prefix [OF assms r] show ?thesis
    using r that [of "take ls existing" "drop le existing"] by (simp add: apply_text_def)
qed

lemma apply_text_located:
  assumes "well_marked existing name m" and "nl \<notin> set name"
    and "\<not> contains (trim_right content [nl]) (mend m name)"
  shows "locate_section (apply_text existing name content m) name m \<noteq> None
    \<and> apply_text (apply_text existing name content m) name content m = apply_text existing name content m"
proof -
  obtain pre post where shape: "apply_text existing name content m = pre @ section_block name content m @ post"
    and pre: "line_complete pre" "\<not> contains pre (mbegin m name)" "\<not> contains pre (mend m name)"
    using apply_text_shape [OF assms(1,2)] by blast
  have "locate_section (pre @ section_block name content m @ post) name m =
      Some (length pre, length (pre @ section_block name content m))"
    using block_bounds [OF assms(2) pre(1,2,3) assms(3), of post] by (simp add: locate_section_def)
  then show ?thesis unfolding shape by (simp add: apply_text_def)
qed

end

lemma contains_short:
  assumes "contains s sub" and "length s \<le> length sub + 2"
  shows "has_prefix s sub \<or> has_prefix (drop 1 s) sub \<or> has_prefix (drop 2 s) sub"
proof -
  from assms(1) obtain p q where s: "s = p @ sub @ q" by (auto simp: contains_iff)
  with assms(2) have "length p \<le> 2" by simp
  then consider "p = []" | x where "p = [x]" | x y where "p = [x, y]"
    by (cases p; cases "tl p"; cases "tl (tl p)") auto
  then show ?thesis using s by cases auto
qed

interpretation md_markers: section_markers MDMarkers
proof unfold_locales
  fix s
  show "\<not> contains (mbegin MDMarkers s) (mend MDMarkers s)"
    by (rule notI) (drule contains_short, simp_all add: MDMarkers_def)
qed (auto simp: MDMarkers_def)

interpretation mk_markers: section_markers MKMarkers
proof unfold_locales
  fix s
  show "\<not> contains (mbegin MKMarkers s) (mend MKMarkers s)"
    by (rule notI) (drule contains_short, simp_all add: MKMarkers_def)
qed (auto simp: MKMarkers_def)

section \<open>Properties of the section operations\<close>

lemma marker_pairs:
  assumes "m = MDMarkers \<or> m = MKMarkers"
  shows "section_markers m"
  using assms md_markers.section_markers_axioms mk_markers.section_markers_axioms by auto

lemma apply_text_settles:
  assumes "m = MDMarkers \<or> m = MKMarkers" and "nl \<notin> set name" and "well_marked existing name m"
    and "\<not> contains (trim_right content [nl]) (mend m name)"
  shows "locate_section (apply_text existing name content m) name m \<noteq> None
    \<and> apply_text (apply_text existing name content m) name content m = apply_text existing name content m"
  using section_markers.apply_text_located [OF marker_pairs] assms by blast

lemma well_marked_Nil: "m = MDMarkers \<or> m = MKMarkers \<Longrightarrow> well_marked [] name m"
  by (auto simp: well_marked_def MDMarkers_def MKMarkers_def)

text \<open>Applying a section is idempotent: after a successful apply with any file system,
  a second apply of the same section finds it, changes nothing and writes nothing, for Markdown
  files and Makefiles alike, provided the file had no stray half of the marker pair and the content
  does not itself carry the end marker.\<close>

theorem apply_section_idempotent:
  assumes "m = MDMarkers \<or> m = MKMarkers" and "nl \<notin> set name"
    and "\<not> contains (trim_right content [nl]) (mend m name)"
    and "read_file fs path = Inr existing \<or> read_file fs path = Inl ErrNotExist \<and> existing = []"
    and "well_marked existing name m"
    and "apply_section fs path name content m = ((changed, existed, None), fs')"
  shows "apply_section fs' path name content m = ((False, True, None), fs')"
proof -
  let ?new = "apply_text existing name content m"
  note settled = apply_text_settles [OF assms(1,2,5,3)]
  have rd: "(case read_file fs path of Inr d \<Rightarrow> d | Inl _ \<Rightarrow> []) = existing"
    using assms(4) by auto
  show ?thesis
  proof (cases "?new = existing")
    case True
    then have "fs' = fs" using assms(6) by (simp add: apply_section_def rd Let_def)
    then show ?thesis using settled True by (simp add: apply_section_def rd Let_def)
  next
    case False
    then have w: "write_file fs path ?new = (None, fs')"
      using assms(6) by (auto simp: apply_section_def rd Let_def split: option.splits prod.splits)
    have "\<not> read_fault fs path"
      using assms(4) by (auto simp: read_file_def)
    with w have "read_file fs' path = Inr ?new" by (rule disk.rd_wr_same)
    then show ?thesis using settled by (simp add: apply_section_def Let_def)
  qed
qed

text \<open>The witness: an existing file with a user line, a section added and then applied again.\<close>

theorem apply_section_idempotent_witness:
  "\<exists>fs'. apply_section (sound_fsys [''A.md'' \<mapsto> ''hi'']) ''A.md'' ''X'' ''body'' MDMarkers
      = ((True, False, None), fs')
    \<and> apply_section fs' ''A.md'' ''X'' ''body'' MDMarkers = ((False, True, None), fs')"
proof -
  let ?fs = "sound_fsys [''A.md'' \<mapsto> ''hi'']"
  let ?r = "apply_section ?fs ''A.md'' ''X'' ''body'' MDMarkers"
  have "fst ?r = (True, False, None)" by code_simp
  then have first: "?r = ((True, False, None), snd ?r)" by (simp add: prod_eq_iff)
  have "well_marked ''hi'' ''X'' MDMarkers" by code_simp
  moreover have "\<not> contains (trim_right ''body'' [nl]) (mend MDMarkers ''X'')" by code_simp
  ultimately have "apply_section (snd ?r) ''A.md'' ''X'' ''body'' MDMarkers = ((False, True, None), snd ?r)"
    using apply_section_idempotent [of MDMarkers "''X''" "''body''" ?fs "''A.md''" "''hi''" True False "snd ?r"]
      first by simp
  with first show ?thesis by blast
qed

text \<open>Applying to a file that holds the section rewrites exactly the section's lines: the bytes
  before and after them are written back unchanged, and no other file changes.\<close>

theorem apply_section_frame:
  assumes "read_file fs path = Inr existing"
    and "locate_section existing name m = Some (ls, le)"
    and "apply_section fs path name content m = ((True, existed, None), fs')"
  shows "existed \<and> read_file fs' path = Inr (take ls existing @ section_block name content m @ drop le existing)
    \<and> (\<forall>q. q \<noteq> path \<longrightarrow> read_file fs' q = read_file fs q)"
proof -
  let ?new = "apply_text existing name content m"
  from assms have w: "write_file fs path ?new = (None, fs')" and e: "existed"
    by (auto simp: apply_section_def Let_def split: option.splits prod.splits if_splits)
  have "\<not> read_fault fs path" using assms(1) by (auto simp: read_file_def)
  with w have "read_file fs' path = Inr ?new" by (rule disk.rd_wr_same)
  moreover have "\<forall>q. q \<noteq> path \<longrightarrow> read_file fs' q = read_file fs q"
    by (intro allI impI, rule disk.rd_wr_other [OF w]) simp
  ultimately show ?thesis using e assms(2) by (simp add: apply_text_def)
qed

theorem apply_section_frame_witness:
  "\<exists>fs'. read_file fs' ''M'' = Inr (''a'' @ nl # section_block ''X'' ''new'' MKMarkers @ ''b'')"
proof -
  let ?old = "section_block ''X'' ''old'' MKMarkers"
  let ?ex = "''a'' @ nl # ?old @ ''b''"
  let ?fs = "sound_fsys [''M'' \<mapsto> ?ex]"
  let ?r = "apply_section ?fs ''M'' ''X'' ''new'' MKMarkers"
  have loc: "locate_section ?ex ''X'' MKMarkers = Some (2, 38)" by code_simp
  have "fst ?r = (True, True, None)" by code_simp
  then have "?r = ((True, True, None), snd ?r)" by (simp add: prod_eq_iff)
  from apply_section_frame [OF _ loc this] show ?thesis
    by (auto simp: section_block_def MKMarkers_def trim_right_def trim_left_def)
qed

lemma apply_text_append:
  assumes "m = MDMarkers \<or> m = MKMarkers" and "nl \<notin> set name"
    and "\<not> contains (trim_right content [nl]) (mend m name)"
    and "well_marked existing name m" and "locate_section existing name m = None"
  shows "apply_text existing name content m = newline_tail existing @ section_block name content m"
    and "clean_text (newline_tail existing @ section_block name content m) name m = Some (newline_tail existing)"
proof -
  note sm = marker_pairs [OF assms(1)]
  note sub = section_markers.begin_line [OF sm assms(2)] section_markers.begin_ne [OF sm]
    section_markers.end_line [OF sm assms(2)] section_markers.end_ne [OF sm]
  have no: "\<not> contains existing (mbegin m name)" "\<not> contains existing (mend m name)"
    using assms(4,5) by (auto simp: well_marked_def locate_section_def)
  show "apply_text existing name content m = newline_tail existing @ section_block name content m"
    using assms(5) by (simp add: apply_text_def)
  have "section_bounds (newline_tail existing @ section_block name content m @ []) (mbegin m name) (mend m name)
      = Some (length (newline_tail existing), length (newline_tail existing @ section_block name content m))"
    by (rule section_markers.block_bounds [OF sm assms(2) newline_tail_complete _ _ assms(3)])
      (use no sub newline_tail_contains in blast)+
  then show "clean_text (newline_tail existing @ section_block name content m) name m = Some (newline_tail existing)"
    by (simp add: clean_text_def locate_section_def)
qed

text \<open>Cleaning undoes an apply that appended the section: the file is back to its bytes before
  the apply (with its last line ended), or is removed when nothing but white space is left.\<close>

theorem clean_after_apply:
  assumes "m = MDMarkers \<or> m = MKMarkers" and "nl \<notin> set name"
    and "\<not> contains (trim_right content [nl]) (mend m name)"
    and "read_file fs path = Inr existing" and "well_marked existing name m"
    and "locate_section existing name m = None"
    and "apply_section fs path name content m = ((True, False, None), fs1)"
    and "clean_section fs1 path name m = ((removed, cleaned, None), fs2)"
  shows "if trim_space (newline_tail existing) = []
    then removed \<and> \<not> cleaned \<and> read_file fs2 path = Inl ErrNotExist
    else \<not> removed \<and> cleaned \<and> read_file fs2 path = Inr (newline_tail existing)"
proof -
  let ?new = "newline_tail existing @ section_block name content m"
  note new = apply_text_append [OF assms(1-3,5,6)]
  have w: "write_file fs path ?new = (None, fs1)"
    using assms(4,6,7) new(1)
    by (auto simp: apply_section_def Let_def split: option.splits prod.splits if_splits)
  have ok: "\<not> read_fault fs path" using assms(4) by (auto simp: read_file_def)
  have rd: "read_file fs1 path = Inr ?new" by (rule disk.rd_wr_same [OF w ok])
  have ok1: "\<not> read_fault fs1 path" using disk.readable_wr [OF w] ok by simp
  show ?thesis
  proof (cases "trim_space (newline_tail existing) = []")
    case True
    then have r: "remove_file fs1 path = (None, fs2)" and "removed" "\<not> cleaned"
      using assms(8) rd new(2) by (auto simp: clean_section_def split: prod.splits)
    with disk.rd_rm_same [OF r ok1] True show ?thesis by simp
  next
    case False
    then have r: "write_file fs1 path (newline_tail existing) = (None, fs2)" and "\<not> removed" "cleaned"
      using assms(8) rd new(2) by (auto simp: clean_section_def split: prod.splits)
    with disk.rd_wr_same [OF r ok1] False show ?thesis by simp
  qed
qed

theorem clean_after_apply_witness:
  "\<exists>fs2. read_file fs2 ''A.md'' = Inr (''hi'' @ [nl])"
proof -
  let ?fs = "sound_fsys [''A.md'' \<mapsto> ''hi'']"
  let ?r = "apply_section ?fs ''A.md'' ''X'' ''body'' MDMarkers"
  let ?c = "clean_section (snd ?r) ''A.md'' ''X'' MDMarkers"
  have "fst ?r = (True, False, None)" by code_simp
  then have r: "?r = ((True, False, None), snd ?r)" by (simp add: prod_eq_iff)
  have "fst ?c = (False, True, None)" by code_simp
  then have c: "?c = ((False, True, None), snd ?c)" by (simp add: prod_eq_iff)
  have "well_marked ''hi'' ''X'' MDMarkers" by code_simp
  moreover have "\<not> contains (trim_right ''body'' [nl]) (mend MDMarkers ''X'')" by code_simp
  moreover have "locate_section ''hi'' ''X'' MDMarkers = None" by code_simp
  moreover have "newline_tail ''hi'' = ''hi'' @ [nl]" by code_simp
  moreover have "trim_space (''hi'' @ [nl]) \<noteq> []" by code_simp
  ultimately show ?thesis
    using clean_after_apply [OF _ _ _ _ _ _ r c, of "''hi''"] by auto
qed

section \<open>Stray markers\<close>

lemma index_of_append:
  "index_of x sub = Some i \<Longrightarrow> index_of (x @ t) sub = Some i"
proof (induction x arbitrary: i)
  case Nil
  then show ?case by (cases t) (auto split: if_splits)
next
  case (Cons c cs)
  show ?case
  proof (cases "has_prefix (c # cs) sub")
    case True
    then obtain r where "c # cs = sub @ r" by (auto simp: has_prefix_iff)
    then have "c # cs @ t = sub @ r @ t" by (metis append.assoc append_Cons)
    then have "has_prefix (c # cs @ t) sub" by (simp only: has_prefix_append)
    with True Cons.prems show ?thesis by simp
  next
    case False
    with Cons.prems obtain j where j: "index_of cs sub = Some j" "i = Suc j" by auto
    have "length sub \<le> length cs" using index_of_SomeD [OF j(1)] by linarith
    then have "take (length sub) ((c # cs) @ t) = take (length sub) (c # cs)"
      by (cases sub) simp_all
    with False have "\<not> has_prefix (c # cs @ t) sub"
      by (simp add: has_prefix_def)
    with Cons.IH [OF j(1)] j(2) show ?thesis by simp
  qed
qed

lemma md_sample: "contains (mbegin MDMarkers ''x'') ''<!--''"
  by code_simp

definition stray_end :: "string \<Rightarrow> string \<Rightarrow> markers \<Rightarrow> bool" where
  "stray_end existing name m \<longleftrightarrow>
     (case index_of existing (mend m name) of
        None \<Rightarrow> False
      | Some i \<Rightarrow> (case index_of existing (mbegin m name) of None \<Rightarrow> True | Some j \<Rightarrow> i \<le> j))"

lemma stray_end_unlocated:
  assumes "stray_end s name MDMarkers" and "\<not> contains s (mbegin LegacyMDMarkers name)"
  shows "locate_section s name MDMarkers = None"
proof -
  have "section_bounds s (mbegin MDMarkers name) (mend MDMarkers name) = None"
    using assms(1) by (auto simp: stray_end_def section_bounds_def split: option.splits)
  moreover have "section_bounds s (mbegin LegacyMDMarkers name) (mend LegacyMDMarkers name) = None"
    using assms(2) by (auto simp: contains_def section_bounds_def)
  ultimately show ?thesis by (auto simp: locate_section_def Let_def md_sample)
qed

lemma stray_end_append:
  assumes "stray_end s name MDMarkers" and "line_complete s" and "nl \<notin> set name"
  shows "stray_end (s @ t) name MDMarkers"
proof -
  note b = md_markers.begin_line [OF assms(3)] md_markers.begin_ne [of name]
  obtain i where i: "index_of s (mend MDMarkers name) = Some i"
    and j: "\<And>j. index_of s (mbegin MDMarkers name) = Some j \<Longrightarrow> i \<le> j"
    using assms(1) by (auto simp: stray_end_def split: option.splits)
  have "i \<le> length s" using index_of_SomeD [OF i] by linarith
  then have "\<And>k. index_of (s @ t) (mbegin MDMarkers name) = Some k \<Longrightarrow> i \<le> k"
    using j index_of_complete [OF assms(2) b] index_of_append [of s "mbegin MDMarkers name"]
    by (cases "index_of s (mbegin MDMarkers name)") (auto simp: contains_def)
  then show ?thesis
    using index_of_append [OF i] by (auto simp: stray_end_def split: option.splits)
qed

lemma block_no_legacy:
  assumes "nl \<notin> set name" and "\<not> contains content (mbegin LegacyMDMarkers name)"
  shows "\<not> contains (section_block name content MDMarkers) (mbegin LegacyMDMarkers name)"
proof -
  let ?L = "mbegin LegacyMDMarkers name"
  have L: "nl \<notin> set ?L" "?L \<noteq> []"
    using assms(1) by (auto simp: LegacyMDMarkers_def)
  have shorter: "\<not> contains s ?L" if "length s < length ?L" for s
    using that by (auto simp: contains_iff)
  have "\<not> contains (trim_right content [nl]) ?L"
    using assms(2) trim_right_split contains_append1 by metis
  then show ?thesis
    using shorter by (simp add: section_block_def contains_line [OF L] contains_line [OF L, where b = "[]", simplified])
      (simp add: MDMarkers_def LegacyMDMarkers_def)
qed

lemma section_block_complete: "line_complete (section_block name content m)"
  by (simp add: section_block_def line_complete_def)

lemma repeated_blocks_complete: "line_complete (concat (replicate k (section_block name content m)))"
  by (induction k) (auto intro: line_complete_append section_block_complete)

text \<open>A stray end marker makes every apply append: in a file whose first end marker stands
  before any begin marker, \<open>n\<close> applies of the same section leave \<open>n\<close> copies of its block.\<close>

theorem stray_end_never_settles:
  assumes "stray_end existing name MDMarkers" and "line_complete existing" and "nl \<notin> set name"
    and "\<not> contains existing (mbegin LegacyMDMarkers name)"
    and "\<not> contains content (mbegin LegacyMDMarkers name)"
  shows "((\<lambda>s. apply_text s name content MDMarkers) ^^ n) existing
    = existing @ concat (replicate n (section_block name content MDMarkers))"
proof (induction n)
  case 0
  then show ?case by simp
next
  case (Suc n)
  let ?L = "mbegin LegacyMDMarkers name"
  let ?blk = "section_block name content MDMarkers"
  let ?s = "existing @ concat (replicate n ?blk)"
  have L: "nl \<notin> set ?L" "?L \<noteq> []"
    using assms(3) by (auto simp: LegacyMDMarkers_def)
  have "\<not> contains (concat (replicate k ?blk)) ?L" for k
    by (induction k) (simp_all add: L contains_complete [OF section_block_complete L]
        block_no_legacy [OF assms(3,5)])
  then have "\<not> contains ?s ?L" using contains_complete [OF assms(2) L] assms(4) by simp
  then have "locate_section ?s name MDMarkers = None"
    using stray_end_unlocated stray_end_append [OF assms(1-3)] by blast
  moreover have "newline_tail ?s = ?s"
    by (intro newline_tail_of_complete line_complete_append assms(2) repeated_blocks_complete)
  ultimately have "apply_text ?s name content MDMarkers = ?s @ ?blk"
    by (simp add: apply_text_def)
  moreover have "concat (replicate (Suc n) ?blk) = concat (replicate n ?blk) @ ?blk"
    by (simp add: replicate_append_same flip: concat_append)
      (metis concat_append concat.simps append_Nil2 replicate_append_same)
  ultimately show ?case using Suc.IH by simp
qed

theorem stray_end_never_settles_witness:
  "((\<lambda>s. apply_text s ''X'' ''b'' MDMarkers) ^^ 2) (mend MDMarkers ''X'' @ [nl])
    = mend MDMarkers ''X'' @ [nl] @ section_block ''X'' ''b'' MDMarkers @ section_block ''X'' ''b'' MDMarkers"
proof -
  have "stray_end (mend MDMarkers ''X'' @ [nl]) ''X'' MDMarkers" by code_simp
  moreover have "\<not> contains (mend MDMarkers ''X'' @ [nl]) (mbegin LegacyMDMarkers ''X'')" by code_simp
  moreover have "\<not> contains ''b'' (mbegin LegacyMDMarkers ''X'')" by code_simp
  ultimately show ?thesis
    using stray_end_never_settles [of "mend MDMarkers ''X'' @ [nl]" "''X''" "''b''" 2]
    by (simp add: numeral_2_eq_2)
qed

text \<open>A stray begin marker costs user text: the first apply appends a block, and the second one
  takes the stray marker as the start of the section and deletes everything between the two.\<close>

theorem stray_begin_swallows_text:
  assumes "nl \<notin> set name" and "line_complete u"
    and "\<not> contains u (mend MDMarkers name)" and "\<not> contains u (mbegin LegacyMDMarkers name)"
    and "\<not> contains (trim_right content [nl]) (mend MDMarkers name)"
  shows "apply_text (mbegin MDMarkers name @ nl # u) name content MDMarkers
      = mbegin MDMarkers name @ nl # u @ section_block name content MDMarkers
    \<and> apply_text (mbegin MDMarkers name @ nl # u @ section_block name content MDMarkers)
      name content MDMarkers = section_block name content MDMarkers"
proof -
  let ?b = "mbegin MDMarkers name" and ?e = "mend MDMarkers name" and ?c = "trim_right content [nl]"
  let ?L = "mbegin LegacyMDMarkers name" and ?blk = "section_block name content MDMarkers"
  note e = md_markers.end_line [OF assms(1)] md_markers.end_ne [of name]
  have L: "nl \<notin> set ?L" "?L \<noteq> []" using assms(1) by (auto simp: LegacyMDMarkers_def)
  have "\<not> contains ?b ?L"
    by (auto simp: contains_iff MDMarkers_def LegacyMDMarkers_def dest!: arg_cong [where f = length])
  then have noL: "\<not> contains (?b @ nl # u) ?L"
    using assms(4) by (simp add: contains_line [OF L])
  have "\<not> contains (?b @ nl # u) ?e"
    using md_markers.begin_no_end [of name] assms(3) by (simp add: contains_line [OF e])
  then have ne: "index_of (?b @ nl # u) ?e = None" by (simp add: contains_def)
  have loc: "locate_section (?b @ nl # u) name MDMarkers = None"
    using noL ne by (auto simp: locate_section_def section_bounds_def contains_def Let_def
        MDMarkers_def split: option.splits)
  have "line_complete (?b @ nl # u)"
    using assms(2) by (auto simp: line_complete_def)
  with loc have first: "apply_text (?b @ nl # u) name content MDMarkers = ?b @ nl # u @ ?blk"
    by (simp add: apply_text_def newline_tail_of_complete)
  have "index_of (?b @ nl # ?c @ nl # ?e @ [nl]) ?e = Some (length ?b + 1 + (length ?c + 1))"
    using md_markers.begin_no_end [of name] assms(5) by (simp add: index_of_line [OF e] contains_def)
  then have "index_of (u @ ?blk) ?e = Some (length u + (length ?b + length ?c + 2))"
    using index_of_complete [OF assms(2) e assms(3), of ?blk] by (simp add: section_block_def)
  then have ie: "index_of (?b @ nl # u @ ?blk) ?e
      = Some (length ?b + 1 + (length u + (length ?b + length ?c + 2)))"
    using md_markers.begin_no_end [of name] by (simp add: index_of_line [OF e] contains_def)
  let ?a = "?b @ nl # u @ ?b @ nl # ?c @ nl # ?e"
  have "?b @ nl # u @ ?blk = ?a @ nl # []" by (simp add: section_block_def)
  then have "skip_newline (?b @ nl # u @ ?blk) (length ?a) = length (?b @ nl # u @ ?blk)"
    using skip_newline_at [of "length ?a" ?a "[]"] by simp
  moreover have "length ?b + 1 + (length u + (length ?b + length ?c + 2)) + length ?e = length ?a"
    by simp
  ultimately have "section_bounds (?b @ nl # u @ ?blk) ?b ?e = Some (0, length (?b @ nl # u @ ?blk))"
    by (simp only: section_bounds_def ie index_of_self prod.case option.case) (simp add: line_start_def)
  then have "apply_text (?b @ nl # u @ ?blk) name content MDMarkers = ?blk"
    by (simp add: apply_text_def locate_section_def)
  with first show ?thesis by blast
qed

theorem stray_begin_swallows_text_witness:
  "apply_text (mbegin MDMarkers ''X'' @ nl # ''mine'' @ nl # section_block ''X'' ''b'' MDMarkers)
    ''X'' ''b'' MDMarkers = section_block ''X'' ''b'' MDMarkers"
proof -
  have "\<not> contains (''mine'' @ [nl]) (mend MDMarkers ''X'')" by code_simp
  moreover have "\<not> contains (''mine'' @ [nl]) (mbegin LegacyMDMarkers ''X'')" by code_simp
  moreover have "\<not> contains (trim_right ''b'' [nl]) (mend MDMarkers ''X'')" by code_simp
  moreover have "line_complete (''mine'' @ [nl])" by (rule line_complete_nl)
  moreover have "nl \<notin> set ''X''" by simp
  ultimately have "apply_text (mbegin MDMarkers ''X'' @ nl # (''mine'' @ [nl]) @ section_block ''X'' ''b'' MDMarkers)
      ''X'' ''b'' MDMarkers = section_block ''X'' ''b'' MDMarkers"
    using stray_begin_swallows_text [of "''X''" "''mine'' @ [nl]" "''b''"] by blast
  then show ?thesis by simp
qed

section \<open>Merging a bundled doc with a local one\<close>

lemma stop_index_loop_zero: "stop_index_loop ms content (Some 0) = Some 0"
  by (induction ms) (auto split: option.splits)

lemma stop_index_loop_found:
  "marker \<in> set ms \<Longrightarrow> index_of content marker = Some 0 \<Longrightarrow> stop_index_loop ms content idx = Some 0"
  by (induction ms arbitrary: idx) (auto simp: stop_index_loop_zero split: option.splits)

lemma stop_index_loop_SomeD:
  "stop_index_loop ms content idx = Some i \<Longrightarrow>
    idx = Some i \<or> (\<exists>marker\<in>set ms. index_of content marker = Some i)"
proof (induction ms arbitrary: idx)
  case Nil
  then show ?case by simp
next
  case (Cons marker ms)
  from Cons.IH [OF Cons.prems [unfolded stop_index_loop.simps]] show ?case
    by (auto split: option.splits if_splits)
qed

lemma stop_index_loop_shift:
  assumes "\<And>marker. marker \<in> set ms \<Longrightarrow> index_of x marker = map_option ((+) k) (index_of y marker)"
  shows "stop_index_loop ms x (map_option ((+) k) idx) = map_option ((+) k) (stop_index_loop ms y idx)"
  using assms
proof (induction ms arbitrary: idx)
  case Nil
  then show ?case by simp
next
  case (Cons marker ms)
  have h: "index_of x marker = map_option ((+) k) (index_of y marker)" using Cons.prems by simp
  have "(case index_of x marker of
          Some i \<Rightarrow> (case map_option ((+) k) idx of None \<Rightarrow> Some i
                     | Some j \<Rightarrow> if i < j then Some i else map_option ((+) k) idx)
        | None \<Rightarrow> map_option ((+) k) idx)
      = map_option ((+) k) (case index_of y marker of
          Some i \<Rightarrow> (case idx of None \<Rightarrow> Some i | Some j \<Rightarrow> if i < j then Some i else idx)
        | None \<Rightarrow> idx)"
    unfolding h by (auto split: option.splits)
  then show ?case using Cons by simp
qed

lemma doc_markers_lines: "marker \<in> set doc_markers \<Longrightarrow> nl \<notin> set marker \<and> marker \<noteq> []"
  by (auto simp: doc_markers_def DocStopMarker_def DocEndMarker_def LegacyDocStopMarker_def
      LegacyDocEndMarker_def)

text \<open>Updating a managed doc keeps the local customisation verbatim: everything from the first
  stop marker on is preserved, and merging the same bundled doc again changes nothing.\<close>

theorem merge_doc_keeps_local:
  assumes "stop_marker_index existing = Some idx"
    and "\<And>marker. marker \<in> set doc_markers \<Longrightarrow> \<not> contains (trim_right bundled crlf) marker"
  shows "stop_marker_index (merge_doc_text existing bundled) = Some (length (trim_right bundled crlf) + 2)
    \<and> drop (length (trim_right bundled crlf) + 2) (merge_doc_text existing bundled) = drop idx existing
    \<and> merge_doc_text (merge_doc_text existing bundled) bundled = merge_doc_text existing bundled"
proof -
  let ?t = "trim_right bundled crlf" and ?l = "drop idx existing"
  have merged: "merge_doc_text existing bundled = ?t @ nl # nl # ?l"
    using assms(1) by (simp add: merge_doc_text_def)
  obtain mk where "mk \<in> set doc_markers" "index_of existing mk = Some idx"
    using assms(1) stop_index_loop_SomeD unfolding stop_marker_index_def by fastforce
  then have "has_prefix ?l mk"
    using index_of_SomeD [of existing mk idx]
    by (metis add.commute append_take_drop_id drop_drop has_prefix_iff same_append_eq)
  then have zero: "stop_index_loop doc_markers ?l None = Some 0"
    using stop_index_loop_found [OF \<open>mk \<in> set doc_markers\<close>] index_of_prefix by blast
  have shift: "index_of (?t @ nl # nl # ?l) marker = map_option ((+) (length ?t + 2)) (index_of ?l marker)"
    if "marker \<in> set doc_markers" for marker
  proof -
    note mk = doc_markers_lines [OF that]
    have "index_of ?t marker = None" using assms(2) [OF that] by (simp add: contains_def)
    moreover have "index_of ([] @ nl # ?l) marker = map_option Suc (index_of ?l marker)"
      using mk by (subst index_of_line) (auto simp: option.map_ident intro: option.map_cong)
    ultimately show ?thesis
      using mk by (cases "index_of ?l marker") (auto simp: index_of_line)
  qed
  have "stop_index_loop doc_markers (?t @ nl # nl # ?l) (map_option ((+) (length ?t + 2)) None)
      = map_option ((+) (length ?t + 2)) (stop_index_loop doc_markers ?l None)"
    by (rule stop_index_loop_shift) (rule shift)
  with zero have idx': "stop_marker_index (merge_doc_text existing bundled) = Some (length ?t + 2)"
    by (simp add: stop_marker_index_def merged)
  have tail: "drop (length ?t + 2) (merge_doc_text existing bundled) = ?l"
    by (simp add: merged)
  have "merge_doc_text (merge_doc_text existing bundled) bundled
      = ?t @ [nl, nl] @ drop (length ?t + 2) (merge_doc_text existing bundled)"
    unfolding merge_doc_text_def [of "merge_doc_text existing bundled"] idx' by simp
  then have "merge_doc_text (merge_doc_text existing bundled) bundled = merge_doc_text existing bundled"
    by (simp add: tail) (simp add: merged)
  with idx' tail show ?thesis by blast
qed

theorem merge_doc_keeps_local_witness:
  "drop 3 (merge_doc_text (''old'' @ nl # DocStopMarker @ ''mine'') ''v'') = DocStopMarker @ ''mine''"
proof -
  have "stop_marker_index (''old'' @ nl # DocStopMarker @ ''mine'') = Some 4" by code_simp
  moreover have "\<not> contains (trim_right ''v'' crlf) marker" if "marker \<in> set doc_markers" for marker
    using that by (auto simp: doc_markers_def contains_def trim_right_def trim_left_def crlf_def
        DocStopMarker_def DocEndMarker_def LegacyDocStopMarker_def LegacyDocEndMarker_def)
  moreover have "length (trim_right ''v'' crlf) = 1" by code_simp
  ultimately show ?thesis
    using merge_doc_keeps_local [of "''old'' @ nl # DocStopMarker @ ''mine''" 4 "''v''"] by (simp add: numeral_3_eq_3)
qed

end
