(* ===== verification/Sections.thy ===== *)
theory Sections
  imports Markdown
begin

text \<open>
  Reconciling and pruning all managed sections of a file: \<open>internal/markdown/sections.go\<close> and
  \<open>PruneSections\<close> of \<open>internal/markdown/markdown.go\<close>.

  Both scan the raw text. The abstract view is a document: a list of plain texts and named blocks,
  with \<open>render_doc\<close> its bytes. The refinement lemmas say that the scanners, run on the bytes of a
  well-formed document, compute the bytes of the obvious list operation (keep, replace, drop).
\<close>

section \<open>ReconcileSections\<close>

record managed_section =
  sec_name :: string
  sec_content :: string
  existing_only :: bool

datatype section_error =
    InvalidID string
  | DuplicateID string
  | NestedMarkers string
  | InvalidRetiredID string
  | ActiveAndRetired string
  | SlicePanic

definition begin_prefix :: string where
  "begin_prefix = ''<!-- harnez:begin ''"

definition marker_close :: string where
  "marker_close = '' -->''"

definition bad_id :: "string \<Rightarrow> bool" where
  "bad_id s \<longleftrightarrow> s = [] \<or> contains_any s [CHR 0x0D, nl, CHR ''<'', CHR ''>'']"

definition desired_text :: "managed_section \<Rightarrow> string" where
  "desired_text sec = mbegin MDMarkers (sec_name sec) @ [nl] @ trim_right (sec_content sec) [nl] @ [nl]
     @ mend MDMarkers (sec_name sec) @ [nl]"

text \<open>The first loop fills the maps \<open>desired\<close> and \<open>existingOnly\<close>.\<close>

fun check_sections ::
  "managed_section list \<Rightarrow> (string \<Rightarrow> string option) \<Rightarrow> section_error + (string \<Rightarrow> string option)" where
  "check_sections [] desired = Inr desired"
| "check_sections (sec # secs) desired =
     (if bad_id (sec_name sec) then Inl (InvalidID (sec_name sec))
      else if desired (sec_name sec) \<noteq> None then Inl (DuplicateID (sec_name sec))
      else if contains (sec_content sec) ''<!-- harnez:'' then Inl (NestedMarkers (sec_name sec))
      else check_sections secs (desired(sec_name sec \<mapsto> desired_text sec)))"

fun check_retired :: "string list \<Rightarrow> (string \<Rightarrow> string option) \<Rightarrow> section_error option" where
  "check_retired [] desired = None"
| "check_retired (i # ids) desired =
     (if bad_id i then Some (InvalidRetiredID i)
      else if desired i \<noteq> None then Some (ActiveAndRetired i)
      else check_retired ids desired)"

text \<open>
  The scan. It returns the bytes it wrote and the IDs it has seen; \<^const>\<open>None\<close> is the run-time panic of
  the slice \<open>existing[len(prefix):nameEnd]\<close> when the close stands before the end of the prefix. A
  begin marker without its close, and a block without its end marker or with a begin marker inside,
  stop the scan and everything left is copied.
\<close>

definition scan_choice ::
  "(string \<Rightarrow> string option) \<Rightarrow> string list \<Rightarrow> string list \<Rightarrow> string \<Rightarrow> string \<Rightarrow> string \<times> string list" where
  "scan_choice desired retired seen name block =
     (if name \<in> set retired then ([], seen)
      else case desired name of
        Some d \<Rightarrow> if name \<in> set seen then ([], seen) else (d, name # seen)
      | None \<Rightarrow> (block, seen))"

function scan_sections ::
  "(string \<Rightarrow> string option) \<Rightarrow> string list \<Rightarrow> string list \<Rightarrow> string \<Rightarrow> (string \<times> string list) option" where
  "scan_sections desired retired seen existing =
     (case index_of existing begin_prefix of
        None \<Rightarrow> Some (existing, seen)
      | Some start \<Rightarrow>
          let before = take start existing; rest = drop start existing in
          (case index_of rest marker_close of
             None \<Rightarrow> Some (before @ rest, seen)
           | Some name_end \<Rightarrow>
               if name_end < length begin_prefix then None
               else
               let name = drop (length begin_prefix) (take name_end rest);
                   tail = drop (name_end + 4) rest in
               (case index_of tail (mend MDMarkers name) of
                  None \<Rightarrow> Some (before @ rest, seen)
                | Some rel \<Rightarrow>
                    if contains (take rel tail) begin_prefix then Some (before @ rest, seen)
                    else
                      let stop = skip_newline rest (rel + name_end + 4 + length (mend MDMarkers name));
                          choice = scan_choice desired retired seen name (take stop rest)
                      in map_option (\<lambda>(out, seen'). (before @ fst choice @ out, seen'))
                           (scan_sections desired retired (snd choice) (drop stop rest)))))"
  by pat_completeness auto
termination
proof (relation "measure (\<lambda>(desired, retired, seen, existing). length existing)", goal_cases)
  case 1
  then show ?case by simp
next
  case (2 desired retired seen existing start before rest name_end name tail rel stop choice)
  then have "start < length existing"
    using index_of_SomeD [of existing begin_prefix start] by (simp add: begin_prefix_def)
  moreover have "0 < stop"
    using 2 skip_newline_ge [of "rel + name_end + 4 + length (mend MDMarkers name)" rest] by simp
  ultimately show ?case using 2 by simp
qed

declare scan_sections.simps [simp del]

fun append_missing ::
  "(string \<Rightarrow> string option) \<Rightarrow> string list \<Rightarrow> string \<Rightarrow> managed_section list \<Rightarrow> string" where
  "append_missing desired seen original [] = []"
| "append_missing desired seen original (sec # secs) =
     (if sec_name sec \<notin> set seen \<and> \<not> existing_only sec
         \<and> \<not> contains original (mbegin MDMarkers (sec_name sec))
      then (case desired (sec_name sec) of Some d \<Rightarrow> d | None \<Rightarrow> []) else [])
     @ append_missing desired seen original secs"

definition reconcile_sections ::
  "string \<Rightarrow> managed_section list \<Rightarrow> string list \<Rightarrow> section_error + string" where
  "reconcile_sections existing secs retired =
     (case check_sections secs Map.empty of
        Inl err \<Rightarrow> Inl err
      | Inr desired \<Rightarrow>
          (case check_retired retired desired of
             Some err \<Rightarrow> Inl err
           | None \<Rightarrow>
               (case scan_sections desired retired [] existing of
                  None \<Rightarrow> Inl SlicePanic
                | Some (out, seen) \<Rightarrow> Inr (out @ append_missing desired seen existing secs))))"

section \<open>PruneSections\<close>

function prune_loop :: "string list \<Rightarrow> string \<Rightarrow> nat \<Rightarrow> string" where
  "prune_loop keep content offset =
     (if offset < length content then
        (case index_of (drop offset content) begin_prefix of
           None \<Rightarrow> content
         | Some rel_begin \<Rightarrow>
             let bi = offset + rel_begin; name_start = bi + length begin_prefix in
             (case index_of (drop name_start content) marker_close of
                None \<Rightarrow> content
              | Some rel \<Rightarrow>
                  let name_end = rel + name_start; name = take rel (drop name_start content) in
                  if name = [] then prune_loop keep content (name_end + 4)
                  else if name \<in> set keep then prune_loop keep content (name_end + 4)
                  else
                    (case index_of (drop (name_end + 4) content) (mend MDMarkers name) of
                       None \<Rightarrow> prune_loop keep content (name_end + 4)
                     | Some rel_end \<Rightarrow>
                         let end_start = name_end + 4 + rel_end;
                             ls = line_start content bi;
                             le = skip_newline content (end_start + length (mend MDMarkers name))
                         in prune_loop keep (take ls content @ drop le content) ls)))
      else content)"
  by pat_completeness auto
termination
proof (relation "measure (\<lambda>(keep, content, offset). length content - offset)", goal_cases)
  case 1
  then show ?case by simp
next
  case (2 keep content offset rel_begin bi name_start rel name_end name)
  then show ?case by simp
next
  case (3 keep content offset rel_begin bi name_start rel name_end name)
  then show ?case by (simp, linarith)
next
  case (4 keep content offset rel_begin bi name_start rel name_end name)
  then show ?case by (simp, linarith)
next
  case (5 keep content offset rel_begin bi name_start rel name_end name rel_end end_start ls le)
  have "offset < le" "ls \<le> bi" "bi \<le> le"
    using 5 skip_newline_ge [of "end_start + length (mend MDMarkers name)" content] line_start_le [of content bi]
    by auto
  moreover have "bi \<le> length content"
    using 5 index_of_SomeD [of "drop offset content" begin_prefix rel_begin] by simp
  ultimately show ?case using 5(1) by (simp add: min_def, linarith)
qed

declare prune_loop.simps [simp del]

text \<open>\<open>PruneSections\<close>: \<open>(changed, err)\<close>; a missing file is no change.\<close>

definition prune_sections :: "fsys \<Rightarrow> string \<Rightarrow> string list \<Rightarrow> (bool \<times> fserr option) \<times> fsys" where
  "prune_sections fs path keep =
     (case read_file fs path of
        Inl ErrNotExist \<Rightarrow> ((False, None), fs)
      | Inl err \<Rightarrow> ((False, Some err), fs)
      | Inr original \<Rightarrow>
          let content = prune_loop keep original 0 in
          if content = original then ((False, None), fs)
          else (case write_file fs path content of
              (Some err, fs') \<Rightarrow> ((False, Some err), fs')
            | (None, fs') \<Rightarrow> ((True, None), fs')))"

section \<open>Documents\<close>

text \<open>
  The abstract view. A document is a list of plain texts and named blocks. It is well formed when
  every piece ends with a newline, no plain text and no block body holds a marker, and the names are
  ones \<open>ReconcileSections\<close> accepts.
\<close>

datatype seg = Plain string | Block string string

fun render_seg :: "seg \<Rightarrow> string" where
  "render_seg (Plain t) = t"
| "render_seg (Block n body) = mbegin MDMarkers n @ [nl] @ body @ mend MDMarkers n @ [nl]"

definition render_doc :: "seg list \<Rightarrow> string" where
  "render_doc d = concat (map render_seg d)"

definition marker_free :: "string \<Rightarrow> bool" where
  "marker_free t \<longleftrightarrow> line_complete t \<and> \<not> contains t ''<!-- harnez:''"

fun wf_seg :: "seg \<Rightarrow> bool" where
  "wf_seg (Plain t) \<longleftrightarrow> marker_free t"
| "wf_seg (Block n body) \<longleftrightarrow> \<not> bad_id n \<and> marker_free body"

abbreviation wf_doc :: "seg list \<Rightarrow> bool" where
  "wf_doc d \<equiv> list_all wf_seg d"

fun seg_names :: "seg list \<Rightarrow> string list" where
  "seg_names [] = []"
| "seg_names (Plain t # d) = seg_names d"
| "seg_names (Block n body # d) = n # seg_names d"

text \<open>What reconciling does to a document: drop retired blocks, rewrite the first block of each active
  section, drop its later copies, keep everything else, append the sections that are absent.\<close>

fun rewrite_segs ::
  "(string \<Rightarrow> string option) \<Rightarrow> string list \<Rightarrow> string list \<Rightarrow> seg list \<Rightarrow> seg list \<times> string list" where
  "rewrite_segs new retired seen [] = ([], seen)"
| "rewrite_segs new retired seen (Plain t # d) =
     (let (out, seen') = rewrite_segs new retired seen d in (Plain t # out, seen'))"
| "rewrite_segs new retired seen (Block n body # d) =
     (if n \<in> set retired then rewrite_segs new retired seen d
      else case new n of
        Some body' \<Rightarrow>
          if n \<in> set seen then rewrite_segs new retired seen d
          else (let (out, seen') = rewrite_segs new retired (n # seen) d in (Block n body' # out, seen'))
      | None \<Rightarrow>
          (let (out, seen') = rewrite_segs new retired seen d in (Block n body # out, seen')))"

definition section_body :: "managed_section \<Rightarrow> string" where
  "section_body sec = trim_right (sec_content sec) [nl] @ [nl]"

definition bodies :: "managed_section list \<Rightarrow> string \<Rightarrow> string option" where
  "bodies secs = map_of (map (\<lambda>sec. (sec_name sec, section_body sec)) secs)"

definition absent_sections :: "managed_section list \<Rightarrow> seg list \<Rightarrow> seg list" where
  "absent_sections secs d =
     map (\<lambda>sec. Block (sec_name sec) (section_body sec))
       (filter (\<lambda>sec. \<not> existing_only sec \<and> sec_name sec \<notin> set (seg_names d)) secs)"

definition reconcile_doc :: "managed_section list \<Rightarrow> string list \<Rightarrow> seg list \<Rightarrow> seg list" where
  "reconcile_doc secs retired d =
     fst (rewrite_segs (bodies secs) retired [] d) @ absent_sections secs d"

definition valid_sections :: "managed_section list \<Rightarrow> string list \<Rightarrow> bool" where
  "valid_sections secs retired \<longleftrightarrow>
     distinct (map sec_name secs)
     \<and> list_all (\<lambda>sec. \<not> bad_id (sec_name sec) \<and> \<not> contains (sec_content sec) ''<!-- harnez:'') secs
     \<and> list_all (\<lambda>i. \<not> bad_id i \<and> i \<notin> set (map sec_name secs)) retired"

section \<open>Scanning rendered pieces\<close>

lemma contains_trans: "contains s t \<Longrightarrow> contains t u \<Longrightarrow> contains s u"
  unfolding contains_iff by (metis append_assoc)

lemma contains_trim_right: "contains (trim_right s cs) sub \<Longrightarrow> contains s sub"
  using trim_right_split [of s cs] contains_append1 by metis

lemma contains_prefix: "contains (p @ t) p"
  using contains_appendI [of "[]" p t] by simp

lemma marker_tag: "contains (mbegin MDMarkers n) ''<!-- harnez:''" "contains (mend MDMarkers n) ''<!-- harnez:''"
    "contains begin_prefix ''<!-- harnez:''"
proof -
  have "mbegin MDMarkers n = ''<!-- harnez:'' @ ''begin '' @ n @ '' -->''" by (simp add: MDMarkers_def)
  then show "contains (mbegin MDMarkers n) ''<!-- harnez:''" by (simp only: contains_prefix)
  have "mend MDMarkers n = ''<!-- harnez:'' @ ''end '' @ n @ '' -->''" by (simp add: MDMarkers_def)
  then show "contains (mend MDMarkers n) ''<!-- harnez:''" by (simp only: contains_prefix)
  show "contains begin_prefix ''<!-- harnez:''" by code_simp
qed

lemma marker_free_no:
  assumes "marker_free t"
  shows "\<not> contains t begin_prefix" "\<not> contains t (mend MDMarkers n)" "\<not> contains t (mbegin MDMarkers n)"
proof -
  have no: "\<not> contains t ''<!-- harnez:''" using assms by (simp only: marker_free_def not_False_eq_True)
  show "\<not> contains t begin_prefix"
    using no contains_trans [OF _ marker_tag(3)] by (rule contrapos_nn)
  show "\<not> contains t (mend MDMarkers n)"
    using no contains_trans [OF _ marker_tag(2)] by (rule contrapos_nn)
  show "\<not> contains t (mbegin MDMarkers n)"
    using no contains_trans [OF _ marker_tag(1)] by (rule contrapos_nn)
qed

lemma marker_free_line: "marker_free t \<Longrightarrow> line_complete t"
  by (simp add: marker_free_def)

lemma begin_prefix_line: "nl \<notin> set begin_prefix" "begin_prefix \<noteq> []"
  by (simp_all add: begin_prefix_def)

lemma good_id:
  assumes "\<not> bad_id n"
  shows "nl \<notin> set n" "CHR ''>'' \<notin> set n" "CHR ''<'' \<notin> set n" "n \<noteq> []"
  using assms by (auto simp: bad_id_def contains_any_def list_ex_iff)

lemma mbegin_split: "mbegin MDMarkers n = begin_prefix @ n @ marker_close"
  by (simp add: MDMarkers_def begin_prefix_def marker_close_def)

text \<open>A search that ends with a byte that has not occurred before finds the first candidate.\<close>

lemma index_of_last_fresh:
  assumes "sub \<noteq> []" and "last sub \<notin> set a" and "last sub \<notin> set (butlast sub)"
  shows "index_of (a @ sub @ t) sub = Some (length a)"
proof (rule index_of_eqI)
  show "a @ sub @ t = a @ sub @ t" ..
  fix p q assume eq: "a @ sub @ t = p @ sub @ q"
  show "length a \<le> length p"
  proof (rule ccontr)
    let ?i = "length p + (length sub - 1)"
    assume "\<not> length a \<le> length p"
    then have lt: "?i < length (a @ butlast sub)" using assms(1) by (cases sub) auto
    have "(p @ sub @ q) ! ?i = last sub"
      using assms(1) by (simp add: nth_append last_conv_nth)
    moreover have "a @ sub @ t = (a @ butlast sub) @ last sub # t" using assms(1) by simp
    ultimately have "last sub = (a @ butlast sub) ! ?i" using eq lt by (metis nth_append)
    then have "last sub \<in> set (a @ butlast sub)" using lt nth_mem by metis
    with assms(2,3) show False by auto
  qed
qed

lemma index_of_close:
  assumes "\<not> bad_id n"
  shows "index_of (begin_prefix @ n @ marker_close @ t) marker_close = Some (length begin_prefix + length n)"
    and "index_of (n @ marker_close @ t) marker_close = Some (length n)"
  using index_of_last_fresh [of marker_close "begin_prefix @ n" t]
    index_of_last_fresh [of marker_close n t] good_id [OF assms]
  by (simp_all add: marker_close_def begin_prefix_def)

lemma block_begin:
  "render_seg (Block n body) @ t = begin_prefix @ n @ marker_close @ nl # body @ mend MDMarkers n @ nl # t"
  by (simp add: mbegin_split)

lemma index_of_end:
  assumes "\<not> bad_id n" and "marker_free body"
  shows "index_of (nl # body @ mend MDMarkers n @ t) (mend MDMarkers n) = Some (1 + length body)"
proof -
  note e = md_markers.end_line [OF good_id(1) [OF assms(1)]] md_markers.end_ne [of n]
  have "line_complete (nl # body)"
    using marker_free_line [OF assms(2)] by (auto simp: line_complete_def)
  moreover have "\<not> contains (nl # body) (mend MDMarkers n)"
    using contains_line [OF e, of "[]" body] marker_free_no [OF assms(2)] e by (simp add: contains_def)
  ultimately show ?thesis
    using index_of_complete [OF _ e, of "nl # body"] by simp
qed

lemma index_of_begin: "index_of (begin_prefix @ t) begin_prefix = Some 0"
  by (rule index_of_self)

lemma scan_plain:
  assumes "marker_free t"
  shows "scan_sections desired retired seen (t @ rest) =
    map_option (\<lambda>(out, seen'). (t @ out, seen')) (scan_sections desired retired seen rest)"
proof -
  have shift: "index_of (t @ rest) begin_prefix = map_option (\<lambda>i. length t + i) (index_of rest begin_prefix)"
    using index_of_complete marker_free_line [OF assms] begin_prefix_line marker_free_no(1) [OF assms] by metis
  show ?thesis
    unfolding scan_sections.simps [of desired retired seen "t @ rest"]
      scan_sections.simps [of desired retired seen rest] shift
    by (auto simp: Let_def option.map_comp comp_def case_prod_unfold
        split: option.splits intro!: option.map_cong)
qed

lemma scan_block:
  assumes "\<not> bad_id n" and "marker_free body"
  shows "scan_sections desired retired seen (render_seg (Block n body) @ t) =
    (let choice = scan_choice desired retired seen n (render_seg (Block n body))
     in map_option (\<lambda>(out, seen'). (fst choice @ out, seen')) (scan_sections desired retired (snd choice) t))"
proof -
  let ?all = "begin_prefix @ n @ marker_close @ nl # body @ mend MDMarkers n @ nl # t"
  let ?tail = "nl # body @ mend MDMarkers n @ nl # t"
  have len4: "length marker_close = 4" by (simp add: marker_close_def)
  have d: "drop (length begin_prefix + length n + 4) ?all = ?tail"
    using len4 by simp
  have nm: "drop (length begin_prefix) (take (length begin_prefix + length n) ?all) = n" by simp
  have body_no: "\<not> contains (take (1 + length body) ?tail) begin_prefix"
    using contains_line [OF begin_prefix_line, of "[]" body] marker_free_no(1) [OF assms(2)] begin_prefix_line
    by (simp add: contains_def)
  let ?pre = "begin_prefix @ n @ marker_close @ nl # body @ mend MDMarkers n"
  have stop: "skip_newline ?all (1 + length body + (length begin_prefix + length n) + 4 + length (mend MDMarkers n))
      = Suc (length ?pre)"
    using skip_newline_at [of "length ?pre" ?pre t] len4 by (simp add: ac_simps)
  have tk: "take (Suc (length ?pre)) ?all = render_seg (Block n body)"
    "drop (Suc (length ?pre)) ?all = t"
    by (simp_all add: mbegin_split)
  have "scan_sections desired retired seen ?all =
    (let choice = scan_choice desired retired seen n (render_seg (Block n body))
     in map_option (\<lambda>(out, seen'). (fst choice @ out, seen')) (scan_sections desired retired (snd choice) t))"
    by (subst scan_sections.simps)
      (simp only: index_of_begin option.case Let_def drop_0 take_0 append_Nil index_of_close [OF assms(1)]
        d nm index_of_end [OF assms] body_no stop tk if_False not_add_less1)
  then show ?thesis by (simp only: block_begin)
qed

text \<open>The scanner on the bytes of a well-formed document is the list operation.\<close>

definition block_text :: "(string \<Rightarrow> string option) \<Rightarrow> string \<Rightarrow> string option" where
  "block_text new n = map_option (\<lambda>body. render_seg (Block n body)) (new n)"

lemma scan_doc:
  assumes "wf_doc d"
  shows "scan_sections (block_text new) retired seen (render_doc d) =
    (case rewrite_segs new retired seen d of (out, seen') \<Rightarrow> Some (render_doc out, seen'))"
  using assms
proof (induction d arbitrary: seen)
  case Nil
  have "index_of [] begin_prefix = None" by (simp add: begin_prefix_def)
  then show ?case by (subst scan_sections.simps) (simp add: render_doc_def)
next
  case (Cons x d)
  have r: "render_doc (y # z) = render_seg y @ render_doc z" for y z by (simp add: render_doc_def)
  show ?case
  proof (cases x)
    case (Plain t)
    with Cons show ?thesis
      by (simp add: r scan_plain case_prod_unfold Let_def)
  next
    case (Block n body)
    with Cons.prems have "\<not> bad_id n" "marker_free body" "wf_doc d" by auto
    with Cons.IH Block show ?thesis
      by (auto simp: r scan_block scan_choice_def block_text_def Let_def
          case_prod_unfold simp del: render_seg.simps split: option.splits)
  qed
qed

section \<open>Reconciling a document\<close>

lemma block_text_section: "block_text [sec_name sec \<mapsto> section_body sec] (sec_name sec) = Some (desired_text sec)"
  by (simp add: block_text_def desired_text_def section_body_def)

lemma check_sections_valid:
  assumes "valid_sections secs retired" and "\<forall>sec\<in>set secs. desired (sec_name sec) = None"
  shows "check_sections secs desired = Inr (\<lambda>n. case bodies secs n of
      Some body \<Rightarrow> Some (render_seg (Block n body)) | None \<Rightarrow> desired n)"
  using assms
proof (induction secs arbitrary: desired)
  case Nil
  then show ?case by (simp add: bodies_def)
next
  case (Cons sec secs)
  let ?d = "desired(sec_name sec \<mapsto> desired_text sec)"
  have "check_sections (sec # secs) desired = check_sections secs ?d"
    using Cons.prems by (simp add: valid_sections_def)
  also have "\<dots> = Inr (\<lambda>n. case bodies secs n of Some body \<Rightarrow> Some (render_seg (Block n body)) | None \<Rightarrow> ?d n)"
  proof (rule Cons.IH)
    show "valid_sections secs retired" using Cons.prems(1) by (auto simp: valid_sections_def list_all_iff)
    have "sec_name sec \<notin> sec_name ` set secs" using Cons.prems(1) by (simp add: valid_sections_def)
    with Cons.prems(2) show "\<forall>s\<in>set secs. ?d (sec_name s) = None" by (auto, metis image_eqI)
  qed
  also have "\<dots> = Inr (\<lambda>n. case bodies (sec # secs) n of
      Some body \<Rightarrow> Some (render_seg (Block n body)) | None \<Rightarrow> desired n)"
  proof -
    have "bodies secs (sec_name sec) = None"
      using Cons.prems(1) by (auto simp: valid_sections_def bodies_def map_of_eq_None_iff image_image)
    then show ?thesis
      by (auto simp: bodies_def desired_text_def section_body_def fun_eq_iff split: option.splits)
  qed
  finally show ?case .
qed

lemma check_valid:
  assumes "valid_sections secs retired"
  shows "check_sections secs Map.empty = Inr (block_text (bodies secs))"
  using check_sections_valid [OF assms, of Map.empty]
  by (simp add: block_text_def map_option_case fun_eq_iff del: render_seg.simps)

lemma bodies_dom: "bodies secs n = None \<longleftrightarrow> n \<notin> set (map sec_name secs)"
  by (induction secs) (auto simp: bodies_def)

lemma check_retired_valid:
  "list_all (\<lambda>i. \<not> bad_id i \<and> desired i = None) retired \<Longrightarrow> check_retired retired desired = None"
  by (induction retired) auto

lemma check_retired_ok:
  assumes "valid_sections secs retired"
  shows "check_retired retired (block_text (bodies secs)) = None"
  using assms by (intro check_retired_valid)
    (auto simp: valid_sections_def list_all_iff block_text_def bodies_dom)

text \<open>Looking for a begin marker in the bytes is looking for a block of that name.\<close>

lemma mend_split: "mend MDMarkers n = ''<!-- harnez:end '' @ n @ marker_close"
  by (simp add: MDMarkers_def marker_close_def)

lemma begin_in_block:
  assumes "\<not> bad_id m" and "\<not> bad_id n" and "marker_free body"
  shows "contains (render_seg (Block m body) @ t) (mbegin MDMarkers n) \<longleftrightarrow> m = n \<or> contains t (mbegin MDMarkers n)"
proof -
  note b = md_markers.begin_line [OF good_id(1) [OF assms(2)]] md_markers.begin_ne [of n]
  have eq: "render_seg (Block m body) @ t = mbegin MDMarkers m @ nl # (body @ (mend MDMarkers m @ nl # t))"
    by simp
  have self: "contains (mbegin MDMarkers m) (mbegin MDMarkers n) \<longleftrightarrow> m = n"
  proof
    assume "contains (mbegin MDMarkers m) (mbegin MDMarkers n)"
    then obtain p q where *: "begin_prefix @ m @ marker_close = p @ begin_prefix @ n @ marker_close @ q"
      unfolding contains_iff mbegin_split by auto
    show "m = n"
    proof (cases p)
      case Nil
      with * have e: "m @ marker_close = n @ marker_close @ q" by simp
      have "index_of (n @ marker_close @ q) marker_close = Some (length n)"
        using index_of_close(2) [OF assms(2)] .
      moreover have "index_of (m @ marker_close @ []) marker_close = Some (length m)"
        using index_of_close(2) [OF assms(1)] .
      ultimately have "length m = length n" by (metis e append_Nil2 option.inject)
      with e show ?thesis by (simp add: append_eq_append_conv)
    next
      case (Cons c p')
      have "CHR ''<'' \<in> set (p' @ begin_prefix @ n @ marker_close @ q)" by (simp add: begin_prefix_def)
      then have "CHR ''<'' \<in> set (tl (begin_prefix @ m @ marker_close))" unfolding * by (simp add: Cons)
      then show ?thesis using good_id(3) [OF assms(1)] by (simp add: begin_prefix_def marker_close_def)
    qed
  next
    assume "m = n"
    then show "contains (mbegin MDMarkers m) (mbegin MDMarkers n)"
      using contains_prefix [of "mbegin MDMarkers n" "[]"] by simp
  qed
  have "\<not> contains (mend MDMarkers m) (mbegin MDMarkers n)"
  proof
    assume "contains (mend MDMarkers m) (mbegin MDMarkers n)"
    then obtain p q where *: "''<!-- harnez:end '' @ m @ marker_close = p @ begin_prefix @ n @ marker_close @ q"
      unfolding contains_iff mbegin_split mend_split by auto
    show False
    proof (cases p)
      case Nil
      with * show False by (simp add: begin_prefix_def)
    next
      case (Cons c p')
      have "CHR ''<'' \<in> set (p' @ begin_prefix @ n @ marker_close @ q)" by (simp add: begin_prefix_def)
      then have "CHR ''<'' \<in> set (tl (''<!-- harnez:end '' @ m @ marker_close))" unfolding * by (simp add: Cons)
      then show False using good_id(3) [OF assms(1)] by (simp add: marker_close_def)
    qed
  qed
  then show ?thesis
    unfolding eq
    using self marker_free_no(3) [OF assms(3)] contains_complete [OF marker_free_line [OF assms(3)] b]
    by (simp add: contains_line [OF b])
qed

lemma begin_in_doc:
  assumes "wf_doc d" and "\<not> bad_id n"
  shows "contains (render_doc d) (mbegin MDMarkers n) \<longleftrightarrow> n \<in> set (seg_names d)"
  using assms(1)
proof (induction d)
  case Nil
  then show ?case using md_markers.begin_ne [of n] by (simp add: render_doc_def contains_def)
next
  case (Cons x d)
  note b = md_markers.begin_line [OF good_id(1) [OF assms(2)]] md_markers.begin_ne [of n]
  have r: "render_doc (x # d) = render_seg x @ render_doc d" by (simp add: render_doc_def)
  show ?case
  proof (cases x)
    case (Plain t)
    with Cons show ?thesis
      unfolding r using contains_complete [OF marker_free_line b] marker_free_no(3) by auto
  next
    case (Block m body)
    with Cons show ?thesis
      unfolding r using begin_in_block [OF _ assms(2)] by (auto simp del: render_seg.simps)
  qed
qed

lemma rewrite_seen:
  "set (snd (rewrite_segs new retired seen d)) = set seen \<union> {n \<in> set (seg_names d). n \<notin> set retired \<and> new n \<noteq> None}"
  by (induction new retired seen d rule: rewrite_segs.induct)
    (auto simp: Let_def case_prod_unfold split: option.splits)

lemma append_missing_doc:
  assumes "wf_doc d" and "list_all (\<lambda>sec. \<not> bad_id (sec_name sec) \<and> sec_name sec \<notin> set retired
      \<and> new (sec_name sec) = Some (section_body sec)) secs"
    and "seen = snd (rewrite_segs new retired [] d)"
  shows "append_missing (block_text new) seen (render_doc d) secs = render_doc (absent_sections secs d)"
  using assms(2)
proof (induction secs)
  case Nil
  then show ?case by (simp add: render_doc_def absent_sections_def)
next
  case (Cons sec secs)
  have s: "sec_name sec \<in> set seen \<longleftrightarrow> sec_name sec \<in> set (seg_names d)"
    using Cons.prems by (auto simp: assms(3) rewrite_seen)
  have b: "contains (render_doc d) (mbegin MDMarkers (sec_name sec)) \<longleftrightarrow> sec_name sec \<in> set (seg_names d)"
    using begin_in_doc [OF assms(1)] Cons.prems by auto
  have t: "block_text new (sec_name sec) = Some (render_seg (Block (sec_name sec) (section_body sec)))"
    using Cons.prems by (simp add: block_text_def)
  have r: "render_doc (x # xs) = render_seg x @ render_doc xs" for x xs by (simp add: render_doc_def)
  have IH: "append_missing (block_text new) seen (render_doc d) secs = render_doc (absent_sections secs d)"
    using Cons by simp
  show ?case
    by (simp add: s b t IH absent_sections_def r del: render_seg.simps)
qed

lemma reconcile_render:
  assumes "valid_sections secs retired" and "wf_doc d"
  shows "reconcile_sections (render_doc d) secs retired = Inr (render_doc (reconcile_doc secs retired d))"
proof -
  have "list_all (\<lambda>sec. \<not> bad_id (sec_name sec) \<and> sec_name sec \<notin> set retired
      \<and> bodies secs (sec_name sec) = Some (section_body sec)) secs"
    using assms(1) by (auto simp: valid_sections_def list_all_iff bodies_def intro!: map_of_is_SomeI)
      (auto simp: distinct_map comp_def inj_on_def)
  from append_missing_doc [OF assms(2) this refl]
  show ?thesis
    by (simp add: reconcile_sections_def check_valid [OF assms(1)] check_retired_ok [OF assms(1)]
        scan_doc [OF assms(2)] case_prod_unfold reconcile_doc_def)
      (simp add: render_doc_def)
qed

text \<open>The sample configuration and document of the witnesses.\<close>

definition sample_sections :: "managed_section list" where
  "sample_sections = [\<lparr>sec_name = ''a'', sec_content = ''x'', existing_only = False\<rparr>]"

definition sample_doc :: "seg list" where
  "sample_doc = [Plain (''t'' @ [nl]), Block ''a'' (''y'' @ [nl]), Block ''r'' [], Block ''u'' (''z'' @ [nl])]"

lemma sample_valid: "valid_sections sample_sections [''r'']"
  by code_simp

lemma sample_wf: "wf_doc sample_doc"
  by code_simp

text \<open>C1. On the bytes of a well-formed document \<open>ReconcileSections\<close> computes exactly the bytes of the
  reconciled document: retired blocks dropped, the first block of each active section rewritten, its
  duplicates dropped, unknown blocks and plain text kept byte for byte, absent sections appended.\<close>

theorem reconcile_refines:
  assumes "valid_sections secs retired" and "wf_doc d"
  shows "reconcile_sections (render_doc d) secs retired = Inr (render_doc (reconcile_doc secs retired d))"
  by (rule reconcile_render [OF assms])

theorem reconcile_refines_witness:
  "reconcile_sections (render_doc sample_doc) sample_sections [''r'']
    = Inr (render_doc [Plain (''t'' @ [nl]), Block ''a'' (''x'' @ [nl]), Block ''u'' (''z'' @ [nl])])"
proof -
  have "reconcile_doc sample_sections [''r''] sample_doc
      = [Plain (''t'' @ [nl]), Block ''a'' (''x'' @ [nl]), Block ''u'' (''z'' @ [nl])]"
    by code_simp
  then show ?thesis using reconcile_refines [OF sample_valid sample_wf] by simp
qed

lemma rewrite_append:
  "rewrite_segs new retired seen (d @ e) =
    (let (out, seen1) = rewrite_segs new retired seen d; (out2, seen2) = rewrite_segs new retired seen1 e
     in (out @ out2, seen2))"
  by (induction new retired seen d rule: rewrite_segs.induct)
    (auto simp: Let_def case_prod_unfold split: option.splits)

lemma rewrite_idem:
  "rewrite_segs new retired seen (fst (rewrite_segs new retired seen d)) = rewrite_segs new retired seen d"
  by (induction new retired seen d rule: rewrite_segs.induct)
    (auto simp: Let_def case_prod_unfold split: option.splits)

lemma rewrite_wf:
  "wf_doc d \<Longrightarrow> (\<And>n body. new n = Some body \<Longrightarrow> marker_free body) \<Longrightarrow> wf_doc (fst (rewrite_segs new retired seen d))"
  by (induction new retired seen d rule: rewrite_segs.induct)
    (auto simp: Let_def case_prod_unfold split: option.splits)

lemma rewrite_names:
  "set (seg_names (fst (rewrite_segs new retired seen d))) =
    {n \<in> set (seg_names d). n \<notin> set retired \<and> (new n \<noteq> None \<longrightarrow> n \<notin> set seen)}"
  by (induction new retired seen d rule: rewrite_segs.induct)
    (auto simp: Let_def case_prod_unfold split: option.splits)

fun named :: "string \<Rightarrow> seg \<Rightarrow> bool" where
  "named n (Plain t) \<longleftrightarrow> False"
| "named n (Block m body) \<longleftrightarrow> m = n"

fun foreign :: "string list \<Rightarrow> seg \<Rightarrow> bool" where
  "foreign owned (Plain t) \<longleftrightarrow> True"
| "foreign owned (Block m body) \<longleftrightarrow> m \<notin> set owned"

lemma rewrite_foreign:
  "(\<And>n. new n \<noteq> None \<Longrightarrow> n \<in> set owned) \<Longrightarrow> set retired \<subseteq> set owned \<Longrightarrow>
    filter (foreign owned) (fst (rewrite_segs new retired seen d)) = filter (foreign owned) d"
  by (induction new retired seen d rule: rewrite_segs.induct)
    (auto simp: Let_def case_prod_unfold split: option.splits)

lemma rewrite_named_seen:
  "new n = Some body \<Longrightarrow> n \<in> set seen \<or> n \<notin> set (seg_names d) \<Longrightarrow>
    filter (named n) (fst (rewrite_segs new retired seen d)) = []"
  by (induction new retired seen d rule: rewrite_segs.induct)
    (auto simp: Let_def case_prod_unfold split: option.splits)

lemma rewrite_named:
  "new n = Some body \<Longrightarrow> n \<notin> set retired \<Longrightarrow> n \<notin> set seen \<Longrightarrow> n \<in> set (seg_names d) \<Longrightarrow>
    filter (named n) (fst (rewrite_segs new retired seen d)) = [Block n body]"
  by (induction new retired seen d rule: rewrite_segs.induct)
    (auto simp: Let_def case_prod_unfold rewrite_named_seen split: option.splits)

lemma bodies_at:
  assumes "valid_sections secs retired" and "sec \<in> set secs"
  shows "bodies secs (sec_name sec) = Some (section_body sec)"
  using assms unfolding bodies_def valid_sections_def
  by (intro map_of_is_SomeI) (auto simp: comp_def)

lemma bodies_free:
  assumes "valid_sections secs retired" and "bodies secs n = Some body"
  shows "marker_free body \<and> \<not> bad_id n"
proof -
  obtain sec where sec: "sec \<in> set secs" "n = sec_name sec" "body = section_body sec"
    using assms(2) unfolding bodies_def by (auto dest!: map_of_SomeD)
  with assms(1) have no: "\<not> contains (sec_content sec) ''<!-- harnez:''" and "\<not> bad_id n"
    unfolding valid_sections_def list_all_iff by blast+
  have h: "nl \<notin> set ''<!-- harnez:''" "''<!-- harnez:'' \<noteq> []" by simp_all
  have "\<not> contains (trim_right (sec_content sec) [nl]) ''<!-- harnez:''"
    using no contains_trim_right by blast
  then have "\<not> contains (trim_right (sec_content sec) [nl] @ nl # []) ''<!-- harnez:''"
    using contains_line [OF h, of _ "[]"] by (simp add: contains_def)
  then have "marker_free body"
    unfolding marker_free_def sec section_body_def by (simp add: line_complete_def)
  with \<open>\<not> bad_id n\<close> show ?thesis by blast
qed

lemma absent_names: "set (seg_names (absent_sections secs d)) =
    {sec_name sec | sec. sec \<in> set secs \<and> \<not> existing_only sec \<and> sec_name sec \<notin> set (seg_names d)}"
  by (induction secs) (auto simp: absent_sections_def)

lemma seg_names_append [simp]: "seg_names (d @ e) = seg_names d @ seg_names e"
  by (induction d rule: seg_names.induct) auto

lemma absent_rewrite:
  assumes "distinct (map sec_name secs)"
    and "\<forall>sec\<in>set secs. sec_name sec \<notin> set retired \<and> new (sec_name sec) = Some (section_body sec)"
    and "\<forall>n\<in>set (seg_names (absent_sections secs d)). n \<notin> set seen"
  shows "fst (rewrite_segs new retired seen (absent_sections secs d)) = absent_sections secs d"
  using assms
proof (induction secs arbitrary: seen)
  case Nil
  then show ?case by (simp add: absent_sections_def)
next
  case (Cons sec secs)
  have "sec_name sec \<notin> set (seg_names (absent_sections secs d))"
    using Cons.prems(1) by (auto simp: absent_names)
  with Cons.prems have "\<forall>n\<in>set (seg_names (absent_sections secs d)). n \<notin> set (sec_name sec # seen)"
    by (auto simp: absent_sections_def)
  with Cons.prems Cons.IH [of "sec_name sec # seen"] Cons.IH [of seen] show ?case
    by (auto simp: absent_sections_def case_prod_unfold Let_def)
qed

lemma reconcile_wf:
  assumes "valid_sections secs retired" and "wf_doc d"
  shows "wf_doc (reconcile_doc secs retired d)"
proof -
  have "wf_doc (absent_sections secs d)"
    using bodies_free [OF assms(1) bodies_at [OF assms(1)]] by (auto simp: absent_sections_def list_all_iff)
  with rewrite_wf [OF assms(2), of "bodies secs"] bodies_free [OF assms(1)] show ?thesis
    by (simp add: reconcile_doc_def)
qed

lemma reconcile_doc_idem:
  assumes "valid_sections secs retired"
  shows "reconcile_doc secs retired (reconcile_doc secs retired d) = reconcile_doc secs retired d"
proof -
  let ?new = "bodies secs" and ?a = "absent_sections secs d"
  let ?r = "rewrite_segs ?new retired [] d"
  have d: "distinct (map sec_name secs)" using assms by (simp add: valid_sections_def)
  have act: "\<forall>sec\<in>set secs. sec_name sec \<notin> set retired \<and> ?new (sec_name sec) = Some (section_body sec)"
    using bodies_at [OF assms] assms by (auto simp: valid_sections_def list_all_iff)
  have "\<forall>n\<in>set (seg_names ?a). n \<notin> set (snd ?r)"
    by (auto simp: absent_names rewrite_seen)
  then have "fst (rewrite_segs ?new retired (snd ?r) ?a) = ?a"
    using absent_rewrite [OF d act] by blast
  then have rw: "fst (rewrite_segs ?new retired [] (fst ?r @ ?a)) = fst ?r @ ?a"
    by (simp add: rewrite_append rewrite_idem case_prod_unfold Let_def)
  have "sec_name sec \<in> set (seg_names (fst ?r @ ?a))" if "sec \<in> set secs" "\<not> existing_only sec" for sec
    using that act by (auto simp: rewrite_names absent_names)
  then have "absent_sections secs (fst ?r @ ?a) = []"
    by (auto simp: absent_sections_def filter_empty_conv)
  with rw show ?thesis by (simp add: reconcile_doc_def)
qed

text \<open>Reconciling a well-formed document twice is reconciling it once: the second run of
  \<open>ReconcileSections\<close> returns its input byte for byte.\<close>

theorem reconcile_idempotent:
  assumes "valid_sections secs retired" and "wf_doc d"
    and "reconcile_sections (render_doc d) secs retired = Inr s"
  shows "reconcile_sections s secs retired = Inr s"
  using assms(3) reconcile_render [OF assms(1) reconcile_wf [OF assms(1,2)]]
  by (auto simp: reconcile_render [OF assms(1,2)] reconcile_doc_idem [OF assms(1)])

theorem reconcile_idempotent_witness:
  "reconcile_sections (render_doc (reconcile_doc sample_sections [''r''] sample_doc)) sample_sections [''r'']
    = Inr (render_doc (reconcile_doc sample_sections [''r''] sample_doc))"
  by (rule reconcile_idempotent [OF sample_valid sample_wf reconcile_render [OF sample_valid sample_wf]])

lemma absent_named:
  assumes "sec \<in> set secs" and "distinct (map sec_name secs)"
  shows "filter (named (sec_name sec)) (absent_sections secs d) =
    (if existing_only sec \<or> sec_name sec \<in> set (seg_names d) then [] else [Block (sec_name sec) (section_body sec)])"
proof -
  have "filter (\<lambda>x. sec_name x = sec_name sec) secs = [sec]"
    using filter_distinct_key [OF assms(2,1)] .
  then have "filter (\<lambda>x. \<not> existing_only x \<and> sec_name x \<notin> set (seg_names d))
      (filter (\<lambda>x. sec_name x = sec_name sec) secs)
      = (if existing_only sec \<or> sec_name sec \<in> set (seg_names d) then [] else [sec])"
    by (simp only: filter.simps) simp
  then have "filter (\<lambda>x. sec_name x = sec_name sec)
      (filter (\<lambda>x. \<not> existing_only x \<and> sec_name x \<notin> set (seg_names d)) secs)
      = (if existing_only sec \<or> sec_name sec \<in> set (seg_names d) then [] else [sec])"
    by (simp only: filter_filter conj_commute)
  moreover have "filter (named (sec_name sec)) (map (\<lambda>x. Block (sec_name x) (section_body x)) xs)
      = map (\<lambda>x. Block (sec_name x) (section_body x)) (filter (\<lambda>x. sec_name x = sec_name sec) xs)" for xs
    by (induction xs) auto
  ultimately show ?thesis unfolding absent_sections_def by simp
qed



lemma check_sections_Inr:
  "check_sections secs desired = Inr desired' \<Longrightarrow>
    list_all (\<lambda>sec. \<not> bad_id (sec_name sec) \<and> \<not> contains (sec_content sec) ''<!-- harnez:'') secs
    \<and> distinct (map sec_name secs)
    \<and> (\<forall>n. desired' n = None \<longleftrightarrow> desired n = None \<and> n \<notin> set (map sec_name secs))
    \<and> (\<forall>sec\<in>set secs. desired (sec_name sec) = None)"
proof (induction secs arbitrary: desired)
  case Nil
  then show ?case by simp
next
  case (Cons sec secs)
  then show ?case by (auto split: if_splits dest!: Cons.IH)
qed

lemma check_retired_None:
  "check_retired ids desired = None \<Longrightarrow> list_all (\<lambda>i. \<not> bad_id i \<and> desired i = None) ids"
  by (induction ids) (auto split: if_splits)

lemma check_sections_err: "check_sections secs desired \<noteq> Inl SlicePanic"
  by (induction secs arbitrary: desired) auto

lemma check_retired_err: "check_retired ids desired \<noteq> Some SlicePanic"
  by (induction ids) auto

text \<open>\<open>ReconcileSections\<close> reports a configuration error exactly for an invalid configuration: an empty
  or ill-formed ID, a duplicate ID, a content with a marker in it, an ID both active and retired. The
  file being reconciled plays no part in it.\<close>

theorem reconcile_rejects:
  "(\<exists>err. reconcile_sections existing secs retired = Inl err \<and> err \<noteq> SlicePanic) \<longleftrightarrow> \<not> valid_sections secs retired"
proof
  assume "\<exists>err. reconcile_sections existing secs retired = Inl err \<and> err \<noteq> SlicePanic"
  then show "\<not> valid_sections secs retired"
    by (auto simp: reconcile_sections_def check_valid check_retired_ok split: option.splits)
next
  assume bad: "\<not> valid_sections secs retired"
  show "\<exists>err. reconcile_sections existing secs retired = Inl err \<and> err \<noteq> SlicePanic"
  proof (cases "check_sections secs Map.empty")
    case (Inl err)
    then show ?thesis using check_sections_err [of secs Map.empty] by (auto simp: reconcile_sections_def)
  next
    case (Inr desired)
    from check_sections_Inr [OF this] bad check_retired_None [of retired desired]
    have "check_retired retired desired \<noteq> None"
      by (auto simp: valid_sections_def list_all_iff)
    with Inr show ?thesis
      using check_retired_err [of retired desired] by (auto simp: reconcile_sections_def)
  qed
qed

text \<open>A begin marker with an empty name, \<open><!-- harnez:begin -->\<close>, makes \<open>ReconcileSections\<close> panic for
  every valid configuration: the close marker is found one byte before the end of the prefix, and the
  slice between them has a negative length.\<close>

theorem reconcile_empty_name_panics:
  assumes "valid_sections secs retired"
  shows "reconcile_sections (''<!-- harnez:begin -->'' @ t) secs retired = Inl SlicePanic"
proof -
  have eq: "''<!-- harnez:begin -->'' @ t = begin_prefix @ ''-->'' @ t"
    by (simp add: begin_prefix_def)
  have "''<!-- harnez:begin -->'' @ t = ''<!-- harnez:begin'' @ marker_close @ t"
    by (simp add: marker_close_def)
  then have close: "index_of (''<!-- harnez:begin -->'' @ t) marker_close = Some (length ''<!-- harnez:begin'')"
    using index_of_last_fresh [of marker_close "''<!-- harnez:begin''" t] by (simp add: marker_close_def)
  have "index_of (''<!-- harnez:begin -->'' @ t) begin_prefix = Some 0"
    unfolding eq by (rule index_of_begin)
  then have "scan_sections desired retired seen (''<!-- harnez:begin -->'' @ t) = None" for desired seen
    by (subst scan_sections.simps) (simp only: close option.case Let_def drop_0, simp add: begin_prefix_def)
  then show ?thesis
    by (simp only: reconcile_sections_def check_valid [OF assms] check_retired_ok [OF assms] sum.case option.case)
qed

theorem reconcile_empty_name_panics_witness:
  "reconcile_sections (''<!-- harnez:begin -->'' @ [nl]) sample_sections [''r''] = Inl SlicePanic"
  by (rule reconcile_empty_name_panics [OF sample_valid])

section \<open>Pruning a document\<close>

fun kept_seg :: "string list \<Rightarrow> seg \<Rightarrow> bool" where
  "kept_seg keep (Plain t) \<longleftrightarrow> True"
| "kept_seg keep (Block n body) \<longleftrightarrow> n \<in> set keep"

lemma mend_no_prefix:
  assumes "\<not> bad_id m"
  shows "\<not> contains (mend MDMarkers m) begin_prefix"
proof
  assume "contains (mend MDMarkers m) begin_prefix"
  then obtain p q where *: "''<!-- harnez:end '' @ m @ marker_close = p @ begin_prefix @ q"
    unfolding contains_iff mend_split by auto
  show False
  proof (cases p)
    case Nil
    with * show False by (simp add: begin_prefix_def)
  next
    case (Cons c p')
    have "CHR ''<'' \<in> set (p' @ begin_prefix @ q)" by (simp add: begin_prefix_def)
    then have "CHR ''<'' \<in> set (tl (''<!-- harnez:end '' @ m @ marker_close))" unfolding * by (simp add: Cons)
    then show False using good_id(3) [OF assms] by (simp add: marker_close_def)
  qed
qed

lemma block_rest_free:
  assumes "\<not> bad_id n" and "marker_free body"
  shows "\<not> contains (nl # body @ mend MDMarkers n @ [nl]) begin_prefix"
proof -
  have "\<not> contains [] begin_prefix" using begin_prefix_line(2) by (simp add: contains_def)
  moreover have "\<not> contains (mend MDMarkers n @ nl # []) begin_prefix"
    using mend_no_prefix [OF assms(1)] calculation by (simp only: contains_line [OF begin_prefix_line]) simp
  ultimately show ?thesis
    using contains_line [OF begin_prefix_line, of "[]" "body @ mend MDMarkers n @ [nl]"]
      contains_complete [OF marker_free_line [OF assms(2)] begin_prefix_line] marker_free_no(1) [OF assms(2)]
    by simp
qed

text \<open>One round of the loop at a block: a kept one is stepped over, another one is cut out.\<close>

lemma prune_block:
  assumes n: "\<not> bad_id n" and b: "marker_free body"
    and p: "line_complete p" "i \<le> length p" "line_complete (drop i p)" "\<not> contains (drop i p) begin_prefix"
  shows "prune_loop keep (p @ render_seg (Block n body) @ t) i =
    (if n \<in> set keep then prune_loop keep (p @ render_seg (Block n body) @ t) (length p + length begin_prefix + length n + 4)
     else prune_loop keep (p @ t) (length p))"
proof -
  let ?blk = "begin_prefix @ n @ marker_close @ nl # body @ mend MDMarkers n @ nl # t"
  let ?all = "p @ ?blk"
  have len4: "length marker_close = 4" by (simp add: marker_close_def)
  have "index_of (drop i p @ ?blk) begin_prefix = Some (length p - i)"
    using index_of_complete [OF p(3) begin_prefix_line p(4), of ?blk] by (simp only: index_of_begin) simp
  then have start: "index_of (drop i ?all) begin_prefix = Some (length p - i)" using p(2) by simp
  have close: "index_of (drop (length p + length begin_prefix) ?all) marker_close = Some (length n)"
    using index_of_close(2) [OF n, of "nl # body @ mend MDMarkers n @ nl # t"] by simp
  have name: "take (length n) (drop (length p + length begin_prefix) ?all) = n" by simp
  have stop: "index_of (drop (length n + (length p + length begin_prefix) + 4) ?all) (mend MDMarkers n) = Some (1 + length body)"
    using index_of_end [OF n b, of "nl # t"] len4 by simp
  let ?pre = "p @ begin_prefix @ n @ marker_close @ nl # body @ mend MDMarkers n"
  have skip: "skip_newline ?all (length n + (length p + length begin_prefix) + 4 + (1 + length body) + length (mend MDMarkers n))
      = Suc (length ?pre)"
    using skip_newline_at [of "length ?pre" ?pre t] len4 by (simp add: ac_simps)
  have tk: "take (length p) ?all = p" "drop (Suc (length ?pre)) ?all = t" by simp_all
  have o: "i + (length p - i) = length p" using p(2) by simp
  have lt: "i < length ?all" using p(2) by (simp add: begin_prefix_def)
  have "prune_loop keep ?all i = (if n \<in> set keep then prune_loop keep ?all (length n + (length p + length begin_prefix) + 4)
     else prune_loop keep (p @ t) (length p))"
    by (subst prune_loop.simps)
      (simp only: lt if_True start option.case Let_def o close name good_id(4) [OF n] if_False stop skip
        line_start_complete [OF p(1)] tk)
  then show ?thesis by (simp only: block_begin) (simp add: ac_simps)
qed

lemma prune_doc:
  assumes "wf_doc d" and "line_complete p" "i \<le> length p" "line_complete (drop i p)"
    "\<not> contains (drop i p) begin_prefix"
  shows "prune_loop keep (p @ render_doc d) i = p @ render_doc (filter (kept_seg keep) d)"
  using assms
proof (induction d arbitrary: p i)
  case Nil
  then show ?case
    by (subst prune_loop.simps) (auto simp: render_doc_def contains_def split: option.splits)
next
  case (Cons x d)
  have r: "render_doc (y # z) = render_seg y @ render_doc z" for y z by (simp add: render_doc_def)
  show ?case
  proof (cases x)
    case (Plain t)
    with Cons.prems have t: "marker_free t" by simp
    have "prune_loop keep ((p @ t) @ render_doc d) i = (p @ t) @ render_doc (filter (kept_seg keep) d)"
      using Cons.prems t marker_free_line [OF t] marker_free_no(1) [OF t]
      by (intro Cons.IH) (auto intro: line_complete_append simp: contains_complete [OF _ begin_prefix_line])
    with Plain show ?thesis by (simp add: r)
  next
    case (Block n body)
    with Cons.prems have n: "\<not> bad_id n" and b: "marker_free body" and d: "wf_doc d" by auto
    let ?blk = "render_seg (Block n body)"
    show ?thesis
    proof (cases "n \<in> set keep")
      case True
      let ?i = "length p + length begin_prefix + length n + 4"
      have tl: "drop ?i (p @ ?blk) = nl # body @ mend MDMarkers n @ [nl]"
        by (simp add: mbegin_split marker_close_def)
      have lb: "line_complete ?blk" by (simp add: line_complete_def)
      have "prune_loop keep ((p @ ?blk) @ render_doc d) ?i = (p @ ?blk) @ render_doc (filter (kept_seg keep) d)"
      proof (rule Cons.IH [OF d])
        show "line_complete (p @ ?blk)" using Cons.prems(2) lb by (rule line_complete_append)
        show "?i \<le> length (p @ ?blk)" by (simp add: mbegin_split marker_close_def)
        show "line_complete (drop ?i (p @ ?blk))" unfolding tl by (simp add: line_complete_def)
        show "\<not> contains (drop ?i (p @ ?blk)) begin_prefix" unfolding tl by (rule block_rest_free [OF n b])
      qed
      then show ?thesis
        using True Block prune_block [OF n b Cons.prems(2-5), of keep "render_doc d"]
        by (simp add: r del: render_seg.simps)
    next
      case False
      have "prune_loop keep (p @ render_doc d) (length p) = p @ render_doc (filter (kept_seg keep) d)"
        using d Cons.prems(2) begin_prefix_line(2)
        by (intro Cons.IH) (auto simp: contains_def line_complete_def)
      then show ?thesis
        using False Block prune_block [OF n b Cons.prems(2-5), of keep "render_doc d"]
        by (simp add: r del: render_seg.simps)
    qed
  qed
qed

text \<open>\<open>PruneSections\<close> on a readable file that holds a well-formed document removes exactly the blocks
  whose names are not kept, reports a change exactly when there was such a block, and leaves every other
  file as it was.\<close>

theorem prune_refines:
  assumes "wf_doc d"
  shows "prune_sections (sound_fsys (fs(path \<mapsto> render_doc d))) path keep =
    ((\<not> list_all (kept_seg keep) d, None),
     sound_fsys (fs(path \<mapsto> render_doc (filter (kept_seg keep) d))))"
proof -
  have loop: "prune_loop keep (render_doc d) 0 = render_doc (filter (kept_seg keep) d)"
    using prune_doc [OF assms, of "[]" 0 keep] begin_prefix_line(2) by (simp add: contains_def line_complete_def)
  have "render_doc (filter (kept_seg keep) d) = render_doc d \<longleftrightarrow> list_all (kept_seg keep) d"
  proof
    have shorter: "length (render_doc (filter (kept_seg keep) d)) \<le> length (render_doc d)" for d
      by (induction d) (auto simp: render_doc_def)
    have pos: "\<not> kept_seg keep x \<Longrightarrow> 0 < length (render_seg x)" for x by (cases x) auto
    assume "render_doc (filter (kept_seg keep) d) = render_doc d"
    then have "length (render_doc (filter (kept_seg keep) d)) = length (render_doc d)" by simp
    then show "list_all (kept_seg keep) d"
    proof (induction d)
      case Nil
      then show ?case by simp
    next
      case (Cons x d)
      then show ?case using shorter [of d] pos [of x] by (cases "kept_seg keep x") (auto simp: render_doc_def)
    qed
  qed (metis filter_True list_all_iff)
  then show ?thesis by (auto simp: prune_sections_def loop Let_def list_all_iff)
qed

theorem prune_refines_witness:
  "prune_sections (sound_fsys [''p'' \<mapsto> render_doc sample_doc]) ''p'' [''a'', ''r'']
    = ((True, None), sound_fsys [''p'' \<mapsto>
        render_doc [Plain (''t'' @ [nl]), Block ''a'' (''y'' @ [nl]), Block ''r'' []]])"
proof -
  have "filter (kept_seg [''a'', ''r'']) sample_doc = [Plain (''t'' @ [nl]), Block ''a'' (''y'' @ [nl]), Block ''r'' []]"
    "list_all (kept_seg [''a'', ''r'']) sample_doc = False" by code_simp+
  then show ?thesis using prune_refines [OF sample_wf, of Map.empty "''p''" "[''a'', ''r'']"] by simp
qed

end
