(* ===== verification/Utf8.thy ===== *)
theory Utf8
  imports GoBase
begin

text \<open>
  UTF-8 as Go decodes it (package \<open>unicode/utf8\<close>): \<open>rune_size\<close> is the width of the rune at the front
  of a byte string, \<^const>\<open>None\<close> where Go yields \<open>RuneError\<close> with width 1. Ranging over a string steps
  by these widths, and writing such a rune back writes its bytes, or the three bytes of U+FFFD.
\<close>

definition byte :: "char \<Rightarrow> nat" where
  "byte c = of_char c"

definition byte_in :: "nat \<Rightarrow> nat \<Rightarrow> string \<Rightarrow> nat \<Rightarrow> bool" where
  "byte_in lo hi s i \<longleftrightarrow> i < length s \<and> lo \<le> byte (s ! i) \<and> byte (s ! i) \<le> hi"

fun rune_size :: "string \<Rightarrow> nat option" where
  "rune_size [] = None"
| "rune_size (c # cs) =
     (let b = byte c in
      if b < 0x80 then Some 1
      else if 0xC2 \<le> b \<and> b \<le> 0xDF then (if byte_in 0x80 0xBF cs 0 then Some 2 else None)
      else if 0xE0 \<le> b \<and> b \<le> 0xEF then
        (if byte_in (if b = 0xE0 then 0xA0 else 0x80) (if b = 0xED then 0x9F else 0xBF) cs 0
            \<and> byte_in 0x80 0xBF cs 1
         then Some 3 else None)
      else if 0xF0 \<le> b \<and> b \<le> 0xF4 then
        (if byte_in (if b = 0xF0 then 0x90 else 0x80) (if b = 0xF4 then 0x8F else 0xBF) cs 0
            \<and> byte_in 0x80 0xBF cs 1 \<and> byte_in 0x80 0xBF cs 2
         then Some 4 else None)
      else None)"

definition rune_width :: "string \<Rightarrow> nat" where
  "rune_width s = (case rune_size s of Some k \<Rightarrow> k | None \<Rightarrow> 1)"

definition rune_error :: string where
  "rune_error = [CHR 0xEF, CHR 0xBF, CHR 0xBD]"

definition rune_out :: "string \<Rightarrow> string" where
  "rune_out s = (case rune_size s of Some k \<Rightarrow> take k s | None \<Rightarrow> rune_error)"

lemma rune_size_range: "rune_size s = Some k \<Longrightarrow> 1 \<le> k \<and> k \<le> length s"
  by (cases s) (auto simp: Let_def byte_in_def Suc_le_eq split: if_splits)

lemma rune_width_pos [simp]: "0 < rune_width s"
  using rune_size_range [of s] by (auto simp: rune_width_def split: option.splits)

lemma rune_width_le [simp]: "rune_width (c # cs) \<le> Suc (length cs)"
  using rune_size_range [of "c # cs"] by (auto simp: rune_width_def split: option.splits)

lemma rune_width_ascii [simp]: "byte c < 0x80 \<Longrightarrow> rune_width (c # cs) = 1"
  by (simp add: rune_width_def)

lemma rune_out_ascii [simp]: "byte c < 0x80 \<Longrightarrow> rune_out (c # cs) = [c]"
  by (simp add: rune_out_def)

text \<open>The bytes of a rune after its first are continuation bytes, and an error writes no ASCII byte.\<close>

lemma rune_size_high:
  "rune_size (c # cs) = Some k \<Longrightarrow> 0x80 \<le> byte c \<Longrightarrow> i < k \<Longrightarrow> 0x80 \<le> byte ((c # cs) ! i)"
  by (cases i rule: nat.exhaust; auto simp: Let_def byte_in_def nth_Cons numeral_2_eq_2 numeral_3_eq_3 less_Suc_eq
      split: if_splits nat.splits)

lemma rune_out_high:
  assumes "0x80 \<le> byte c" and "d \<in> set (rune_out (c # cs))"
  shows "0x80 \<le> byte d"
proof (cases "rune_size (c # cs)")
  case None
  with assms show ?thesis by (auto simp: rune_out_def rune_error_def byte_def)
next
  case (Some k)
  with assms(2) obtain i where "i < k" "i < length (c # cs)" "d = (c # cs) ! i"
    by (auto simp: rune_out_def in_set_conv_nth simp del: length_Cons)
  with rune_size_high [OF Some assms(1)] show ?thesis by simp
qed

lemma rune_width_high:
  assumes "0x80 \<le> byte c" and "i < rune_width (c # cs)"
  shows "i < length (c # cs) \<and> 0x80 \<le> byte ((c # cs) ! i)"
proof (cases "rune_size (c # cs)")
  case None
  with assms show ?thesis by (simp add: rune_width_def)
next
  case (Some k)
  with assms rune_size_high [OF Some assms(1)] rune_size_range [OF Some] show ?thesis
    by (auto simp: rune_width_def)
qed

section \<open>The runes of a string\<close>

text \<open>\<open>[]rune(s)\<close>, each rune as the bytes \<open>string(rs)\<close> writes for it.\<close>

function rune_list :: "string \<Rightarrow> string list" where
  "rune_list [] = []"
| "rune_list (c # cs) = rune_out (c # cs) # rune_list (drop (rune_width (c # cs)) (c # cs))"
  by pat_completeness auto

termination
proof (relation "measure length")
  fix c :: char and cs
  show "(drop (rune_width (c # cs)) (c # cs), c # cs) \<in> measure length"
    using rune_width_pos [of "c # cs"] by simp
qed simp

definition valid_rune :: "string \<Rightarrow> bool" where
  "valid_rune r \<longleftrightarrow> rune_size r = Some (length r)"

lemma byte_in_append: "byte_in lo hi s i \<Longrightarrow> byte_in lo hi (s @ t) i"
  by (simp add: byte_in_def nth_append)

lemma rune_size_append: "rune_size s = Some k \<Longrightarrow> rune_size (s @ t) = Some k"
  by (cases s) (auto simp: Let_def byte_in_append split: if_splits)

lemma byte_in_take: "byte_in lo hi s i \<Longrightarrow> i < k \<Longrightarrow> byte_in lo hi (take k s) i"
  by (simp add: byte_in_def)

lemma rune_size_take:
  assumes "rune_size s = Some k"
  shows "rune_size (take k s) = Some k"
proof (cases s)
  case Nil
  with assms show ?thesis by simp
next
  case (Cons c cs)
  moreover from rune_size_range [OF assms] obtain j where "k = Suc j" by (cases k) auto
  ultimately show ?thesis
    using assms by (auto simp: Let_def intro!: byte_in_take split: if_splits)
qed

lemma rune_out_valid: "valid_rune (rune_out (c # cs))"
proof (cases "rune_size (c # cs)")
  case None
  have "rune_size rune_error = Some 3" by code_simp
  with None show ?thesis by (simp add: rune_out_def valid_rune_def rune_error_def)
next
  case (Some k)
  from rune_size_take [OF Some] rune_size_range [OF Some] Some show ?thesis
    by (simp add: rune_out_def valid_rune_def min_def)
qed

lemma rune_list_valid: "r \<in> set (rune_list s) \<Longrightarrow> valid_rune r"
  by (induction s rule: rune_list.induct) (auto simp: rune_out_valid)

lemma rune_list_valid_append:
  assumes "valid_rune r"
  shows "rune_list (r @ s) = r # rune_list s"
proof (cases r)
  case Nil
  with assms show ?thesis by (simp add: valid_rune_def)
next
  case (Cons c cs)
  have "rune_size (r @ s) = Some (length r)" using assms rune_size_append by (simp add: valid_rune_def)
  with Cons show ?thesis by (simp add: rune_out_def rune_width_def)
qed

lemma rune_list_concat: "list_all valid_rune rs \<Longrightarrow> rune_list (concat rs) = rs"
  by (induction rs) (auto simp: rune_list_valid_append)

lemma rune_list_take: "rune_list (concat (take k (rune_list s))) = take k (rune_list s)"
  by (rule rune_list_concat) (auto simp: list_all_iff rune_list_valid dest: in_set_takeD)

end
