(* ===== verification/Ring.thy ===== *)
theory Ring
  imports Utf8
begin

text \<open>
  The bounded output buffer of background jobs: \<open>internal/tui/jobs/ring.go\<close>.

  \<open>ring\<close> is the Go struct with its line cache; \<open>ring_write\<close> is \<open>Write\<close> with its two regimes (growing,
  then circular) and its bulk path. The abstraction \<open>ring_bytes\<close> is the code's \<open>Bytes\<close>. The locale
  \<open>bounded_sink\<close> is what the job manager relies on: a sink holds the last bytes written to it and
  remembers whether it lost any. The second half is \<open>Lines\<close>, the display-safe view.
\<close>

section \<open>State and operations\<close>

record ring =
  rbuf :: string
  rsize :: nat
  rstart :: nat
  rn :: nat
  rdropped :: bool
  rlines :: "string list option"

definition NewRing :: "int \<Rightarrow> ring" where
  "NewRing sz = \<lparr>rbuf = [], rsize = nat (max sz 1), rstart = 0, rn = 0, rdropped = False, rlines = None\<rparr>"

text \<open>The loop of \<open>Write\<close>. A ring of size 0, on which the source would divide by zero, is never built.\<close>

function write_loop :: "ring \<Rightarrow> string \<Rightarrow> ring" where
  "write_loop r p =
     (if p = [] \<or> rsize r = 0 then r
      else if length (rbuf r) < rsize r then
        let k = min (rsize r - length (rbuf r)) (length p)
        in write_loop (r\<lparr>rbuf := rbuf r @ take k p, rn := rn r + k\<rparr>) (drop k p)
      else
        let stop = (rstart r + rn r) mod rsize r;
            chunk = min (rsize r - stop) (length p);
            r1 = r\<lparr>rbuf := take stop (rbuf r) @ take chunk p @ drop (stop + chunk) (rbuf r),
                   rn := rn r + chunk\<rparr>;
            r2 = (if rn r1 > rsize r
                  then r1\<lparr>rstart := (rstart r + rn r1 - rsize r) mod rsize r, rn := rsize r, rdropped := True\<rparr>
                  else r1)
        in write_loop r2 (drop chunk p))"
  by pat_completeness auto
termination by (relation "measure (\<lambda>(r, p). length p)") (auto simp: min_def)

declare write_loop.simps [simp del]

definition ring_write :: "ring \<Rightarrow> string \<Rightarrow> ring" where
  "ring_write r p =
     (if p = [] then r
      else if rsize r \<le> length p
      then r\<lparr>rlines := None, rdropped := rdropped r \<or> 0 < rn r \<or> rsize r < length p,
             rbuf := drop (length p - rsize r) p, rstart := 0, rn := rsize r\<rparr>
      else write_loop (r\<lparr>rlines := None\<rparr>) p)"

definition ring_reset :: "ring \<Rightarrow> ring" where
  "ring_reset r = r\<lparr>rbuf := [], rstart := 0, rn := 0, rdropped := False, rlines := None\<rparr>"

definition ring_len :: "ring \<Rightarrow> nat" where
  "ring_len r = rn r"

definition ring_truncated :: "ring \<Rightarrow> bool" where
  "ring_truncated r = rdropped r"

definition ring_bytes :: "ring \<Rightarrow> string" where
  "ring_bytes r =
     (let stop = rstart r + rn r
      in if stop \<le> length (rbuf r) then take (stop - rstart r) (drop (rstart r) (rbuf r))
         else drop (rstart r) (rbuf r) @ take (stop - length (rbuf r)) (rbuf r))"

section \<open>The last bytes written\<close>

definition lastn :: "nat \<Rightarrow> string \<Rightarrow> string" where
  "lastn k s = drop (length s - k) s"

lemma lastn_short [simp]: "length s \<le> k \<Longrightarrow> lastn k s = s"
  by (simp add: lastn_def)

lemma length_lastn [simp]: "length (lastn k s) = min k (length s)"
  by (simp add: lastn_def)

lemma lastn_append: "lastn k (lastn k s @ t) = lastn k (s @ t)"
  by (cases "length s \<le> k") (simp_all add: lastn_def add.commute)

lemma lastn_append2: "lastn k (s @ lastn k t) = lastn k (s @ t)"
  by (cases "length t \<le> k") (simp_all add: lastn_def)

lemma lastn_lastn [simp]: "lastn k (lastn k s) = lastn k s"
  using lastn_append [of k s "[]"] by simp

definition ring_ok :: "ring \<Rightarrow> bool" where
  "ring_ok r \<longleftrightarrow> 0 < rsize r \<and> length (rbuf r) \<le> rsize r \<and> rn r = length (rbuf r)
     \<and> (length (rbuf r) < rsize r \<longrightarrow> rstart r = 0) \<and> rstart r < rsize r"

lemma ring_bytes_ok: "ring_ok r \<Longrightarrow> ring_bytes r = drop (rstart r) (rbuf r) @ take (rstart r) (rbuf r)"
  by (cases "length (rbuf r) < rsize r") (auto simp: ring_ok_def ring_bytes_def Let_def)

lemma ring_bytes_length: "ring_ok r \<Longrightarrow> length (ring_bytes r) = rn r"
  by (auto simp: ring_bytes_ok ring_ok_def min_def)

text \<open>One round of the loop in each regime.\<close>

lemma write_loop_grow:
  assumes "p \<noteq> []" and "length (rbuf r) < rsize r"
  shows "write_loop r p =
    (let k = min (rsize r - length (rbuf r)) (length p)
     in write_loop (r\<lparr>rbuf := rbuf r @ take k p, rn := rn r + k\<rparr>) (drop k p))"
  using assms by (subst write_loop.simps) (simp add: Let_def)

lemma write_loop_full:
  assumes "p \<noteq> []" and "rn r = rsize r" "length (rbuf r) = rsize r" "rstart r < rsize r"
  shows "write_loop r p =
    (let c = min (rsize r - rstart r) (length p)
     in write_loop (r\<lparr>rbuf := take (rstart r) (rbuf r) @ take c p @ drop (rstart r + c) (rbuf r),
         rstart := (rstart r + c) mod rsize r, rn := rsize r, rdropped := True\<rparr>) (drop c p))"
  using assms by (subst write_loop.simps) (simp add: Let_def)

lemma write_loop_sound:
  assumes "ring_ok r"
  shows "ring_ok (write_loop r p) \<and> rsize (write_loop r p) = rsize r \<and> rlines (write_loop r p) = rlines r
    \<and> ring_bytes (write_loop r p) = lastn (rsize r) (ring_bytes r @ p)
    \<and> rdropped (write_loop r p) = (rdropped r \<or> rsize r < rn r + length p)"
  using assms
proof (induction "length p" arbitrary: r p rule: less_induct)
  case less
  then have pos: "0 < rsize r" by (simp add: ring_ok_def)
  consider (nil) "p = []" | (grow) "p \<noteq> []" "length (rbuf r) < rsize r"
    | (full) "p \<noteq> []" "\<not> length (rbuf r) < rsize r" by blast
  then show ?case
  proof cases
    case nil
    with less show ?thesis
      by (subst (1 2 3 4 5) write_loop.simps) (auto simp: ring_bytes_length ring_ok_def)
  next
    case grow
    let ?k = "min (rsize r - length (rbuf r)) (length p)"
    let ?r = "r\<lparr>rbuf := rbuf r @ take ?k p, rn := rn r + ?k\<rparr>"
    have ok: "ring_ok ?r" using less grow by (auto simp: ring_ok_def)
    have b: "ring_bytes ?r = ring_bytes r @ take ?k p"
      using less grow by (simp add: ring_bytes_ok ok ring_ok_def)
    have eq: "write_loop r p = write_loop ?r (drop ?k p)"
      using write_loop_grow [OF grow] by (simp only: Let_def)
    have lt: "length (drop ?k p) < length p" using grow by (cases p) auto
    from less(1) [OF lt ok] show ?thesis unfolding eq b by (simp add: min_def)
  next
    case full
    with less have n: "rn r = rsize r" "length (rbuf r) = rsize r" "rstart r < rsize r"
      by (auto simp: ring_ok_def)
    let ?c = "min (rsize r - rstart r) (length p)"
    let ?r = "r\<lparr>rbuf := take (rstart r) (rbuf r) @ take ?c p @ drop (rstart r + ?c) (rbuf r),
       rstart := (rstart r + ?c) mod rsize r, rn := rsize r, rdropped := True\<rparr>"
    have c: "0 < ?c" "?c \<le> length p" "rstart r + ?c \<le> rsize r" using full n by auto
    have ok: "ring_ok ?r" using n c pos by (auto simp: ring_ok_def)
    have b: "ring_bytes ?r = drop ?c (ring_bytes r @ take ?c p)"
      unfolding ring_bytes_ok [OF ok] ring_bytes_ok [OF less(2)]
      using n c by (cases "rstart r + ?c = rsize r") (auto simp: add.commute)
    have eq: "write_loop r p = write_loop ?r (drop ?c p)"
      using write_loop_full [OF full(1) n] by (simp only: Let_def)
    have len: "length (ring_bytes r) = rsize r" using ring_bytes_length [OF less(2)] n by simp
    then have "drop ?c (ring_bytes r @ take ?c p) = lastn (rsize r) (ring_bytes r @ take ?c p)"
      using c by (simp add: lastn_def)
    then have hist: "lastn (rsize r) (ring_bytes ?r @ drop ?c p) = lastn (rsize r) (ring_bytes r @ p)"
      unfolding b by (simp add: lastn_append)
    have lt: "length (drop ?c p) < length p" using c by (simp del: min_less_iff_conj)
    obtain q where q: "q = ?r" by blast
    have r: "rsize q = rsize r" "rlines q = rlines r" "rdropped q" unfolding q by simp_all
    have gt: "rsize r < rn r + length p" using full(1) n by simp
    from less(1) [OF lt ok] hist show ?thesis
      unfolding eq q [symmetric] r by (simp only: gt r(3) simp_thms)
  qed
qed

lemma ring_write_sound:
  assumes "ring_ok r"
  shows "ring_ok (ring_write r p)" "rsize (ring_write r p) = rsize r"
    "ring_bytes (ring_write r p) = lastn (rsize r) (ring_bytes r @ p)"
    "rdropped (ring_write r p) = (rdropped r \<or> rsize r < length (ring_bytes r) + length p)"
    "rlines (ring_write r p) = (if p = [] then rlines r else None)"
proof -
  let ?r = "r\<lparr>rlines := None\<rparr>"
  have loop: "ring_ok ?r" "ring_bytes ?r = ring_bytes r" "rsize ?r = rsize r" "rn ?r = rn r" "rdropped ?r = rdropped r"
    using assms by (simp_all add: ring_ok_def ring_bytes_def Let_def)
  note w = write_loop_sound [OF loop(1), of p]
  have short: "length (ring_bytes r) \<le> rsize r"
    using ring_bytes_length [OF assms] assms by (simp add: ring_ok_def)
  let ?f = "r\<lparr>rlines := None, rdropped := rdropped r \<or> 0 < rn r \<or> rsize r < length p,
      rbuf := drop (length p - rsize r) p, rstart := 0, rn := rsize r\<rparr>"
  have bulk: "ring_ok ?f \<and> ring_bytes ?f = lastn (rsize r) (ring_bytes r @ p)" if "rsize r \<le> length p"
  proof -
    have "ring_ok ?f" using that assms by (simp add: ring_ok_def)
    moreover have "lastn (rsize r) (ring_bytes r @ p) = drop (length p - rsize r) p"
      using that by (simp add: lastn_def)
    ultimately show ?thesis by (simp add: ring_bytes_ok)
  qed
  show "ring_ok (ring_write r p)" "rsize (ring_write r p) = rsize r"
    "ring_bytes (ring_write r p) = lastn (rsize r) (ring_bytes r @ p)"
    "rdropped (ring_write r p) = (rdropped r \<or> rsize r < length (ring_bytes r) + length p)"
    "rlines (ring_write r p) = (if p = [] then rlines r else None)"
    using assms w bulk loop short ring_bytes_length [OF assms] by (auto simp: ring_write_def)
qed

lemma ring_new_ok: "ring_ok (NewRing k)" "ring_bytes (NewRing k) = []" "rsize (NewRing k) = nat (max k 1)"
    "rdropped (NewRing k) = False"
  by (auto simp: NewRing_def ring_ok_def ring_bytes_def)

lemma ring_reset_ok:
  "ring_ok r \<Longrightarrow> ring_ok (ring_reset r) \<and> ring_bytes (ring_reset r) = [] \<and> rsize (ring_reset r) = rsize r
    \<and> \<not> rdropped (ring_reset r)"
  by (auto simp: ring_reset_def ring_ok_def ring_bytes_def)

section \<open>The interface of a bounded sink\<close>

locale tail_sink =
  fixes put :: "'r \<Rightarrow> string \<Rightarrow> 'r"
    and bytes :: "'r \<Rightarrow> string"
    and cap :: "'r \<Rightarrow> nat"
    and ok :: "'r \<Rightarrow> bool"
  assumes write_ok: "ok r \<Longrightarrow> ok (put r p)"
    and cap_put: "ok r \<Longrightarrow> cap (put r p) = cap r"
    and bytes_write: "ok r \<Longrightarrow> bytes (put r p) = lastn (cap r) (bytes r @ p)"
begin

definition keeps :: "'r \<Rightarrow> string \<Rightarrow> bool" where
  "keeps r hist \<longleftrightarrow> ok r \<and> bytes r = lastn (cap r) hist"

lemma keeps_write: "keeps r hist \<Longrightarrow> keeps (put r p) (hist @ p)"
  unfolding keeps_def by (auto simp: write_ok cap_put bytes_write lastn_append)

lemma keeps_writes: "keeps r hist \<Longrightarrow> keeps (foldl put r ps) (hist @ concat ps)"
proof (induction ps arbitrary: r hist)
  case (Cons p ps)
  from Cons.IH [OF keeps_write [OF Cons.prems]] show ?case by simp
qed simp

lemma cap_writes: "ok r \<Longrightarrow> cap (foldl put r ps) = cap r"
  by (induction ps arbitrary: r) (simp_all add: write_ok cap_put)

end

text \<open>A sink that also remembers whether it lost bytes.\<close>

locale bounded_sink = tail_sink put bytes cap ok
  for put :: "'r \<Rightarrow> string \<Rightarrow> 'r" and bytes :: "'r \<Rightarrow> string" and cap :: "'r \<Rightarrow> nat" and ok :: "'r \<Rightarrow> bool" +
  fixes lost :: "'r \<Rightarrow> bool"
  assumes lost_write: "ok r \<Longrightarrow> lost (put r p) \<longleftrightarrow> lost r \<or> cap r < length (bytes r) + length p"
begin

text \<open>A sink \<open>holds\<close> a history when it shows its last bytes and has lost some exactly when it is longer.\<close>

definition holds :: "'r \<Rightarrow> string \<Rightarrow> bool" where
  "holds r hist \<longleftrightarrow> ok r \<and> bytes r = lastn (cap r) hist \<and> (lost r \<longleftrightarrow> cap r < length hist)"

lemma holds_write: "holds r hist \<Longrightarrow> holds (put r p) (hist @ p)"
  unfolding holds_def
  by (auto simp: write_ok cap_put bytes_write lost_write lastn_append min_def split: if_splits)

lemma holds_writes: "holds r hist \<Longrightarrow> holds (foldl put r ps) (hist @ concat ps)"
proof (induction ps arbitrary: r hist)
  case Nil
  then show ?case by simp
next
  case (Cons p ps)
  from Cons.IH [OF holds_write [OF Cons.prems]] show ?case by simp
qed

text \<open>
  Two sinks in a row lose no more than one: what the first still shows, written to the second, leaves
  the second showing the last bytes of the whole history.
\<close>

lemma relay_bytes:
  assumes "holds r hist" and "holds q fresh" and "cap q = cap r"
  shows "bytes (put r (bytes q)) = lastn (cap r) (hist @ fresh)"
  using assms by (simp add: holds_def bytes_write lastn_append lastn_append2)

lemma relay_lost:
  assumes "holds r hist" and "holds q fresh" and "cap q = cap r"
  shows "lost q \<or> lost (put r (bytes q)) \<longleftrightarrow> cap r < length (hist @ fresh)"
  using assms by (auto simp: holds_def lost_write min_def split: if_splits)

end

interpretation ring_sink: bounded_sink ring_write ring_bytes rsize ring_ok rdropped
  by unfold_locales (simp_all add: ring_write_sound)

text \<open>C3. A ring shows exactly the last \<open>size\<close> bytes of everything ever written to it, in any sequence of
  writes, and reports a truncation exactly when more than that was written.\<close>

theorem ring_refines_history:
  "ring_bytes (foldl ring_write (NewRing k) ps) = lastn (nat (max k 1)) (concat ps)
    \<and> (ring_truncated (foldl ring_write (NewRing k) ps) \<longleftrightarrow> nat (max k 1) < length (concat ps))
    \<and> ring_len (foldl ring_write (NewRing k) ps) = min (nat (max k 1)) (length (concat ps))"
proof -
  have "ring_sink.holds (NewRing k) []"
    by (auto simp: ring_sink.holds_def ring_new_ok lastn_def)
  from ring_sink.holds_writes [OF this, of ps]
  have h: "ring_sink.holds (foldl ring_write (NewRing k) ps) (concat ps)" by simp
  have "rsize (foldl ring_write (NewRing k) ps) = nat (max k 1)"
    by (simp add: ring_new_ok ring_sink.cap_writes)
  with h show ?thesis
    using ring_bytes_length [of "foldl ring_write (NewRing k) ps"]
    by (auto simp: ring_sink.holds_def ring_truncated_def ring_len_def)
qed

section \<open>Display lines\<close>

abbreviation esc :: char where "esc \<equiv> CHR 0x1B"
abbreviation bel :: char where "bel \<equiv> CHR 0x07"
abbreviation cr :: char where "cr \<equiv> CHR 0x0D"

definition byte_range :: "nat \<Rightarrow> nat \<Rightarrow> char \<Rightarrow> bool" where
  "byte_range lo hi c \<longleftrightarrow> lo \<le> byte c \<and> byte c \<le> hi"

definition sgr_param :: "char \<Rightarrow> bool" where
  "sgr_param c \<longleftrightarrow> byte_range 0x30 0x39 c \<or> c = CHR '';''"

definition csi_param :: "char \<Rightarrow> bool" where
  "csi_param c \<longleftrightarrow> sgr_param c \<or> c = CHR ''?''"

text \<open>
  \<open>escSeq\<close>, after its leading ESC: the length of the leftmost-first match, if any. The byte classes of
  a control sequence are disjoint, so no backtracking is possible. The last alternative is any rune
  but a newline.
\<close>

definition csi_len :: "string \<Rightarrow> nat option" where
  "csi_len s =
     (let ps = takeWhile csi_param s; r1 = dropWhile csi_param s;
          is = takeWhile (byte_range 0x20 0x2F) r1; r2 = dropWhile (byte_range 0x20 0x2F) r1
      in if r2 \<noteq> [] \<and> byte_range 0x40 0x7E (hd r2) then Some (length ps + length is + 1) else None)"

definition osc_len :: "string \<Rightarrow> nat option" where
  "osc_len s =
     (let body = takeWhile (\<lambda>c. c \<noteq> bel \<and> c \<noteq> esc) s; r = dropWhile (\<lambda>c. c \<noteq> bel \<and> c \<noteq> esc) s
      in if has_prefix r [bel] then Some (length body + 1)
         else if has_prefix r [esc, CHR 0x5C] then Some (length body + 2)
         else None)"

definition esc_len :: "string \<Rightarrow> nat option" where
  "esc_len s =
     (if s = [] then None
      else if hd s = CHR ''['' \<and> csi_len (tl s) \<noteq> None then map_option Suc (csi_len (tl s))
      else if hd s = CHR '']'' \<and> osc_len (tl s) \<noteq> None then map_option Suc (osc_len (tl s))
      else if hd s = nl then None
      else Some (rune_width s))"

text \<open>\<open>sgrSeq\<close> matches a whole sequence.\<close>

definition is_sgr :: "string \<Rightarrow> bool" where
  "is_sgr seq \<longleftrightarrow> has_prefix seq [esc, CHR ''['']
     \<and> dropWhile sgr_param (drop 2 seq) = [CHR ''m'']"

definition keep_sgr :: "string \<Rightarrow> string" where
  "keep_sgr seq = (if is_sgr seq then seq else [])"

function strip_escapes :: "string \<Rightarrow> string" where
  "strip_escapes [] = []"
| "strip_escapes (c # cs) =
     (if c \<noteq> esc then c # strip_escapes cs
      else case esc_len cs of
        None \<Rightarrow> c # strip_escapes cs
      | Some k \<Rightarrow> keep_sgr (c # take k cs) @ strip_escapes (drop k cs))"
  by pat_completeness auto
termination by (relation "measure length") (auto simp: less_Suc_eq_le)

function clean_runes :: "string \<Rightarrow> string" where
  "clean_runes [] = []"
| "clean_runes (c # cs) =
     (if c = CHR 0x09 then ''    '' @ clean_runes cs
      else if c = esc then c # clean_runes cs
      else if byte c < 0x20 \<or> byte c = 0x7F then clean_runes cs
      else rune_out (c # cs) @ clean_runes (drop (rune_width (c # cs)) (c # cs)))"
  by pat_completeness auto
termination
proof (relation "measure length", goal_cases)
  case (5 c cs)
  have "0 < rune_width (c # cs)" by (rule rune_width_pos)
  then show ?case by (cases "rune_width (c # cs)") (auto simp: less_Suc_eq_le)
qed auto

definition clean_line :: "string \<Rightarrow> string" where
  "clean_line l =
     clean_runes (case last_index_of (trim_suffix l [cr]) [cr] of None \<Rightarrow> l | Some i \<Rightarrow> drop (i + 1) l)"

definition ring_lines0 :: "ring \<Rightarrow> string list" where
  "ring_lines0 r =
     (let s = ring_bytes r;
          s1 = (if rdropped r then (case index_of s [nl] of Some i \<Rightarrow> drop (i + 1) s | None \<Rightarrow> s) else s);
          s2 = trim_suffix (strip_escapes s1) [nl]
      in if s2 = [] then [] else map clean_line (split_on nl s2))"

definition ring_lines :: "ring \<Rightarrow> string list \<times> ring" where
  "ring_lines r =
     (case rlines r of
        None \<Rightarrow> (ring_lines0 r, r\<lparr>rlines := Some (ring_lines0 r)\<rparr>)
      | Some ls \<Rightarrow> (ls, r))"

section \<open>What a display line may hold\<close>

text \<open>
  \<open>styled N s\<close>: every ESC of \<open>s\<close> starts an SGR sequence, or stands before a byte of \<open>N\<close>, or is the last
  byte of \<open>s\<close>.
\<close>

inductive styled :: "char set \<Rightarrow> string \<Rightarrow> bool" for N where
  styled_Nil: "styled N []"
| styled_char: "c \<noteq> esc \<Longrightarrow> styled N s \<Longrightarrow> styled N (c # s)"
| styled_sgr: "list_all sgr_param ps \<Longrightarrow> styled N s \<Longrightarrow> styled N (esc # CHR ''['' # ps @ CHR ''m'' # s)"
| styled_bare: "s = [] \<or> hd s \<in> N \<Longrightarrow> styled N s \<Longrightarrow> styled N (esc # s)"

inductive_cases styled_ConsE: "styled N (c # s)"

definition displayable :: "char \<Rightarrow> bool" where
  "displayable c \<longleftrightarrow> c = esc \<or> (0x20 \<le> byte c \<and> byte c \<noteq> 0x7F)"

definition display_line :: "string \<Rightarrow> bool" where
  "display_line l \<longleftrightarrow> styled {} l \<and> list_all displayable l"

lemma styled_append: "styled N s \<Longrightarrow> esc \<notin> set p \<Longrightarrow> styled N (p @ s)"
  by (induction p) (auto intro: styled_char)

lemma is_sgr_form:
  assumes "is_sgr seq"
  obtains ps where "seq = esc # CHR ''['' # ps @ [CHR ''m'']" and "list_all sgr_param ps"
proof -
  from assms obtain t where seq: "seq = esc # CHR ''['' # t" and t: "dropWhile sgr_param t = [CHR ''m'']"
    by (auto simp: is_sgr_def has_prefix_iff numeral_2_eq_2)
  have "t = takeWhile sgr_param t @ [CHR ''m'']" using t by (metis takeWhile_dropWhile_id)
  moreover have "list_all sgr_param (takeWhile sgr_param t)"
    by (auto simp: list_all_iff dest: set_takeWhileD)
  ultimately show thesis using that [of "takeWhile sgr_param t"] seq by simp
qed

lemma esc_len_None: "esc_len s = None \<Longrightarrow> s = [] \<or> hd s = nl"
  by (auto simp: esc_len_def split: if_splits)

lemma strip_styled: "styled {nl} (strip_escapes s)"
proof (induction s rule: strip_escapes.induct)
  case 1
  show ?case by (simp add: styled_Nil)
next
  case (2 c cs)
  show ?case
  proof (cases "c = esc")
    case False
    with 2 show ?thesis by (simp add: styled_char)
  next
    case True
    show ?thesis
    proof (cases "esc_len cs")
      case None
      from esc_len_None [OF this] have "strip_escapes cs = [] \<or> hd (strip_escapes cs) = nl"
        by (cases cs) auto
      with 2 True None show ?thesis by (auto intro: styled_bare)
    next
      case (Some k)
      with 2 True have IH: "styled {nl} (strip_escapes (drop k cs))" by simp
      have "styled {nl} (keep_sgr (esc # take k cs) @ strip_escapes (drop k cs))"
      proof (cases "is_sgr (esc # take k cs)")
        case True
        then obtain ps where "esc # take k cs = esc # CHR ''['' # ps @ [CHR ''m'']" "list_all sgr_param ps"
          by (rule is_sgr_form)
        with styled_sgr [OF this(2) IH] True show ?thesis by (simp add: keep_sgr_def)
      next
        case False
        with IH show ?thesis by (simp add: keep_sgr_def)
      qed
      with True Some show ?thesis by simp
    qed
  qed
qed

text \<open>Cutting at a newline or a carriage return never cuts through an SGR sequence.\<close>

definition separator :: "char \<Rightarrow> bool" where
  "separator d \<longleftrightarrow> d = nl \<or> d = cr"

lemma separator_no_sgr: "separator d \<Longrightarrow> \<not> sgr_param d \<and> d \<noteq> esc \<and> d \<noteq> CHR ''['' \<and> d \<noteq> CHR ''m''"
  by (auto simp: separator_def sgr_param_def byte_range_def byte_def)

lemma styled_cut:
  assumes "styled N (a @ d # b)" and "separator d"
  shows "styled N a \<and> styled N b"
  using assms(1)
proof (induction "a @ d # b" arbitrary: a rule: styled.induct)
  case styled_Nil
  then show ?case by simp
next
  case (styled_char c s)
  then show ?case by (cases a) (auto intro: styled.intros)
next
  case (styled_sgr ps s)
  note no = separator_no_sgr [OF assms(2)]
  from styled_sgr(4) no obtain a2 where a: "a = esc # CHR ''['' # a2"
      and eq: "ps @ CHR ''m'' # s = a2 @ d # b"
    by (cases a; cases "tl a") auto
  have "\<exists>a3. a2 = ps @ CHR ''m'' # a3 \<and> s = a3 @ d # b"
    using eq styled_sgr(1) no
  proof (induction ps arbitrary: a2)
    case Nil
    then show ?case by (cases a2) auto
  next
    case (Cons p ps)
    then show ?case by (cases a2) auto
  qed
  then obtain a3 where a3: "a2 = ps @ CHR ''m'' # a3" "s = a3 @ d # b" by blast
  from styled_sgr(3) [OF a3(2)] styled.styled_sgr [OF styled_sgr(1), of N a3] a a3 show ?case by simp
next
  case (styled_bare s)
  note no = separator_no_sgr [OF assms(2)]
  from styled_bare(4) no obtain a2 where a: "a = esc # a2" and eq: "s = a2 @ d # b"
    by (cases a) auto
  have "a2 = [] \<or> hd a2 \<in> N" using styled_bare(1) eq by (cases a2) auto
  with styled_bare(3) [OF eq] a show ?case by (auto intro: styled.styled_bare)
qed

lemma styled_no_bare: "styled N a \<Longrightarrow> set a \<inter> N = {} \<Longrightarrow> styled {} a"
proof (induction rule: styled.induct)
  case (styled_bare s)
  then have "s = []" by (cases s) auto
  then show ?case by (auto intro: styled.intros)
qed (auto intro: styled.intros)

lemma styled_split: "styled {nl} s \<Longrightarrow> w \<in> set (split_on nl s) \<Longrightarrow> styled {} w"
proof (induction "length s" arbitrary: s rule: less_induct)
  case less
  show ?case
  proof (cases "nl \<in> set s")
    case False
    then have "split_on nl s = [s]" by (induction s) auto
    with less False show ?thesis by (auto intro: styled_no_bare)
  next
    case True
    then obtain a b where s: "s = a @ nl # b" "nl \<notin> set a" by (metis split_list_first)
    have "split_on nl (a @ nl # b) = a # split_on nl b" using s(2) by (induction a) auto
    moreover have "styled {nl} a" "styled {nl} b"
      using styled_cut [of "{nl}" a nl b] less(2) s by (auto simp: separator_def)
    ultimately show ?thesis
      using less(1) [of b] less(3) s styled_no_bare [of "{nl}" a] by auto
  qed
qed

lemma styled_drop_high:
  "styled N s \<Longrightarrow> k \<le> length s \<Longrightarrow> \<forall>i<k. 0x80 \<le> byte (s ! i) \<Longrightarrow> styled N (drop k s)"
proof (induction k arbitrary: s)
  case 0
  then show ?case by simp
next
  case (Suc k)
  then obtain c t where s: "s = c # t" by (cases s) auto
  with Suc.prems(3) have "0x80 \<le> byte c" by force
  then have "c \<noteq> esc" by (auto simp: byte_def)
  with Suc.prems(1) s have "styled N t" by (auto elim: styled_ConsE)
  moreover have "\<forall>i<k. 0x80 \<le> byte (t ! i)" using Suc.prems(3) s by force
  ultimately show ?case using Suc s by simp
qed

lemma displayable_high: "0x80 \<le> byte c \<Longrightarrow> displayable c \<and> c \<noteq> esc"
  by (auto simp: displayable_def byte_def)

lemma clean_sgr: "list_all sgr_param ps \<Longrightarrow> clean_runes (ps @ CHR ''m'' # s) = ps @ CHR ''m'' # clean_runes s"
proof (induction ps)
  case Nil
  then show ?case by (simp add: byte_def)
next
  case (Cons c ps)
  then have "c \<noteq> CHR 0x09" "c \<noteq> esc" "\<not> (byte c < 0x20 \<or> byte c = 0x7F)" "byte c < 0x80"
    by (auto simp: sgr_param_def byte_range_def byte_def)
  with Cons show ?case by simp
qed

lemma sgr_param_displayable: "sgr_param c \<Longrightarrow> displayable c"
  by (auto simp: sgr_param_def byte_range_def displayable_def byte_def)

lemma clean_display: "styled {} s \<Longrightarrow> display_line (clean_runes s)"
proof (induction "length s" arbitrary: s rule: less_induct)
  case less
  show ?case
  proof (cases s)
    case Nil
    then show ?thesis by (simp add: display_line_def styled_Nil)
  next
    case (Cons c t)
    have IH: "display_line (clean_runes u)" if "styled {} u" "length u \<le> length t" for u
      using less(1) that Cons by simp
    from less(2) Cons consider (char) "c \<noteq> esc" "styled {} t"
      | (sgr) ps u where "c = esc" "t = CHR ''['' # ps @ CHR ''m'' # u" "list_all sgr_param ps" "styled {} u"
      | (bare) "c = esc" "t = []"
      by (auto elim!: styled_ConsE)
    then show ?thesis
    proof cases
      case sgr
      have "clean_runes s = esc # CHR ''['' # ps @ CHR ''m'' # clean_runes u"
        using Cons sgr clean_sgr [OF sgr(3), of u] by (simp add: byte_def)
      moreover have "display_line (clean_runes u)" using IH sgr by simp
      moreover have "list_all displayable (esc # CHR ''['' # ps @ CHR ''m'' # clean_runes u)"
        using \<open>display_line (clean_runes u)\<close> sgr(3) sgr_param_displayable
        by (auto simp: display_line_def displayable_def byte_def list_all_iff)
      ultimately show ?thesis
        using styled_sgr [OF sgr(3)] by (simp only: display_line_def)
    next
      case bare
      with Cons show ?thesis by (simp add: display_line_def displayable_def styled_bare styled_Nil)
    next
      case char
      show ?thesis
      proof (cases "byte c < 0x80")
        case True
        have t: "display_line (clean_runes t)" using IH char by simp
        have "display_line (x # clean_runes t)" if "x \<noteq> esc" "displayable x" for x
          using t that by (auto simp: display_line_def intro: styled_char)
        moreover have "display_line (''    '' @ clean_runes t)"
          using t styled_append [of "{}" "clean_runes t" "''    ''"]
          by (auto simp: display_line_def displayable_def byte_def)
        ultimately show ?thesis using Cons char True t by (auto simp: displayable_def)
      next
        case False
        then have hi: "0x80 \<le> byte c" by simp
        then have ne: "c \<noteq> CHR 0x09" "\<not> (byte c < 0x20 \<or> byte c = 0x7F)" by (auto simp: byte_def)
        let ?w = "rune_width (c # t)"
        have "styled {} (drop ?w s)"
        proof (rule styled_drop_high [OF less(2)])
          show "\<forall>i<?w. 0x80 \<le> byte (s ! i)" using rune_width_high [OF hi, of _ t] Cons by blast
          show "?w \<le> length s"
            using rune_width_le [of c t] Cons by simp
        qed
        moreover have "length (drop ?w s) \<le> length t" 
          using rune_width_pos [of "c # t"] Cons by (cases "rune_width (c # t)") auto
        ultimately have d: "display_line (clean_runes (drop ?w s))" by (rule IH)
        have o: "\<forall>d\<in>set (rune_out (c # t)). displayable d \<and> d \<noteq> esc"
          using rune_out_high [OF hi] displayable_high by blast
        then have "display_line (rune_out (c # t) @ clean_runes (drop ?w s))"
          using d styled_append [of "{}" "clean_runes (drop ?w s)" "rune_out (c # t)"]
          by (auto simp: display_line_def list_all_iff)
        then show ?thesis using Cons char ne by simp
      qed
    qed
  qed
qed

lemma clean_line_display:
  assumes "styled {} l"
  shows "display_line (clean_line l)"
proof (cases "last_index_of (trim_suffix l [cr]) [cr]")
  case None
  with clean_display [OF assms] show ?thesis by (simp add: clean_line_def)
next
  case (Some i)
  have pre: "take (length (trim_suffix l [cr])) l = trim_suffix l [cr]"
    by (auto simp: trim_suffix_def)
  have "i < length (trim_suffix l [cr]) \<and> trim_suffix l [cr] ! i = cr"
    using Some by (rule last_index_of_char_Some)
  then have "i < length l" "l ! i = cr" using pre by (metis length_take min_less_iff_conj nth_take)+
  then have "l = take i l @ cr # drop (i + 1) l" using id_take_nth_drop [of i l] by simp
  then have "styled {} (drop (i + 1) l)"
    using styled_cut [of "{}" "take i l" cr "drop (i + 1) l"] assms by (simp add: separator_def)
  with clean_display Some show ?thesis by (simp add: clean_line_def)
qed

text \<open>Every line of \<open>Lines\<close> is safe to display: no control byte but ESC is left, and an ESC either
  starts an SGR colour sequence or is the last byte of the line.\<close>

theorem ring_lines_safe:
  "list_all display_line (ring_lines0 r)"
proof -
  define s1 where "s1 = (if rdropped r then (case index_of (ring_bytes r) [nl] of
      Some i \<Rightarrow> drop (i + 1) (ring_bytes r) | None \<Rightarrow> ring_bytes r) else ring_bytes r)"
  let ?s = "strip_escapes s1"
  have "styled {nl} (trim_suffix ?s [nl])"
  proof (cases "has_suffix ?s [nl]")
    case True
    then obtain t where "?s = t @ nl # []" by (auto simp: has_suffix_iff)
    with strip_styled [of s1] styled_cut [of "{nl}" t nl "[]"] show ?thesis by (simp add: separator_def)
  next
    case False
    with strip_styled [of s1] show ?thesis by (simp add: trim_suffix_def)
  qed
  moreover have "ring_lines0 r = (if trim_suffix ?s [nl] = [] then []
      else map clean_line (split_on nl (trim_suffix ?s [nl])))"
    by (simp add: ring_lines0_def s1_def Let_def)
  ultimately show ?thesis
    by (auto simp: list_all_iff intro: clean_line_display styled_split)
qed

section \<open>The line cache\<close>

definition coherent :: "ring \<Rightarrow> bool" where
  "coherent r \<longleftrightarrow> ring_ok r \<and> (rlines r = None \<or> rlines r = Some (ring_lines0 r))"

datatype ring_op = OpWrite string | OpReset | OpLines

fun ring_exec :: "ring \<Rightarrow> ring_op \<Rightarrow> ring" where
  "ring_exec r (OpWrite p) = ring_write r p"
| "ring_exec r OpReset = ring_reset r"
| "ring_exec r OpLines = snd (ring_lines r)"

lemma ring_bytes_cache [simp]: "ring_bytes (r\<lparr>rlines := x\<rparr>) = ring_bytes r"
  unfolding ring_bytes_def by (cases r) (simp only: ring.simps)

lemma ring_lines0_cache [simp]: "ring_lines0 (r\<lparr>rlines := x\<rparr>) = ring_lines0 r"
  unfolding ring_lines0_def ring_bytes_cache by simp

lemma coherent_write: "coherent r \<Longrightarrow> coherent (ring_write r p)"
  using ring_write_sound [of r p] by (cases "p = []") (auto simp: coherent_def ring_write_def)

lemma coherent_new: "coherent (NewRing k)"
  by (simp add: coherent_def ring_new_ok) (simp add: NewRing_def)

lemma coherent_reset: "coherent r \<Longrightarrow> coherent (ring_reset r)"
  using ring_reset_ok [of r] by (simp add: coherent_def) (simp add: ring_reset_def)

lemma coherent_lines: "coherent r \<Longrightarrow> coherent (snd (ring_lines r)) \<and> fst (ring_lines r) = ring_lines0 r"
  by (auto simp: coherent_def ring_lines_def ring_ok_def split: option.splits)

lemma coherent_exec: "coherent r \<Longrightarrow> coherent (ring_exec r op)"
  by (cases op) (auto simp: coherent_write coherent_reset coherent_lines)

lemma coherent_execs: "coherent r \<Longrightarrow> coherent (foldl ring_exec r ops)"
  by (induction ops arbitrary: r) (auto simp: coherent_exec)

text \<open>The cached result of \<open>Lines\<close> is never stale: after any sequence of writes, resets and reads it is
  what \<open>lines0\<close> computes from the bytes now held.\<close>

theorem ring_cache_coherent:
  "fst (ring_lines (foldl ring_exec (NewRing k) ops)) = ring_lines0 (foldl ring_exec (NewRing k) ops)"
  using coherent_lines [OF coherent_execs [OF coherent_new]] by blast

section \<open>Plain text, and an escape before a newline\<close>

definition printable :: "char \<Rightarrow> bool" where
  "printable c \<longleftrightarrow> 0x20 \<le> byte c \<and> byte c < 0x7F"

lemma printable_plain: "printable c \<Longrightarrow> c \<noteq> esc \<and> c \<noteq> nl \<and> c \<noteq> cr \<and> c \<noteq> CHR 0x09"
  by (auto simp: printable_def byte_def)

lemma strip_plain: "esc \<notin> set u \<Longrightarrow> strip_escapes (u @ t) = u @ strip_escapes t"
  by (induction u) auto

lemma clean_plain: "list_all printable u \<Longrightarrow> clean_runes (u @ t) = u @ clean_runes t"
proof (induction u)
  case (Cons c u)
  then have "c \<noteq> CHR 0x09" "c \<noteq> esc" "\<not> (byte c < 0x20 \<or> byte c = 0x7F)" "byte c < 0x80"
    using printable_plain [of c] by (auto simp: printable_def)
  with Cons show ?case by simp
qed simp

lemma last_index_of_char_None: "d \<notin> set s \<Longrightarrow> last_index_of s [d] = None"
  by (induction s) (auto simp: has_prefix_def)

text \<open>An ESC before a newline survives the sanitizer: a line of printable text followed by ESC comes
  out with the bare ESC at its end, where the terminal joins it to whatever is drawn next.\<close>

theorem ring_bare_escape_survives:
  assumes "list_all printable u" and "int (length u + 2) \<le> k"
  shows "fst (ring_lines (ring_write (NewRing k) (u @ [esc, nl]))) = [u @ [esc]]"
proof -
  let ?r = "ring_write (NewRing k) (u @ [esc, nl])"
  have no: "esc \<notin> set u" "nl \<notin> set u" "cr \<notin> set u"
    using assms(1) printable_plain by (auto simp: list_all_iff)
  have b: "ring_bytes ?r = u @ [esc, nl]" "\<not> rdropped ?r"
    using assms(2) by (auto simp: ring_write_sound ring_new_ok)
  have "strip_escapes (u @ [esc, nl]) = (u @ [esc]) @ [nl]"
    using strip_plain [OF no(1), of "[esc, nl]"] by (simp add: esc_len_def)
  then have s: "trim_suffix (strip_escapes (u @ [esc, nl])) [nl] = u @ [esc]"
    by (simp only: trim_suffix_append)
  have sp: "split_on nl (u @ [esc]) = [u @ [esc]]" using no(2) by (induction u) auto
  have ts: "trim_suffix (u @ [esc]) [cr] = u @ [esc]"
    by (simp add: trim_suffix_def has_suffix_def)
  have "last_index_of (u @ [esc]) [cr] = None"
    using no(3) by (intro last_index_of_char_None) simp
  then have "clean_line (u @ [esc]) = u @ [esc]"
    using clean_plain [OF assms(1), of "[esc]"] by (simp add: clean_line_def ts byte_def)
  then have "ring_lines0 ?r = [u @ [esc]]"
    by (simp add: ring_lines0_def b s sp)
  then show ?thesis
    using coherent_lines [OF coherent_write [OF coherent_new]] by simp
qed

theorem ring_bare_escape_survives_witness:
  "fst (ring_lines (ring_write (NewRing 16) (''ab'' @ [esc, nl]))) = [''ab'' @ [esc]]"
  by (rule ring_bare_escape_survives) (simp_all add: printable_def byte_def)

end
