(* ===== verification/Jobs.thy ===== *)
theory Jobs
  imports Ring
begin

text \<open>
  Background jobs of the TUI: \<open>internal/tui/jobs/jobs.go\<close>.

  \<open>manager\<close> is the registry with the queue of posted callbacks (loom's \<open>Pane.Post\<close> runs them in
  order on the UI goroutine). The worker goroutines are events: \<open>EvOutput\<close> is one read of the pipe,
  \<open>EvEnd\<close> the end of the process group, \<open>EvUi\<close> one turn of the UI loop. \<open>reading\<close> says that a job's
  workers still run; every other field is the source's. The hooks \<open>OnDone\<close> and \<open>OnOutput\<close> only observe.
  A run of events is a \<open>foldl\<close>-like function that is \<^const>\<open>None\<close> when an event cannot happen, so the
  lemmas hold for every interleaving.
\<close>

section \<open>State\<close>

datatype status = Running | Succeeded | Failed | Cancelled

fun status_string :: "status \<Rightarrow> string" where
  "status_string Running = ''running''"
| "status_string Succeeded = ''succeeded''"
| "status_string Failed = ''failed''"
| "status_string Cancelled = ''cancelled''"

record options =
  LogBytes :: int
  MaxFinished :: int

record job =
  job_id :: nat
  job_command :: string
  job_pid :: int
  job_start :: int
  job_end :: int
  job_status :: status
  job_exit :: int
  job_err :: "string option"
  job_out :: ring
  job_pending :: ring
  job_posted :: bool
  job_cancelled :: bool
  job_reading :: bool

datatype callback = Drain nat | Finish nat int "string option" int

fun callback_job :: "callback \<Rightarrow> nat" where
  "callback_job (Drain i) = i"
| "callback_job (Finish i code err t) = i"

record manager =
  m_opt :: options
  m_jobs :: "job list"
  m_next :: nat
  m_queue :: "callback list"

section \<open>Operations\<close>

definition NewManager :: "options \<Rightarrow> manager" where
  "NewManager opts = \<lparr>m_opt = opts, m_jobs = [], m_next = 1, m_queue = []\<rparr>"

fun find_job :: "nat \<Rightarrow> job list \<Rightarrow> job option" where
  "find_job i [] = None"
| "find_job i (j # js) = (if job_id j = i then Some j else find_job i js)"

definition get_job :: "manager \<Rightarrow> nat \<Rightarrow> job option" where
  "get_job m i = find_job i (m_jobs m)"

definition running_count :: "manager \<Rightarrow> nat" where
  "running_count m = length (filter (\<lambda>j. job_status j = Running) (m_jobs m))"

definition duration :: "job \<Rightarrow> int \<Rightarrow> int" where
  "duration j now = (if job_status j = Running then now - job_start j else job_end j - job_start j)"

definition update_job :: "manager \<Rightarrow> nat \<Rightarrow> (job \<Rightarrow> job) \<Rightarrow> manager" where
  "update_job m i f = m\<lparr>m_jobs := map (\<lambda>j. if job_id j = i then f j else j) (m_jobs m)\<rparr>"

definition post :: "manager \<Rightarrow> callback \<Rightarrow> manager" where
  "post m cb = m\<lparr>m_queue := m_queue m @ [cb]\<rparr>"

text \<open>\<open>Start\<close>, with the outcome of \<open>cmd.Start\<close>: the PID, or \<^const>\<open>None\<close> for an error.\<close>

definition start_job :: "manager \<Rightarrow> string \<Rightarrow> int option \<Rightarrow> int \<Rightarrow> job option \<times> manager" where
  "start_job m command started now =
     (case started of
        None \<Rightarrow> (None, m)
      | Some pid \<Rightarrow>
          let j = \<lparr>job_id = m_next m, job_command = command, job_pid = pid, job_start = now, job_end = 0,
                   job_status = Running, job_exit = 0, job_err = None,
                   job_out = NewRing (LogBytes (m_opt m)), job_pending = NewRing (LogBytes (m_opt m)),
                   job_posted = False, job_cancelled = False, job_reading = True\<rparr>
          in (Some j, m\<lparr>m_next := m_next m + 1, m_jobs := m_jobs m @ [j]\<rparr>))"

definition queue_output :: "manager \<Rightarrow> job \<Rightarrow> string \<Rightarrow> manager" where
  "queue_output m j p =
     (let m' = update_job m (job_id j) (\<lambda>j. j\<lparr>job_pending := ring_write (job_pending j) p, job_posted := True\<rparr>)
      in if \<not> job_posted j then post m' (Drain (job_id j)) else m')"

definition drain_job :: "job \<Rightarrow> job" where
  "drain_job j =
     (let data = ring_bytes (job_pending j);
          dropped = ring_truncated (job_pending j);
          out = (if dropped then (job_out j)\<lparr>rdropped := True\<rparr> else job_out j)
      in j\<lparr>job_pending := ring_reset (job_pending j), job_posted := False, job_out := ring_write out data\<rparr>)"

definition drain_output :: "manager \<Rightarrow> nat \<Rightarrow> manager" where
  "drain_output m i = update_job m i drain_job"

definition finish_job :: "int \<Rightarrow> string option \<Rightarrow> int \<Rightarrow> job \<Rightarrow> job" where
  "finish_job code err t j =
     j\<lparr>job_end := t, job_exit := code, job_err := err,
       job_status := (if job_cancelled j then Cancelled
                      else if code = 0 \<and> err = None then Succeeded else Failed)\<rparr>"

fun prune_jobs :: "int \<Rightarrow> int \<Rightarrow> job list \<Rightarrow> job list" where
  "prune_jobs max_finished ended [] = []"
| "prune_jobs max_finished ended (j # js) =
     (if job_status j \<noteq> Running \<and> max_finished < ended then prune_jobs max_finished (ended - 1) js
      else j # prune_jobs max_finished ended js)"

definition prune :: "manager \<Rightarrow> manager" where
  "prune m =
     m\<lparr>m_jobs := prune_jobs (MaxFinished (m_opt m))
          (int (length (filter (\<lambda>j. job_status j \<noteq> Running) (m_jobs m)))) (m_jobs m)\<rparr>"

definition finish :: "manager \<Rightarrow> nat \<Rightarrow> int \<Rightarrow> string option \<Rightarrow> int \<Rightarrow> manager" where
  "finish m i code err t = prune (update_job m i (finish_job code err t))"

definition cancel :: "manager \<Rightarrow> nat \<Rightarrow> bool \<times> manager" where
  "cancel m i =
     (case get_job m i of
        None \<Rightarrow> (False, m)
      | Some j \<Rightarrow>
          if job_status j \<noteq> Running \<or> job_cancelled j then (False, m)
          else (True, update_job m i (\<lambda>j. j\<lparr>job_cancelled := True\<rparr>)))"

definition shutdown :: "manager \<Rightarrow> manager" where
  "shutdown m = m\<lparr>m_jobs := map (\<lambda>j. if job_status j = Running then j\<lparr>job_cancelled := True\<rparr> else j) (m_jobs m)\<rparr>"

text \<open>
  The signals \<open>terminate\<close> sends to the process group, by whether the group is gone at the first
  \<open>select\<close> and whether it goes within the grace period.
\<close>

datatype signal = SIGTERM | SIGKILL

definition terminate_signals :: "bool \<Rightarrow> bool \<Rightarrow> signal list" where
  "terminate_signals gone_before gone_in_grace =
     (if gone_before then [] else if gone_in_grace then [SIGTERM] else [SIGTERM, SIGKILL])"

section \<open>Runs\<close>

datatype event =
    EvStart string "int option" int
  | EvOutput nat string
  | EvEnd nat int "string option" int
  | EvUi
  | EvCancel nat

fun step :: "manager \<Rightarrow> event \<Rightarrow> manager option" where
  "step m (EvStart command started now) = Some (snd (start_job m command started now))"
| "step m (EvOutput i p) =
     (case get_job m i of
        Some j \<Rightarrow> if job_reading j \<and> p \<noteq> [] then Some (queue_output m j p) else None
      | None \<Rightarrow> None)"
| "step m (EvEnd i code err now) =
     (case get_job m i of
        Some j \<Rightarrow> if job_reading j
          then Some (post (update_job m i (\<lambda>j. j\<lparr>job_reading := False\<rparr>)) (Finish i code err now)) else None
      | None \<Rightarrow> None)"
| "step m EvUi =
     (case m_queue m of
        [] \<Rightarrow> None
      | Drain i # q \<Rightarrow> Some (drain_output (m\<lparr>m_queue := q\<rparr>) i)
      | Finish i code err t # q \<Rightarrow> Some (finish (m\<lparr>m_queue := q\<rparr>) i code err t))"
| "step m (EvCancel i) = Some (snd (cancel m i))"

fun run :: "manager \<Rightarrow> event list \<Rightarrow> manager option" where
  "run m [] = Some m"
| "run m (e # es) = (case step m e of None \<Rightarrow> None | Some m' \<Rightarrow> run m' es)"

text \<open>Everything a run read from the pipe of one job.\<close>

fun produced :: "nat \<Rightarrow> event list \<Rightarrow> string" where
  "produced i [] = []"
| "produced i (EvOutput k p # es) = (if k = i then p else []) @ produced i es"
| "produced i (EvStart c s t # es) = produced i es"
| "produced i (EvEnd k c r t # es) = produced i es"
| "produced i (EvUi # es) = produced i es"
| "produced i (EvCancel k # es) = produced i es"

section \<open>The invariant\<close>

definition callbacks :: "nat \<Rightarrow> callback list \<Rightarrow> callback list" where
  "callbacks i q = filter (\<lambda>c. callback_job c = i) q"

text \<open>What the queue holds for a job: at most one drain, then, once the workers are gone, its end.\<close>

definition queue_inv :: "callback list \<Rightarrow> job \<Rightarrow> bool" where
  "queue_inv cbs j \<longleftrightarrow>
     (if job_reading j
      then job_status j = Running \<and> cbs = (if job_posted j then [Drain (job_id j)] else [])
      else if job_status j = Running
      then (\<exists>code err t. cbs = (if job_posted j then [Drain (job_id j)] else []) @ [Finish (job_id j) code err t])
      else cbs = [] \<and> \<not> job_posted j)"

text \<open>The two rings of a job hold its output: the first part drained, the rest pending.\<close>

definition output_inv :: "nat \<Rightarrow> string \<Rightarrow> job \<Rightarrow> bool" where
  "output_inv cap hist j \<longleftrightarrow>
     coherent (job_out j) \<and> rsize (job_out j) = cap \<and> rsize (job_pending j) = cap
     \<and> (\<exists>h1 h2. hist = h1 @ h2 \<and> ring_sink.holds (job_out j) h1 \<and> ring_sink.holds (job_pending j) h2
          \<and> (\<not> job_posted j \<longrightarrow> h2 = []))"

definition status_inv :: "job \<Rightarrow> bool" where
  "status_inv j \<longleftrightarrow> job_status j \<noteq> Running \<longrightarrow>
     (job_status j = Cancelled \<longleftrightarrow> job_cancelled j)
     \<and> (job_status j = Succeeded \<longleftrightarrow> \<not> job_cancelled j \<and> job_exit j = 0 \<and> job_err j = None)"

definition job_inv :: "nat \<Rightarrow> string \<Rightarrow> callback list \<Rightarrow> job \<Rightarrow> bool" where
  "job_inv cap hist cbs j \<longleftrightarrow> queue_inv cbs j \<and> output_inv cap hist j \<and> status_inv j"

definition mgr_cap :: "manager \<Rightarrow> nat" where
  "mgr_cap m = nat (max (LogBytes (m_opt m)) 1)"

definition mgr_inv :: "(nat \<Rightarrow> string) \<Rightarrow> manager \<Rightarrow> bool" where
  "mgr_inv hist m \<longleftrightarrow>
     sorted_wrt (<) (map job_id (m_jobs m))
     \<and> (\<forall>j\<in>set (m_jobs m). job_id j < m_next m
          \<and> job_inv (mgr_cap m) (hist (job_id j)) (callbacks (job_id j) (m_queue m)) j)
     \<and> (\<forall>c\<in>set (m_queue m). callback_job c \<in> job_id ` set (m_jobs m))
     \<and> (\<forall>i\<ge>m_next m. hist i = [])"

subsection \<open>One operation on one job\<close>

lemma output_inv_write:
  assumes "output_inv cap hist j"
  shows "output_inv cap (hist @ p) (j\<lparr>job_pending := ring_write (job_pending j) p, job_posted := True\<rparr>)"
proof -
  from assms obtain h1 h2 where h: "hist = h1 @ h2" "ring_sink.holds (job_out j) h1"
      "ring_sink.holds (job_pending j) h2"
    and c: "coherent (job_out j)" "rsize (job_out j) = cap" "rsize (job_pending j) = cap"
    unfolding output_inv_def by blast
  have "ring_ok (job_pending j)" using h(3) by (simp add: ring_sink.holds_def)
  moreover have "hist @ p = h1 @ (h2 @ p)" using h(1) by simp
  ultimately show ?thesis
    unfolding output_inv_def using h c ring_sink.holds_write [OF h(3), of p]
    by (simp add: ring_write_sound) blast
qed

lemma output_inv_drain:
  assumes "output_inv cap hist j"
  shows "output_inv cap hist (drain_job j)"
proof -
  from assms obtain h1 h2 where h: "hist = h1 @ h2" "ring_sink.holds (job_out j) h1"
      "ring_sink.holds (job_pending j) h2"
    and c: "coherent (job_out j)" "rsize (job_out j) = cap" "rsize (job_pending j) = cap"
    unfolding output_inv_def by blast
  let ?q = "job_pending j" and ?o = "job_out j"
  have ok: "ring_ok ?o" "ring_ok ?q" using h by (simp_all add: ring_sink.holds_def)
  define r where "r = (if rdropped ?q then ?o\<lparr>rdropped := True\<rparr> else ?o)"
  have r: "ring_ok r" "ring_bytes r = ring_bytes ?o" "rsize r = cap" "rdropped r = (rdropped ?o \<or> rdropped ?q)"
    using ok c by (auto simp: r_def ring_ok_def ring_bytes_def Let_def)
  have cap: "rsize ?q = rsize ?o" using c by simp
  have "ring_bytes (ring_write r (ring_bytes ?q)) = lastn cap hist"
    using ring_sink.relay_bytes [OF h(2,3) cap] ok r c h(1) by (simp add: ring_write_sound)
  moreover have "rdropped (ring_write r (ring_bytes ?q)) \<longleftrightarrow> cap < length hist"
    using ring_sink.relay_lost [OF h(2,3) cap] ok r c h(1) by (auto simp: ring_write_sound)
  ultimately have out: "ring_sink.holds (ring_write r (ring_bytes ?q)) hist"
    using r by (simp add: ring_sink.holds_def ring_write_sound)
  have "coherent (ring_write r (ring_bytes ?q))"
  proof (cases "rdropped ?q")
    case True
    then have "cap < length h2" using h(3) c by (simp add: ring_sink.holds_def)
    then have "ring_bytes ?q \<noteq> []" using h(3) c ok
      by (auto simp: ring_sink.holds_def ring_ok_def lastn_def)
    then show ?thesis using r(1) by (simp add: coherent_def ring_write_sound)
  next
    case False
    then show ?thesis using c(1) by (simp add: r_def coherent_write)
  qed
  moreover have "ring_sink.holds (ring_reset ?q) []"
    using ring_reset_ok [OF ok(2)] by (simp add: ring_sink.holds_def)
  moreover have "drain_job j = j\<lparr>job_pending := ring_reset ?q, job_posted := False,
      job_out := ring_write r (ring_bytes ?q)\<rparr>"
    by (simp add: drain_job_def r_def ring_truncated_def Let_def)
  ultimately show ?thesis
    using out r ring_reset_ok [OF ok(2)] c by (simp add: output_inv_def ring_write_sound)
qed

lemma output_inv_frame [simp]:
  "output_inv cap hist (j\<lparr>job_reading := b\<rparr>) = output_inv cap hist j"
  "output_inv cap hist (j\<lparr>job_cancelled := b\<rparr>) = output_inv cap hist j"
  "output_inv cap hist (finish_job code err t j) = output_inv cap hist j"
  by (simp_all add: output_inv_def finish_job_def)

subsection \<open>Steps of the manager\<close>

lemma find_job_Some: "find_job i js = Some j \<Longrightarrow> j \<in> set js \<and> job_id j = i"
  by (induction js) (auto split: if_splits)

lemma find_job_None: "find_job i js = None \<longleftrightarrow> i \<notin> job_id ` set js"
  by (induction js) auto

lemma find_job_in: "i \<in> job_id ` set js \<Longrightarrow> \<exists>j. find_job i js = Some j"
  using find_job_None [of i js] by (cases "find_job i js") auto

lemma mgr_unique:
  "mgr_inv hist m \<Longrightarrow> j \<in> set (m_jobs m) \<Longrightarrow> k \<in> set (m_jobs m) \<Longrightarrow> job_id j = job_id k \<Longrightarrow> j = k"
  unfolding mgr_inv_def
  by (metis distinct_map inj_onD strict_sorted_iff)

lemma update_fields [simp]:
  "m_opt (update_job m i f) = m_opt m" "m_next (update_job m i f) = m_next m"
  "m_queue (update_job m i f) = m_queue m" "m_opt (post m c) = m_opt m" "m_next (post m c) = m_next m"
  "m_jobs (post m c) = m_jobs m" "m_queue (post m c) = m_queue m @ [c]"
  "mgr_cap (update_job m i f) = mgr_cap m" "mgr_cap (post m c) = mgr_cap m"
  "mgr_cap (m\<lparr>m_queue := q\<rparr>) = mgr_cap m"
  by (simp_all add: update_job_def post_def mgr_cap_def)

lemma callbacks_append [simp]: "callbacks i (q @ r) = callbacks i q @ callbacks i r"
  by (simp add: callbacks_def)

lemma callbacks_other: "callback_job c \<noteq> i \<Longrightarrow> callbacks i (c # q) = callbacks i q" "callbacks i [] = []"
  by (simp_all add: callbacks_def)

text \<open>
  Changing one job and the part of the queue that is about it preserves the invariant when the job's
  own invariant is kept. Every step but pruning and starting is of this form.
\<close>

lemma mgr_inv_update:
  assumes inv: "mgr_inv hist m" and j: "get_job m i = Some j"
    and id: "job_id (f j) = i"
    and other: "\<And>k. k \<noteq> i \<Longrightarrow> hist' k = hist k \<and> callbacks k q = callbacks k (m_queue m)"
    and q: "callback_job ` set q \<subseteq> insert i (callback_job ` set (m_queue m))"
    and own: "job_inv (mgr_cap m) (hist' i) (callbacks i q) (f j)"
  shows "mgr_inv hist' (update_job (m\<lparr>m_queue := q\<rparr>) i f)"
proof -
  from j have ij: "j \<in> set (m_jobs m)" "job_id j = i"
    by (auto simp: get_job_def dest: find_job_Some)
  then have lt: "i < m_next m" using inv by (auto simp: mgr_inv_def)
  have same: "k = j" if "k \<in> set (m_jobs m)" "job_id k = i" for k
    using mgr_unique [OF inv that(1) ij(1)] that ij by simp
  have ids: "map job_id (map (\<lambda>k. if job_id k = i then f k else k) (m_jobs m)) = map job_id (m_jobs m)"
    using same id by (auto simp: ij)
  have jobs: "m_jobs (update_job (m\<lparr>m_queue := q\<rparr>) i f) = map (\<lambda>k. if job_id k = i then f k else k) (m_jobs m)"
    by (simp add: update_job_def)
  then have idset: "job_id ` set (m_jobs (update_job (m\<lparr>m_queue := q\<rparr>) i f)) = job_id ` set (m_jobs m)"
    using ids by (metis list.set_map)
  have "sorted_wrt (<) (map job_id (m_jobs (update_job (m\<lparr>m_queue := q\<rparr>) i f)))"
    unfolding jobs ids using inv by (simp add: mgr_inv_def)
  moreover have "\<forall>k\<in>set (m_jobs (update_job (m\<lparr>m_queue := q\<rparr>) i f)). job_id k < m_next m
      \<and> job_inv (mgr_cap m) (hist' (job_id k)) (callbacks (job_id k) q) k"
  proof
    fix k assume "k \<in> set (m_jobs (update_job (m\<lparr>m_queue := q\<rparr>) i f))"
    then obtain k0 where k0: "k0 \<in> set (m_jobs m)" "k = (if job_id k0 = i then f k0 else k0)"
      unfolding jobs by auto
    show "job_id k < m_next m \<and> job_inv (mgr_cap m) (hist' (job_id k)) (callbacks (job_id k) q) k"
    proof (cases "job_id k0 = i")
      case True
      with same [OF k0(1)] k0 own id lt show ?thesis by simp
    next
      case False
      with k0 other inv show ?thesis by (simp add: mgr_inv_def)
    qed
  qed
  moreover have "\<forall>c\<in>set q. callback_job c \<in> job_id ` set (m_jobs (update_job (m\<lparr>m_queue := q\<rparr>) i f))"
  proof
    fix c assume "c \<in> set q"
    then have "callback_job c = i \<or> callback_job c \<in> callback_job ` set (m_queue m)" using q by auto
    then show "callback_job c \<in> job_id ` set (m_jobs (update_job (m\<lparr>m_queue := q\<rparr>) i f))"
      unfolding idset using inv ij by (auto simp: mgr_inv_def)
  qed
  moreover have "\<forall>k\<ge>m_next m. hist' k = []"
    using other lt inv by (metis leD mgr_inv_def)
  ultimately show ?thesis by (simp add: mgr_inv_def)
qed

lemma inv_start:
  assumes "mgr_inv hist m"
  shows "mgr_inv hist (snd (start_job m command started now))"
proof (cases started)
  case None
  with assms show ?thesis by (simp add: start_job_def)
next
  case (Some pid)
  have "\<forall>c\<in>set (m_queue m). callback_job c < m_next m"
    using assms by (fastforce simp: mgr_inv_def)
  then have "callbacks (m_next m) (m_queue m) = []"
    by (auto simp: callbacks_def filter_empty_conv)
  moreover have "ring_sink.holds (NewRing (LogBytes (m_opt m))) []"
    by (auto simp: ring_sink.holds_def ring_new_ok lastn_def)
  ultimately show ?thesis
    using assms Some
    by (auto simp: mgr_inv_def start_job_def Let_def mgr_cap_def sorted_wrt_append job_inv_def queue_inv_def
        output_inv_def status_inv_def coherent_new ring_new_ok less_Suc_eq)
qed

lemma inv_job:
  assumes "mgr_inv hist m" and "get_job m i = Some j"
  shows "job_id j = i" "job_inv (mgr_cap m) (hist i) (callbacks i (m_queue m)) j"
proof -
  from assms(2) have j: "j \<in> set (m_jobs m)" "job_id j = i"
    by (auto simp: get_job_def dest: find_job_Some)
  show "job_id j = i" by (rule j(2))
  from assms(1) j show "job_inv (mgr_cap m) (hist i) (callbacks i (m_queue m)) j"
    by (auto simp: mgr_inv_def)
qed

lemma inv_output:
  assumes inv: "mgr_inv hist m" and j: "get_job m i = Some j" and "job_reading j"
  shows "mgr_inv (hist(i := hist i @ p)) (queue_output m j p)"
proof -
  note own = inv_job [OF inv j]
  let ?f = "\<lambda>j. j\<lparr>job_pending := ring_write (job_pending j) p, job_posted := True\<rparr>"
  let ?q = "m_queue m @ (if job_posted j then [] else [Drain i])"
  have "queue_output m j p = update_job (m\<lparr>m_queue := ?q\<rparr>) i ?f"
    by (simp add: queue_output_def update_job_def post_def own(1) Let_def)
  moreover have "mgr_inv (hist(i := hist i @ p)) (update_job (m\<lparr>m_queue := ?q\<rparr>) i ?f)"
  proof (rule mgr_inv_update [OF inv j])
    show "job_inv (mgr_cap m) ((hist(i := hist i @ p)) i) (callbacks i ?q) (?f j)"
      using own(2) output_inv_write [of "mgr_cap m" "hist i" j p] assms(3)
      by (auto simp: job_inv_def queue_inv_def status_inv_def callbacks_def own(1))
  qed (auto simp: own(1) callbacks_other)
  ultimately show ?thesis by simp
qed

lemma inv_end:
  assumes inv: "mgr_inv hist m" and j: "get_job m i = Some j" and "job_reading j"
  shows "mgr_inv hist (post (update_job m i (\<lambda>j. j\<lparr>job_reading := False\<rparr>)) (Finish i code err now))"
proof -
  note own = inv_job [OF inv j]
  let ?f = "\<lambda>j. j\<lparr>job_reading := False\<rparr>"
  let ?q = "m_queue m @ [Finish i code err now]"
  have "post (update_job m i ?f) (Finish i code err now) = update_job (m\<lparr>m_queue := ?q\<rparr>) i ?f"
    by (simp add: update_job_def post_def)
  moreover have "mgr_inv hist (update_job (m\<lparr>m_queue := ?q\<rparr>) i ?f)"
  proof (rule mgr_inv_update [OF inv j])
    show "job_inv (mgr_cap m) (hist i) (callbacks i ?q) (?f j)"
      using own(2) assms(3)
      by (auto simp: job_inv_def queue_inv_def status_inv_def callbacks_def own(1))
  qed (auto simp: own(1) callbacks_other)
  ultimately show ?thesis by simp
qed

lemma inv_drain:
  assumes inv: "mgr_inv hist m" and q: "m_queue m = Drain i # q"
  shows "mgr_inv hist (drain_output (m\<lparr>m_queue := q\<rparr>) i)"
proof -
  from inv q have "i \<in> job_id ` set (m_jobs m)" by (auto simp: mgr_inv_def)
  then obtain j where j: "get_job m i = Some j" using find_job_in [of i "m_jobs m"] by (auto simp: get_job_def)
  note own = inv_job [OF inv j]
  show ?thesis
    unfolding drain_output_def
  proof (rule mgr_inv_update [OF inv j])
    show "job_inv (mgr_cap m) (hist i) (callbacks i q) (drain_job j)"
      using own(2) output_inv_drain [of "mgr_cap m" "hist i" j] q
      by (auto simp: job_inv_def queue_inv_def status_inv_def callbacks_def own(1) drain_job_def Let_def
          split: if_splits)
  qed (auto simp: own(1) callbacks_def q drain_job_def Let_def)
qed

lemma prune_jobs_subset: "set (prune_jobs x n js) \<subseteq> set js"
  by (induction x n js rule: prune_jobs.induct) auto

lemma prune_jobs_sorted: "sorted_wrt (<) (map job_id js) \<Longrightarrow> sorted_wrt (<) (map job_id (prune_jobs x n js))"
proof (induction x n js rule: prune_jobs.induct)
  case (2 x n j js)
  have "\<forall>y\<in>set (prune_jobs x n js). job_id j < job_id y"
    using 2(3) prune_jobs_subset [of x n js] by auto
  with 2 show ?case by (cases "job_status j \<noteq> Running \<and> x < n") auto
qed simp

lemma prune_jobs_running:
  "filter (\<lambda>j. job_status j = Running) (prune_jobs x n js) = filter (\<lambda>j. job_status j = Running) js"
  by (induction x n js rule: prune_jobs.induct) auto

lemma inv_prune:
  assumes "mgr_inv hist m"
  shows "mgr_inv hist (prune m)"
proof -
  let ?js = "prune_jobs (MaxFinished (m_opt m)) (int (length (filter (\<lambda>j. job_status j \<noteq> Running) (m_jobs m)))) (m_jobs m)"
  have p: "m_jobs (prune m) = ?js" "m_queue (prune m) = m_queue m" "m_next (prune m) = m_next m"
    "mgr_cap (prune m) = mgr_cap m"
    by (simp_all add: prune_def mgr_cap_def)
  have "callback_job c \<in> job_id ` set ?js" if "c \<in> set (m_queue m)" for c
  proof -
    from that assms obtain j where j: "j \<in> set (m_jobs m)" "callback_job c = job_id j"
      by (auto simp: mgr_inv_def)
    then have "callbacks (job_id j) (m_queue m) \<noteq> []" using that by (auto simp: callbacks_def filter_empty_conv)
    then have "job_status j = Running"
      using assms j by (auto simp: mgr_inv_def job_inv_def queue_inv_def split: if_splits)
    then have "j \<in> set (filter (\<lambda>j. job_status j = Running) ?js)" using j prune_jobs_running by simp
    with j show ?thesis by auto
  qed
  then show ?thesis
    using assms prune_jobs_sorted prune_jobs_subset by (simp add: mgr_inv_def p) blast
qed

lemma finish_fields:
  "job_id (finish_job code err t j) = job_id j" "job_posted (finish_job code err t j) = job_posted j"
  "job_reading (finish_job code err t j) = job_reading j" "job_cancelled (finish_job code err t j) = job_cancelled j"
  "job_exit (finish_job code err t j) = code" "job_err (finish_job code err t j) = err"
  "job_status (finish_job code err t j) =
    (if job_cancelled j then Cancelled else if code = 0 \<and> err = None then Succeeded else Failed)"
  by (simp_all add: finish_job_def)

lemma inv_finish:
  assumes inv: "mgr_inv hist m" and q: "m_queue m = Finish i code err t # q"
  shows "mgr_inv hist (finish (m\<lparr>m_queue := q\<rparr>) i code err t)"
proof -
  from inv q have "i \<in> job_id ` set (m_jobs m)" by (auto simp: mgr_inv_def)
  then obtain j where j: "get_job m i = Some j" using find_job_in [of i "m_jobs m"] by (auto simp: get_job_def)
  note own = inv_job [OF inv j]
  have "mgr_inv hist (update_job (m\<lparr>m_queue := q\<rparr>) i (finish_job code err t))"
  proof (rule mgr_inv_update [OF inv j])
    show "job_inv (mgr_cap m) (hist i) (callbacks i q) (finish_job code err t j)"
      using own(2) q
      by (auto simp: job_inv_def queue_inv_def status_inv_def callbacks_def own(1) finish_fields
          split: if_splits)
  qed (auto simp: own(1) callbacks_def q finish_job_def)
  then show ?thesis unfolding finish_def by (rule inv_prune)
qed

lemma inv_cancel:
  assumes inv: "mgr_inv hist m"
  shows "mgr_inv hist (snd (cancel m i))"
proof (cases "get_job m i")
  case None
  with inv show ?thesis by (simp add: cancel_def)
next
  case (Some j)
  note own = inv_job [OF inv Some]
  let ?f = "\<lambda>j. j\<lparr>job_cancelled := True\<rparr>"
  have "mgr_inv hist (update_job (m\<lparr>m_queue := m_queue m\<rparr>) i ?f)" if "job_status j = Running"
  proof (rule mgr_inv_update [OF inv Some])
    show "job_inv (mgr_cap m) (hist i) (callbacks i (m_queue m)) (?f j)"
      using own(2) that
      by (auto simp: job_inv_def queue_inv_def status_inv_def split: if_splits)
  qed (auto simp: own(1))
  with inv Some show ?thesis by (simp add: cancel_def)
qed

lemma inv_ui:
  assumes "mgr_inv hist m" and "step m EvUi = Some m'"
  shows "mgr_inv hist m'"
proof (cases "m_queue m")
  case Nil
  with assms show ?thesis by simp
next
  case (Cons c q)
  with assms show ?thesis by (cases c) (auto intro: inv_drain inv_finish)
qed

lemma inv_step:
  assumes "mgr_inv hist m" and "step m e = Some m'"
  shows "mgr_inv (\<lambda>i. hist i @ produced i [e]) m'"
proof (cases e)
  case (EvOutput i p)
  with assms obtain j where j: "get_job m i = Some j" "job_reading j" "m' = queue_output m j p"
    by (auto split: option.splits if_splits)
  have "(\<lambda>k. hist k @ produced k [e]) = hist(i := hist i @ p)" by (auto simp: EvOutput)
  with inv_output [OF assms(1) j(1,2)] j(3) show ?thesis by simp
next
  case (EvEnd i code err now)
  with assms show ?thesis by (auto split: option.splits if_splits intro: inv_end)
next
  case EvUi
  with assms inv_ui show ?thesis by simp
qed (use assms inv_start inv_cancel in auto)

lemma produced_Cons: "produced i (e # es) = produced i [e] @ produced i es"
  by (cases e) auto

lemma inv_run: "mgr_inv hist m \<Longrightarrow> run m es = Some m' \<Longrightarrow> mgr_inv (\<lambda>i. hist i @ produced i es) m'"
proof (induction es arbitrary: hist m)
  case Nil
  then show ?case by simp
next
  case (Cons e es)
  then obtain m1 where m1: "step m e = Some m1" "run m1 es = Some m'" by (auto split: option.splits)
  from Cons.IH [OF inv_step [OF Cons.prems(1) m1(1)] m1(2)] show ?case
    using produced_Cons [of _ e es] by simp
qed

lemma inv_new: "mgr_inv (\<lambda>i. []) (NewManager opts)"
  by (simp add: mgr_inv_def NewManager_def)

lemma inv_reachable: "run (NewManager opts) es = Some m \<Longrightarrow> mgr_inv (\<lambda>i. produced i es) m"
  using inv_run [OF inv_new] by simp

lemma opt_step: "step m e = Some m' \<Longrightarrow> m_opt m' = m_opt m"
  by (cases e) (auto simp: start_job_def queue_output_def Let_def drain_output_def finish_def prune_def cancel_def
      split: option.splits if_splits list.splits callback.splits)

lemma opt_run: "run m es = Some m' \<Longrightarrow> m_opt m' = m_opt m"
  by (induction es arbitrary: m) (auto split: option.splits dest!: opt_step)

section \<open>What the manager guarantees\<close>

text \<open>C4. No output is lost that the ring could hold, whatever the interleaving of reads and UI turns: the
  shown bytes followed by the pending ones are, up to the ring size, everything read from the job, and
  once the job has ended its log alone is, with its truncation flag exact and its line cache fresh.\<close>

theorem jobs_output_lossless:
  assumes "run (NewManager opts) es = Some m" and "j \<in> set (m_jobs m)"
    and "cap = nat (max (LogBytes opts) 1)"
  shows "lastn cap (ring_bytes (job_out j) @ ring_bytes (job_pending j)) = lastn cap (produced (job_id j) es)
    \<and> (job_status j \<noteq> Running \<longrightarrow>
        ring_bytes (job_out j) = lastn cap (produced (job_id j) es)
        \<and> (ring_truncated (job_out j) \<longleftrightarrow> cap < length (produced (job_id j) es))
        \<and> fst (ring_lines (job_out j)) = ring_lines0 (job_out j))"
proof -
  have cap: "mgr_cap m = cap" using opt_run [OF assms(1)] assms(3) by (simp add: mgr_cap_def NewManager_def)
  from inv_reachable [OF assms(1)] assms(2) cap
  have inv: "job_inv cap (produced (job_id j) es) (callbacks (job_id j) (m_queue m)) j"
    by (simp add: mgr_inv_def)
  then obtain h1 h2 where h: "produced (job_id j) es = h1 @ h2" "ring_sink.holds (job_out j) h1"
      "ring_sink.holds (job_pending j) h2" "\<not> job_posted j \<longrightarrow> h2 = []"
    and c: "coherent (job_out j)" "rsize (job_out j) = cap" "rsize (job_pending j) = cap"
    unfolding job_inv_def output_inv_def by blast
  have "lastn cap (ring_bytes (job_out j) @ ring_bytes (job_pending j)) = lastn cap (h1 @ h2)"
    using h(2,3) c by (simp add: ring_sink.holds_def lastn_append lastn_append2)
  moreover have "job_status j \<noteq> Running \<longrightarrow> h2 = []"
    using inv h(4) by (auto simp: job_inv_def queue_inv_def split: if_splits)
  ultimately show ?thesis
    using h c coherent_lines [OF c(1)] by (auto simp: ring_sink.holds_def ring_truncated_def)
qed

lemma count_once: "x \<in> set xs \<Longrightarrow> distinct xs \<Longrightarrow> (\<Sum>i\<leftarrow>xs. if x = i then 1 else 0) = (1::nat)"
  by (induction xs) (auto simp: sum_list_eq_0_iff)

text \<open>C5. A fast producer cannot grow the queue of the UI loop: a job never has more than one drain queued,
  and the whole queue is at most twice as long as the registry.\<close>

theorem jobs_queue_bounded:
  assumes "run (NewManager opts) es = Some m"
  shows "length (m_queue m) \<le> 2 * length (m_jobs m) \<and> length (filter ((=) (Drain i)) (m_queue m)) \<le> 1"
proof -
  note inv = inv_reachable [OF assms]
  have two: "length (callbacks (job_id j) (m_queue m)) \<le> 2" if "j \<in> set (m_jobs m)" for j
    using inv that by (auto simp: mgr_inv_def job_inv_def queue_inv_def split: if_splits)
  have bound: "length q \<le> (\<Sum>i\<leftarrow>is. length (callbacks i q))"
    if "distinct is" "\<forall>c\<in>set q. callback_job c \<in> set is" for q "is"
    using that(2)
  proof (induction q)
    case Nil
    then show ?case by (simp add: callbacks_def)
  next
    case (Cons c q)
    have "(\<Sum>i\<leftarrow>is. length (callbacks i (c # q)))
        = (\<Sum>i\<leftarrow>is. length (callbacks i q)) + (\<Sum>i\<leftarrow>is. if callback_job c = i then 1 else 0)"
    proof -
      have "length (callbacks i (c # q)) = length (callbacks i q) + (if callback_job c = i then 1 else 0)" for i
        by (simp add: callbacks_def)
      then show ?thesis by (simp only: sum_list_addf)
    qed
    also have "(\<Sum>i\<leftarrow>is. if callback_job c = i then 1 else 0) = (1::nat)"
      using count_once [OF _ that(1)] Cons.prems by simp
    finally show ?case using Cons by simp
  qed
  have "distinct (map job_id (m_jobs m))" "\<forall>c\<in>set (m_queue m). callback_job c \<in> set (map job_id (m_jobs m))"
    using inv by (simp_all add: mgr_inv_def strict_sorted_iff)
  then have "length (m_queue m) \<le> (\<Sum>i\<leftarrow>map job_id (m_jobs m). length (callbacks i (m_queue m)))"
    by (rule bound)
  also have "\<dots> \<le> (\<Sum>j\<leftarrow>m_jobs m. 2)"
    unfolding map_map comp_def by (rule sum_list_mono) (rule two)
  finally have "length (m_queue m) \<le> 2 * length (m_jobs m)" by (simp add: sum_list_triv)
  moreover have "length (filter ((=) (Drain i)) (m_queue m)) \<le> 1"
  proof (cases "i \<in> job_id ` set (m_jobs m)")
    case True
    then obtain j where j: "j \<in> set (m_jobs m)" "job_id j = i" by auto
    have "filter ((=) (Drain i)) (m_queue m) = filter ((=) (Drain i)) (callbacks i (m_queue m))"
      by (auto simp: callbacks_def intro!: filter_cong)
    with inv j show ?thesis
      by (auto simp: mgr_inv_def job_inv_def queue_inv_def split: if_splits)
  next
    case False
    with inv have "filter ((=) (Drain i)) (m_queue m) = []" by (auto simp: mgr_inv_def filter_empty_conv)
    then show ?thesis by simp
  qed
  ultimately show ?thesis by blast
qed

text \<open>An ended job is never touched again.\<close>

lemma find_map_other: "(\<And>j. job_id (f j) = job_id j) \<Longrightarrow> find_job i (map f js) = map_option f (find_job i js)"
  by (induction js) auto

lemma find_append: "find_job i (js @ ks) = (case find_job i js of Some j \<Rightarrow> Some j | None \<Rightarrow> find_job i ks)"
  by (induction js) auto

lemma update_get:
  assumes "\<And>j. job_id (f j) = job_id j"
  shows "get_job (update_job m k f) i = map_option (\<lambda>j. if i = k then f j else j) (get_job m i)"
proof -
  have "get_job (update_job m k f) i = map_option (\<lambda>j. if job_id j = k then f j else j) (get_job m i)"
    using assms by (simp add: get_job_def update_job_def find_map_other)
  then show ?thesis by (cases "get_job m i") (auto simp: get_job_def dest: find_job_Some)
qed

lemma find_job_mem: "distinct (map job_id js) \<Longrightarrow> j \<in> set js \<Longrightarrow> find_job (job_id j) js = Some j"
  by (induction js) auto

lemma get_prune:
  assumes "distinct (map job_id (m_jobs m))"
  shows "get_job (prune m) i = None \<or> get_job (prune m) i = get_job m i"
proof (cases "get_job (prune m) i")
  case (Some k)
  then have k: "k \<in> set (m_jobs m)" "job_id k = i"
    using prune_jobs_subset by (auto simp: get_job_def prune_def dest!: find_job_Some)
  with assms have "get_job m i = Some k" using find_job_mem [of "m_jobs m" k] by (simp add: get_job_def)
  with Some show ?thesis by simp
qed simp

lemma update_ids:
  "(\<And>j. job_id (f j) = job_id j) \<Longrightarrow> map job_id (m_jobs (update_job m k f)) = map job_id (m_jobs m)"
  by (simp add: update_job_def comp_def if_distrib cong: if_cong)

definition settled :: "nat \<Rightarrow> job \<Rightarrow> manager \<Rightarrow> bool" where
  "settled i j m \<longleftrightarrow> i < m_next m \<and> (get_job m i = None \<or> get_job m i = Some j)"

lemma settled_update:
  "settled i j m \<Longrightarrow> i \<noteq> k \<Longrightarrow> (\<And>j. job_id (f j) = job_id j) \<Longrightarrow>
    settled i j (update_job (m\<lparr>m_queue := q\<rparr>) k f)"
proof -
  assume a: "settled i j m" "i \<noteq> k" "\<And>j. job_id (f j) = job_id j"
  have "get_job (update_job (m\<lparr>m_queue := q\<rparr>) k f) i
      = map_option (\<lambda>j. if i = k then f j else j) (get_job (m\<lparr>m_queue := q\<rparr>) i)"
    by (rule update_get) (rule a(3))
  then show "settled i j (update_job (m\<lparr>m_queue := q\<rparr>) k f)"
    using a(1,2) by (auto simp: settled_def get_job_def)
qed

lemma settled_step:
  assumes inv: "mgr_inv hist m" and s: "settled i j m" and ended: "job_status j \<noteq> Running"
    and st: "step m e = Some m'"
  shows "settled i j m'"
proof -
  have own: "\<not> job_reading j \<and> callbacks i (m_queue m) = [] \<and> i = job_id j" if "get_job m i = Some j"
    using inv_job [OF inv that] ended by (auto simp: job_inv_def queue_inv_def split: if_splits)
  have cbs: "i \<notin> callback_job ` set (m_queue m)"
  proof (cases "get_job m i")
    case None
    with inv show ?thesis by (auto simp: mgr_inv_def get_job_def find_job_None)
  next
    case (Some k)
    with s own show ?thesis by (auto simp: settled_def callbacks_def filter_empty_conv)
  qed
  have upd: "update_job m k f = update_job (m\<lparr>m_queue := m_queue m\<rparr>) k f" for k f by simp
  show ?thesis
  proof (cases e)
    case (EvStart c started now)
    with st s show ?thesis
      by (auto simp: settled_def start_job_def get_job_def find_append Let_def split: option.splits)
  next
    case (EvOutput k p)
    with st obtain jk where jk: "get_job m k = Some jk" "job_reading jk" "m' = queue_output m jk p"
      by (auto split: option.splits if_splits)
    then have "k \<noteq> i" "job_id jk = k" using s own inv_job [OF inv jk(1)] by (auto simp: settled_def)
    then have "settled i j (update_job (m\<lparr>m_queue := m_queue m\<rparr>) k
        (\<lambda>j. j\<lparr>job_pending := ring_write (job_pending j) p, job_posted := True\<rparr>))"
      by (intro settled_update [OF s]) auto
    then show ?thesis
      using jk(3) \<open>job_id jk = k\<close> by (simp add: queue_output_def settled_def get_job_def Let_def)
  next
    case (EvEnd k code err now)
    with st obtain jk where jk: "get_job m k = Some jk" "job_reading jk"
      "m' = post (update_job m k (\<lambda>j. j\<lparr>job_reading := False\<rparr>)) (Finish k code err now)"
      by (auto split: option.splits if_splits)
    then have "k \<noteq> i" using s own by (auto simp: settled_def)
    then have "settled i j (update_job (m\<lparr>m_queue := m_queue m\<rparr>) k (\<lambda>j. j\<lparr>job_reading := False\<rparr>))"
      by (intro settled_update [OF s]) auto
    then show ?thesis using jk(3) by (simp add: settled_def get_job_def)
  next
    case EvUi
    show ?thesis
    proof (cases "m_queue m")
      case Nil
      with st EvUi show ?thesis by simp
    next
      case (Cons c q)
      with cbs have "callback_job c \<noteq> i" by auto
      show ?thesis
      proof (cases c)
        case (Drain k)
        with st EvUi Cons \<open>callback_job c \<noteq> i\<close> show ?thesis
          by (auto simp: drain_output_def drain_job_def Let_def intro!: settled_update [OF s])
      next
        case (Finish k code err t)
        let ?m = "update_job (m\<lparr>m_queue := q\<rparr>) k (finish_job code err t)"
        have "settled i j ?m"
          using Finish \<open>callback_job c \<noteq> i\<close> by (intro settled_update [OF s]) (auto simp: finish_fields)
        moreover have "distinct (map job_id (m_jobs ?m))"
          using inv update_ids [of "finish_job code err t" "m\<lparr>m_queue := q\<rparr>" k]
          by (simp add: mgr_inv_def strict_sorted_iff finish_fields)
        from get_prune [OF this] have "get_job (prune ?m) i = None \<or> get_job (prune ?m) i = get_job ?m i" .
        ultimately show ?thesis using st EvUi Cons Finish by (auto simp: finish_def settled_def prune_def)
      qed
    qed
  next
    case (EvCancel k)
    show ?thesis
    proof (cases "k = i")
      case True
      with st EvCancel s ended show ?thesis by (auto simp: cancel_def settled_def)
    next
      case False
      then have "settled i j (update_job (m\<lparr>m_queue := m_queue m\<rparr>) k (\<lambda>j. j\<lparr>job_cancelled := True\<rparr>))"
        by (intro settled_update [OF s]) auto
      with st EvCancel s show ?thesis by (auto simp: cancel_def split: option.splits)
    qed
  qed
qed

lemma settled_run:
  "mgr_inv hist m \<Longrightarrow> settled i j m \<Longrightarrow> job_status j \<noteq> Running \<Longrightarrow> run m es = Some m' \<Longrightarrow> settled i j m'"
proof (induction es arbitrary: hist m)
  case (Cons e es)
  then obtain m1 where m1: "step m e = Some m1" "run m1 es = Some m'" by (auto split: option.splits)
  from Cons.IH [OF inv_step [OF Cons.prems(1) m1(1)] settled_step [OF Cons.prems(1-3) m1(1)]]
  show ?case using m1(2) Cons.prems(3) by blast
qed simp

text \<open>The life cycle ends once: from the moment a job has ended, no later event changes any of its
  fields; it stays in the registry as it is until it is pruned, and its ID never comes back. Its final
  status says how it ended: \<open>Cancelled\<close> exactly when it was cancelled while running, else \<open>Succeeded\<close>
  exactly for exit code 0 without an error.\<close>

theorem jobs_end_once:
  assumes "run (NewManager opts) es = Some m" and "j \<in> set (m_jobs m)" and "job_status j \<noteq> Running"
    and "run m es' = Some m'"
  shows "(get_job m' (job_id j) = None \<or> get_job m' (job_id j) = Some j)
    \<and> (job_status j = Cancelled \<longleftrightarrow> job_cancelled j)
    \<and> (job_status j = Succeeded \<longleftrightarrow> \<not> job_cancelled j \<and> job_exit j = 0 \<and> job_err j = None)"
proof -
  note inv = inv_reachable [OF assms(1)]
  then have "distinct (map job_id (m_jobs m))" by (simp add: mgr_inv_def strict_sorted_iff)
  from find_job_mem [OF this assms(2)] inv assms(2) have "settled (job_id j) j m"
    by (simp add: settled_def get_job_def mgr_inv_def)
  from settled_run [OF inv this assms(3,4)] have "settled (job_id j) j m'" .
  moreover have "status_inv j" using inv assms(2) by (simp add: mgr_inv_def job_inv_def)
  ultimately show ?thesis using assms(3) by (auto simp: settled_def status_inv_def)
qed

text \<open>Pruning.\<close>

lemma prune_jobs_ended:
  assumes "n = int (length (filter (\<lambda>j. job_status j \<noteq> Running) js))" and "0 \<le> x"
  shows "filter (\<lambda>j. job_status j \<noteq> Running) (prune_jobs x n js)
    = drop (nat (n - x)) (filter (\<lambda>j. job_status j \<noteq> Running) js)"
  using assms
proof (induction x n js rule: prune_jobs.induct)
  case (2 x n j js)
  show ?case
  proof (cases "job_status j \<noteq> Running \<and> x < n")
    case True
    then have "x < n" by simp
    then have "nat (n - x) = Suc (nat (n - 1 - x))" by linarith
    with 2 True show ?thesis by simp
  next
    case False
    show ?thesis
    proof (cases "job_status j = Running")
      case True
      with 2 show ?thesis by simp
    next
      case ended: False
      with False have "nat (n - x) = 0" by simp
      have "prune_jobs x k js = js" if "k \<le> x" for k using that by (induction js) auto
      with ended False \<open>nat (n - x) = 0\<close> show ?thesis by simp
    qed
  qed
qed simp

text \<open>Pruning never drops a running job, and keeps exactly the newest \<open>MaxFinished\<close> of the ended ones, in
  order.\<close>

theorem prune_keeps:
  assumes "0 \<le> MaxFinished (m_opt m)"
  shows "filter (\<lambda>j. job_status j = Running) (m_jobs (prune m)) = filter (\<lambda>j. job_status j = Running) (m_jobs m)
    \<and> filter (\<lambda>j. job_status j \<noteq> Running) (m_jobs (prune m))
      = drop (length (filter (\<lambda>j. job_status j \<noteq> Running) (m_jobs m)) - nat (MaxFinished (m_opt m)))
          (filter (\<lambda>j. job_status j \<noteq> Running) (m_jobs m))"
proof -
  let ?e = "filter (\<lambda>j. job_status j \<noteq> Running) (m_jobs m)"
  have "nat (int (length ?e) - MaxFinished (m_opt m)) = length ?e - nat (MaxFinished (m_opt m))"
    using assms by linarith
  then show ?thesis
    using prune_jobs_ended [OF refl assms, of "m_jobs m"] by (simp add: prune_def prune_jobs_running)
qed

lemma ui_step: "m_queue m \<noteq> [] \<Longrightarrow> \<exists>m'. step m EvUi = Some m' \<and> m_queue m' = tl (m_queue m)"
  by (cases "m_queue m"; cases "hd (m_queue m)")
    (auto simp: drain_output_def finish_def prune_def)

definition quiet :: "manager \<Rightarrow> bool" where
  "quiet m \<longleftrightarrow> list_all (\<lambda>j. \<not> job_reading j) (m_jobs m)"

lemma quiet_update: "quiet m \<Longrightarrow> (\<And>j. job_reading (f j) = job_reading j) \<Longrightarrow> quiet (update_job (m\<lparr>m_queue := q\<rparr>) i f)"
  by (auto simp: quiet_def update_job_def list_all_iff)

lemma quiet_prune: "quiet m \<Longrightarrow> quiet (prune m)"
  using prune_jobs_subset by (fastforce simp: quiet_def prune_def list_all_iff)

lemma quiet_ui: "quiet m \<Longrightarrow> step m EvUi = Some m' \<Longrightarrow> quiet m'"
  by (auto simp: drain_output_def finish_def finish_fields drain_job_def Let_def
      intro!: quiet_prune quiet_update split: list.splits callback.splits)

lemma ui_drains:
  "mgr_inv hist m \<Longrightarrow> quiet m \<Longrightarrow> n = length (m_queue m) \<Longrightarrow>
    \<exists>m'. run m (replicate n EvUi) = Some m' \<and> m_queue m' = [] \<and> mgr_inv hist m' \<and> quiet m'"
proof (induction n arbitrary: m)
  case (Suc n)
  then have "m_queue m \<noteq> []" by auto
  then obtain m1 where m1: "step m EvUi = Some m1" "m_queue m1 = tl (m_queue m)" using ui_step by blast
  have "n = length (m_queue m1)" using m1(2) Suc.prems(3) by simp
  from Suc.IH [OF inv_ui [OF Suc.prems(1) m1(1)] quiet_ui [OF Suc.prems(2) m1(1)] this]
  show ?case by (simp only: replicate_Suc run.simps m1(1) option.case)
qed simp

lemma quiet_done:
  assumes "mgr_inv hist m" and "quiet m" and "m_queue m = []"
  shows "running_count m = 0"
proof -
  have "job_status j \<noteq> Running" if "j \<in> set (m_jobs m)" for j
  proof -
    from assms that have "queue_inv [] j" "\<not> job_reading j"
      by (auto simp: mgr_inv_def job_inv_def quiet_def list_all_iff callbacks_def)
    then show ?thesis by (auto simp: queue_inv_def split: if_splits)
  qed
  then show ?thesis by (auto simp: running_count_def filter_empty_conv)
qed

text \<open>C6. Every job whose process is gone is reported: once no worker runs, the UI loop empties its queue in
  as many turns as there are callbacks, and then no job is left \<open>Running\<close>.\<close>

theorem jobs_all_end:
  assumes "run (NewManager opts) es = Some m" and "list_all (\<lambda>j. \<not> job_reading j) (m_jobs m)"
  shows "\<exists>m'. run m (replicate (length (m_queue m)) EvUi) = Some m' \<and> m_queue m' = [] \<and> running_count m' = 0"
proof -
  have "quiet m" using assms(2) by (simp add: quiet_def)
  from ui_drains [OF inv_reachable [OF assms(1)] this refl] quiet_done show ?thesis by blast
qed

text \<open>A sample run: two jobs, output split over two reads, one job cancelled.\<close>

definition sample_options :: options where
  "sample_options = \<lparr>LogBytes = 4, MaxFinished = 1\<rparr>"

definition sample_events :: "event list" where
  "sample_events = [EvStart ''a'' (Some 10) 1, EvStart ''b'' (Some 11) 2, EvOutput 1 ''xyz'', EvOutput 1 ''uvw'',
     EvUi, EvCancel 2, EvEnd 1 0 None 5, EvUi, EvEnd 2 (- 1) None 6]"

definition sample_manager :: manager where
  "sample_manager = the (run (NewManager sample_options) sample_events)"

lemma sample_run: "run (NewManager sample_options) sample_events = Some sample_manager"
proof -
  have "run (NewManager sample_options) sample_events \<noteq> None" by code_simp
  then show ?thesis by (auto simp: sample_manager_def)
qed

text \<open>Witnesses: the properties at the sample run.\<close>

theorem jobs_output_lossless_witness:
  "ring_bytes (job_out (hd (m_jobs sample_manager))) = ''zuvw''"
proof -
  have m: "hd (m_jobs sample_manager) \<in> set (m_jobs sample_manager)"
    "job_status (hd (m_jobs sample_manager)) \<noteq> Running"
    "lastn 4 (produced (job_id (hd (m_jobs sample_manager))) sample_events) = ''zuvw''"
    by code_simp+
  have "4 = nat (max (LogBytes sample_options) 1)" by (simp add: sample_options_def)
  from jobs_output_lossless [OF sample_run m(1) this] m(2,3) show ?thesis by simp
qed

theorem jobs_queue_bounded_witness: "length (m_queue sample_manager) \<le> 2 * length (m_jobs sample_manager)"
  using jobs_queue_bounded [OF sample_run] by blast

theorem jobs_end_once_witness:
  "get_job (the (run sample_manager [EvUi])) 1 = None \<or>
    get_job (the (run sample_manager [EvUi])) 1 = Some (hd (m_jobs sample_manager))"
proof -
  have m: "hd (m_jobs sample_manager) \<in> set (m_jobs sample_manager)"
    "job_status (hd (m_jobs sample_manager)) \<noteq> Running" "job_id (hd (m_jobs sample_manager)) = 1"
    "run sample_manager [EvUi] \<noteq> None"
    by code_simp+
  from m(4) have "run sample_manager [EvUi] = Some (the (run sample_manager [EvUi]))" by simp
  from jobs_end_once [OF sample_run m(1,2) this] m(3) show ?thesis by simp
qed

theorem prune_keeps_witness:
  "filter (\<lambda>j. job_status j = Running) (m_jobs (prune sample_manager))
    = filter (\<lambda>j. job_status j = Running) (m_jobs sample_manager)"
proof -
  have "0 \<le> MaxFinished (m_opt sample_manager)" by code_simp
  from prune_keeps [OF this] show ?thesis by blast
qed

theorem jobs_all_end_witness:
  "\<exists>m'. run sample_manager (replicate (length (m_queue sample_manager)) EvUi) = Some m'
    \<and> m_queue m' = [] \<and> running_count m' = 0"
proof -
  have "list_all (\<lambda>j. \<not> job_reading j) (m_jobs sample_manager)" by code_simp
  from jobs_all_end [OF sample_run this] show ?thesis .
qed

end
