(* ===== verification/Registry.thy ===== *)
theory Registry
  imports GoBase
begin

text \<open>
  The registry of subagent sessions: \<open>internal/subagent/session.go\<close> and \<open>session_queue.go\<close>.

  The store directory is a list of files in the order of \<open>os.ReadDir\<close> (by file name). A file holds a
  session that decodes, or bytes that do not (\<open>Junk\<close>); the JSON codec is the standard library's. Session
  IDs are plain file names. Every operation takes the registry lock first, so a run of several processes
  is a sequence of operations; what a process still holds from an earlier read is an argument, so it
  may be stale. Failures of the lock, of reads, writes and removals are part of the state.
\<close>

section \<open>State\<close>

record queued_message =
  qm_id :: string
  qm_sender :: string
  qm_text :: string

record turn_record =
  tr_new_input :: int
  tr_cached_input :: int
  tr_output :: int

text \<open>The fields the registry reads or writes; \<open>s_rest\<close> stands for all others, which it only carries.\<close>

record session =
  s_id :: string
  s_provider_session :: string
  s_name :: string
  s_provider :: string
  s_working_dir :: string
  s_parent :: string
  s_last_host :: string
  s_status :: string
  s_context_tokens :: int
  s_turn_records :: "turn_record list"
  s_blocked_reason :: string
  s_quarantine :: "string option"
  s_pending :: "queued_message list"
  s_rest :: string

datatype stored = Rec session | Junk

type_synonym dir = "(string \<times> stored) list"

record registry =
  r_live :: dir
  r_deleted :: dir
  r_lock_fault :: bool
  r_list_fault :: bool
  r_unreadable :: "string list"
  r_write_fault :: bool
  r_remove_fault :: bool

datatype reg_error =
    NotFound | IOFault | Undecodable | NoID | NameInUse | WasDeleted | Unknown | Ambiguous
  | BadStatus | Blocked | Quarantined

section \<open>Directories\<close>

fun byte_less :: "string \<Rightarrow> string \<Rightarrow> bool" where
  "byte_less [] b = (b \<noteq> [])"
| "byte_less (x # a) [] = False"
| "byte_less (x # a) (y # b) =
     (let m = (of_char x :: nat); n = of_char y in m < n \<or> (m = n \<and> byte_less a b))"

fun dir_get :: "dir \<Rightarrow> string \<Rightarrow> stored option" where
  "dir_get [] k = None"
| "dir_get ((k', f) # d) k = (if k' = k then Some f else dir_get d k)"

fun dir_put :: "dir \<Rightarrow> string \<Rightarrow> stored \<Rightarrow> dir" where
  "dir_put [] k f = [(k, f)]"
| "dir_put ((k', f') # d) k f =
     (if k' = k then (k, f) # d
      else if byte_less (k @ ''.json'') (k' @ ''.json'') \<and> dir_get d k = None then (k, f) # (k', f') # d
      else (k', f') # dir_put d k f)"

definition dir_remove :: "dir \<Rightarrow> string \<Rightarrow> dir" where
  "dir_remove d k = filter (\<lambda>e. fst e \<noteq> k) d"

section \<open>Operations\<close>

definition provider_id :: "session \<Rightarrow> string" where
  "provider_id s = (if s_provider_session s \<noteq> [] then s_provider_session s else s_id s)"

definition last_context_tokens :: "session \<Rightarrow> int" where
  "last_context_tokens s =
     (if s_context_tokens s < 0 then - 1
      else if 0 < s_context_tokens s then s_context_tokens s
      else case rev (s_turn_records s) of
        [] \<Rightarrow> 0
      | r # rs \<Rightarrow> max (tr_new_input r + tr_cached_input r - tr_output r) 0)"

definition reg_get :: "registry \<Rightarrow> string \<Rightarrow> reg_error + session" where
  "reg_get reg i =
     (case dir_get (r_live reg) i of
        None \<Rightarrow> Inl NotFound
      | Some f \<Rightarrow>
          if i \<in> set (r_unreadable reg) then Inl IOFault
          else case f of Junk \<Rightarrow> Inl Undecodable | Rec s \<Rightarrow> Inr s)"

fun decode_entries :: "string list \<Rightarrow> dir \<Rightarrow> session list" where
  "decode_entries unreadable [] = []"
| "decode_entries unreadable ((k, f) # d) =
     (case f of
        Rec s \<Rightarrow> if k \<in> set unreadable then decode_entries unreadable d else s # decode_entries unreadable d
      | Junk \<Rightarrow> decode_entries unreadable d)"

definition list_from :: "registry \<Rightarrow> dir \<Rightarrow> string \<Rightarrow> bool \<Rightarrow> reg_error + session list" where
  "list_from reg d parent all =
     (if r_list_fault reg then Inl IOFault
      else Inr (filter (\<lambda>s. all \<or> parent = [] \<or> s_parent s = parent \<or> s_last_host s = parent)
                 (decode_entries (r_unreadable reg) d)))"

definition reg_list :: "registry \<Rightarrow> string \<Rightarrow> bool \<Rightarrow> reg_error + session list" where
  "reg_list reg parent all = list_from reg (r_live reg) parent all"

definition reg_find :: "registry \<Rightarrow> string \<Rightarrow> reg_error + session" where
  "reg_find reg identifier =
     (case reg_get reg identifier of
        Inr s \<Rightarrow> Inr s
      | Inl _ \<Rightarrow>
          (case reg_list reg [] True of
             Inl err \<Rightarrow> Inl err
           | Inr ss \<Rightarrow> (case filter (\<lambda>s. s_name s = identifier) ss of s # _ \<Rightarrow> Inr s | [] \<Rightarrow> Inl NotFound)))"

text \<open>\<open>save\<close>: a temporary file renamed over the entry, so it happens whole or not at all.\<close>

definition save_file :: "registry \<Rightarrow> session \<Rightarrow> reg_error option \<times> registry" where
  "save_file reg s =
     (if s_id s = [] then (Some NoID, reg)
      else if r_write_fault reg then (Some IOFault, reg)
      else (None, reg\<lparr>r_live := dir_put (r_live reg) (s_id s) (Rec s)\<rparr>))"

definition save_queued ::
  "registry \<Rightarrow> session \<Rightarrow> queued_message list \<Rightarrow> bool \<Rightarrow> (reg_error option \<times> session) \<times> registry" where
  "save_queued reg s consumed require_existing =
     (if r_lock_fault reg then ((Some IOFault, s), reg)
      else case dir_get (r_live reg) (s_id s) of
        None \<Rightarrow>
          if require_existing then ((Some NotFound, s), reg)
          else (case save_file reg s of (err, reg') \<Rightarrow> ((err, s), reg'))
      | Some f \<Rightarrow>
          (case reg_get reg (s_id s) of
             Inl err \<Rightarrow> ((Some err, s), reg)
           | Inr current \<Rightarrow>
               let acked = map qm_id consumed;
                   s' = s\<lparr>s_pending := filter (\<lambda>m. qm_id m \<notin> set acked) (s_pending current)\<rparr>
               in (case save_file reg s' of (err, reg') \<Rightarrow> ((err, s'), reg'))))"

definition reg_save :: "registry \<Rightarrow> session \<Rightarrow> (reg_error option \<times> session) \<times> registry" where
  "reg_save reg s = save_queued reg s [] False"

definition save_queued_turn ::
  "registry \<Rightarrow> session \<Rightarrow> queued_message list \<Rightarrow> (reg_error option \<times> session) \<times> registry" where
  "save_queued_turn reg s consumed = save_queued reg s consumed True"

definition reg_create :: "registry \<Rightarrow> session \<Rightarrow> reg_error option \<times> registry" where
  "reg_create reg s =
     (if s_id s = [] \<or> s_name s = [] then (Some NoID, reg)
      else if r_lock_fault reg then (Some IOFault, reg)
      else case reg_list reg [] True of
        Inl err \<Rightarrow> (Some err, reg)
      | Inr ss \<Rightarrow>
          if list_ex (\<lambda>e. s_id e = s_id s \<or> s_name e = s_name s \<or> s_id e = s_name s \<or> s_name e = s_id s) ss
          then (Some NameInUse, reg)
          else if dir_get (r_live reg) (s_id s) \<noteq> None then (Some NameInUse, reg)
          else if r_write_fault reg then (Some IOFault, reg)
          else (None, reg\<lparr>r_live := dir_put (r_live reg) (s_id s) (Rec s)\<rparr>))"

definition reg_delete :: "registry \<Rightarrow> string \<Rightarrow> reg_error option \<times> registry" where
  "reg_delete reg i =
     (if r_lock_fault reg then (Some IOFault, reg)
      else case dir_get (r_live reg) i of
        None \<Rightarrow> (Some NotFound, reg)
      | Some f \<Rightarrow>
          if i \<in> set (r_unreadable reg) then (Some IOFault, reg)
          else if r_write_fault reg then (Some IOFault, reg)
          else
            let reg1 = reg\<lparr>r_deleted := dir_put (r_deleted reg) i f\<rparr>
            in if r_remove_fault reg then (Some IOFault, reg1)
               else (None, reg1\<lparr>r_live := dir_remove (r_live reg) i\<rparr>))"

definition queueable_status :: "string \<Rightarrow> bool" where
  "queueable_status st \<longleftrightarrow>
     st \<in> set [''running'', ''failed'', ''stopped'', ''completed'', ''active'', ''idle'']"

text \<open>\<open>QueueMessage\<close>; \<open>abs_path\<close> is \<open>filepath.Abs\<close> and \<open>uuid\<close> the generated message ID.\<close>

definition queue_message ::
  "(string \<Rightarrow> string) \<Rightarrow> registry \<Rightarrow> string \<Rightarrow> string \<Rightarrow> string \<Rightarrow> string \<Rightarrow> string
    \<Rightarrow> (reg_error + session) \<times> registry" where
  "queue_message abs_path reg name dir sender body uuid =
     (if r_lock_fault reg then (Inl IOFault, reg)
      else case reg_list reg [] True of
        Inl err \<Rightarrow> (Inl err, reg)
      | Inr ss \<Rightarrow>
          (case filter (\<lambda>s. s_name s = name \<and> (dir = [] \<or> abs_path dir = abs_path (s_working_dir s))) ss of
             [] \<Rightarrow>
               (case list_from reg (r_deleted reg) [] True of
                  Inl err \<Rightarrow> (Inl err, reg)
                | Inr ds \<Rightarrow> (Inl (if list_ex (\<lambda>s. s_name s = name) ds then WasDeleted else Unknown), reg))
           | [s] \<Rightarrow>
               if \<not> queueable_status (s_status s) then (Inl BadStatus, reg)
               else if s_blocked_reason s \<noteq> [] then (Inl Blocked, reg)
               else if s_provider s = ''codex'' \<and> s_quarantine s \<noteq> None then (Inl Quarantined, reg)
               else
                 let s' = s\<lparr>s_pending := s_pending s @ [\<lparr>qm_id = uuid, qm_sender = sender, qm_text = body\<rparr>]\<rparr>
                 in (case save_file reg s' of (None, reg') \<Rightarrow> (Inr s', reg') | (Some err, reg') \<Rightarrow> (Inl err, reg'))
           | _ \<Rightarrow> (Inl Ambiguous, reg)))"

fun prepend_queued :: "queued_message list \<Rightarrow> string \<Rightarrow> string" where
  "prepend_queued [] prompt = prompt"
| "prepend_queued (m # ms) prompt =
     qm_sender m @ [nl, nl] @ qm_text m @ [nl, nl] @ prepend_queued ms prompt"

definition can_manage :: "string \<Rightarrow> session \<Rightarrow> bool" where
  "can_manage caller target \<longleftrightarrow>
     caller = [] \<or> s_id target = caller \<or> s_name target = caller \<or> s_parent target = caller
     \<or> s_last_host target = caller"

definition compaction_tokens :: "int \<Rightarrow> int \<Rightarrow> int" where
  "compaction_tokens tokens_turn cached = max (tokens_turn - cached) 0"

definition split_compaction_ack :: "string list \<Rightarrow> string list \<times> string" where
  "split_compaction_ack msgs = (case msgs of m # n # ms \<Rightarrow> (n # ms, m) | _ \<Rightarrow> (msgs, []))"

section \<open>The directory as a keyed store\<close>

locale keyed_store =
  fixes get :: "'d \<Rightarrow> string \<Rightarrow> 'v option"
    and put :: "'d \<Rightarrow> string \<Rightarrow> 'v \<Rightarrow> 'd"
    and remove :: "'d \<Rightarrow> string \<Rightarrow> 'd"
  assumes get_put: "get (put d k v) j = (if j = k then Some v else get d j)"
    and get_remove: "get (remove d k) j = (if j = k then None else get d j)"
begin

text \<open>Only the last of the operations on a key is visible under it.\<close>

lemma get_foldl_put:
  "get (foldl (\<lambda>d (k, v). put d k v) d kvs) j = (case map_of (rev kvs) j of Some v \<Rightarrow> Some v | None \<Rightarrow> get d j)"
proof (induction kvs arbitrary: d)
  case Nil
  then show ?case by simp
next
  case (Cons kv kvs)
  then show ?case
    by (cases kv) (auto simp: get_put map_add_def split: option.splits)
qed

lemma get_put_remove: "get (remove (put d k v) k) j = (if j = k then None else get d j)"
  by (simp add: get_put get_remove)

lemma get_put_other: "j \<noteq> k \<Longrightarrow> get (put d k v) j = get d j"
  by (simp add: get_put)

end

lemma dir_get_put: "dir_get (dir_put d k f) j = (if j = k then Some f else dir_get d j)"
  by (induction d k f rule: dir_put.induct) auto

lemma dir_get_remove: "dir_get (dir_remove d k) j = (if j = k then None else dir_get d j)"
  by (induction d) (auto simp: dir_remove_def)

interpretation dirs: keyed_store dir_get dir_put dir_remove
  by unfold_locales (simp_all add: dir_get_put dir_get_remove)

lemma dir_get_keys: "dir_get d k = None \<longleftrightarrow> k \<notin> fst ` set d"
  by (induction d k rule: dir_get.induct) (auto split: if_splits)

lemma dir_get_mem: "distinct (map fst d) \<Longrightarrow> (k, f) \<in> set d \<longleftrightarrow> dir_get d k = Some f"
proof (induction d)
  case (Cons e d)
  obtain a b where e: "e = (a, b)" by (cases e)
  from Cons.prems e have "a \<notin> fst ` set d" by simp
  then have "(a, f) \<notin> set d" by (metis fst_conv image_eqI)
  with Cons e show ?case by auto
qed simp

lemma dir_put_distinct: "distinct (map fst d) \<Longrightarrow> distinct (map fst (dir_put d k f))"
proof (induction d k f rule: dir_put.induct)
  case (2 k' f' d k f)
  have "fst ` set (dir_put d k f) = insert k (fst ` set d)"
    by (induction d k f rule: dir_put.induct) (auto split: if_splits)
  with 2 show ?case by (auto simp: dir_get_keys)
qed simp

lemma dir_remove_distinct: "distinct (map fst d) \<Longrightarrow> distinct (map fst (dir_remove d k))"
  by (induction d) (auto simp: dir_remove_def)

lemma decode_entries_iff:
  "distinct (map fst d) \<Longrightarrow>
    s \<in> set (decode_entries u d) \<longleftrightarrow> (\<exists>k. dir_get d k = Some (Rec s) \<and> k \<notin> set u)"
proof -
  have "s \<in> set (decode_entries u d) \<longleftrightarrow> (\<exists>k. (k, Rec s) \<in> set d \<and> k \<notin> set u)"
    by (induction u d rule: decode_entries.induct) (auto split: stored.splits)
  moreover assume "distinct (map fst d)"
  ultimately show ?thesis by (simp add: dir_get_mem)
qed

section \<open>The registry invariant\<close>

text \<open>Every entry is named after the session in it.\<close>

definition reg_ok :: "registry \<Rightarrow> bool" where
  "reg_ok reg \<longleftrightarrow> distinct (map fst (r_live reg))
     \<and> (\<forall>k s. dir_get (r_live reg) k = Some (Rec s) \<longrightarrow> s_id s = k \<and> k \<noteq> [])"

lemma save_file_ok: "reg_ok reg \<Longrightarrow> reg_ok (snd (save_file reg s))"
  by (auto simp: reg_ok_def save_file_def dirs.get_put dir_put_distinct split: if_splits)

lemma save_queued_ok: "reg_ok reg \<Longrightarrow> reg_ok (snd (save_queued reg s c x))"
  using save_file_ok [of reg]
  by (auto simp: save_queued_def Let_def split: option.splits sum.splits prod.splits) (metis snd_conv)+

lemma create_ok: "reg_ok reg \<Longrightarrow> reg_ok (snd (reg_create reg s))"
  by (auto simp: reg_ok_def reg_create_def dirs.get_put dir_put_distinct split: sum.splits if_splits)

lemma delete_ok: "reg_ok reg \<Longrightarrow> reg_ok (snd (reg_delete reg i))"
  by (auto simp: reg_ok_def reg_delete_def dirs.get_remove dir_remove_distinct Let_def
      split: option.splits if_splits)

lemma queue_ok: "reg_ok reg \<Longrightarrow> reg_ok (snd (queue_message a reg n d se t u))"
  using save_file_ok [of reg]
  by (auto simp: queue_message_def Let_def split: sum.splits list.splits option.splits prod.splits)
    (metis snd_conv)+

section \<open>The message queue of a session\<close>

text \<open>
  The abstract queue: a send appends, an acknowledgement removes the messages it names. A history is
  what the registry operations of any number of processes reported.
\<close>

datatype outcome = Sent string queued_message | Acked string "queued_message list" | Gone string | Quiet

fun queue_after :: "string \<Rightarrow> queued_message list \<Rightarrow> outcome \<Rightarrow> queued_message list" where
  "queue_after i q (Sent k m) = (if k = i then q @ [m] else q)"
| "queue_after i q (Acked k ms) = (if k = i then filter (\<lambda>m. qm_id m \<notin> qm_id ` set ms) q else q)"
| "queue_after i q (Gone k) = q"
| "queue_after i q Quiet = q"

datatype reg_op =
    OpSave session
  | OpTurn session "queued_message list"
  | OpSend string string string string string
  | OpCreate session
  | OpDelete string

fun reg_exec :: "(string \<Rightarrow> string) \<Rightarrow> registry \<Rightarrow> reg_op \<Rightarrow> outcome \<times> registry" where
  "reg_exec a reg (OpSave s) = (Quiet, snd (reg_save reg s))"
| "reg_exec a reg (OpTurn s ms) =
     (case save_queued_turn reg s ms of
        ((None, _), reg') \<Rightarrow> (Acked (s_id s) ms, reg')
      | ((Some _, _), reg') \<Rightarrow> (Quiet, reg'))"
| "reg_exec a reg (OpSend name dir sender body uuid) =
     (case queue_message a reg name dir sender body uuid of
        (Inr s, reg') \<Rightarrow> (Sent (s_id s) \<lparr>qm_id = uuid, qm_sender = sender, qm_text = body\<rparr>, reg')
      | (Inl _, reg') \<Rightarrow> (Quiet, reg'))"
| "reg_exec a reg (OpCreate s) = (Quiet, snd (reg_create reg s))"
| "reg_exec a reg (OpDelete i) =
     (case reg_delete reg i of (None, reg') \<Rightarrow> (Gone i, reg') | (Some _, reg') \<Rightarrow> (Quiet, reg'))"

fun reg_run :: "(string \<Rightarrow> string) \<Rightarrow> registry \<Rightarrow> reg_op list \<Rightarrow> outcome list \<times> registry" where
  "reg_run a reg [] = ([], reg)"
| "reg_run a reg (x # xs) =
     (case reg_exec a reg x of (out, reg') \<Rightarrow>
        (case reg_run a reg' xs of (outs, reg'') \<Rightarrow> (out # outs, reg'')))"

definition pending :: "registry \<Rightarrow> string \<Rightarrow> queued_message list option" where
  "pending reg i = (case dir_get (r_live reg) i of Some (Rec s) \<Rightarrow> Some (s_pending s) | _ \<Rightarrow> None)"

lemma pending_save_file:
  "pending (snd (save_file reg s)) i =
    (if fst (save_file reg s) = None \<and> i = s_id s then Some (s_pending s) else pending reg i)"
  by (simp add: pending_def save_file_def dirs.get_put)

lemma pending_save_queued:
  assumes "pending reg i = Some q"
  shows "pending (snd (save_queued reg s ms x)) i = Some (if fst (fst (save_queued reg s ms x)) = None
      then queue_after i q (Acked (s_id s) ms) else q)"
proof (cases "r_lock_fault reg")
  case True
  with assms show ?thesis by (simp add: save_queued_def)
next
  case lock: False
  show ?thesis
  proof (cases "s_id s = i")
    case True
    then obtain cur where cur: "dir_get (r_live reg) (s_id s) = Some (Rec cur)" "q = s_pending cur"
      using assms by (auto simp: pending_def split: option.splits stored.splits)
    show ?thesis
    proof (cases "i \<in> set (r_unreadable reg)")
      case True
      with cur \<open>s_id s = i\<close> lock assms show ?thesis by (simp add: save_queued_def reg_get_def)
    next
      case False
      let ?s = "s\<lparr>s_pending := filter (\<lambda>m. qm_id m \<notin> qm_id ` set ms) q\<rparr>"
      have "save_queued reg s ms x = ((fst (save_file reg ?s), ?s), snd (save_file reg ?s))"
        using cur \<open>s_id s = i\<close> lock False by (simp add: save_queued_def reg_get_def case_prod_unfold Let_def)
      then show ?thesis
        using pending_save_file [of reg ?s i] assms \<open>s_id s = i\<close> by simp
    qed
  next
    case False
    then show ?thesis
      using assms lock pending_save_file [of reg _ i]
      by (auto simp: save_queued_def Let_def case_prod_unfold split: option.splits sum.splits)
  qed
qed

lemma pending_create:
  "pending reg i = Some q \<Longrightarrow> pending (snd (reg_create reg s)) i = Some q"
  by (auto simp: reg_create_def pending_def dirs.get_put split: sum.splits option.splits if_splits)

lemma pending_delete:
  "pending reg i = Some q \<Longrightarrow> \<not> (fst (reg_delete reg k) = None \<and> k = i) \<Longrightarrow>
    pending (snd (reg_delete reg k)) i = Some q"
  by (auto simp: reg_delete_def pending_def dirs.get_remove Let_def split: option.splits if_splits)

lemma list_cases3:
  "(xs = [] \<Longrightarrow> P) \<Longrightarrow> (\<And>x. xs = [x] \<Longrightarrow> P) \<Longrightarrow> (\<And>x y zs. xs = x # y # zs \<Longrightarrow> P) \<Longrightarrow> P"
  by (cases xs; cases "tl xs") auto

lemma pending_queue:
  assumes ok: "reg_ok reg" and "pending reg i = Some q"
  shows "case queue_message a reg name dir sender body uuid of
      (Inr s, reg') \<Rightarrow> pending reg' i =
          Some (queue_after i q (Sent (s_id s) \<lparr>qm_id = uuid, qm_sender = sender, qm_text = body\<rparr>))
    | (Inl _, reg') \<Rightarrow> pending reg' i = Some q"
proof -
  let ?m = "\<lparr>qm_id = uuid, qm_sender = sender, qm_text = body\<rparr>"
  have mem: "pending reg (s_id s) = Some (s_pending s)"
    if "s \<in> set (decode_entries (r_unreadable reg) (r_live reg))" for s
    using that ok decode_entries_iff [of "r_live reg" s "r_unreadable reg"]
    by (auto simp: reg_ok_def pending_def)
  let ?ss = "decode_entries (r_unreadable reg) (r_live reg)"
  let ?P = "\<lambda>s. s_name s = name \<and> (dir = [] \<or> a dir = a (s_working_dir s))"
  show ?thesis
  proof (cases "r_lock_fault reg \<or> r_list_fault reg")
    case True
    with assms(2) show ?thesis by (auto simp: queue_message_def reg_list_def list_from_def)
  next
    case False
    then have sound: "\<not> r_lock_fault reg" "reg_list reg [] True = Inr ?ss"
      "list_from reg (r_deleted reg) [] True = Inr (decode_entries (r_unreadable reg) (r_deleted reg))"
      by (simp_all add: reg_list_def list_from_def)
    consider (none) "filter ?P ?ss = []" | (one) s where "filter ?P ?ss = [s]"
      | (many) s t u where "filter ?P ?ss = s # t # u"
      by (rule list_cases3)
    then show ?thesis
    proof cases
      case none
      with assms(2) sound show ?thesis by (simp add: queue_message_def)
    next
      case many
      with assms(2) sound show ?thesis by (simp add: queue_message_def)
    next
      case one
      have "s \<in> set (filter ?P ?ss)" using one by simp
      then have "pending reg (s_id s) = Some (s_pending s)" by (intro mem) simp
      with one assms(2) sound show ?thesis
        using pending_save_file [of reg "s\<lparr>s_pending := s_pending s @ [?m]\<rparr>" i]
        by (auto simp: queue_message_def Let_def split: prod.splits option.splits)
    qed
  qed
qed

lemma reg_exec_ok: "reg_ok reg \<Longrightarrow> reg_ok (snd (reg_exec a reg x))"
proof (cases x)
  case (OpSave s)
  assume "reg_ok reg"
  with OpSave show ?thesis using save_queued_ok [of reg s "[]" False] by (simp add: reg_save_def)
next
  case (OpTurn s ms)
  assume "reg_ok reg"
  with OpTurn show ?thesis using save_queued_ok [of reg s ms True]
    by (auto simp: save_queued_turn_def split: prod.splits option.splits)
next
  case (OpSend name dir sender body uuid)
  assume "reg_ok reg"
  with OpSend show ?thesis using queue_ok [of reg a name dir sender body uuid]
    by (auto split: prod.splits sum.splits)
next
  case (OpCreate s)
  assume "reg_ok reg"
  with OpCreate show ?thesis using create_ok [of reg s] by simp
next
  case (OpDelete k)
  assume "reg_ok reg"
  with OpDelete show ?thesis using delete_ok [of reg k] by (auto split: prod.splits option.splits)
qed

text \<open>C7. Messages are delivered exactly once. Whatever sequence of saves with stale copies, sends, turns,
  creations and deletions of other sessions runs on the registry, the stored queue of a session is the
  abstract queue: every sent message in order, minus exactly those a successful turn acknowledged. No
  ordinary save drops or resurrects a message.\<close>

theorem registry_queue_refines:
  assumes "reg_ok reg" and "pending reg i = Some q" and "reg_run a reg ops = (outs, reg')"
    and "Gone i \<notin> set outs"
  shows "pending reg' i = Some (foldl (queue_after i) q outs) \<and> reg_ok reg'"
  using assms
proof (induction ops arbitrary: reg q outs)
  case Nil
  then show ?case by simp
next
  case (Cons x ops)
  obtain out reg1 where x: "reg_exec a reg x = (out, reg1)" by (cases "reg_exec a reg x")
  with Cons.prems(3) obtain outs1 where r: "reg_run a reg1 ops = (outs1, reg')" "outs = out # outs1"
    by (auto split: prod.splits)
  have ok: "reg_ok reg1" using reg_exec_ok [OF Cons.prems(1), of a x] x by simp
  have "pending reg1 i = Some (queue_after i q out)"
  proof (cases x)
    case (OpSave s)
    with x pending_save_queued [OF Cons.prems(2), of s "[]" False] show ?thesis
      by (auto simp: reg_save_def split: if_splits)
  next
    case (OpTurn s ms)
    with x pending_save_queued [OF Cons.prems(2), of s ms True] show ?thesis
      by (auto simp: save_queued_turn_def split: prod.splits option.splits)
  next
    case (OpSend name dir sender body uuid)
    with x pending_queue [OF Cons.prems(1,2), where a = a and name = name and dir = dir and sender = sender and body = body and uuid = uuid] show ?thesis
      by (auto split: prod.splits sum.splits)
  next
    case (OpCreate s)
    with x pending_create [OF Cons.prems(2)] show ?thesis by auto
  next
    case (OpDelete k)
    have "\<not> (fst (reg_delete reg k) = None \<and> k = i)"
      using OpDelete x Cons.prems(4) r(2) by (auto split: prod.splits option.splits)
    from pending_delete [OF Cons.prems(2) this] OpDelete x show ?thesis
      by (auto split: prod.splits option.splits)
  qed
  from Cons.IH [OF ok this r(1)] Cons.prems(4) r(2) show ?case by simp
qed

section \<open>Creating, finding and deleting\<close>

lemma list_nonempty: "x \<in> set xs \<Longrightarrow> xs \<noteq> []"
  by auto

lemma find_by_name:
  assumes "reg_ok reg" and "dir_get (r_live reg) n = None" and "\<not> r_list_fault reg"
    and "s \<in> set (decode_entries (r_unreadable reg) (r_live reg))" and "s_name s = n"
    and "\<forall>e\<in>set (decode_entries (r_unreadable reg) (r_live reg)). s_name e = n \<longrightarrow> e = s"
  shows "reg_find reg n = Inr s"
proof -
  let ?f = "filter (\<lambda>s. s_name s = n) (decode_entries (r_unreadable reg) (r_live reg))"
  have "s \<in> set ?f" using assms(4,5) by simp
  then have ne: "?f \<noteq> []" by (rule list_nonempty)
  have all: "\<forall>e\<in>set ?f. e = s" using assms(6) unfolding set_filter by blast
  have "hd ?f = s" by (rule bspec [OF all hd_in_set [OF ne]])
  then have "?f = s # tl ?f" using list.collapse [OF ne] by simp
  then obtain rest where "?f = s # rest" ..
  then show ?thesis
    using assms(2,3) by (simp add: reg_find_def reg_get_def reg_list_def list_from_def)
qed

lemma create_success:
  assumes "reg_create reg s = (None, reg')"
  shows "s_id s \<noteq> []" "dir_get (r_live reg) (s_id s) = None" "\<not> r_list_fault reg"
    "reg' = reg\<lparr>r_live := dir_put (r_live reg) (s_id s) (Rec s)\<rparr>"
    "e \<in> set (decode_entries (r_unreadable reg) (r_live reg)) \<Longrightarrow>
      s_id e \<noteq> s_id s \<and> s_name e \<noteq> s_name s \<and> s_id e \<noteq> s_name s \<and> s_name e \<noteq> s_id s"
  using assms by (auto simp: reg_create_def reg_list_def list_from_def list_ex_iff split: if_splits sum.splits)

text \<open>A created session can be found: \<open>Create\<close> succeeds only when neither its ID nor its name is the ID or
  the name of a readable session, and from then on both identify exactly the new session, with every other
  entry unchanged.\<close>

theorem create_then_find:
  assumes "reg_ok reg" and "reg_create reg s = (None, reg')" and "s_id s \<notin> set (r_unreadable reg)"
    and "s_name s \<noteq> s_id s \<longrightarrow> dir_get (r_live reg) (s_name s) = None"
  shows "reg_find reg' (s_id s) = Inr s \<and> reg_find reg' (s_name s) = Inr s
    \<and> (\<forall>k. k \<noteq> s_id s \<longrightarrow> dir_get (r_live reg') k = dir_get (r_live reg) k)"
proof -
  note c = create_success [OF assms(2)]
  have live: "r_live reg' = dir_put (r_live reg) (s_id s) (Rec s)" "r_unreadable reg' = r_unreadable reg"
    "r_list_fault reg' = r_list_fault reg"
    using c(4) by simp_all
  have ok: "reg_ok reg'" using create_ok [OF assms(1), of s] assms(2) by simp
  then have d: "distinct (map fst (r_live reg'))" by (simp add: reg_ok_def)
  have id: "reg_find reg' (s_id s) = Inr s"
    using assms(3) by (simp add: reg_find_def reg_get_def live dirs.get_put)
  have "reg_find reg' (s_name s) = Inr s"
  proof (cases "s_name s = s_id s")
    case True
    with id show ?thesis by simp
  next
    case False
    show ?thesis
    proof (rule find_by_name [OF ok])
      show "dir_get (r_live reg') (s_name s) = None" using False assms(4) by (simp add: live dirs.get_put)
      show "\<not> r_list_fault reg'" using c(3) by (simp add: live)
      show "s \<in> set (decode_entries (r_unreadable reg') (r_live reg'))"
        unfolding decode_entries_iff [OF d] using assms(3) by (auto simp: live dirs.get_put)
      show "\<forall>e\<in>set (decode_entries (r_unreadable reg') (r_live reg')). s_name e = s_name s \<longrightarrow> e = s"
      proof (intro ballI impI)
        fix e assume "e \<in> set (decode_entries (r_unreadable reg') (r_live reg'))" and n: "s_name e = s_name s"
        then obtain k where k: "dir_get (r_live reg') k = Some (Rec e)" "k \<notin> set (r_unreadable reg)"
          by (auto simp: decode_entries_iff [OF d] live(2))
        show "e = s"
        proof (rule ccontr)
          assume "e \<noteq> s"
          with k have "dir_get (r_live reg) k = Some (Rec e)" by (auto simp: live dirs.get_put split: if_splits)
          with k assms(1) have "e \<in> set (decode_entries (r_unreadable reg) (r_live reg))"
            by (auto simp: decode_entries_iff reg_ok_def)
          from c(5) [OF this] n show False by simp
        qed
      qed
    qed simp
  qed
  with id show ?thesis by (simp add: live dirs.get_put)
qed

text \<open>Deletion archives: a deleted session is gone from the live store, its stored bytes are kept in the
  archive, no other entry changes, and a send to its name reports the deletion. When a deletion fails,
  the live store is unchanged.\<close>

theorem delete_archives:
  "case reg_delete reg i of
     (None, reg') \<Rightarrow>
       dir_get (r_live reg') = (dir_get (r_live reg))(i := None)
       \<and> dir_get (r_deleted reg') i = dir_get (r_live reg) i \<and> dir_get (r_live reg) i \<noteq> None
   | (Some err, reg') \<Rightarrow> r_live reg' = r_live reg"
  by (auto simp: reg_delete_def Let_def dirs.get_put dirs.get_remove fun_eq_iff split: option.splits)

text \<open>A save with a stale copy resurrects a deleted session: after \<open>Delete\<close>, a worker that still holds the
  session and records its state with \<open>Save\<close> puts it back into the live store with the queue of its stale
  copy, although it stays in the archive.\<close>

theorem stale_save_resurrects:
  assumes "reg_delete reg i = (None, reg1)" and "s_id stale = i" and "i \<noteq> []"
  shows "fst (fst (reg_save reg1 stale)) = None
    \<and> pending (snd (reg_save reg1 stale)) i = Some (s_pending stale)
    \<and> dir_get (r_deleted (snd (reg_save reg1 stale))) i \<noteq> None"
proof -
  have d: "\<not> r_lock_fault reg1" "dir_get (r_live reg1) i = None" "\<not> r_write_fault reg1"
    "dir_get (r_deleted reg1) i \<noteq> None"
    using assms(1) by (auto simp: reg_delete_def Let_def dirs.get_put dirs.get_remove split: option.splits if_splits)
  then have "reg_save reg1 stale = ((None, stale), reg1\<lparr>r_live := dir_put (r_live reg1) i (Rec stale)\<rparr>)"
    using assms(2,3) by (simp add: reg_save_def save_queued_def save_file_def)
  with d(4) show ?thesis by (simp add: pending_def dirs.get_put)
qed

text \<open>A message is queued only for a session that can be resumed: on success exactly one readable session
  has the name (in the directory asked for), its status allows it, it is neither blocked nor a quarantined
  codex session, and the stored session is that one with the message appended.\<close>

theorem queue_message_sound:
  assumes "reg_ok reg" and "queue_message a reg name dir sender body uuid = (Inr s', reg')"
  shows "\<exists>s. reg_get reg (s_id s) = Inr s \<and> s_name s = name
    \<and> (dir = [] \<or> a dir = a (s_working_dir s))
    \<and> queueable_status (s_status s) \<and> s_blocked_reason s = []
    \<and> \<not> (s_provider s = ''codex'' \<and> s_quarantine s \<noteq> None)
    \<and> s' = s\<lparr>s_pending := s_pending s @ [\<lparr>qm_id = uuid, qm_sender = sender, qm_text = body\<rparr>]\<rparr>
    \<and> reg_get reg' (s_id s) = Inr s'"
proof -
  let ?ss = "decode_entries (r_unreadable reg) (r_live reg)"
  let ?P = "\<lambda>s. s_name s = name \<and> (dir = [] \<or> a dir = a (s_working_dir s))"
  have sound: "\<not> r_lock_fault reg" "reg_list reg [] True = Inr ?ss"
    using assms(2) by (auto simp: queue_message_def reg_list_def list_from_def split: if_splits)
  then obtain s where one: "filter ?P ?ss = [s]"
    using assms(2) by (auto simp: queue_message_def split: list.splits sum.splits)
  then have "s \<in> set (filter ?P ?ss)" by simp
  then have s: "s \<in> set ?ss" "?P s" by auto
  then obtain k where k: "dir_get (r_live reg) k = Some (Rec s)" "k \<notin> set (r_unreadable reg)"
    using assms(1) decode_entries_iff [of "r_live reg" s "r_unreadable reg"] by (auto simp: reg_ok_def)
  with assms(1) have id: "s_id s = k" "k \<noteq> []" by (auto simp: reg_ok_def)
  let ?s = "s\<lparr>s_pending := s_pending s @ [\<lparr>qm_id = uuid, qm_sender = sender, qm_text = body\<rparr>]\<rparr>"
  have g: "queueable_status (s_status s)" "s_blocked_reason s = []"
    "\<not> (s_provider s = ''codex'' \<and> s_quarantine s \<noteq> None)"
    using assms(2) sound one by (auto simp: queue_message_def split: if_splits)
  have "(case save_file reg ?s of (None, reg') \<Rightarrow> (Inr ?s, reg') | (Some err, reg') \<Rightarrow> (Inl err, reg')) = (Inr s', reg')"
    using assms(2) sound one g by (auto simp: queue_message_def Let_def split: if_splits)
  then have "s' = ?s" "reg_get reg' k = Inr ?s"
    using id k by (auto simp: save_file_def reg_get_def dirs.get_put split: if_splits)
  with s g k id show ?thesis by (intro exI [of _ s]) (simp add: reg_get_def)
qed

section \<open>Witnesses\<close>

definition sample_session :: "string \<Rightarrow> string \<Rightarrow> session" where
  "sample_session i n = \<lparr>s_id = i, s_provider_session = [], s_name = n, s_provider = ''codex'', s_working_dir = ''/w'',
     s_parent = [], s_last_host = [], s_status = ''idle'', s_context_tokens = 0, s_turn_records = [],
     s_blocked_reason = [], s_quarantine = None, s_pending = [], s_rest = []\<rparr>"

definition sample_registry :: registry where
  "sample_registry = \<lparr>r_live = [(''1'', Rec (sample_session ''1'' ''a'')), (''2'', Rec (sample_session ''2'' ''b''))],
     r_deleted = [], r_lock_fault = False, r_list_fault = False, r_unreadable = [], r_write_fault = False,
     r_remove_fault = False\<rparr>"

lemma sample_registry_ok: "reg_ok sample_registry"
  by (auto simp: reg_ok_def sample_registry_def sample_session_def split: if_splits)

definition sample_ops :: "reg_op list" where
  "sample_ops = [OpSend ''a'' [] ''x'' ''hi'' ''m1'', OpSave (sample_session ''1'' ''a''), OpSend ''a'' [] ''x'' ''ho'' ''m2'',
     OpTurn (sample_session ''1'' ''a'') [\<lparr>qm_id = ''m1'', qm_sender = ''x'', qm_text = ''hi''\<rparr>]]"

theorem registry_queue_refines_witness:
  "pending (snd (reg_run id sample_registry sample_ops)) ''1'' =
    Some [\<lparr>qm_id = ''m2'', qm_sender = ''x'', qm_text = ''ho''\<rparr>]"
proof -
  have p: "pending sample_registry ''1'' = Some []" by code_simp
  have r: "reg_run id sample_registry sample_ops =
      (fst (reg_run id sample_registry sample_ops), snd (reg_run id sample_registry sample_ops))" by simp
  have f: "fst (reg_run id sample_registry sample_ops) =
      [Sent ''1'' \<lparr>qm_id = ''m1'', qm_sender = ''x'', qm_text = ''hi''\<rparr>, Quiet,
       Sent ''1'' \<lparr>qm_id = ''m2'', qm_sender = ''x'', qm_text = ''ho''\<rparr>,
       Acked ''1'' [\<lparr>qm_id = ''m1'', qm_sender = ''x'', qm_text = ''hi''\<rparr>]]"
    by code_simp
  have "Gone ''1'' \<notin> set (fst (reg_run id sample_registry sample_ops))" unfolding f by simp
  from registry_queue_refines [OF sample_registry_ok p r this] show ?thesis unfolding f by simp
qed

theorem create_then_find_witness:
  "reg_find (snd (reg_create sample_registry (sample_session ''3'' ''c''))) ''c'' = Inr (sample_session ''3'' ''c'')"
proof -
  have c: "reg_create sample_registry (sample_session ''3'' ''c'')
      = (None, snd (reg_create sample_registry (sample_session ''3'' ''c'')))"
    by (simp add: prod_eq_iff) code_simp
  have "s_id (sample_session ''3'' ''c'') \<notin> set (r_unreadable sample_registry)"
    "s_name (sample_session ''3'' ''c'') \<noteq> s_id (sample_session ''3'' ''c'') \<longrightarrow>
      dir_get (r_live sample_registry) (s_name (sample_session ''3'' ''c'')) = None"
    by (simp_all add: sample_registry_def sample_session_def)
  from create_then_find [OF sample_registry_ok c this] show ?thesis by (simp add: sample_session_def)
qed

theorem stale_save_resurrects_witness:
  "pending (snd (reg_save (snd (reg_delete sample_registry ''1'')) (sample_session ''1'' ''a''))) ''1'' = Some []"
proof -
  have d: "reg_delete sample_registry ''1'' = (None, snd (reg_delete sample_registry ''1''))"
    by (simp add: prod_eq_iff) code_simp
  have "s_id (sample_session ''1'' ''a'') = ''1''" "''1'' \<noteq> []" "s_pending (sample_session ''1'' ''a'') = []"
    by (simp_all add: sample_session_def)
  with stale_save_resurrects [OF d this(1,2)] show ?thesis by simp
qed

theorem queue_message_sound_witness:
  "\<exists>s'. reg_get (snd (queue_message id sample_registry ''b'' [] ''x'' ''hi'' ''m1'')) ''2'' = Inr s'
    \<and> length (s_pending s') = 1"
proof -
  let ?q = "queue_message id sample_registry ''b'' [] ''x'' ''hi'' ''m1''"
  have i: "\<not> isl (fst ?q)" by code_simp
  have q: "?q = (Inr (projr (fst ?q)), snd ?q)" using i by (simp add: prod_eq_iff)
  have two: "s_id (projr (fst ?q)) = ''2''" "length (s_pending (projr (fst ?q))) = 1" by code_simp+
  from queue_message_sound [OF sample_registry_ok q] obtain s where
    s: "projr (fst ?q) = s\<lparr>s_pending := s_pending s @ [\<lparr>qm_id = ''m1'', qm_sender = ''x'', qm_text = ''hi''\<rparr>]\<rparr>"
      "reg_get (snd ?q) (s_id s) = Inr (projr (fst ?q))" by blast
  from s(1) two(1) have "s_id s = ''2''" by simp
  with s(2) two(2) show ?thesis by auto
qed

end
