(* ===== verification/Router.thy ===== *)
theory Router
  imports GoBase
begin

text \<open>
  Turns of the TUI and the backend sessions they resume: \<open>internal/subagent/resume.go\<close>,
  \<open>internal/tui/router/router.go\<close> and \<open>internal/tui/router/store.go\<close>.

  A driver (the CLI of a provider) is a parameter: what it replies to a call with a session ID, or with
  the empty ID for a new session. A reply has the events it streamed, a result and an error. The store
  is one file per TUI session, with its failures in the state; its JSON codec is the standard library's.
  Drivers keep their contract that a call without an error has a result. The texts of operating-system
  errors are left out of the chunks that report them.
\<close>

section \<open>Stale sessions\<close>

datatype call_error = ProviderExit string string | OtherError string

fun error_text :: "call_error \<Rightarrow> string" where
  "error_text (ProviderExit stderr msg) = msg"
| "error_text (OtherError msg) = msg"

definition match_stale_stderr :: "string list \<Rightarrow> string \<Rightarrow> bool" where
  "match_stale_stderr ps stderr \<longleftrightarrow>
     list_ex (\<lambda>line. list_ex (\<lambda>p. p \<noteq> [] \<and> has_prefix (trim_space line) p) ps) (split_on nl stderr)"

text \<open>\<open>spec\<close> is the map \<open>stale_session_errors\<close> of \<open>spec/agent.yaml\<close>, \<^const>\<open>None\<close> when the file is bad.\<close>

definition is_stale_session :: "(string \<Rightarrow> string list) option \<Rightarrow> string \<Rightarrow> call_error \<Rightarrow> bool" where
  "is_stale_session spec provider err =
     (case err of
        OtherError _ \<Rightarrow> False
      | ProviderExit stderr _ \<Rightarrow>
          (case spec of None \<Rightarrow> False | Some m \<Rightarrow> match_stale_stderr (m provider) stderr))"

definition first_err_line :: "call_error \<Rightarrow> string" where
  "first_err_line err = fst (cut (error_text err) [nl])"

section \<open>ResumeTurn.Do\<close>

datatype event = EvSession string | EvMessage string | EvActivity string

record turn_result =
  t_session :: string
  t_messages :: "string list"
  t_response :: string

record reply =
  rep_events :: "event list"
  rep_result :: "turn_result option"
  rep_error :: "call_error option"

type_synonym driver = "string \<Rightarrow> reply"

datatype trace = Ev event | Fresh string

definition fresh_note :: "string \<Rightarrow> call_error \<Rightarrow> string" where
  "fresh_note i err = ''could not resume session '' @ i @ '' ('' @ first_err_line err @ ''); starting a new session''"

text \<open>
  The events and \<open>OnFresh\<close> calls in order, the final reply and \<open>resumed\<close>. \<open>cancelled\<close> says whether the
  context is done when the resume call returns.
\<close>

definition do_turn ::
  "driver \<Rightarrow> (string \<Rightarrow> string list) option \<Rightarrow> string \<Rightarrow> bool \<Rightarrow> string \<Rightarrow> trace list \<times> reply \<times> bool" where
  "do_turn drv spec provider cancelled i =
     (if i \<noteq> [] then
        let rep = drv i in
        case rep_error rep of
          None \<Rightarrow> (map Ev (rep_events rep), rep, True)
        | Some err \<Rightarrow>
            if cancelled \<or> \<not> is_stale_session spec provider err
            then (map Ev (rep_events rep), rep, True)
            else let rep' = drv [] in
              (map Ev (rep_events rep) @ [Fresh (fresh_note i err)] @ map Ev (rep_events rep'), rep', False)
      else let rep = drv [] in (map Ev (rep_events rep), rep, False))"

section \<open>The store\<close>

datatype store_file = Absent | Corrupt | Sessions "string \<Rightarrow> string option"

record store =
  st_file :: store_file
  st_backups :: nat
  st_read_fault :: bool
  st_dir_fault :: bool
  st_lock_fault :: bool
  st_write_fault :: bool
  st_rename_fault :: bool

definition new_store_ok :: "string \<Rightarrow> bool" where
  "new_store_ok i \<longleftrightarrow> \<not> (i = [] \<or> i \<noteq> base_name i \<or> i = ''.'' \<or> i = ''..'')"

definition store_load :: "store \<Rightarrow> ((string \<Rightarrow> string option) \<times> bool) option \<times> store" where
  "store_load st =
     (case st_file st of
        Absent \<Rightarrow> (Some (Map.empty, False), st)
      | Corrupt \<Rightarrow>
          if st_read_fault st then (None, st)
          else if st_rename_fault st then (None, st)
          else (Some (Map.empty, True), st\<lparr>st_file := Absent, st_backups := st_backups st + 1\<rparr>)
      | Sessions m \<Rightarrow> if st_read_fault st then (None, st) else (Some (m, False), st))"

definition put_session :: "(string \<Rightarrow> string option) \<Rightarrow> string \<Rightarrow> string \<Rightarrow> string \<Rightarrow> string option" where
  "put_session m key i = (if i = [] then m(key := None) else m(key \<mapsto> i))"

definition store_set :: "store \<Rightarrow> string \<Rightarrow> string \<Rightarrow> bool \<times> store" where
  "store_set st key i =
     (if st_dir_fault st \<or> st_lock_fault st then (False, st)
      else case store_load st of
        (None, st') \<Rightarrow> (False, st')
      | (Some (m, _), st') \<Rightarrow>
          if st_write_fault st' then (False, st')
          else (True, st'\<lparr>st_file := Sessions (put_session m key i)\<rparr>))"

text \<open>\<open>Prune\<close> over the entries of the directory: name, whether it is a directory, its modification time.\<close>

definition prune_victim :: "int \<Rightarrow> string \<Rightarrow> string \<times> bool \<times> int option \<Rightarrow> bool" where
  "prune_victim cutoff keep e =
     (case e of (name, is_dir, mtime) \<Rightarrow>
        \<not> (is_dir \<or> \<not> has_suffix name ''.json'' \<or> name = keep @ ''.json'')
        \<and> (case mtime of None \<Rightarrow> False | Some t \<Rightarrow> t < cutoff))"

definition prune_stores ::
  "int \<Rightarrow> int \<Rightarrow> string \<Rightarrow> (string \<times> bool \<times> int option) list \<Rightarrow> string list" where
  "prune_stores now max_age keep entries =
     map fst (filter (prune_victim (now - max_age) keep) entries)"

section \<open>The router\<close>

datatype chunk = ChunkText string | ChunkActivity string | ChunkSession bool

record router =
  rt_sessions :: "string \<Rightarrow> string option"
  rt_store :: "store option"

definition session_char :: "char \<Rightarrow> bool" where
  "session_char c \<longleftrightarrow>
     (let n = (of_char c :: nat) in
        (65 \<le> n \<and> n \<le> 90) \<or> (97 \<le> n \<and> n \<le> 122) \<or> (48 \<le> n \<and> n \<le> 57) \<or> c = CHR ''.'' \<or> c = CHR ''_'' \<or> c = CHR '':'')"

definition valid_session_id :: "string \<Rightarrow> bool" where
  "valid_session_id i \<longleftrightarrow>
     (case i of [] \<Rightarrow> False
      | c # cs \<Rightarrow> session_char c \<and> length cs \<le> 255 \<and> list_all (\<lambda>c. session_char c \<or> c = CHR ''-'') cs)"

definition lookup_session :: "router \<Rightarrow> string \<Rightarrow> string" where
  "lookup_session r key = (case rt_sessions r key of None \<Rightarrow> [] | Some i \<Rightarrow> i)"

text \<open>\<open>setSession\<close>: whether it succeeded, and the router after it.\<close>

definition set_session :: "router \<Rightarrow> string \<Rightarrow> string \<Rightarrow> bool \<times> router" where
  "set_session r key i =
     (if lookup_session r key = i then (True, r)
      else
        let r' = r\<lparr>rt_sessions := put_session (rt_sessions r) key i\<rparr>
        in case rt_store r of
          None \<Rightarrow> (True, r')
        | Some st \<Rightarrow> (case store_set st key i of (ok, st') \<Rightarrow> (ok, r'\<lparr>rt_store := Some st'\<rparr>)))"

definition router_session :: "router \<Rightarrow> string \<Rightarrow> (string \<times> bool) \<times> router" where
  "router_session r key =
     (let i = lookup_session r key
      in if i = [] \<or> valid_session_id i then ((i, False), r)
         else case set_session r key [] of (_, r') \<Rightarrow> (([], True), r'))"

definition router_load :: "router \<Rightarrow> bool option \<times> router" where
  "router_load r =
     (case rt_store r of
        None \<Rightarrow> (Some False, r)
      | Some st \<Rightarrow>
          (case store_load st of
             (None, st') \<Rightarrow> (None, r\<lparr>rt_store := Some st'\<rparr>)
           | (Some (m, warn), st') \<Rightarrow> (Some warn, r\<lparr>rt_store := Some st', rt_sessions := m\<rparr>)))"

record turn_state =
  ts_router :: router
  ts_chunks :: "chunk list"
  ts_store_err :: bool

definition emit :: "turn_state \<Rightarrow> chunk \<Rightarrow> turn_state" where
  "emit ts c = ts\<lparr>ts_chunks := ts_chunks ts @ [c]\<rparr>"

definition set_id :: "string \<Rightarrow> turn_state \<Rightarrow> string \<Rightarrow> turn_state" where
  "set_id key ts i =
     (case set_session (ts_router ts) key i of
        (ok, r') \<Rightarrow> ts\<lparr>ts_router := r', ts_store_err := ts_store_err ts \<or> \<not> ok\<rparr>)"

fun on_trace :: "string \<Rightarrow> turn_state \<Rightarrow> trace \<Rightarrow> turn_state" where
  "on_trace key ts (Ev (EvSession i)) = set_id key ts i"
| "on_trace key ts (Ev (EvMessage t)) = emit ts (ChunkText t)"
| "on_trace key ts (Ev (EvActivity t)) = emit ts (ChunkActivity t)"
| "on_trace key ts (Fresh note) = emit (emit (set_id key ts []) (ChunkActivity note)) (ChunkSession False)"

text \<open>A batch driver streams nothing: of its trace only the \<open>OnFresh\<close> call is seen.\<close>

definition visible :: "bool \<Rightarrow> trace list \<Rightarrow> trace list" where
  "visible streaming ts = (if streaming then ts else filter (\<lambda>t. case t of Fresh _ \<Rightarrow> True | Ev _ \<Rightarrow> False) ts)"

definition batch_chunks :: "reply \<Rightarrow> chunk list" where
  "batch_chunks rep =
     (case (rep_error rep, rep_result rep) of
        (None, Some res) \<Rightarrow>
          map ChunkText (t_messages res)
          @ (if t_messages res = [] \<and> t_response res \<noteq> [] then [ChunkText (t_response res)] else [])
      | _ \<Rightarrow> [])"

definition session_key :: "string \<Rightarrow> string \<Rightarrow> string" where
  "session_key provider name = provider @ '':'' @ name"

text \<open>
  \<open>Turn\<close> from the resolved model on: \<open>cancelled\<close> is the context after the resume call, \<open>cancelled_end\<close>
  at the end of the turn. The result is the error returned, \<^const>\<open>None\<close> for success.
\<close>

datatype turn_error = CtxErr | DriverErr call_error

definition router_turn ::
  "driver \<Rightarrow> bool \<Rightarrow> (string \<Rightarrow> string list) option \<Rightarrow> bool \<Rightarrow> bool \<Rightarrow> string \<Rightarrow> string \<Rightarrow> router
    \<Rightarrow> turn_error option \<times> turn_state" where
  "router_turn drv streaming spec cancelled cancelled_end provider name r =
     (let key = session_key provider name;
          ((i, dropped), r1) = router_session r key;
          ts0 = \<lparr>ts_router = r1,
                 ts_chunks = (if dropped then [ChunkActivity ''dropped invalid stored backend session id''] else [])
                   @ [ChunkSession (i \<noteq> [])],
                 ts_store_err = False\<rparr>;
          (tr, rep, resumed) = do_turn drv spec provider cancelled i;
          ts1 = foldl (on_trace key) ts0 (visible streaming tr);
          ts2 = (if streaming then ts1 else foldl emit ts1 (batch_chunks rep));
          ts3 = (case rep_result rep of
                   Some res \<Rightarrow> if t_session res \<noteq> [] then set_id key ts2 (t_session res) else ts2
                 | None \<Rightarrow> ts2);
          ts4 = (if ts_store_err ts3 then emit ts3 (ChunkActivity ''could not save backend session id'') else ts3)
      in (if cancelled_end then Some CtxErr else map_option DriverErr (rep_error rep), ts4))"

section \<open>Store laws\<close>

definition sound_store :: "store \<Rightarrow> bool" where
  "sound_store st \<longleftrightarrow> \<not> st_read_fault st \<and> \<not> st_dir_fault st \<and> \<not> st_lock_fault st \<and> \<not> st_write_fault st
     \<and> \<not> st_rename_fault st"

definition disk :: "store \<Rightarrow> string \<Rightarrow> string option" where
  "disk st = (case st_file st of Sessions m \<Rightarrow> m | _ \<Rightarrow> Map.empty)"

lemma store_set_sound:
  "sound_store st \<Longrightarrow> fst (store_set st key i) \<and> sound_store (snd (store_set st key i))
    \<and> disk (snd (store_set st key i)) = put_session (disk st) key i"
  by (auto simp: store_set_def store_load_def sound_store_def disk_def split: store_file.splits)

lemma put_session_get: "put_session m key i k = (if k = key then (if i = [] then None else Some i) else m k)"
  by (simp add: put_session_def)

text \<open>A stored backend session ID reaches a provider's argument list only when it is safe: what \<open>session\<close>
  returns is empty or consists of at most 256 letters, digits, dots, underscores, colons and inner
  hyphens, so it is never an option and holds no white space. An unsafe ID is dropped for good.\<close>

theorem session_id_safe:
  assumes "router_session r key = ((i, dropped), r')"
  shows "(i = [] \<or> (hd i \<noteq> CHR ''-'' \<and> length i \<le> 256 \<and> list_all (\<lambda>c. \<not> is_space c \<and> c \<noteq> CHR ''/'') i))
    \<and> (dropped \<longrightarrow> i = [] \<and> lookup_session r' key = [] \<and> fst (router_session r' key) = ([], False))"
proof -
  have char: "\<not> is_space c \<and> c \<noteq> CHR ''/'' \<and> c \<noteq> CHR ''-''" if "session_char c" for c
    using that by (auto simp: session_char_def is_space_def white_def Let_def)
  have valid: "hd j \<noteq> CHR ''-'' \<and> length j \<le> 256 \<and> list_all (\<lambda>c. \<not> is_space c \<and> c \<noteq> CHR ''/'') j"
    if "valid_session_id j" for j
    using that char by (auto simp: valid_session_id_def list_all_iff is_space_def white_def split: list.splits)
  have gone: "lookup_session (snd (set_session r key [])) key = []"
    by (auto simp: set_session_def lookup_session_def put_session_def Let_def split: option.splits prod.splits)
  show ?thesis
  proof (cases "lookup_session r key = [] \<or> valid_session_id (lookup_session r key)")
    case True
    with assms have "i = lookup_session r key" "\<not> dropped" by (auto simp: router_session_def Let_def)
    with True valid show ?thesis by auto
  next
    case False
    with assms have "i = []" "dropped" "r' = snd (set_session r key [])"
      by (auto simp: router_session_def Let_def split: prod.splits)
    with gone show ?thesis by (simp add: router_session_def)
  qed
qed

section \<open>What a turn leaves behind\<close>

text \<open>The ID the next turn resumes, by the trace of this one.\<close>

fun next_id :: "string \<Rightarrow> trace \<Rightarrow> string" where
  "next_id cur (Ev (EvSession i)) = i"
| "next_id cur (Ev (EvMessage t)) = cur"
| "next_id cur (Ev (EvActivity t)) = cur"
| "next_id cur (Fresh note) = []"

definition result_id :: "string \<Rightarrow> reply \<Rightarrow> string" where
  "result_id cur rep =
     (case rep_result rep of Some res \<Rightarrow> if t_session res \<noteq> [] then t_session res else cur | None \<Rightarrow> cur)"

definition in_sync :: "string set \<Rightarrow> router \<Rightarrow> bool" where
  "in_sync K r \<longleftrightarrow> (\<exists>st. rt_store r = Some st \<and> sound_store st \<and> (\<forall>k\<in>K. disk st k = rt_sessions r k))"

lemma set_session_lookup:
  "lookup_session (snd (set_session r key i)) k = (if k = key then i else lookup_session r k)"
  by (auto simp: set_session_def lookup_session_def put_session_def Let_def split: option.splits prod.splits)

lemma set_session_frame: "k \<noteq> key \<Longrightarrow> rt_sessions (snd (set_session r key i)) k = rt_sessions r k"
  by (auto simp: set_session_def put_session_def Let_def split: option.splits prod.splits)

lemma set_session_sync:
  assumes "in_sync K r"
  shows "fst (set_session r key i) \<and> in_sync K (snd (set_session r key i))"
proof (cases "lookup_session r key = i")
  case True
  with assms show ?thesis by (simp add: set_session_def)
next
  case False
  from assms obtain st where st: "rt_store r = Some st" "sound_store st" "\<forall>k\<in>K. disk st k = rt_sessions r k"
    by (auto simp: in_sync_def)
  with False store_set_sound [OF st(2), of key i] show ?thesis
    by (auto simp: set_session_def in_sync_def Let_def put_session_def case_prod_unfold)
qed

lemma set_session_same: "lookup_session r key = i \<Longrightarrow> set_session r key i = (True, r)"
  by (simp add: set_session_def)

text \<open>Setting the ID is the only thing a turn does to the router.\<close>

definition turn_inv :: "string \<Rightarrow> router \<Rightarrow> string \<Rightarrow> turn_state \<Rightarrow> bool" where
  "turn_inv key r i ts \<longleftrightarrow> lookup_session (ts_router ts) key = i
     \<and> (\<forall>k. k \<noteq> key \<longrightarrow> rt_sessions (ts_router ts) k = rt_sessions r k)
     \<and> (\<forall>K. in_sync K r \<longrightarrow> in_sync K (ts_router ts) \<and> \<not> ts_store_err ts)"

lemma turn_inv_set: "turn_inv key r i ts \<Longrightarrow> turn_inv key r j (set_id key ts j)"
  unfolding turn_inv_def set_id_def case_prod_unfold
  using set_session_lookup [of "ts_router ts" key j] set_session_frame [of _ key "ts_router ts" j]
    set_session_sync [of _ "ts_router ts" key j]
  by auto

lemma turn_inv_emit [simp]: "turn_inv key r i (emit ts c) = turn_inv key r i ts"
  by (simp add: turn_inv_def emit_def)

lemma turn_inv_emits: "turn_inv key r i (foldl emit ts cs) = turn_inv key r i ts"
  by (induction cs arbitrary: ts) auto

lemma turn_inv_trace:
  "turn_inv key r i ts \<Longrightarrow> turn_inv key r (foldl next_id i tr) (foldl (on_trace key) ts tr)"
proof (induction tr arbitrary: i ts)
  case Nil
  then show ?case by simp
next
  case (Cons t tr)
  have "turn_inv key r (next_id i t) (on_trace key ts t)"
  proof (cases t)
    case (Ev e)
    with Cons.prems show ?thesis by (cases e) (auto intro: turn_inv_set)
  next
    case (Fresh n)
    with turn_inv_set [OF Cons.prems] show ?thesis by simp
  qed
  from Cons.IH [OF this] show ?case by simp
qed

lemma router_session_frame:
  assumes "router_session r key = ((i, dropped), r')"
  shows "lookup_session r' key = i" "k \<noteq> key \<Longrightarrow> rt_sessions r' k = rt_sessions r k"
    "in_sync K r \<Longrightarrow> in_sync K r'"
  using assms set_session_lookup [of r key "[]" key] set_session_frame [of k key r "[]"]
    set_session_sync [of K r key "[]"]
  by (auto simp: router_session_def Let_def case_prod_unfold split: if_splits)

text \<open>After a turn the router resumes exactly the session the provider last reported: the ID of the
  result when it has one, else the last \<open>session\<close> event, none after a fresh start without one, else the
  old ID. Sessions of other models are untouched, and with a sound store the file agrees with memory on
  every key it agreed on before.\<close>

theorem turn_session_tracked:
  assumes "router_session r (session_key provider name) = ((i, dropped), r1)"
    and "do_turn drv spec provider cancelled i = (tr, rep, resumed)"
    and "router_turn drv streaming spec cancelled cancelled_end provider name r = (err, ts)"
  shows "lookup_session (ts_router ts) (session_key provider name)
      = result_id (foldl next_id i (visible streaming tr)) rep
    \<and> (\<forall>k. k \<noteq> session_key provider name \<longrightarrow> rt_sessions (ts_router ts) k = rt_sessions r k)
    \<and> (in_sync K r \<longrightarrow> in_sync K (ts_router ts))"
proof -
  let ?key = "session_key provider name"
  define ts0 where "ts0 = \<lparr>ts_router = r1,
      ts_chunks = (if dropped then [ChunkActivity ''dropped invalid stored backend session id''] else [])
        @ [ChunkSession (i \<noteq> [])], ts_store_err = False\<rparr>"
  define ts1 where "ts1 = foldl (on_trace ?key) ts0 (visible streaming tr)"
  define ts2 where "ts2 = (if streaming then ts1 else foldl emit ts1 (batch_chunks rep))"
  define ts3 where "ts3 = (case rep_result rep of
      Some res \<Rightarrow> if t_session res \<noteq> [] then set_id ?key ts2 (t_session res) else ts2 | None \<Rightarrow> ts2)"
  have ts: "ts = (if ts_store_err ts3 then emit ts3 (ChunkActivity ''could not save backend session id'') else ts3)"
    using assms unfolding router_turn_def ts3_def ts2_def ts1_def ts0_def by (simp add: Let_def)
  have "turn_inv ?key r i ts0"
    using router_session_frame [OF assms(1)] by (simp add: turn_inv_def ts0_def)
  then have "turn_inv ?key r (foldl next_id i (visible streaming tr)) ts2"
    using turn_inv_trace by (simp add: ts2_def ts1_def turn_inv_emits)
  then have "turn_inv ?key r (result_id (foldl next_id i (visible streaming tr)) rep) ts3"
    by (auto simp: ts3_def result_id_def intro: turn_inv_set split: option.splits)
  then have "turn_inv ?key r (result_id (foldl next_id i (visible streaming tr)) rep) ts"
    by (simp add: ts)
  then show ?thesis by (simp add: turn_inv_def)
qed

text \<open>A failed resume does not lose the session: when the resume call fails for any reason but a verified
  stale session, or the turn was cancelled, no second call is made, the error is returned, and a turn that
  reported no new ID leaves router and store exactly as they were.\<close>

theorem failed_resume_keeps_session:
  assumes "router_session r (session_key provider name) = ((i, False), r)" and "i \<noteq> []"
    and "rep_error (drv i) = Some e" and "cancelled \<or> \<not> is_stale_session spec provider e"
    and "result_id [] (drv i) = []" and "\<forall>j. EvSession j \<notin> set (rep_events (drv i))"
  shows "do_turn drv spec provider cancelled i = (map Ev (rep_events (drv i)), drv i, True)
    \<and> fst (router_turn drv streaming spec cancelled False provider name r) = Some (DriverErr e)
    \<and> ts_router (snd (router_turn drv streaming spec cancelled False provider name r)) = r"
proof -
  have d: "do_turn drv spec provider cancelled i = (map Ev (rep_events (drv i)), drv i, True)"
    using assms(2-4) by (simp add: do_turn_def Let_def)
  have quiet: "ts_router (foldl (on_trace key) ts (map Ev es)) = ts_router ts
      \<and> ts_store_err (foldl (on_trace key) ts (map Ev es)) = ts_store_err ts"
    if "\<forall>j. EvSession j \<notin> set es" for es key ts
    using that
  proof (induction es arbitrary: ts)
    case (Cons x es)
    then show ?case by (cases x) (auto simp: emit_def)
  qed simp
  have emits: "ts_router (foldl emit ts cs) = ts_router ts \<and> ts_store_err (foldl emit ts cs) = ts_store_err ts" for cs ts
    by (induction cs arbitrary: ts) (auto simp: emit_def)
  have vis: "visible streaming (map Ev es) = (if streaming then map Ev es else [])" for es
    by (simp add: visible_def filter_empty_conv)
  have res: "(case rep_result (drv i) of None \<Rightarrow> ts
      | Some res \<Rightarrow> if t_session res \<noteq> [] then set_id key ts (t_session res) else ts) = ts" for key ts
    using assms(5) by (auto simp: result_id_def split: option.splits if_splits)
  have "ts_router (snd (router_turn drv streaming spec cancelled False provider name r)) = r"
    unfolding router_turn_def
    by (simp only: assms(1) d prod.case Let_def vis res) (simp add: quiet [OF assms(6)] emits)
  with d assms(1,3) show ?thesis by (simp add: router_turn_def Let_def)
qed

definition session_chunks :: "chunk list \<Rightarrow> bool list" where
  "session_chunks cs = concat (map (\<lambda>c. case c of ChunkSession b \<Rightarrow> [b] | _ \<Rightarrow> []) cs)"

lemma session_chunks_simps [simp]:
  "session_chunks [] = []" "session_chunks (cs @ ds) = session_chunks cs @ session_chunks ds"
  "session_chunks [ChunkSession b] = [b]" "session_chunks [ChunkText t] = []" "session_chunks [ChunkActivity t] = []"
  "session_chunks (map ChunkText ts) = []" "session_chunks [ChunkActivity t, c] = session_chunks [c]"
  by (auto simp: session_chunks_def comp_def)

lemma set_id_chunks [simp]: "ts_chunks (set_id key ts i) = ts_chunks ts"
  by (simp add: set_id_def case_prod_unfold)

lemma emit_chunks [simp]: "ts_chunks (emit ts c) = ts_chunks ts @ [c]"
  by (simp add: emit_def)

lemma emits_chunks: "ts_chunks (foldl emit ts cs) = ts_chunks ts @ cs"
  by (induction cs arbitrary: ts) auto

lemma trace_session_chunks:
  "session_chunks (ts_chunks (foldl (on_trace key) ts tr)) =
    session_chunks (ts_chunks ts) @ map (\<lambda>_. False) (filter (\<lambda>t. case t of Fresh _ \<Rightarrow> True | Ev _ \<Rightarrow> False) tr)"
proof (induction tr arbitrary: ts)
  case Nil
  then show ?case by simp
next
  case (Cons t tr)
  show ?case
  proof (cases t)
    case (Ev e)
    then show ?thesis by (cases e) (simp_all add: Cons)
  next
    case (Fresh n)
    then show ?thesis by (simp add: Cons)
  qed
qed

lemma batch_session_chunks: "session_chunks (batch_chunks rep) = []"
  by (auto simp: batch_chunks_def split: option.splits)

text \<open>What the user is told is what happened: the last \<open>ChunkSession\<close> of a turn says \<open>resumed\<close> exactly when
  the result came from the resumed session.\<close>

theorem turn_announces_session:
  assumes "router_session r (session_key provider name) = ((i, dropped), r1)"
    and "do_turn drv spec provider cancelled i = (tr, rep, resumed)"
  shows "session_chunks (ts_chunks (snd (router_turn drv streaming spec cancelled cancelled_end provider name r)))
      = (if i = [] then [False] else if resumed then [True] else [True, False])"
proof -
  define ts0 where "ts0 = \<lparr>ts_router = r1,
      ts_chunks = (if dropped then [ChunkActivity ''dropped invalid stored backend session id''] else [])
        @ [ChunkSession (i \<noteq> [])], ts_store_err = False\<rparr>"
  let ?key = "session_key provider name"
  let ?ts = "snd (router_turn drv streaming spec cancelled cancelled_end provider name r)"
  have no: "filter (\<lambda>t. case t of Fresh _ \<Rightarrow> True | Ev _ \<Rightarrow> False) (map Ev es) = []" for es
    by (simp add: filter_empty_conv)
  have idem: "filter (\<lambda>t. case t of Fresh _ \<Rightarrow> True | Ev _ \<Rightarrow> False) (visible streaming tr)
      = filter (\<lambda>t. case t of Fresh _ \<Rightarrow> True | Ev _ \<Rightarrow> False) tr"
    by (simp add: visible_def)
  have tr: "map (\<lambda>_. False) (filter (\<lambda>t. case t of Fresh _ \<Rightarrow> True | Ev _ \<Rightarrow> False) tr)
      = (if i \<noteq> [] \<and> \<not> resumed then [False] else [])"
    using assms(2) by (auto simp: do_turn_def Let_def no split: option.splits if_splits)
  define ts1 where "ts1 = foldl (on_trace ?key) ts0 (visible streaming tr)"
  define ts2 where "ts2 = (if streaming then ts1 else foldl emit ts1 (batch_chunks rep))"
  define ts3 where "ts3 = (case rep_result rep of
      Some res \<Rightarrow> if t_session res \<noteq> [] then set_id ?key ts2 (t_session res) else ts2 | None \<Rightarrow> ts2)"
  have ts: "?ts = (if ts_store_err ts3 then emit ts3 (ChunkActivity ''could not save backend session id'') else ts3)"
    using assms unfolding router_turn_def ts3_def ts2_def ts1_def ts0_def by (simp add: Let_def)
  have t0: "session_chunks (ts_chunks ts0) = [i \<noteq> []]" by (simp add: ts0_def)
  have t1: "session_chunks (ts_chunks ts1) = [i \<noteq> []] @ (if i \<noteq> [] \<and> \<not> resumed then [False] else [])"
    unfolding ts1_def trace_session_chunks idem tr t0 ..
  have t2: "session_chunks (ts_chunks ts2) = session_chunks (ts_chunks ts1)"
    by (simp add: ts2_def emits_chunks batch_session_chunks)
  have t3: "ts_chunks ts3 = ts_chunks ts2" by (auto simp: ts3_def split: option.splits)
  have res: "i = [] \<Longrightarrow> \<not> resumed" using assms(2) by (simp add: do_turn_def Let_def)
  show ?thesis unfolding ts using t1 t2 t3 res by (auto simp: emit_def)
qed

lemma base_name_no_slash: "trim_right i ''/'' \<noteq> [] \<Longrightarrow> CHR ''/'' \<notin> set (base_name i)"
  by (auto simp: base_name_def Let_def last_index_of_None_char dest: last_index_of_char_tail split: option.splits)

lemma trim_right_absent: "set s \<inter> set cs = {} \<Longrightarrow> trim_right s cs = s"
proof (cases s rule: rev_cases)
  case (snoc t c)
  assume "set s \<inter> set cs = {}"
  with snoc show ?thesis by (simp add: trim_right_snoc)
qed simp

text \<open>A TUI session ID names a file inside the store directory: \<open>NewStore\<close> accepts exactly the non-empty
  names without a path separator other than the two dot names, and, against its error text, the single
  separator \<open>/\<close>, which is its own base name and gives the file \<open>.json\<close>.\<close>

theorem new_store_names:
  "new_store_ok i \<longleftrightarrow> i = ''/'' \<or> (i \<noteq> [] \<and> CHR ''/'' \<notin> set i \<and> i \<noteq> ''.'' \<and> i \<noteq> ''..'')"
proof (cases "CHR ''/'' \<in> set i")
  case False
  then have "trim_right i ''/'' = i" by (intro trim_right_absent) simp
  moreover have "last_index_of i ''/'' = None" using False by (simp add: last_index_of_None_char)
  ultimately show ?thesis
    using False by (auto simp: new_store_ok_def base_name_def)
next
  case True
  have "i = base_name i \<longleftrightarrow> i = ''/''"
  proof
    assume "i = base_name i"
    with True have "trim_right i ''/'' = []" using base_name_no_slash [of i] by auto
    with True \<open>i = base_name i\<close> show "i = ''/''" by (auto simp: base_name_def split: if_splits)
  next
    assume "i = ''/''"
    then show "i = base_name i" by (simp add: base_name_def trim_right_def trim_left_def)
  qed
  with True show ?thesis by (auto simp: new_store_ok_def)
qed

text \<open>Pruning the stores never removes the store of the running session, a directory, a file that is not a
  store, or one that was modified within the age limit.\<close>

theorem prune_stores_safe:
  assumes "name \<in> set (prune_stores now max_age keep entries)"
  shows "name \<noteq> keep @ ''.json'' \<and> has_suffix name ''.json''
    \<and> (\<exists>t. (name, False, Some t) \<in> set entries \<and> t < now - max_age)"
  using assms by (auto simp: prune_stores_def prune_victim_def split: option.splits)

section \<open>Witnesses\<close>

definition sample_driver :: driver where
  "sample_driver i =
     (if i = ''s1'' then \<lparr>rep_events = [], rep_result = None, rep_error = Some (ProviderExit ''no session'' ''exit 1'')\<rparr>
      else if i = ''s2'' then \<lparr>rep_events = [], rep_result = None, rep_error = Some (OtherError ''timeout'')\<rparr>
      else \<lparr>rep_events = [EvSession ''s3''], rep_result = Some \<lparr>t_session = ''s3'', t_messages = [''hi''], t_response = []\<rparr>,
            rep_error = None\<rparr>)"

definition sample_spec :: "(string \<Rightarrow> string list) option" where
  "sample_spec = Some (\<lambda>p. if p = ''pi'' then [''no session''] else [])"

definition sample_router :: "string \<Rightarrow> router" where
  "sample_router i = \<lparr>rt_sessions = [''pi:m'' \<mapsto> i], rt_store = None\<rparr>"

lemma sample_session: "router_session (sample_router i) (session_key ''pi'' ''m'') =
    (if i = [] \<or> valid_session_id i then ((i, False), sample_router i)
     else (([], True), \<lparr>rt_sessions = [''pi:m'' \<mapsto> i](''pi:m'' := None), rt_store = None\<rparr>))"
  by (auto simp: router_session_def sample_router_def session_key_def lookup_session_def set_session_def
      put_session_def Let_def)

lemma sample_valid_ids: "valid_session_id ''s1''" "valid_session_id ''s2''" "\<not> valid_session_id ''-x''"
  by code_simp+

lemma sample_fresh: "do_turn sample_driver sample_spec ''pi'' False ''s1'' =
    ([Fresh (fresh_note ''s1'' (ProviderExit ''no session'' ''exit 1'')), Ev (EvSession ''s3'')], sample_driver [], False)"
proof -
  have "is_stale_session sample_spec ''pi'' (ProviderExit ''no session'' ''exit 1'')" by code_simp
  then show ?thesis by (simp add: do_turn_def sample_driver_def)
qed

theorem session_id_safe_witness:
  "fst (router_session (sample_router ''-x'') (session_key ''pi'' ''m'')) = ([], True)
    \<and> fst (router_session (snd (router_session (sample_router ''-x'') (session_key ''pi'' ''m'')))
        (session_key ''pi'' ''m'')) = ([], False)"
proof -
  have s: "router_session (sample_router ''-x'') (session_key ''pi'' ''m'')
      = (([], True), snd (router_session (sample_router ''-x'') (session_key ''pi'' ''m'')))"
    by (simp add: sample_session sample_valid_ids)
  have "fst (router_session (sample_router ''-x'') (session_key ''pi'' ''m'')) = ([], True)"
    by (simp add: sample_session sample_valid_ids)
  with session_id_safe [OF s] show ?thesis by blast
qed

theorem turn_session_tracked_witness:
  "lookup_session (ts_router (snd (router_turn sample_driver True sample_spec False False ''pi'' ''m'' (sample_router ''s1''))))
    (session_key ''pi'' ''m'') = ''s3''"
proof -
  have s: "router_session (sample_router ''s1'') (session_key ''pi'' ''m'') = ((''s1'', False), sample_router ''s1'')"
    using sample_session [of "''s1''"] sample_valid_ids(1) by simp
  have "router_turn sample_driver True sample_spec False False ''pi'' ''m'' (sample_router ''s1'')
    = (fst (router_turn sample_driver True sample_spec False False ''pi'' ''m'' (sample_router ''s1'')),
       snd (router_turn sample_driver True sample_spec False False ''pi'' ''m'' (sample_router ''s1'')))" by simp
  from turn_session_tracked [OF s sample_fresh this, of "{}"]
  show ?thesis by (simp add: result_id_def sample_driver_def visible_def)
qed

theorem failed_resume_keeps_session_witness:
  "ts_router (snd (router_turn sample_driver True sample_spec False False ''pi'' ''m'' (sample_router ''s2''))) = sample_router ''s2''"
proof -
  have s: "router_session (sample_router ''s2'') (session_key ''pi'' ''m'') = ((''s2'', False), sample_router ''s2'')"
    using sample_session [of "''s2''"] sample_valid_ids(2) by simp
  have e: "rep_error (sample_driver ''s2'') = Some (OtherError ''timeout'')"
    "result_id [] (sample_driver ''s2'') = []" "\<forall>j. EvSession j \<notin> set (rep_events (sample_driver ''s2''))"
    by (simp_all add: sample_driver_def result_id_def)
  have n: "False \<or> \<not> is_stale_session sample_spec ''pi'' (OtherError ''timeout'')" by (simp add: is_stale_session_def)
  have "''s2'' \<noteq> []" by simp
  from failed_resume_keeps_session [where drv = sample_driver, OF s this e(1) n e(2,3), of True]
  show ?thesis by blast
qed

theorem turn_announces_session_witness:
  "session_chunks (ts_chunks (snd (router_turn sample_driver True sample_spec False False ''pi'' ''m'' (sample_router ''s1''))))
    = [True, False]"
proof -
  have s: "router_session (sample_router ''s1'') (session_key ''pi'' ''m'') = ((''s1'', False), sample_router ''s1'')"
    using sample_session [of "''s1''"] sample_valid_ids(1) by simp
  show ?thesis using turn_announces_session [OF s sample_fresh, of True False] by simp
qed

theorem prune_stores_safe_witness: "''b.json'' \<noteq> ''a'' @ ''.json'' \<and> has_suffix ''b.json'' ''.json''"
proof -
  have "''b.json'' \<in> set (prune_stores 100 10 ''a'' [(''a.json'', False, Some 1), (''b.json'', False, Some 2)])"
    by code_simp
  from prune_stores_safe [OF this] show ?thesis by blast
qed

end
