(* ===== verification/Quota.thy ===== *)
theory Quota
  imports GoBase
begin

text \<open>
  The test-run quota: \<open>internal/quota1/quota.go\<close>.

  One test run is allowed per source modification. The state file holds the record of the latest run;
  \<open>check_and_record\<close> decides and records, \<open>update_process\<close> and \<open>finish_run\<close> complete the record. Times
  are nanoseconds since Go's zero time, so 0 is the zero time. The source tree is a finite tree of
  names with modification times in the order of \<open>filepath.WalkDir\<close>; JSON and time formats are the
  standard library's, so a state file holds a record, a legacy time stamp or something unreadable.
\<close>

section \<open>State\<close>

record run_record =
  rr_started :: int
  rr_pgid :: int
  rr_pid_start :: nat
  rr_finished :: "int option"
  rr_exit :: "int option"
  rr_retry :: bool

definition new_record :: "int \<Rightarrow> bool \<Rightarrow> run_record" where
  "new_record now retry = \<lparr>rr_started = now, rr_pgid = 0, rr_pid_start = 0, rr_finished = None,
     rr_exit = None, rr_retry = retry\<rparr>"

datatype state_file = NoState | BadState | Legacy int | State run_record

datatype read_error = NotExist | Unreadable

definition read_run_record :: "state_file \<Rightarrow> read_error + run_record" where
  "read_run_record f =
     (case f of
        NoState \<Rightarrow> Inl NotExist
      | BadState \<Rightarrow> Inl Unreadable
      | Legacy t \<Rightarrow> Inr \<lparr>rr_started = t, rr_pgid = 0, rr_pid_start = 0, rr_finished = Some t, rr_exit = Some 0,
                     rr_retry = False\<rparr>
      | State r \<Rightarrow> if rr_started r = 0 then Inl Unreadable else Inr r)"

section \<open>The environment\<close>

definition is_bypass :: "(string \<Rightarrow> string) \<Rightarrow> bool" where
  "is_bypass getenv \<longleftrightarrow>
     list_ex (\<lambda>key. let v = trim_space (getenv key) in v = ''1'' \<or> equal_fold v ''true'')
       [''QUOTA_BYPASS'', ''HARNEZ_QUOTA_BYPASS'']"

text \<open>
  \<open>ResolveStateFile\<close> on the components of the absolute directory, innermost last. \<open>git\<close> says what
  \<open>.git\<close> is in a directory.
\<close>

datatype git_entry = GitNone | GitFile | GitDir bool

function resolve_state :: "(string list \<Rightarrow> git_entry) \<Rightarrow> string list \<Rightarrow> string list \<Rightarrow> string list \<times> string list" where
  "resolve_state git dir0 cur =
     (case git cur of
        GitDir True \<Rightarrow> (cur @ [''.git'', ''harnez'', ''quota_1.state''], cur)
      | GitFile \<Rightarrow> (cur @ [''.harnez'', ''quota_1.state''], cur)
      | _ \<Rightarrow>
          if cur = [] then (dir0 @ [''.harnez'', ''quota_1.state''], dir0)
          else resolve_state git dir0 (butlast cur))"
  by pat_completeness auto
termination by (relation "measure (\<lambda>(git, dir0, cur). length cur)") auto

declare resolve_state.simps [simp del]

definition resolve_state_file :: "(string list \<Rightarrow> git_entry) \<Rightarrow> string list \<Rightarrow> string list \<times> string list" where
  "resolve_state_file git dir0 = resolve_state git dir0 dir0"

section \<open>Modified source files\<close>

definition excluded_dirs :: "string list" where
  "excluded_dirs = [''.git'', ''.harnez'', ''vendor'', ''node_modules'', ''.claude'', ''.gemini'', ''.idea'', ''.vscode'',
     ''.cache'', ''tmp'', ''temp'', ''dist'', ''build'', ''target'', ''bin'', ''__pycache__'', ''.pytest_cache'']"

definition is_excluded_dir :: "string \<Rightarrow> bool" where
  "is_excluded_dir name \<longleftrightarrow> name \<in> set excluded_dirs \<or> has_prefix name ''.''"

definition is_excluded_file :: "string \<Rightarrow> bool" where
  "is_excluded_file name \<longleftrightarrow> has_prefix name ''.''
     \<or> list_ex (has_suffix name) [''~'', ''.swp'', ''.swo'', ''.tmp'', ''.temp'', ''.bak'', ''.log'', ''.lock'', ''.test'']"

text \<open>A file whose modification time cannot be read has \<^const>\<open>None\<close>.\<close>

datatype node = FileNode string "int option" | DirNode string "node list"

fun node_name :: "node \<Rightarrow> string" where
  "node_name (FileNode n t) = n"
| "node_name (DirNode n ns) = n"

text \<open>\<open>at\<close> is the path of the directory the node stands in; a path is a list of components.\<close>

fun walk_modified :: "string list \<Rightarrow> int \<Rightarrow> string list \<Rightarrow> node \<Rightarrow> string list list" where
  "walk_modified state since at (FileNode n t) =
     (if at @ [n] = state \<or> is_excluded_file n then []
      else case t of None \<Rightarrow> [] | Some m \<Rightarrow> if since < m then [at @ [n]] else [])"
| "walk_modified state since at (DirNode n ns) =
     (if is_excluded_dir n then [] else concat (map (walk_modified state since (at @ [n])) ns))"

definition find_modified_file :: "string list \<Rightarrow> int \<Rightarrow> string list \<Rightarrow> node \<Rightarrow> string list option" where
  "find_modified_file state since at root =
     (case walk_modified state since at root of [] \<Rightarrow> None | f # _ \<Rightarrow> Some f)"

text \<open>
  The filter of \<open>ChangesSinceLastRunAfter\<close>: \<open>rel\<close> is the slash path below the root, \<open>mtime\<close> the outcome
  of \<open>os.Stat\<close>, \<open>tracked\<close> and \<open>ignored\<close> the answers of git.
\<close>

definition counts_as_change ::
  "(string \<Rightarrow> int option) \<Rightarrow> (string \<Rightarrow> bool) \<Rightarrow> (string \<Rightarrow> bool) \<Rightarrow> int \<Rightarrow> string \<Rightarrow> bool" where
  "counts_as_change mtime tracked ignored turn_started rel \<longleftrightarrow>
     (case mtime rel of
        None \<Rightarrow> False
      | Some m \<Rightarrow>
          \<not> (turn_started \<noteq> 0 \<and> m \<le> turn_started)
          \<and> \<not> has_suffix (to_lower rel) ''.md'' \<and> \<not> has_prefix rel ''issues/''
          \<and> (tracked rel \<or> \<not> ignored rel))"

section \<open>Checking and recording a run\<close>

record quota =
  q_file :: state_file
  q_write_fault :: bool

datatype verdict =
    BypassActive | InitialRun | ResetCorrupt | Unfinished | OneRetry | SourceModified "string list" | NothingModified

fun allowed :: "verdict \<Rightarrow> bool" where
  "allowed Unfinished = False"
| "allowed NothingModified = False"
| "allowed v = True"

definition write_record :: "quota \<Rightarrow> run_record \<Rightarrow> bool \<times> quota" where
  "write_record q r = (if q_write_fault q then (False, q) else (True, q\<lparr>q_file := State r\<rparr>))"

definition record_run :: "quota \<Rightarrow> int \<Rightarrow> bool \<Rightarrow> verdict \<Rightarrow> verdict option \<times> quota" where
  "record_run q now retry v =
     (case write_record q (new_record now retry) of
        (True, q') \<Rightarrow> (Some v, q')
      | (False, q') \<Rightarrow> (None, q'))"

text \<open>\<open>CheckAndRecord\<close> once the state file and the root are known; \<^const>\<open>None\<close> is an error.\<close>

definition check_and_record ::
  "quota \<Rightarrow> (string \<Rightarrow> string) \<Rightarrow> string list \<Rightarrow> string list \<Rightarrow> node \<Rightarrow> int \<Rightarrow> verdict option \<times> quota" where
  "check_and_record q getenv state at root now =
     (if is_bypass getenv then record_run q now False BypassActive
      else case read_run_record (q_file q) of
        Inl NotExist \<Rightarrow> record_run q now False InitialRun
      | Inl Unreadable \<Rightarrow> record_run q now False ResetCorrupt
      | Inr previous \<Rightarrow>
          if rr_exit previous = None \<and> rr_finished previous = None then (Some Unfinished, q)
          else if rr_exit previous = None \<and> \<not> rr_retry previous then record_run q now True OneRetry
          else (case find_modified_file state (rr_started previous) at root of
              Some f \<Rightarrow> record_run q now False (SourceModified f)
            | None \<Rightarrow> (Some NothingModified, q)))"

definition update_process :: "quota \<Rightarrow> int \<Rightarrow> nat \<Rightarrow> bool \<times> quota" where
  "update_process q pgid start =
     (case read_run_record (q_file q) of
        Inl _ \<Rightarrow> (False, q)
      | Inr r \<Rightarrow> write_record q (r\<lparr>rr_pgid := pgid, rr_pid_start := start\<rparr>))"

definition finish_run :: "quota \<Rightarrow> int \<Rightarrow> int option \<Rightarrow> bool \<times> quota" where
  "finish_run q finished exit_code =
     (case read_run_record (q_file q) of
        Inl _ \<Rightarrow> (False, q)
      | Inr r \<Rightarrow> write_record q (r\<lparr>rr_finished := Some finished, rr_exit := exit_code\<rparr>))"

section \<open>Process start times\<close>

definition parse_uint64 :: "string \<Rightarrow> nat option" where
  "parse_uint64 s = parse_uint 64 s"

definition parse_proc_starttime :: "string \<Rightarrow> nat" where
  "parse_proc_starttime line =
     (case last_index_of line '')'' of
        None \<Rightarrow> 0
      | Some stop \<Rightarrow>
          if length line \<le> stop + 1 then 0
          else
            let fs = string_fields (drop (stop + 1) line)
            in if length fs \<le> 19 then 0
               else (case parse_uint64 (fs ! 19) of Some t \<Rightarrow> t | None \<Rightarrow> 0))"

section \<open>Which files count\<close>

text \<open>The files of a tree with the components of their paths below \<open>at\<close>.\<close>

fun tree_files :: "string list \<Rightarrow> node \<Rightarrow> (string list \<times> int option) list" where
  "tree_files at (FileNode n t) = [(at @ [n], t)]"
| "tree_files at (DirNode n ns) = concat (map (tree_files (at @ [n])) ns)"

lemma tree_files_path: "(p, t) \<in> set (tree_files at d) \<Longrightarrow> \<exists>q. p = at @ q \<and> q \<noteq> [] \<and> hd q = node_name d"
proof (induction at d rule: tree_files.induct)
  case (2 at n ns)
  then obtain d where "d \<in> set ns" "(p, t) \<in> set (tree_files (at @ [n]) d)" by auto
  with 2(1) [of d] show ?case by auto
qed simp

lemma walk_modified_iff:
  "p \<in> set (walk_modified state since at root) \<longleftrightarrow>
    (\<exists>q m. p = at @ q \<and> (p, Some m) \<in> set (tree_files at root) \<and> since < m \<and> p \<noteq> state
       \<and> \<not> is_excluded_file (last q) \<and> \<not> list_ex is_excluded_dir (butlast q))"
proof (induction state since at root rule: walk_modified.induct)
  case (1 state since at n t)
  then show ?case by (auto split: option.splits)
next
  case (2 state since at n ns)
  have below: "(p, Some m) \<in> set (tree_files (at @ [n]) d) \<Longrightarrow> \<exists>q. p = at @ n # q \<and> q \<noteq> []" for m d
    using tree_files_path by fastforce
  have "p \<in> set (walk_modified state since at (DirNode n ns)) \<longleftrightarrow>
      \<not> is_excluded_dir n \<and> (\<exists>d\<in>set ns. \<exists>q m. p = at @ n # q \<and> (p, Some m) \<in> set (tree_files (at @ [n]) d)
        \<and> since < m \<and> p \<noteq> state \<and> \<not> is_excluded_file (last q) \<and> \<not> list_ex is_excluded_dir (butlast q))"
    using 2 by auto
  also have "\<dots> \<longleftrightarrow> (\<exists>q m. p = at @ q \<and> (p, Some m) \<in> set (tree_files at (DirNode n ns)) \<and> since < m \<and> p \<noteq> state
       \<and> \<not> is_excluded_file (last q) \<and> \<not> list_ex is_excluded_dir (butlast q))"
    using below by fastforce
  finally show ?case .
qed

text \<open>The scan finds exactly the source files: a path is reported when and only when it is a file newer than
  the last run that is not the state file, has no excluded name, and has no excluded directory on its
  path from the root on, the root's own name included.\<close>

theorem walk_modified_exact:
  "p \<in> set (walk_modified state since at root) \<longleftrightarrow>
    (\<exists>q m. p = at @ q \<and> (p, Some m) \<in> set (tree_files at root) \<and> since < m \<and> p \<noteq> state
       \<and> \<not> is_excluded_file (last q) \<and> \<not> list_ex is_excluded_dir (butlast q))"
  by (rule walk_modified_iff)

lemma walk_unmodified:
  assumes "walk_modified state t0 at root = []" and "t0 \<le> since"
  shows "find_modified_file state since at root = None"
proof -
  have "walk_modified state since at root = []"
  proof (rule ccontr)
    assume "walk_modified state since at root \<noteq> []"
    then obtain p where "p \<in> set (walk_modified state since at root)" using hd_in_set by blast
    then obtain q m where h: "p = at @ q" "(p, Some m) \<in> set (tree_files at root)" "since < m" "p \<noteq> state"
        "\<not> is_excluded_file (last q)" "\<not> list_ex is_excluded_dir (butlast q)"
      unfolding walk_modified_iff by blast
    then have "p \<in> set (walk_modified state t0 at root)"
      unfolding walk_modified_iff using assms(2) by (intro exI [of _ q] exI [of _ m]) simp
    with assms(1) show False by simp
  qed
  then show ?thesis by (simp add: find_modified_file_def)
qed

section \<open>What a check decides\<close>

text \<open>The rule of the quota: when the record of the previous run grants a run.\<close>

definition may_run :: "state_file \<Rightarrow> bool \<Rightarrow> bool" where
  "may_run f modified \<longleftrightarrow>
     (case read_run_record f of
        Inl _ \<Rightarrow> True
      | Inr r \<Rightarrow>
          if rr_exit r = None \<and> rr_finished r = None then False
          else if rr_exit r = None \<and> \<not> rr_retry r then True
          else modified)"

text \<open>\<open>CheckAndRecord\<close> allows a run exactly with a bypass or when the previous run grants it: none or an
  unreadable one on record, a recorded end without exit code that was not yet retried, or a source file
  modified since. An allowed run is recorded with its start; a blocked one changes nothing.\<close>

theorem check_decides:
  assumes "\<not> q_write_fault q" and "check_and_record q getenv state at root now = (res, q')"
  shows "res \<noteq> None
    \<and> (allowed (the res) \<longleftrightarrow> is_bypass getenv
        \<or> may_run (q_file q) (case read_run_record (q_file q) of Inl _ \<Rightarrow> False
            | Inr r \<Rightarrow> walk_modified state (rr_started r) at root \<noteq> []))
    \<and> q' = (if allowed (the res) then q\<lparr>q_file := State (new_record now (the res = OneRetry))\<rparr> else q)"
  using assms
  by (auto simp: check_and_record_def record_run_def write_record_def may_run_def find_modified_file_def
      split: sum.splits read_error.splits list.splits option.splits if_splits)

text \<open>A failing write blocks: when the record cannot be written, no run is allowed.\<close>

theorem check_needs_record:
  assumes "q_write_fault q" and "check_and_record q getenv state at root now = (Some v, q')"
  shows "\<not> allowed v \<and> q' = q"
  using assms
  by (auto simp: check_and_record_def record_run_def write_record_def
      split: sum.splits read_error.splits list.splits option.splits if_splits)

text \<open>A repository whose own directory has an excluded name, \<open>build\<close>, \<open>tmp\<close>, or anything that starts with a
  dot, is never scanned: once a run has completed, every later run without a bypass is blocked, whatever
  is edited.\<close>

theorem excluded_root_blocks:
  assumes "is_excluded_dir n" and "\<not> is_bypass getenv"
    and "read_run_record (q_file q) = Inr r" and "rr_exit r = Some x"
  shows "check_and_record q getenv state at (DirNode n ns) now = (Some NothingModified, q)"
  using assms by (simp add: check_and_record_def find_modified_file_def)

section \<open>Runs of the quota\<close>

datatype quota_event =
    QCheck "string \<Rightarrow> string" node int
  | QUpdate int nat
  | QFinish int "int option"

fun quota_step :: "string list \<Rightarrow> string list \<Rightarrow> quota \<Rightarrow> quota_event \<Rightarrow> bool \<times> quota" where
  "quota_step state at q (QCheck getenv root now) =
     (case check_and_record q getenv state at root now of
        (Some v, q') \<Rightarrow> (allowed v, q') | (None, q') \<Rightarrow> (False, q'))"
| "quota_step state at q (QUpdate pgid start) = (False, snd (update_process q pgid start))"
| "quota_step state at q (QFinish t x) = (False, snd (finish_run q t x))"

fun granted :: "string list \<Rightarrow> string list \<Rightarrow> quota \<Rightarrow> quota_event list \<Rightarrow> nat" where
  "granted state at q [] = 0"
| "granted state at q (e # es) =
     (case quota_step state at q e of (ok, q') \<Rightarrow> (if ok then 1 else 0) + granted state at q' es)"

text \<open>No bypass, and no source file newer than \<open>t0\<close> at any check after it.\<close>

fun quiet_event :: "string list \<Rightarrow> string list \<Rightarrow> int \<Rightarrow> quota_event \<Rightarrow> bool" where
  "quiet_event state at t0 (QCheck getenv root now) \<longleftrightarrow>
     \<not> is_bypass getenv \<and> t0 \<le> now \<and> walk_modified state t0 at root = []"
| "quiet_event state at t0 e \<longleftrightarrow> True"

definition budget :: "quota \<Rightarrow> nat" where
  "budget q = (case q_file q of State r \<Rightarrow> if rr_retry r then 0 else 1 | _ \<Rightarrow> 2)"

definition recorded :: "int \<Rightarrow> quota \<Rightarrow> bool" where
  "recorded t0 q \<longleftrightarrow> (case q_file q of State r \<Rightarrow> 0 < t0 \<and> t0 \<le> rr_started r | _ \<Rightarrow> False)"

lemma quota_step_budget:
  assumes "recorded t0 q" and "quiet_event state at t0 e"
  shows "recorded t0 (snd (quota_step state at q e))
    \<and> (if fst (quota_step state at q e) then 1 else 0) + budget (snd (quota_step state at q e)) \<le> budget q"
proof (cases e)
  case (QCheck getenv root now)
  from assms(1) obtain r where r: "q_file q = State r" "0 < t0" "t0 \<le> rr_started r"
    by (auto simp: recorded_def split: state_file.splits)
  then have rd: "read_run_record (q_file q) = Inr r" by (simp add: read_run_record_def)
  have "find_modified_file state (rr_started r) at root = None"
    using assms(2) r(3) QCheck by (auto intro: walk_unmodified)
  with assms(2) QCheck r rd show ?thesis
    by (auto simp: check_and_record_def record_run_def write_record_def recorded_def budget_def new_record_def)
qed (use assms in \<open>auto simp: update_process_def finish_run_def write_record_def recorded_def budget_def
    read_run_record_def split: state_file.splits\<close>)

text \<open>C8. Without edits and without a bypass a run on record grants at most one more, the retry of a run that
  ended without an exit code, and a retry grants none: in every sequence of checks, process updates and
  finished runs after it.\<close>

theorem at_most_one_retry:
  assumes "q_file q = State r" and "0 < rr_started r" and "list_all (quiet_event state at (rr_started r)) es"
  shows "granted state at q es \<le> (if rr_retry r then 0 else 1)"
proof -
  have "granted state at q es \<le> budget q" if "recorded t0 q" "list_all (quiet_event state at t0) es" for t0 q es
    using that
  proof (induction es arbitrary: q)
    case (Cons e es)
    then have e: "quiet_event state at t0 e" "list_all (quiet_event state at t0) es" by simp_all
    note st = quota_step_budget [OF Cons.prems(1) e(1)]
    from Cons.IH [of "snd (quota_step state at q e)"] st e show ?case
      by (auto simp: case_prod_unfold)
  qed simp
  from this [of "rr_started r" q es] assms show ?thesis
    by (simp add: recorded_def budget_def)
qed

lemma drop_past: "drop (length a + 1) (a @ c # b) = b"
  by simp

text \<open>The start time of a process is read from its \<open>/proc\<close> line whatever its command name is, spaces and
  parentheses included: it is the field after the twentieth space behind the last parenthesis.\<close>

theorem proc_starttime_roundtrip:
  assumes "list_all (\<lambda>w. w \<noteq> [] \<and> list_all (\<lambda>c. \<not> is_space c \<and> c \<noteq> CHR '')'') w) (ws @ vs)"
    and "length ws = 19" and "t < 2 ^ 64"
  shows "parse_proc_starttime (pid @ '' ('' @ comm @ '')'' @ concat (map (\<lambda>w. CHR '' '' # w) (ws @ nat_dec t # vs))) = t"
proof -
  let ?ws = "ws @ nat_dec t # vs"
  let ?rest = "concat (map (\<lambda>w. CHR '' '' # w) ?ws)"
  have digit: "\<not> is_space c \<and> c \<noteq> CHR '')''" if "is_digit c" for c
    using that by (auto simp: is_digit_def is_space_def white_def)
  have num: "nat_dec t \<noteq> [] \<and> list_all (\<lambda>c. \<not> is_space c \<and> c \<noteq> CHR '')'') (nat_dec t)"
    using nat_dec_digits [of t] digit by (auto simp: all_digits_def list_all_iff)
  have all: "list_all (\<lambda>w. w \<noteq> [] \<and> list_all (\<lambda>c. \<not> is_space c \<and> c \<noteq> CHR '')'') w) ?ws"
    using assms(1) num by simp
  then have "CHR '')'' \<notin> set ?rest" by (auto simp: list_all_iff)
  then have last: "last_index_of ((pid @ '' ('' @ comm) @ CHR '')'' # ?rest) [CHR '')''] = Some (length (pid @ '' ('' @ comm))"
    by (rule last_index_of_char_append)
  have line: "pid @ '' ('' @ comm @ '')'' @ ?rest = (pid @ '' ('' @ comm) @ CHR '')'' # ?rest" by simp
  have fs: "string_fields ?rest = ?ws"
    using all by (intro string_fields_words) (auto simp: list_all_iff)
  have num: "parse_uint64 (nat_dec t) = Some t"
    using assms(3) by (simp add: parse_uint64_def parse_uint_nat_dec)
  have at19: "?ws ! 19 = nat_dec t" "\<not> length ?ws \<le> 19" using assms(2) by (simp_all add: nth_append)
  have "0 < length ?rest" using assms(2) by (cases ws) auto
  then have len: "\<not> length ((pid @ '' ('' @ comm) @ CHR '')'' # ?rest) \<le> length (pid @ '' ('' @ comm) + 1" by simp
  show ?thesis
    unfolding line parse_proc_starttime_def
    by (simp only: last option.case Let_def drop_past fs at19 len num if_False)
qed

section \<open>Witnesses\<close>

definition no_env :: "string \<Rightarrow> string" where
  "no_env key = []"

definition sample_tree :: "int \<Rightarrow> node" where
  "sample_tree t = DirNode ''repo'' [FileNode ''main.go'' (Some t), FileNode ''x.log'' (Some 99), DirNode ''build'' [FileNode ''o.go'' (Some 99)]]"

definition sample_quota :: quota where
  "sample_quota = \<lparr>q_file = State ((new_record 10 False)\<lparr>rr_finished := Some 11\<rparr>), q_write_fault = False\<rparr>"

theorem check_decides_witness:
  "fst (check_and_record sample_quota no_env [''s''] [] (sample_tree 5) 20) \<noteq> None"
proof -
  have "\<not> q_write_fault sample_quota" by (simp add: sample_quota_def)
  from check_decides [OF this prod.collapse [symmetric]] show ?thesis by blast
qed

theorem check_needs_record_witness:
  "fst (check_and_record (sample_quota\<lparr>q_write_fault := True, q_file := Legacy 3\<rparr>) no_env [''s''] [] (sample_tree 2) 20)
    = Some NothingModified \<and> \<not> allowed NothingModified"
proof -
  let ?q = "sample_quota\<lparr>q_write_fault := True, q_file := Legacy 3\<rparr>"
  have f: "fst (check_and_record ?q no_env [''s''] [] (sample_tree 2) 20) = Some NothingModified" by code_simp
  then have "check_and_record ?q no_env [''s''] [] (sample_tree 2) 20
      = (Some NothingModified, snd (check_and_record ?q no_env [''s''] [] (sample_tree 2) 20))"
    by (simp add: prod_eq_iff)
  from check_needs_record [OF _ this] f show ?thesis by simp
qed

theorem excluded_root_blocks_witness:
  "fst (check_and_record (sample_quota\<lparr>q_file := Legacy 3\<rparr>) no_env [''s''] [] (DirNode ''build'' [FileNode ''a.go'' (Some 99)]) 20)
    = Some NothingModified"
proof -
  have "is_excluded_dir ''build''" "\<not> is_bypass no_env" by code_simp+
  from excluded_root_blocks [OF this, of "sample_quota\<lparr>q_file := Legacy 3\<rparr>" _ 0 "[''s'']" "[]" "[FileNode ''a.go'' (Some 99)]" 20]
  show ?thesis by (simp add: read_run_record_def)
qed

theorem at_most_one_retry_witness:
  "granted [''s''] [] sample_quota [QCheck no_env (sample_tree 5) 20, QFinish 21 None, QCheck no_env (sample_tree 5) 30] \<le> 1"
proof -
  let ?r = "(new_record 10 False)\<lparr>rr_finished := Some 11\<rparr>"
  have q: "q_file sample_quota = State ?r" "0 < rr_started ?r" by (simp_all add: sample_quota_def new_record_def)
  have started: "rr_started ?r = 10" "rr_retry ?r = False" by (simp_all add: new_record_def)
  have l: "list_all (quiet_event [''s''] [] 10) [QCheck no_env (sample_tree 5) 20, QFinish 21 None, QCheck no_env (sample_tree 5) 30]"
    by code_simp
  show ?thesis using at_most_one_retry [OF q, unfolded started, OF l] by (simp only: if_False)
qed

theorem proc_starttime_roundtrip_witness:
  "parse_proc_starttime (''7'' @ '' ('' @ ''a) (b'' @ '')'' @ concat (map (\<lambda>w. CHR '' '' # w) (replicate 19 ''0'' @ nat_dec 4711 # [''1'']))) = 4711"
  by (rule proc_starttime_roundtrip) (simp_all add: is_space_def white_def list_all_iff)

end
