(* ===== verification/Procs.thy ===== *)
theory Procs
  imports GoBase
begin

text \<open>
  Process records and their cleanup: \<open>internal/procs/records.go\<close>, \<open>clean.go\<close> and \<open>tree.go\<close>.

  The kernel is a parameter: \<open>snaps w t\<close> is what the \<open>t\<close>-th listing of \<open>/proc\<close> shows (\<^const>\<open>None\<close> is a
  read error), \<open>group_exists w t\<close> the answer of \<open>kill(-pgid, 0)\<close> at that time. A component call threads a
  state with the number of listings made and the signals and removals done, so that a lemma can say on
  which evidence a signal was sent, whatever the processes do between two listings.
\<close>

section \<open>Processes\<close>

record proc_info =
  p_pid :: int
  p_ppid :: int
  p_pgid :: int
  p_uid :: nat
  p_uid_known :: bool
  p_state :: string
  p_start :: nat

definition parse_stat :: "int \<Rightarrow> string \<Rightarrow> proc_info option" where
  "parse_stat pid stat =
     (case last_index_of stat '')'' of
        None \<Rightarrow> None
      | Some stop \<Rightarrow>
          if length stat \<le> stop + 1 then None
          else
            let fs = string_fields (drop (stop + 1) stat)
            in if length fs \<le> 19 then None
               else (case (atoi (fs ! 2), atoi (fs ! 1), parse_uint 64 (fs ! 19)) of
                   (Some pgid, Some ppid, Some start) \<Rightarrow>
                     Some \<lparr>p_pid = pid, p_ppid = ppid, p_pgid = pgid, p_uid = 0, p_uid_known = False,
                           p_state = fs ! 0, p_start = start\<rparr>
                 | _ \<Rightarrow> None))"

fun parse_uid_lines :: "string list \<Rightarrow> nat option" where
  "parse_uid_lines [] = None"
| "parse_uid_lines (line # lines) =
     (if \<not> has_prefix line ''Uid:'' then parse_uid_lines lines
      else (case string_fields (trim_prefix line ''Uid:'') of
          [] \<Rightarrow> None
        | f # _ \<Rightarrow> parse_uint 32 f))"

definition parse_uid :: "string \<Rightarrow> nat option" where
  "parse_uid status = parse_uid_lines (split_on nl status)"

text \<open>One entry of \<open>/proc\<close>: its name, whether it is a directory, and what its two files hold.\<close>

definition read_proc :: "string \<times> bool \<times> string option \<times> string option \<Rightarrow> proc_info option" where
  "read_proc e =
     (case e of (name, is_dir, stat, status) \<Rightarrow>
        (case atoi name of
           None \<Rightarrow> None
         | Some pid \<Rightarrow>
             if \<not> is_dir then None
             else (case stat of
                 None \<Rightarrow> None
               | Some s \<Rightarrow>
                   (case parse_stat pid s of
                      None \<Rightarrow> None
                    | Some info \<Rightarrow>
                        (case status of
                           None \<Rightarrow> Some info
                         | Some u \<Rightarrow>
                             (case parse_uid u of
                                None \<Rightarrow> Some info
                              | Some uid \<Rightarrow> Some (info\<lparr>p_uid := uid, p_uid_known := True\<rparr>)))))))"

section \<open>The kernel and the records\<close>

record world =
  snaps :: "nat \<Rightarrow> proc_info list option"
  group_exists :: "nat \<Rightarrow> int \<Rightarrow> bool"
  signal_fails :: "nat \<Rightarrow> int \<Rightarrow> bool"
  remove_fails :: "string \<Rightarrow> bool"

datatype psignal = SigTerm | SigKill

record pstate =
  ticks :: nat
  signals :: "(nat \<times> int \<times> psignal) list"
  removed :: "string list"

record proc_record =
  r_pgid :: int
  r_start :: nat
  r_owner :: int
  r_owner_start :: nat

record clean_opts =
  c_uid :: nat
  c_kill :: bool
  c_grace :: int

datatype action_status =
    AError | AUnknown | AWouldRemove | ARemoved | ASkipped | AStale | AKept | AWouldKill | AKilled | AAlive

definition list_procs :: "world \<Rightarrow> pstate \<Rightarrow> proc_info list option \<times> pstate" where
  "list_procs w st = (snaps w (ticks st), st\<lparr>ticks := ticks st + 1\<rparr>)"

definition filter_group :: "proc_info list \<Rightarrow> int \<Rightarrow> proc_info list" where
  "filter_group ps pgid = filter (\<lambda>p. p_pgid p = pgid) ps"

definition remove_record :: "world \<Rightarrow> string \<Rightarrow> pstate \<Rightarrow> bool \<times> pstate" where
  "remove_record w path st =
     (if remove_fails w path then (False, st) else (True, st\<lparr>removed := removed st @ [path]\<rparr>))"

text \<open>\<open>GroupGone\<close>: \<^const>\<open>None\<close> is an error.\<close>

definition group_gone :: "world \<Rightarrow> int \<Rightarrow> pstate \<Rightarrow> bool option \<times> pstate" where
  "group_gone w pgid st =
     (if pgid \<le> 0 then (None, st)
      else case list_procs w st of
        (None, st') \<Rightarrow> (None, st')
      | (Some ps, st') \<Rightarrow>
          if filter_group ps pgid \<noteq> [] then (Some False, st')
          else (Some (\<not> group_exists w (ticks st) pgid), st'))"

text \<open>\<open>waitForGroupGone\<close>: one poll per step of 25 ms below the period, and a last one.\<close>

definition poll_count :: "int \<Rightarrow> nat" where
  "poll_count period = nat ((period + 24999999) div 25000000)"

fun wait_polls :: "world \<Rightarrow> int \<Rightarrow> nat \<Rightarrow> pstate \<Rightarrow> bool \<times> pstate" where
  "wait_polls w pgid 0 st = (case group_gone w pgid st of (g, st') \<Rightarrow> (g = Some True, st'))"
| "wait_polls w pgid (Suc n) st =
     (case group_gone w pgid st of (g, st') \<Rightarrow> if g = Some True then (True, st') else wait_polls w pgid n st')"

definition wait_for_group_gone :: "world \<Rightarrow> int \<Rightarrow> int \<Rightarrow> pstate \<Rightarrow> bool \<times> pstate" where
  "wait_for_group_gone w pgid period st = wait_polls w pgid (poll_count period) st"

definition signal_if_same_group ::
  "world \<Rightarrow> clean_opts \<Rightarrow> proc_record \<Rightarrow> psignal \<Rightarrow> pstate \<Rightarrow> bool \<times> pstate" where
  "signal_if_same_group w opts rec sig st =
     (case list_procs w st of
        (None, st') \<Rightarrow> (False, st')
      | (Some ps, st') \<Rightarrow>
          let group = filter_group ps (r_pgid rec)
          in if group = [] then (True, st')
             else if list_ex (\<lambda>p. \<not> p_uid_known p \<or> p_uid p \<noteq> c_uid opts
                 \<or> (p_pid p = r_pgid rec \<and> p_start p \<noteq> r_start rec)) group
             then (False, st')
             else if signal_fails w (ticks st) (- r_pgid rec) then (False, st')
             else (True, st'\<lparr>signals := signals st' @ [(ticks st, r_pgid rec, sig)]\<rparr>))"

section \<open>Cleaning one record\<close>

text \<open>
  The loop over the members: an unverified member skips the record, a leader with another start time
  makes it stale, else the flag says whether a member is stopped.
\<close>

datatype group_check = Unverified | Reused | Checked bool

fun check_group :: "clean_opts \<Rightarrow> proc_record \<Rightarrow> bool \<Rightarrow> proc_info list \<Rightarrow> group_check" where
  "check_group opts rec stopped [] = Checked stopped"
| "check_group opts rec stopped (p # ps) =
     (if \<not> p_uid_known p \<or> p_uid p \<noteq> c_uid opts then Unverified
      else if p_pid p = r_pgid rec \<and> (r_start rec = 0 \<or> p_start p \<noteq> r_start rec) then Reused
      else check_group opts rec (stopped \<or> p_state p = ''T'' \<or> p_state p = ''t'') ps)"

definition owner_alive :: "clean_opts \<Rightarrow> proc_record \<Rightarrow> proc_info list \<Rightarrow> bool" where
  "owner_alive opts rec ps \<longleftrightarrow>
     list_ex (\<lambda>p. p_pid p = r_owner rec \<and> p_uid_known p \<and> p_uid p = c_uid opts
        \<and> (r_owner_start rec = 0 \<or> p_start p = r_owner_start rec)) ps"

definition remove_killed :: "world \<Rightarrow> string \<Rightarrow> pstate \<Rightarrow> (action_status \<times> bool) \<times> pstate" where
  "remove_killed w path st =
     (case remove_record w path st of (True, st') \<Rightarrow> ((AKilled, True), st') | (False, st') \<Rightarrow> ((AError, False), st'))"

definition remove_stale :: "world \<Rightarrow> clean_opts \<Rightarrow> string \<Rightarrow> pstate \<Rightarrow> (action_status \<times> bool) \<times> pstate" where
  "remove_stale w opts path st =
     (if \<not> c_kill opts then ((AStale, True), st)
      else case remove_record w path st of (True, st') \<Rightarrow> ((ARemoved, True), st') | (False, st') \<Rightarrow> ((AError, False), st'))"

definition kill_group :: "world \<Rightarrow> clean_opts \<Rightarrow> string \<Rightarrow> proc_record \<Rightarrow> pstate \<Rightarrow> (action_status \<times> bool) \<times> pstate" where
  "kill_group w opts path rec st =
     (case signal_if_same_group w opts rec SigTerm st of
        (False, st1) \<Rightarrow> ((AError, False), st1)
      | (True, st1) \<Rightarrow>
          (case wait_for_group_gone w (r_pgid rec) (c_grace opts) st1 of
             (True, st2) \<Rightarrow> remove_killed w path st2
           | (False, st2) \<Rightarrow>
               (case signal_if_same_group w opts rec SigKill st2 of
                  (False, st3) \<Rightarrow> ((AError, False), st3)
                | (True, st3) \<Rightarrow>
                    (case wait_for_group_gone w (r_pgid rec) (c_grace opts) st3 of
                       (True, st4) \<Rightarrow> remove_killed w path st4
                     | (False, st4) \<Rightarrow> ((AAlive, True), st4)))))"

text \<open>\<open>cleanRecord\<close>: the action with whether it succeeded.\<close>

definition clean_record ::
  "world \<Rightarrow> clean_opts \<Rightarrow> string \<Rightarrow> proc_record \<Rightarrow> pstate \<Rightarrow> (action_status \<times> bool) \<times> pstate" where
  "clean_record w opts path rec st =
     (case list_procs w st of
        (None, st1) \<Rightarrow> ((AError, False), st1)
      | (Some ps, st1) \<Rightarrow>
          let group = filter_group ps (r_pgid rec)
          in if group = [] then
               (if group_exists w (ticks st) (r_pgid rec) then ((AUnknown, True), st1)
                else if \<not> c_kill opts then ((AWouldRemove, True), st1)
                else case remove_record w path st1 of
                  (True, st2) \<Rightarrow> ((ARemoved, True), st2) | (False, st2) \<Rightarrow> ((AError, False), st2))
             else case check_group opts rec False group of
               Unverified \<Rightarrow> ((ASkipped, True), st1)
             | Reused \<Rightarrow> remove_stale w opts path st1
             | Checked stopped \<Rightarrow>
                 if \<not> stopped \<and> owner_alive opts rec ps then ((AKept, True), st1)
                 else if \<not> c_kill opts then ((AWouldKill, True), st1)
                 else if r_start rec = 0 then ((ASkipped, True), st1)
                 else kill_group w opts path rec st1)"

section \<open>Cleaning the record directory\<close>

datatype record_file = ReadFail | DecodeFail | Decoded proc_record

definition valid_record_name :: "string \<Rightarrow> proc_record \<Rightarrow> bool" where
  "valid_record_name name rec \<longleftrightarrow> atoi (trim_suffix name ''.json'') = Some (r_pgid rec) \<and> 0 < r_pgid rec"

fun clean_entries ::
  "world \<Rightarrow> clean_opts \<Rightarrow> (string \<times> bool \<times> record_file) list \<Rightarrow> pstate
    \<Rightarrow> ((int \<times> action_status) list \<times> bool) \<times> pstate" where
  "clean_entries w opts [] st = (([], True), st)"
| "clean_entries w opts ((name, is_dir, f) # es) st =
     (if is_dir \<or> \<not> has_suffix name ''.json'' then clean_entries w opts es st
      else case f of
        ReadFail \<Rightarrow> (([], False), st)
      | DecodeFail \<Rightarrow> (([], False), st)
      | Decoded rec \<Rightarrow>
          if \<not> valid_record_name name rec then (([], False), st)
          else (case clean_record w opts name rec st of
              ((a, False), st') \<Rightarrow> (([(r_pgid rec, a)], False), st')
            | ((a, True), st') \<Rightarrow>
                (case clean_entries w opts es st' of
                   ((acts, ok), st'') \<Rightarrow> (((r_pgid rec, a) # acts, ok), st''))))"

text \<open>\<open>CleanProcs\<close>; \<open>entries\<close> is \<^const>\<open>None\<close> for a missing record directory.\<close>

definition clean_procs ::
  "world \<Rightarrow> clean_opts \<Rightarrow> (string \<times> bool \<times> record_file) list option \<Rightarrow> pstate
    \<Rightarrow> ((int \<times> action_status) list \<times> bool) \<times> pstate" where
  "clean_procs w opts entries st =
     (let opts' = (if c_grace opts \<le> 0 then opts\<lparr>c_grace := 1000000000\<rparr> else opts)
      in case entries of None \<Rightarrow> (([], True), st) | Some es \<Rightarrow> clean_entries w opts' es st)"

section \<open>The evidence for signals and removals\<close>

definition group_at :: "world \<Rightarrow> proc_record \<Rightarrow> nat \<Rightarrow> proc_info list option" where
  "group_at w rec t = map_option (\<lambda>ps. filter_group ps (r_pgid rec)) (snaps w t)"

definition verified_at :: "world \<Rightarrow> clean_opts \<Rightarrow> proc_record \<Rightarrow> nat \<Rightarrow> bool" where
  "verified_at w opts rec t \<longleftrightarrow> (\<exists>g. group_at w rec t = Some g \<and> g \<noteq> []
     \<and> list_all (\<lambda>p. p_uid_known p \<and> p_uid p = c_uid opts \<and> (p_pid p = r_pgid rec \<longrightarrow> p_start p = r_start rec)) g)"

definition stale_at :: "world \<Rightarrow> clean_opts \<Rightarrow> proc_record \<Rightarrow> nat \<Rightarrow> bool" where
  "stale_at w opts rec t \<longleftrightarrow> (\<exists>ps stopped. snaps w t = Some ps
     \<and> check_group opts rec False (filter_group ps (r_pgid rec)) = Checked stopped
     \<and> (stopped \<or> \<not> owner_alive opts rec ps))"

definition gone_at :: "world \<Rightarrow> proc_record \<Rightarrow> nat \<Rightarrow> bool" where
  "gone_at w rec t \<longleftrightarrow> group_at w rec t = Some [] \<and> \<not> group_exists w t (r_pgid rec)"

definition reused_at :: "world \<Rightarrow> clean_opts \<Rightarrow> proc_record \<Rightarrow> nat \<Rightarrow> bool" where
  "reused_at w opts rec t \<longleftrightarrow> (\<exists>g. group_at w rec t = Some g \<and> check_group opts rec False g = Reused)"

definition signal_ok :: "world \<Rightarrow> clean_opts \<Rightarrow> (string \<times> proc_record) set \<Rightarrow> nat \<times> int \<times> psignal \<Rightarrow> bool" where
  "signal_ok w opts R e \<longleftrightarrow>
     (case e of (t, g, sig) \<Rightarrow> c_kill opts \<and> (\<exists>path rec. (path, rec) \<in> R \<and> r_pgid rec = g \<and> r_start rec \<noteq> 0
        \<and> verified_at w opts rec t \<and> (\<exists>t0<t. stale_at w opts rec t0)))"

definition removal_ok :: "world \<Rightarrow> clean_opts \<Rightarrow> (string \<times> proc_record) set \<Rightarrow> string \<Rightarrow> bool" where
  "removal_ok w opts R path \<longleftrightarrow>
     c_kill opts \<and> (\<exists>rec t. (path, rec) \<in> R \<and> (gone_at w rec t \<or> reused_at w opts rec t))"

definition log_ok :: "world \<Rightarrow> clean_opts \<Rightarrow> (string \<times> proc_record) set \<Rightarrow> pstate \<Rightarrow> bool" where
  "log_ok w opts R st \<longleftrightarrow> list_all (signal_ok w opts R) (signals st) \<and> list_all (removal_ok w opts R) (removed st)"

text \<open>Looking is free: a listing or a wait changes nothing but the number of listings.\<close>

lemma group_gone_frame:
  assumes "group_gone w pgid st = (g, st')"
  shows "signals st' = signals st" "removed st' = removed st" "ticks st \<le> ticks st'"
    "g = Some True \<Longrightarrow> r_pgid rec = pgid \<Longrightarrow> gone_at w rec (ticks st)"
  using assms by (auto simp: group_gone_def list_procs_def gone_at_def group_at_def split: if_splits option.splits)

lemma wait_polls_frame:
  "wait_polls w pgid n st = (g, st') \<Longrightarrow>
    signals st' = signals st \<and> removed st' = removed st \<and> ticks st \<le> ticks st'
    \<and> (g \<longrightarrow> r_pgid rec = pgid \<longrightarrow> (\<exists>t. gone_at w rec t))"
proof (induction n arbitrary: st)
  case 0
  then show ?case using group_gone_frame [of w pgid st] by (cases "group_gone w pgid st") auto
next
  case (Suc n)
  obtain g1 st1 where g1: "group_gone w pgid st = (g1, st1)" by (cases "group_gone w pgid st")
  note f = group_gone_frame [OF g1]
  show ?case
  proof (cases "g1 = Some True")
    case True
    with Suc.prems g1 f f(4) [of rec] show ?thesis by auto
  next
    case False
    with Suc.prems g1 have "wait_polls w pgid n st1 = (g, st')" by auto
    from Suc.IH [OF this] f show ?thesis by auto
  qed
qed

lemma log_ok_frame: "log_ok w opts R st \<Longrightarrow> signals st' = signals st \<Longrightarrow> removed st' = removed st \<Longrightarrow> log_ok w opts R st'"
  by (simp add: log_ok_def)

lemma signal_log_ok:
  assumes "log_ok w opts R st" and "signal_if_same_group w opts rec sig st = (ok, st')"
    and "c_kill opts" and "(path, rec) \<in> R" and "r_start rec \<noteq> 0" and "t0 < ticks st" and "stale_at w opts rec t0"
  shows "log_ok w opts R st' \<and> ticks st < ticks st'"
proof (cases "snaps w (ticks st)")
  case None
  with assms show ?thesis by (auto simp: signal_if_same_group_def list_procs_def log_ok_def)
next
  case (Some ps)
  let ?g = "filter_group ps (r_pgid rec)"
  have v: "verified_at w opts rec (ticks st)"
    if "?g \<noteq> []" "\<not> list_ex (\<lambda>p. \<not> p_uid_known p \<or> p_uid p \<noteq> c_uid opts \<or> (p_pid p = r_pgid rec \<and> p_start p \<noteq> r_start rec)) ?g"
    using that Some by (auto simp: verified_at_def group_at_def list_all_iff list_ex_iff)
  have so: "signal_ok w opts R (ticks st, r_pgid rec, sig)" if "verified_at w opts rec (ticks st)"
    using that assms(3-7) by (auto simp: signal_ok_def)
  show ?thesis
    using assms(1,2) Some v so
    by (auto simp: signal_if_same_group_def list_procs_def log_ok_def Let_def split: if_splits)
qed

lemma remove_log_ok:
  assumes "log_ok w opts R st" and "remove_record w path st = (ok, st')"
    and "c_kill opts" and "(path, rec) \<in> R" and "gone_at w rec t \<or> reused_at w opts rec t"
  shows "log_ok w opts R st'"
proof -
  have "removal_ok w opts R path" using assms(3-5) by (auto simp: removal_ok_def)
  with assms(1,2) show ?thesis by (auto simp: remove_record_def log_ok_def split: if_splits)
qed

lemma kill_log_ok:
  assumes ok: "log_ok w opts R st" and kill: "c_kill opts" and r: "(path, rec) \<in> R" and s: "r_start rec \<noteq> 0"
    and stale: "t0 < ticks st" "stale_at w opts rec t0"
  shows "log_ok w opts R (snd (kill_group w opts path rec st))"
proof -
  obtain o1 st1 where s1: "signal_if_same_group w opts rec SigTerm st = (o1, st1)" by fastforce
  note k1 = signal_log_ok [OF ok s1 kill r s stale]
  obtain g2 st2 where s2: "wait_for_group_gone w (r_pgid rec) (c_grace opts) st1 = (g2, st2)" by fastforce
  note k2 = wait_polls_frame [OF s2 [unfolded wait_for_group_gone_def], of rec]
  obtain o3 st3 where s3: "signal_if_same_group w opts rec SigKill st2 = (o3, st3)" by fastforce
  have ok2: "log_ok w opts R st2" using k1 k2 log_ok_frame by blast
  have "t0 < ticks st2" using k1 k2 stale(1) by linarith
  note k3 = signal_log_ok [OF ok2 s3 kill r s this stale(2)]
  obtain g4 st4 where s4: "wait_for_group_gone w (r_pgid rec) (c_grace opts) st3 = (g4, st4)" by fastforce
  note k4 = wait_polls_frame [OF s4 [unfolded wait_for_group_gone_def], of rec]
  have ok4: "log_ok w opts R st4" using k3 k4 log_ok_frame by blast
  have rm: "log_ok w opts R (snd (remove_killed w path st'))" if "log_ok w opts R st'" "gone_at w rec t" for st' t
    using remove_log_ok [OF that(1) _ kill r, of _ _ t] that(2)
    by (cases "remove_record w path st'") (auto simp: remove_killed_def split: bool.splits)
  show ?thesis
    using k1 k2 k3 k4 ok2 ok4 rm
    by (auto simp: kill_group_def s1 s2 s3 s4 split: bool.splits)
qed

lemma clean_record_log_ok:
  assumes ok: "log_ok w opts R st" and r: "(path, rec) \<in> R"
  shows "log_ok w opts R (snd (clean_record w opts path rec st))"
proof (cases "snaps w (ticks st)")
  case None
  with ok show ?thesis by (simp add: clean_record_def list_procs_def log_ok_def)
next
  case (Some ps)
  let ?st = "st\<lparr>ticks := ticks st + 1\<rparr>" and ?g = "filter_group ps (r_pgid rec)"
  have ok1: "log_ok w opts R ?st" using ok by (simp add: log_ok_def)
  have rm: "log_ok w opts R (snd (case remove_record w path ?st of
      (True, st2) \<Rightarrow> ((a, True), st2) | (False, st2) \<Rightarrow> ((b, False), st2)))"
    if "c_kill opts" "gone_at w rec (ticks st) \<or> reused_at w opts rec (ticks st)" for a b
    using remove_log_ok [OF ok1 _ that(1) r that(2)]
    by (cases "remove_record w path ?st") (auto split: bool.splits)
  show ?thesis
  proof (cases "?g = []")
    case True
    then have "gone_at w rec (ticks st)" if "\<not> group_exists w (ticks st) (r_pgid rec)"
      using that Some by (simp add: gone_at_def group_at_def)
    with True Some ok1 rm show ?thesis by (auto simp: clean_record_def list_procs_def Let_def)
  next
    case False
    show ?thesis
    proof (cases "check_group opts rec False ?g")
      case Unverified
      with False Some ok1 show ?thesis by (simp add: clean_record_def list_procs_def Let_def)
    next
      case Reused
      then have "reused_at w opts rec (ticks st)" using Some by (simp add: reused_at_def group_at_def)
      with Reused False Some ok1 rm show ?thesis
        by (auto simp: clean_record_def list_procs_def Let_def remove_stale_def)
    next
      case (Checked stopped)
      have k: "log_ok w opts R (snd (kill_group w opts path rec ?st))"
        if "c_kill opts" "r_start rec \<noteq> 0" "stopped \<or> \<not> owner_alive opts rec ps"
      proof (rule kill_log_ok [OF ok1 that(1) r that(2), of "ticks st"])
        show "stale_at w opts rec (ticks st)" using Checked Some that(3) by (auto simp: stale_at_def)
      qed simp
      with Checked False Some ok1 show ?thesis by (auto simp: clean_record_def list_procs_def Let_def)
    qed
  qed
qed

definition entry_records :: "(string \<times> bool \<times> record_file) list \<Rightarrow> (string \<times> proc_record) set" where
  "entry_records es = {(name, rec). (name, False, Decoded rec) \<in> set es \<and> valid_record_name name rec}"

lemma clean_entries_log_ok:
  "log_ok w opts R st \<Longrightarrow> entry_records es \<subseteq> R \<Longrightarrow> log_ok w opts R (snd (clean_entries w opts es st))"
proof (induction es arbitrary: st)
  case Nil
  then show ?case by simp
next
  case (Cons e es)
  obtain name is_dir f where e: "e = (name, is_dir, f)" by (cases e)
  have sub: "entry_records es \<subseteq> R" using Cons.prems(2) by (auto simp: entry_records_def)
  show ?case
  proof (cases "is_dir \<or> \<not> has_suffix name ''.json''")
    case True
    with e Cons.IH [OF Cons.prems(1) sub] show ?thesis by simp
  next
    case False
    show ?thesis
    proof (cases f)
      case (Decoded rec)
      show ?thesis
      proof (cases "valid_record_name name rec")
        case True
        with Cons.prems(2) e False Decoded have "(name, rec) \<in> R" by (auto simp: entry_records_def)
        from clean_record_log_ok [OF Cons.prems(1) this] Cons.IH [OF _ sub] show ?thesis
          using e False Decoded True
          by (auto split: prod.splits bool.splits) (metis snd_conv)
      next
        case inv: False
        with e False Decoded Cons.prems(1) show ?thesis by simp
      qed
    qed (use e False Cons.prems(1) in simp_all)
  qed
qed

lemma log_ok_grace:
  "log_ok w (opts\<lparr>c_grace := g\<rparr>) R st = log_ok w opts R st"
proof -
  have "check_group (opts\<lparr>c_grace := g\<rparr>) rec b ps = check_group opts rec b ps" for rec b ps
    by (induction ps arbitrary: b) auto
  then have "signal_ok w (opts\<lparr>c_grace := g\<rparr>) R = signal_ok w opts R"
      "removal_ok w (opts\<lparr>c_grace := g\<rparr>) R = removal_ok w opts R"
    by (simp_all add: fun_eq_iff signal_ok_def removal_ok_def verified_at_def stale_at_def reused_at_def owner_alive_def)
  then show ?thesis by (simp add: log_ok_def)
qed

lemma clean_procs_log_ok:
  "log_ok w opts (entry_records es) st \<Longrightarrow> log_ok w opts (entry_records es) (snd (clean_procs w opts (Some es) st))"
  using clean_entries_log_ok [of w opts "entry_records es" st es]
    clean_entries_log_ok [of w "opts\<lparr>c_grace := 1000000000\<rparr>" "entry_records es" st es]
  by (simp add: clean_procs_def log_ok_grace Let_def)

text \<open>Without \<open>Kill\<close> the cleanup is a dry run.\<close>

lemma clean_dry_run:
  assumes "\<not> c_kill opts" and "signals st = []" and "removed st = []"
  shows "signals (snd (clean_procs w opts (Some es) st)) = [] \<and> removed (snd (clean_procs w opts (Some es) st)) = []"
proof -
  have "log_ok w opts (entry_records es) (snd (clean_procs w opts (Some es) st))"
    using assms by (intro clean_procs_log_ok) (simp add: log_ok_def)
  moreover have "signal_ok w opts R = (\<lambda>e. False)" "removal_ok w opts R = (\<lambda>e. False)" for R
    using assms(1) by (auto simp: fun_eq_iff signal_ok_def removal_ok_def)
  ultimately show ?thesis by (simp add: log_ok_def)
qed


definition sample_world :: "proc_info list \<Rightarrow> world" where
  "sample_world ps = \<lparr>snaps = (\<lambda>t. if t < 2 then Some ps else Some []), group_exists = (\<lambda>_ _. False),
     signal_fails = (\<lambda>_ _. False), remove_fails = (\<lambda>_. False)\<rparr>"

definition sample_member :: proc_info where
  "sample_member = \<lparr>p_pid = 42, p_ppid = 1, p_pgid = 42, p_uid = 7, p_uid_known = True, p_state = ''S'', p_start = 5\<rparr>"

definition sample_opts :: clean_opts where
  "sample_opts = \<lparr>c_uid = 7, c_kill = True, c_grace = 1000000000\<rparr>"

definition sample_record :: proc_record where
  "sample_record = \<lparr>r_pgid = 42, r_start = 5, r_owner = 9, r_owner_start = 3\<rparr>"


text \<open>The identity check needs the leader: when the leader of a group is not visible, no start time is
  compared, and a group of the user that merely reuses the recorded group ID, with its own leader gone, is
  signalled although nothing ties it to the record.\<close>

theorem leaderless_group_signalled:
  assumes "\<And>t. snaps w t = Some ps" and "filter_group ps (r_pgid rec) \<noteq> []"
    and "list_all (\<lambda>p. p_uid_known p \<and> p_uid p = c_uid opts \<and> p_pid p \<noteq> r_pgid rec) (filter_group ps (r_pgid rec))"
    and "\<not> owner_alive opts rec ps" and "c_kill opts" and "r_start rec \<noteq> 0" and "\<And>t i. \<not> signal_fails w t i"
  shows "(ticks st + 1, r_pgid rec, SigTerm) \<in> set (signals (snd (clean_record w opts path rec st)))"
proof -
  let ?g = "filter_group ps (r_pgid rec)" and ?st = "st\<lparr>ticks := ticks st + 1\<rparr>"
  have checked: "\<exists>b. check_group opts rec b0 g = Checked b"
    if "list_all (\<lambda>p. p_uid_known p \<and> p_uid p = c_uid opts \<and> p_pid p \<noteq> r_pgid rec) g" for g b0
    using that by (induction g arbitrary: b0) auto
  then obtain b where b: "check_group opts rec False ?g = Checked b" using assms(3) by blast
  have pass: "\<not> list_ex (\<lambda>p. \<not> p_uid_known p \<or> p_uid p \<noteq> c_uid opts \<or> (p_pid p = r_pgid rec \<and> p_start p \<noteq> r_start rec)) ?g"
    using assms(3) by (auto simp: list_all_iff list_ex_iff)
  let ?st1 = "\<lparr>ticks = ticks st + 2, signals = signals st @ [(ticks st + 1, r_pgid rec, SigTerm)], removed = removed st\<rparr>"
  have s1: "signal_if_same_group w opts rec SigTerm ?st = (True, ?st1)"
    using assms(1,2,7) pass by (simp add: signal_if_same_group_def list_procs_def Let_def)
  have mono_sig: "set (signals st0) \<subseteq> set (signals (snd (signal_if_same_group w opts rec sig st0)))" for sig st0
    by (auto simp: signal_if_same_group_def list_procs_def Let_def split: option.splits)
  have mono_rm: "signals (snd (remove_killed w path st0)) = signals st0" for st0
    by (auto simp: remove_killed_def remove_record_def)
  obtain g2 st2 where s2: "wait_for_group_gone w (r_pgid rec) (c_grace opts) ?st1 = (g2, st2)" by fastforce
  have k2: "signals st2 = signals ?st1"
    using wait_polls_frame [OF s2 [unfolded wait_for_group_gone_def], of rec] by simp
  obtain o3 st3 where s3: "signal_if_same_group w opts rec SigKill st2 = (o3, st3)" by fastforce
  have k3: "set (signals st2) \<subseteq> set (signals st3)" using mono_sig [of st2 SigKill] s3 by simp
  obtain g4 st4 where s4: "wait_for_group_gone w (r_pgid rec) (c_grace opts) st3 = (g4, st4)" by fastforce
  have k4: "signals st4 = signals st3"
    using wait_polls_frame [OF s4 [unfolded wait_for_group_gone_def], of rec] by simp
  have "(ticks st + 1, r_pgid rec, SigTerm) \<in> set (signals (snd (kill_group w opts path rec ?st)))"
    unfolding kill_group_def s1 prod.case bool.case s2 s3 s4
    using k2 k3 k4 by (auto simp: mono_rm split: bool.splits)
  then show ?thesis
    using assms(1,2,4-6) b by (simp add: clean_record_def list_procs_def Let_def)
qed

lemma leaderless_group_signalled_witness:
  "(1, 42, SigTerm) \<in> set (signals (snd (clean_record
     \<lparr>snaps = (\<lambda>_. Some [sample_member\<lparr>p_pid := 43, p_start := 900\<rparr>]), group_exists = (\<lambda>_ _. True),
       signal_fails = (\<lambda>_ _. False), remove_fails = (\<lambda>_. False)\<rparr>
     sample_opts ''42.json'' sample_record \<lparr>ticks = 0, signals = [], removed = []\<rparr>)))"
  using leaderless_group_signalled [of
      "\<lparr>snaps = (\<lambda>_. Some [sample_member\<lparr>p_pid := 43, p_start := 900\<rparr>]), group_exists = (\<lambda>_ _. True),
        signal_fails = (\<lambda>_ _. False), remove_fails = (\<lambda>_. False)\<rparr>"
      "[sample_member\<lparr>p_pid := 43, p_start := 900\<rparr>]" sample_record sample_opts
      "\<lparr>ticks = 0, signals = [], removed = []\<rparr>" "''42.json''"]
  by (simp add: sample_member_def sample_record_def sample_opts_def filter_group_def owner_alive_def)

section \<open>Process trees\<close>

record tree_root =
  t_pid :: int
  t_start :: nat
  t_group :: bool

definition validate_tree_roots :: "tree_root list \<Rightarrow> bool" where
  "validate_tree_roots roots \<longleftrightarrow> list_all (\<lambda>r. \<not> (1 < t_pid r \<and> t_start r = 0)) roots"

fun find_pid :: "int \<Rightarrow> proc_info list \<Rightarrow> proc_info option" where
  "find_pid pid [] = None"
| "find_pid pid (p # ps) = (if p_pid p = pid then Some p else find_pid pid ps)"

definition validate_identities :: "tree_root list \<Rightarrow> proc_info list option \<Rightarrow> bool" where
  "validate_identities roots listing =
     (case listing of
        None \<Rightarrow> False
      | Some ps \<Rightarrow> list_all (\<lambda>r. t_pid r \<le> 1
          \<or> (case find_pid (t_pid r) ps of None \<Rightarrow> False | Some p \<Rightarrow> p_start p = t_start r)) roots)"

definition live_process :: "proc_info \<Rightarrow> bool" where
  "live_process p \<longleftrightarrow> p_state p \<noteq> ''Z'' \<and> p_state p \<noteq> ''X''"

text \<open>
  The processes known to belong to the tree are a list with at most one entry per PID; \<open>groups\<close> maps an
  owned group to the start time of its leader. \<open>me\<close> is the user's UID.
\<close>

definition put_known :: "proc_info \<Rightarrow> proc_info list \<Rightarrow> proc_info list" where
  "put_known p known = p # filter (\<lambda>q. p_pid q \<noteq> p_pid p) known"

definition own :: "nat \<Rightarrow> proc_info \<Rightarrow> bool" where
  "own me p \<longleftrightarrow> p_uid_known p \<and> p_uid p = me"

text \<open>\<open>identities\<close> maps a PID to the start time of its last entry in the listing.\<close>

definition identity :: "proc_info list \<Rightarrow> int \<Rightarrow> nat option" where
  "identity all_procs pid = map_option p_start (find_pid pid (rev all_procs))"

fun known_groups :: "proc_info list \<Rightarrow> proc_info list \<Rightarrow> (int \<Rightarrow> nat option) \<Rightarrow> int \<Rightarrow> nat option" where
  "known_groups all_procs [] groups = groups"
| "known_groups all_procs (p # ps) groups =
     known_groups all_procs ps
       (if p_pgid p = p_pid p \<and> (identity all_procs (p_pid p) = None \<or> identity all_procs (p_pid p) = Some (p_start p))
        then groups(p_pgid p \<mapsto> p_start p) else groups)"

fun add_root_procs :: "nat \<Rightarrow> int \<Rightarrow> proc_info list \<Rightarrow> proc_info list \<Rightarrow> proc_info list option" where
  "add_root_procs me pid [] known = Some known"
| "add_root_procs me pid (p # ps) known =
     (if p_pid p = pid then (if \<not> own me p then None else add_root_procs me pid ps (put_known p known))
      else add_root_procs me pid ps known)"

definition root_valid :: "proc_info list \<Rightarrow> tree_root \<Rightarrow> bool" where
  "root_valid all_procs r \<longleftrightarrow>
     list_all (\<lambda>p. \<not> (p_pid p = t_pid r \<and> t_start r \<noteq> 0 \<and> p_start p \<noteq> t_start r)) all_procs"

text \<open>\<open>alive\<close> is \<open>kill(pid, 0)\<close>, asked only for the real \<open>/proc\<close>.\<close>

fun add_roots ::
  "nat \<Rightarrow> (int \<Rightarrow> bool) option \<Rightarrow> proc_info list \<Rightarrow> tree_root list \<Rightarrow> proc_info list \<Rightarrow> (int \<Rightarrow> nat option)
    \<Rightarrow> (proc_info list \<times> (int \<Rightarrow> nat option)) option" where
  "add_roots me alive all_procs [] known groups = Some (known, groups)"
| "add_roots me alive all_procs (r # rs) known groups =
     (if t_pid r \<le> 1 \<or> \<not> root_valid all_procs r then add_roots me alive all_procs rs known groups
      else if identity all_procs (t_pid r) = None \<and> (case alive of Some a \<Rightarrow> a (t_pid r) | None \<Rightarrow> False) then None
      else case add_root_procs me (t_pid r) all_procs known of
          None \<Rightarrow> None
        | Some known' \<Rightarrow>
            add_roots me alive all_procs rs known' (if t_group r then groups(t_pid r \<mapsto> t_start r) else groups))"

definition in_tree :: "proc_info list \<Rightarrow> proc_info list \<Rightarrow> (int \<Rightarrow> nat option) \<Rightarrow> proc_info \<Rightarrow> bool" where
  "in_tree all_procs known groups p \<longleftrightarrow>
     (case find_pid (p_ppid p) known of None \<Rightarrow> False | Some q \<Rightarrow>
        (case identity all_procs (p_pid q) of None \<Rightarrow> 0 | Some start \<Rightarrow> start) = p_start q)
     \<or> (case groups (p_pgid p) of None \<Rightarrow> False | Some start \<Rightarrow> start \<le> p_start p)"

definition is_known :: "proc_info list \<Rightarrow> proc_info \<Rightarrow> bool" where
  "is_known known p \<longleftrightarrow> (case find_pid (p_pid p) known of None \<Rightarrow> False | Some q \<Rightarrow> p_start q = p_start p)"

fun tree_pass ::
  "nat \<Rightarrow> proc_info list \<Rightarrow> proc_info list \<Rightarrow> proc_info list \<Rightarrow> (int \<Rightarrow> nat option)
    \<Rightarrow> proc_info list \<times> (int \<Rightarrow> nat option) \<times> bool" where
  "tree_pass me all_procs [] known groups = (known, groups, False)"
| "tree_pass me all_procs (p # ps) known groups =
     (if own me p \<and> \<not> is_known known p \<and> in_tree all_procs known groups p
      then (case tree_pass me all_procs ps (put_known p known)
              (if p_pgid p = p_pid p then groups(p_pgid p \<mapsto> p_start p) else groups) of
            (k, g, _) \<Rightarrow> (k, g, True))
      else tree_pass me all_procs ps known groups)"

text \<open>The loop until nothing changes; the number of rounds is bounded by the size of the listing.\<close>

fun tree_rounds ::
  "nat \<Rightarrow> nat \<Rightarrow> proc_info list \<Rightarrow> proc_info list \<Rightarrow> (int \<Rightarrow> nat option) \<Rightarrow> proc_info list option" where
  "tree_rounds 0 me all_procs known groups = None"
| "tree_rounds (Suc n) me all_procs known groups =
     (case tree_pass me all_procs all_procs known groups of
        (k, g, changed) \<Rightarrow> if changed then tree_rounds n me all_procs k g else Some k)"

datatype tree_error = ListError | OwnerError | NoFixpoint

definition tree_members ::
  "nat \<Rightarrow> (int \<Rightarrow> bool) option \<Rightarrow> proc_info list option \<Rightarrow> tree_root list \<Rightarrow> proc_info list
    \<Rightarrow> tree_error + proc_info list \<times> proc_info list" where
  "tree_members me alive listing roots known =
     (if known = [] \<and> \<not> list_ex (\<lambda>r. 1 < t_pid r) roots then Inr ([], known)
      else case listing of
        None \<Rightarrow> Inl ListError
      | Some all_procs \<Rightarrow>
          (case add_roots me alive all_procs roots known (known_groups all_procs known Map.empty) of
             None \<Rightarrow> Inl OwnerError
           | Some (known1, groups) \<Rightarrow>
               (case tree_rounds (length all_procs + 1) me all_procs known1 groups of
                  None \<Rightarrow> Inl NoFixpoint
                | Some k \<Rightarrow> Inr (filter (\<lambda>p. is_known k p \<and> live_process p) all_procs, k))))"

section \<open>Stopping a tree\<close>

fun send_all ::
  "world \<Rightarrow> psignal \<Rightarrow> nat \<Rightarrow> proc_info list \<Rightarrow> (int \<Rightarrow> nat) \<Rightarrow> (nat \<times> int \<times> psignal) list
    \<Rightarrow> bool \<times> (int \<Rightarrow> nat) \<times> (nat \<times> int \<times> psignal) list" where
  "send_all w sig t [] sent log = (True, sent, log)"
| "send_all w sig t (p # ps) sent log =
     (if sent (p_pid p) = p_start p then send_all w sig t ps sent log
      else if signal_fails w t (p_pid p) then (False, sent, log)
      else send_all w sig t ps (sent(p_pid p := p_start p)) (log @ [(t, p_pid p, sig)]))"

datatype phase_result = Gone | Failed "proc_info list" | Elapsed "proc_info list"

text \<open>
  One phase of \<open>StopTree\<close>: \<open>late t\<close> and \<open>cancelled t\<close> are the deadline and the context after the \<open>t\<close>-th
  listing. The number of polls is bounded by fuel.
\<close>

fun stop_phase ::
  "nat \<Rightarrow> world \<Rightarrow> (nat \<Rightarrow> bool) \<Rightarrow> (nat \<Rightarrow> bool) \<Rightarrow> nat \<Rightarrow> int \<Rightarrow> tree_root list \<Rightarrow> psignal
    \<Rightarrow> proc_info list \<Rightarrow> (int \<Rightarrow> nat) \<Rightarrow> pstate \<Rightarrow> phase_result option \<times> pstate" where
  "stop_phase 0 w late cancelled me self roots sig known sent st = (None, st)"
| "stop_phase (Suc n) w late cancelled me self roots sig known sent st =
     (let t = ticks st; st1 = st\<lparr>ticks := t + 1\<rparr>
      in case tree_members me None (snaps w t) roots known of
        Inl _ \<Rightarrow> (Some (Failed []), st1)
      | Inr (live, known') \<Rightarrow>
          if live = [] then (Some Gone, st1)
          else if list_ex (\<lambda>p. p_pid p \<le> 1 \<or> p_pid p = self) live then (Some (Failed live), st1)
          else (case send_all w sig t live sent (signals st1) of
              (ok, sent', log) \<Rightarrow>
                let st2 = st1\<lparr>signals := log\<rparr>
                in if \<not> ok then (Some (Failed live), st2)
                   else if late t then (Some (Elapsed known'), st2)
                   else if cancelled t then (Some (Failed live), st2)
                   else stop_phase n w late cancelled me self roots sig known' sent' st2))"

definition stop_tree ::
  "nat \<Rightarrow> world \<Rightarrow> (nat \<Rightarrow> bool) \<Rightarrow> (nat \<Rightarrow> bool) \<Rightarrow> (nat \<Rightarrow> bool) \<Rightarrow> int \<times> int \<times> int \<Rightarrow> nat \<Rightarrow> int \<Rightarrow> tree_root list \<Rightarrow> pstate
    \<Rightarrow> phase_result option \<times> pstate" where
  "stop_tree n w late_term late_kill cancelled bounds me self roots st =
     (if \<not> validate_tree_roots roots \<or> (case bounds of (grace, kill_wait, poll) \<Rightarrow> grace \<le> 0 \<or> kill_wait \<le> 0 \<or> poll \<le> 0)
      then (Some (Failed []), st)
      else case stop_phase n w late_term cancelled me self roots SigTerm [] (\<lambda>_. 0) st of
        (Some (Elapsed known), st1) \<Rightarrow>
          (case stop_phase n w late_kill cancelled me self roots SigKill known (\<lambda>_. 0) st1 of
             (Some (Elapsed known2), st2) \<Rightarrow>
               (case tree_members me None (snaps w (ticks st2)) roots known2 of
                  Inl _ \<Rightarrow> (Some (Failed []), st2\<lparr>ticks := ticks st2 + 1\<rparr>)
                | Inr (live, _) \<Rightarrow> (Some (if live = [] then Gone else Failed live), st2\<lparr>ticks := ticks st2 + 1\<rparr>))
           | r \<Rightarrow> r)
      | r \<Rightarrow> r)"

section \<open>What belongs to a tree\<close>

text \<open>
  The specification: the roots, what was known before, the children of members whose parent is still the
  same process, and the members of owned groups that started after their leader.
\<close>

inductive owned :: "nat \<Rightarrow> proc_info list \<Rightarrow> tree_root list \<Rightarrow> proc_info list \<Rightarrow> proc_info \<Rightarrow> bool"
  and owned_group :: "nat \<Rightarrow> proc_info list \<Rightarrow> tree_root list \<Rightarrow> proc_info list \<Rightarrow> int \<Rightarrow> nat \<Rightarrow> bool"
  for me all_procs roots known where
  owned_known: "p \<in> set known \<Longrightarrow> owned me all_procs roots known p"
| owned_root: "p \<in> set all_procs \<Longrightarrow> own me p \<Longrightarrow> r \<in> set roots \<Longrightarrow> 1 < t_pid r \<Longrightarrow> p_pid p = t_pid r
    \<Longrightarrow> root_valid all_procs r \<Longrightarrow> owned me all_procs roots known p"
| owned_child: "p \<in> set all_procs \<Longrightarrow> own me p \<Longrightarrow> owned me all_procs roots known q \<Longrightarrow> p_ppid p = p_pid q
    \<Longrightarrow> owned me all_procs roots known p"
| owned_member: "p \<in> set all_procs \<Longrightarrow> own me p \<Longrightarrow> owned_group me all_procs roots known (p_pgid p) start
    \<Longrightarrow> start \<le> p_start p \<Longrightarrow> owned me all_procs roots known p"
| group_leader: "owned me all_procs roots known p \<Longrightarrow> p_pgid p = p_pid p
    \<Longrightarrow> owned_group me all_procs roots known (p_pid p) (p_start p)"
| group_root: "r \<in> set roots \<Longrightarrow> 1 < t_pid r \<Longrightarrow> t_group r \<Longrightarrow> owned_group me all_procs roots known (t_pid r) (t_start r)"

lemma find_pid_Some: "find_pid i ps = Some p \<Longrightarrow> p \<in> set ps \<and> p_pid p = i"
  by (induction ps) (auto split: if_splits)

lemma find_pid_None: "find_pid i ps = None \<longleftrightarrow> i \<notin> p_pid ` set ps"
  by (induction ps) auto

lemma find_put: "find_pid i (put_known p known) = (if i = p_pid p then Some p else find_pid i known)"
proof -
  have "i \<noteq> p_pid p \<Longrightarrow> find_pid i (filter (\<lambda>q. p_pid q \<noteq> p_pid p) known) = find_pid i known"
    by (induction known) auto
  then show ?thesis by (simp add: put_known_def)
qed

lemma put_known_set: "set (put_known p known) \<subseteq> insert p (set known)"
  by (auto simp: put_known_def)

definition tree_inv ::
  "nat \<Rightarrow> proc_info list \<Rightarrow> tree_root list \<Rightarrow> proc_info list \<Rightarrow> proc_info list \<Rightarrow> (int \<Rightarrow> nat option) \<Rightarrow> bool" where
  "tree_inv me all_procs roots known0 known groups \<longleftrightarrow>
     (\<forall>p\<in>set known. owned me all_procs roots known0 p)
     \<and> (\<forall>g start. groups g = Some start \<longrightarrow> owned_group me all_procs roots known0 g start)"

lemma tree_inv_known_groups:
  "set ps \<subseteq> set known0 \<Longrightarrow> tree_inv me all_procs roots known0 known groups \<Longrightarrow>
    tree_inv me all_procs roots known0 known (known_groups all_procs ps groups)"
proof (induction all_procs ps groups rule: known_groups.induct)
  case (2 all_procs p ps groups)
  have "owned_group me all_procs roots known0 (p_pgid p) (p_start p)" if "p_pgid p = p_pid p"
    using that 2(2) group_leader [OF owned_known, of p] by auto
  then have "tree_inv me all_procs roots known0 known
      (if p_pgid p = p_pid p \<and> (identity all_procs (p_pid p) = None \<or> identity all_procs (p_pid p) = Some (p_start p))
       then groups(p_pgid p \<mapsto> p_start p) else groups)"
    using 2(3) by (auto simp: tree_inv_def)
  with 2 show ?case by simp
qed simp

lemma add_root_procs_inv:
  assumes "add_root_procs me (t_pid r) ps known = Some known'" and "set ps \<subseteq> set all_procs"
    and "r \<in> set roots" "1 < t_pid r" "root_valid all_procs r"
    and "tree_inv me all_procs roots known0 known groups"
  shows "tree_inv me all_procs roots known0 known' groups"
  using assms(1,2,6)
proof (induction ps arbitrary: known)
  case (Cons p ps)
  show ?case
  proof (cases "p_pid p = t_pid r")
    case True
    with Cons.prems have p: "own me p" "add_root_procs me (t_pid r) ps (put_known p known) = Some known'"
      by (auto split: if_splits)
    have "owned me all_procs roots known0 p"
      using owned_root [of p all_procs me r roots] Cons.prems(2) p(1) assms(3-5) True by simp
    with Cons.prems(3) have "tree_inv me all_procs roots known0 (put_known p known) groups"
      using put_known_set [of p known] by (auto simp: tree_inv_def)
    with Cons.IH [OF p(2)] Cons.prems(2) show ?thesis by simp
  next
    case False
    with Cons show ?thesis by simp
  qed
qed simp

lemma add_roots_inv:
  "add_roots me alive all_procs rs known groups = Some (known', groups') \<Longrightarrow> set rs \<subseteq> set roots \<Longrightarrow>
    tree_inv me all_procs roots known0 known groups \<Longrightarrow> tree_inv me all_procs roots known0 known' groups'"
proof (induction rs arbitrary: known groups)
  case (Cons r rs)
  show ?case
  proof (cases "t_pid r \<le> 1 \<or> \<not> root_valid all_procs r")
    case True
    with Cons show ?thesis by simp
  next
    case False
    with Cons.prems(1) obtain known1 where k: "add_root_procs me (t_pid r) all_procs known = Some known1"
      "add_roots me alive all_procs rs known1 (if t_group r then groups(t_pid r \<mapsto> t_start r) else groups) = Some (known', groups')"
      by (auto split: if_splits option.splits)
    have "tree_inv me all_procs roots known0 known1 groups"
      using add_root_procs_inv [OF k(1) _ _ _ _ Cons.prems(3)] False Cons.prems(2) by simp
    then have "tree_inv me all_procs roots known0 known1 (if t_group r then groups(t_pid r \<mapsto> t_start r) else groups)"
      using group_root [of r roots] False Cons.prems(2) by (auto simp: tree_inv_def)
    with Cons.IH [OF k(2)] Cons.prems(2) show ?thesis by simp
  qed
qed simp

lemma in_tree_owned:
  assumes "tree_inv me all_procs roots known0 known groups" and "p \<in> set all_procs" and "own me p"
    and "in_tree all_procs known groups p"
  shows "owned me all_procs roots known0 p"
proof -
  from assms(4) consider q where "find_pid (p_ppid p) known = Some q"
    | start where "groups (p_pgid p) = Some start" "start \<le> p_start p"
    by (auto simp: in_tree_def split: option.splits)
  then show ?thesis
  proof cases
    case 1
    with assms(1) have "owned me all_procs roots known0 q" "p_ppid p = p_pid q"
      by (auto simp: tree_inv_def dest: find_pid_Some)
    with assms(2,3) show ?thesis by (rule owned_child)
  next
    case 2
    with assms(1) have "owned_group me all_procs roots known0 (p_pgid p) start" by (simp add: tree_inv_def)
    from owned_member [OF assms(2,3) this 2(2)] show ?thesis .
  qed
qed

lemma tree_pass_inv:
  "tree_pass me all_procs ps known groups = (k, g, c) \<Longrightarrow> set ps \<subseteq> set all_procs \<Longrightarrow>
    tree_inv me all_procs roots known0 known groups \<Longrightarrow> tree_inv me all_procs roots known0 k g"
proof (induction ps arbitrary: known groups c)
  case (Cons p ps)
  show ?case
  proof (cases "own me p \<and> \<not> is_known known p \<and> in_tree all_procs known groups p")
    case True
    let ?g = "if p_pgid p = p_pid p then groups(p_pgid p \<mapsto> p_start p) else groups"
    obtain c1 where c: "tree_pass me all_procs ps (put_known p known) ?g = (k, g, c1)"
      using Cons.prems(1) True by (auto split: prod.splits)
    have o: "owned me all_procs roots known0 p"
      using in_tree_owned [OF Cons.prems(3)] True Cons.prems(2) by simp
    then have "tree_inv me all_procs roots known0 (put_known p known) ?g"
      using Cons.prems(3) put_known_set [of p known] group_leader [OF o] by (auto simp: tree_inv_def)
    with Cons.IH [OF c] Cons.prems(2) show ?thesis by simp
  next
    case False
    then have "tree_pass me all_procs (p # ps) known groups = tree_pass me all_procs ps known groups" by auto
    with Cons.prems(1) have "tree_pass me all_procs ps known groups = (k, g, c)" by simp
    from Cons.IH [OF this] Cons.prems show ?thesis by simp
  qed
qed simp

lemma tree_rounds_inv:
  "tree_rounds n me all_procs known groups = Some k \<Longrightarrow> tree_inv me all_procs roots known0 known groups \<Longrightarrow>
    \<exists>g. tree_inv me all_procs roots known0 k g"
proof (induction n arbitrary: known groups)
  case (Suc n)
  obtain k1 g1 c where pass: "tree_pass me all_procs all_procs known groups = (k1, g1, c)" by (cases "tree_pass me all_procs all_procs known groups")
  have inv: "tree_inv me all_procs roots known0 k1 g1" using tree_pass_inv [OF pass _ Suc.prems(2)] by simp
  show ?case
  proof (cases c)
    case True
    with Suc.prems(1) pass Suc.IH [OF _ inv] show ?thesis by simp
  next
    case False
    with Suc.prems(1) pass inv show ?thesis by auto
  qed
qed simp

lemma is_known_put: "is_known (put_known p known) q = (if p_pid q = p_pid p then p_start p = p_start q else is_known known q)"
  by (simp add: is_known_def find_put)

text \<open>A pass keeps what is known, and makes progress exactly when it reports a change.\<close>

lemma tree_pass_progress:
  assumes "distinct (map p_pid all_procs)"
  shows "tree_pass me all_procs ps known groups = (k, g, c) \<Longrightarrow> set ps \<subseteq> set all_procs \<Longrightarrow>
    (\<forall>q\<in>set all_procs. is_known known q \<longrightarrow> is_known k q)
    \<and> (c \<longrightarrow> (\<exists>p\<in>set all_procs. \<not> is_known known p \<and> is_known k p))
    \<and> (\<not> c \<longrightarrow> k = known \<and> g = groups \<and> (\<forall>p\<in>set ps. own me p \<longrightarrow> in_tree all_procs known groups p \<longrightarrow> is_known known p))"
proof (induction ps arbitrary: known groups c)
  case (Cons p ps)
  have uniq: "q = p" if "q \<in> set all_procs" "p_pid q = p_pid p" for q
    using assms that Cons.prems(2) by (auto simp: distinct_map inj_on_def)
  show ?case
  proof (cases "own me p \<and> \<not> is_known known p \<and> in_tree all_procs known groups p")
    case True
    let ?g = "if p_pgid p = p_pid p then groups(p_pgid p \<mapsto> p_start p) else groups"
    obtain c1 where c: "tree_pass me all_procs ps (put_known p known) ?g = (k, g, c1)" "c"
      using Cons.prems(1) True by (auto split: prod.splits)
    from Cons.IH [OF c(1)] Cons.prems(2)
    have IH: "\<forall>q\<in>set all_procs. is_known (put_known p known) q \<longrightarrow> is_known k q" by simp
    have "is_known k q" if "q \<in> set all_procs" "is_known known q" for q
    proof -
      have "q \<noteq> p" using that(2) True by auto
      with uniq [OF that(1)] have "p_pid q \<noteq> p_pid p" by auto
      with that(2) have "is_known (put_known p known) q" by (simp add: is_known_put)
      with IH that(1) show ?thesis by simp
    qed
    moreover have "is_known k p" using IH Cons.prems(2) by (simp add: is_known_put)
    ultimately show ?thesis using True Cons.prems(2) c(2) by auto
  next
    case False
    then have "tree_pass me all_procs (p # ps) known groups = tree_pass me all_procs ps known groups" by auto
    with Cons.prems(1) have "tree_pass me all_procs ps known groups = (k, g, c)" by simp
    from Cons.IH [OF this] Cons.prems False show ?thesis by auto
  qed
qed simp

lemma filter_shrinks:
  "(\<And>x. x \<in> set xs \<Longrightarrow> Q x \<Longrightarrow> P x) \<Longrightarrow> length (filter Q xs) \<le> length (filter P xs)"
  by (induction xs) auto

lemma filter_shrinks_strict:
  assumes "\<And>x. x \<in> set xs \<Longrightarrow> Q x \<Longrightarrow> P x" and "y \<in> set xs" "P y" "\<not> Q y"
  shows "length (filter Q xs) < length (filter P xs)"
  using assms
proof (induction xs)
  case (Cons x xs)
  then show ?case using filter_shrinks [of xs Q P] by (cases "x = y") auto
qed simp

lemma tree_rounds_finish:
  assumes "distinct (map p_pid all_procs)"
  shows "length (filter (\<lambda>p. \<not> is_known known p) all_procs) < n \<Longrightarrow>
    \<exists>k g. tree_rounds n me all_procs known groups = Some k
      \<and> (\<forall>p\<in>set all_procs. own me p \<longrightarrow> in_tree all_procs k g p \<longrightarrow> is_known k p)
      \<and> (\<forall>p\<in>set all_procs. is_known known p \<longrightarrow> is_known k p)"
proof (induction n arbitrary: known groups)
  case (Suc n)
  obtain k1 g1 c where pass: "tree_pass me all_procs all_procs known groups = (k1, g1, c)"
    by (cases "tree_pass me all_procs all_procs known groups")
  note pr = tree_pass_progress [OF assms pass]
  show ?case
  proof (cases c)
    case True
    with pr obtain p where p: "p \<in> set all_procs" "\<not> is_known known p" "is_known k1 p" by auto
    have "length (filter (\<lambda>p. \<not> is_known k1 p) all_procs) < length (filter (\<lambda>p. \<not> is_known known p) all_procs)"
      by (rule filter_shrinks_strict [OF _ p(1)]) (use pr p in auto)
    with Suc.prems Suc.IH [of k1 g1] obtain k g where
      "tree_rounds n me all_procs k1 g1 = Some k"
      "\<forall>p\<in>set all_procs. own me p \<longrightarrow> in_tree all_procs k g p \<longrightarrow> is_known k p"
      "\<forall>p\<in>set all_procs. is_known k1 p \<longrightarrow> is_known k p" by auto
    with True pass pr show ?thesis by auto
  next
    case False
    with pass pr show ?thesis by auto
  qed
qed simp

lemma tree_members_cases:
  assumes "tree_members me alive listing roots known = Inr (live, known')"
  shows "(live = [] \<and> known' = known)
    \<or> (\<exists>all_procs g. listing = Some all_procs \<and> tree_inv me all_procs roots known known' g
        \<and> live = filter (\<lambda>p. is_known known' p \<and> live_process p) all_procs)"
proof (cases "known = [] \<and> \<not> list_ex (\<lambda>r. 1 < t_pid r) roots")
  case True
  with assms show ?thesis by (simp add: tree_members_def)
next
  case False
  with assms obtain all_procs known1 groups where l: "listing = Some all_procs"
    and r: "add_roots me alive all_procs roots known (known_groups all_procs known Map.empty) = Some (known1, groups)"
    and k: "tree_rounds (length all_procs + 1) me all_procs known1 groups = Some known'"
    and live: "live = filter (\<lambda>p. is_known known' p \<and> live_process p) all_procs"
    by (auto simp: tree_members_def split: option.splits prod.splits if_splits)
  have "tree_inv me all_procs roots known known Map.empty"
    by (auto simp: tree_inv_def intro: owned_known)
  then have "tree_inv me all_procs roots known known (known_groups all_procs known Map.empty)"
    by (intro tree_inv_known_groups) simp_all
  then have "tree_inv me all_procs roots known known1 groups" using add_roots_inv [OF r] by simp
  then obtain g where "tree_inv me all_procs roots known known' g" using tree_rounds_inv [OF k] by blast
  with l live show ?thesis by blast
qed

lemma is_known_witness: "is_known known p \<Longrightarrow> \<exists>q\<in>set known. p_pid q = p_pid p \<and> p_start q = p_start p"
  by (auto simp: is_known_def dest: find_pid_Some split: option.splits)

text \<open>\<open>TreeMembers\<close> returns only what belongs to the tree: every process it returns is in the listing, alive,
  and has the identity of an owned process: a verified root, one known before, a child of an owned process
  or a member of an owned group that is no older than its leader, each the user's own.\<close>

theorem tree_members_owned:
  assumes "tree_members me alive (Some all_procs) roots known = Inr (live, known')" and "p \<in> set live"
  shows "p \<in> set all_procs \<and> live_process p
    \<and> (\<exists>q. owned me all_procs roots known q \<and> p_pid q = p_pid p \<and> p_start q = p_start p)"
proof -
  from tree_members_cases [OF assms(1)] assms(2) obtain g where
    g: "tree_inv me all_procs roots known known' g" and p: "p \<in> set all_procs" "live_process p" "is_known known' p"
    by auto
  from is_known_witness [OF p(3)] obtain q where "q \<in> set known'" "p_pid q = p_pid p" "p_start q = p_start p" by blast
  with g p show ?thesis unfolding tree_inv_def by blast
qed

definition sample_proc :: "int \<Rightarrow> int \<Rightarrow> int \<Rightarrow> nat \<Rightarrow> proc_info" where
  "sample_proc pid ppid pgid start =
     \<lparr>p_pid = pid, p_ppid = ppid, p_pgid = pgid, p_uid = 7, p_uid_known = True, p_state = ''S'', p_start = start\<rparr>"

lemma tree_members_owned_witness:
  "\<exists>q. owned 7 [sample_proc 10 1 10 5, sample_proc 11 10 10 6] [\<lparr>t_pid = 10, t_start = 5, t_group = False\<rparr>] [] q
      \<and> p_pid q = 11 \<and> p_start q = 6"
proof -
  have "tree_members 7 None (Some [sample_proc 10 1 10 5, sample_proc 11 10 10 6])
      [\<lparr>t_pid = 10, t_start = 5, t_group = False\<rparr>] []
    = Inr ([sample_proc 10 1 10 5, sample_proc 11 10 10 6], [sample_proc 11 10 10 6, sample_proc 10 1 10 5])"
    by code_simp
  from tree_members_owned [OF this, of "sample_proc 11 10 10 6"] show ?thesis by (simp add: sample_proc_def)
qed

text \<open>C10. The search for members always ends and misses none: with one entry per PID the rounds reach a fixed
  point within the size of the listing, after which every live process of the user whose parent is a
  member with the same identity is a member.\<close>

theorem tree_members_complete:
  assumes "distinct (map p_pid all_procs)"
    and "add_roots me alive all_procs roots known (known_groups all_procs known Map.empty) = Some (known1, groups)"
    and "known \<noteq> [] \<or> list_ex (\<lambda>r. 1 < t_pid r) roots"
  shows "\<exists>live known'. tree_members me alive (Some all_procs) roots known = Inr (live, known')
    \<and> (\<forall>p\<in>set all_procs. \<forall>q\<in>set live. own me p \<longrightarrow> live_process p \<longrightarrow> p_ppid p = p_pid q \<longrightarrow> p \<in> set live)"
proof -
  have "length (filter (\<lambda>p. \<not> is_known known1 p) all_procs) < length all_procs + 1"
    by (simp add: le_imp_less_Suc)
  from tree_rounds_finish [OF assms(1) this, of me groups] obtain k g where
    k: "tree_rounds (length all_procs + 1) me all_procs known1 groups = Some k"
      "\<forall>p\<in>set all_procs. own me p \<longrightarrow> in_tree all_procs k g p \<longrightarrow> is_known k p" by blast
  let ?live = "filter (\<lambda>p. is_known k p \<and> live_process p) all_procs"
  have m: "tree_members me alive (Some all_procs) roots known = Inr (?live, k)"
    using assms(2,3) k(1) by (auto simp: tree_members_def)
  have ident: "identity all_procs (p_pid q) = Some (p_start q)" if "q \<in> set all_procs" for q
  proof -
    have "find_pid (p_pid q) (rev all_procs) \<noteq> None" using that by (auto simp: find_pid_None)
    then obtain q' where q': "find_pid (p_pid q) (rev all_procs) = Some q'" by auto
    from find_pid_Some [OF this] that assms(1) have "q' = q" by (auto simp: distinct_map inj_on_def)
    with q' show ?thesis by (simp add: identity_def)
  qed
  have "p \<in> set ?live" if "p \<in> set all_procs" "q \<in> set ?live" "own me p" "live_process p" "p_ppid p = p_pid q" for p q
  proof -
    from that(2) have q: "q \<in> set all_procs" "is_known k q" by auto
    then obtain q' where q': "find_pid (p_pid q) k = Some q'" "p_start q' = p_start q"
      by (auto simp: is_known_def split: option.splits)
    then have "in_tree all_procs k g p"
      using that(5) ident [OF q(1)] find_pid_Some [OF q'(1)] by (simp add: in_tree_def)
    with k(2) that show ?thesis by simp
  qed
  with m show ?thesis by blast
qed

lemma tree_members_complete_witness:
  "\<exists>live known'. tree_members 7 None (Some [sample_proc 11 10 10 6, sample_proc 10 1 10 5])
      [\<lparr>t_pid = 10, t_start = 5, t_group = False\<rparr>] [] = Inr (live, known')
    \<and> (sample_proc 10 1 10 5 \<in> set live \<longrightarrow> sample_proc 11 10 10 6 \<in> set live)"
proof -
  have d: "distinct (map p_pid [sample_proc 11 10 10 6, sample_proc 10 1 10 5])"
    by (simp add: sample_proc_def)
  have r: "add_roots 7 None [sample_proc 11 10 10 6, sample_proc 10 1 10 5] [\<lparr>t_pid = 10, t_start = 5, t_group = False\<rparr>] []
      (known_groups [sample_proc 11 10 10 6, sample_proc 10 1 10 5] [] Map.empty) = Some ([sample_proc 10 1 10 5], Map.empty)"
    by (simp add: sample_proc_def root_valid_def identity_def own_def put_known_def)
  show ?thesis using tree_members_complete [OF d r]
    by (fastforce simp: sample_proc_def own_def live_process_def)
qed

section \<open>Stopping only what was seen\<close>

text \<open>
  A signal of \<open>StopTree\<close> is justified when the listing of its moment shows the process alive, it is neither
  init nor the caller, and its identity is that of a process seen as the user's own by then.
\<close>

definition seen_own :: "world \<Rightarrow> nat \<Rightarrow> nat \<Rightarrow> proc_info \<Rightarrow> bool" where
  "seen_own w me t q \<longleftrightarrow> own me q \<and> (\<exists>t'\<le>t. \<exists>ps. snaps w t' = Some ps \<and> q \<in> set ps)"

definition stop_ok :: "world \<Rightarrow> nat \<Rightarrow> int \<Rightarrow> nat \<times> int \<times> psignal \<Rightarrow> bool" where
  "stop_ok w me self e \<longleftrightarrow>
     (case e of (t, pid, sig) \<Rightarrow> 1 < pid \<and> pid \<noteq> self
        \<and> (\<exists>ps p q. snaps w t = Some ps \<and> p \<in> set ps \<and> p_pid p = pid \<and> live_process p
            \<and> seen_own w me t q \<and> p_pid q = pid \<and> p_start q = p_start p))"

lemma owned_cases: "owned me all_procs roots known p \<Longrightarrow> p \<in> set known \<or> p \<in> set all_procs \<and> own me p"
  by (auto elim: owned.cases)

lemma seen_own_mono: "seen_own w me t q \<Longrightarrow> t \<le> t' \<Longrightarrow> seen_own w me t' q"
  by (auto simp: seen_own_def intro: le_trans)

lemma tree_members_seen:
  assumes "tree_members me alive (snaps w t) roots known = Inr (live, known')"
    and "\<forall>q\<in>set known. seen_own w me t q"
  shows "\<forall>q\<in>set known'. seen_own w me t q"
    and "p \<in> set live \<Longrightarrow> 1 < p_pid p \<Longrightarrow> p_pid p \<noteq> self \<Longrightarrow> stop_ok w me self (t, p_pid p, sig)"
proof -
  show k: "\<forall>q\<in>set known'. seen_own w me t q"
    using tree_members_cases [OF assms(1)] assms(2)
    by (auto simp: tree_inv_def seen_own_def dest!: owned_cases)
  assume p: "p \<in> set live" "1 < p_pid p" "p_pid p \<noteq> self"
  then obtain ps where ps: "snaps w t = Some ps" "p \<in> set ps" "live_process p" "is_known known' p"
    using tree_members_cases [OF assms(1)] by auto
  from is_known_witness [OF ps(4)] k obtain q where "seen_own w me t q" "p_pid q = p_pid p" "p_start q = p_start p" by blast
  with p ps show "stop_ok w me self (t, p_pid p, sig)" unfolding stop_ok_def by auto
qed

lemma send_all_ok:
  "send_all w sig t ps sent log = (ok, sent', log') \<Longrightarrow> list_all P log \<Longrightarrow>
    (\<And>p. p \<in> set ps \<Longrightarrow> P (t, p_pid p, sig)) \<Longrightarrow> list_all P log'"
proof (induction ps arbitrary: sent log)
  case (Cons p ps)
  show ?case
  proof (cases "sent (p_pid p) = p_start p")
    case True
    with Cons.prems Cons.IH [of sent log] show ?thesis by simp
  next
    case False
    with Cons.prems Cons.IH [of "sent(p_pid p := p_start p)" "log @ [(t, p_pid p, sig)]"] show ?thesis
      by (auto simp: fun_upd_def split: if_splits)
  qed
qed simp

lemma stop_phase_ok:
  "stop_phase n w late cancelled me self roots sig known sent st = (r, st') \<Longrightarrow>
    \<forall>q\<in>set known. seen_own w me (ticks st) q \<Longrightarrow> list_all (stop_ok w me self) (signals st) \<Longrightarrow>
    list_all (stop_ok w me self) (signals st') \<and> ticks st \<le> ticks st'
    \<and> (\<forall>k. r = Some (Elapsed k) \<longrightarrow> (\<forall>q\<in>set k. seen_own w me (ticks st') q))"
proof (induction n arbitrary: known sent st)
  case (Suc n)
  let ?t = "ticks st" and ?st = "st\<lparr>ticks := ticks st + 1\<rparr>"
  show ?case
  proof (cases "tree_members me None (snaps w ?t) roots known")
    case (Inl e)
    with Suc.prems show ?thesis by (auto simp: Let_def)
  next
    case (Inr lk)
    then obtain live known' where m: "tree_members me None (snaps w ?t) roots known = Inr (live, known')" by (cases lk) simp
    note seen = tree_members_seen [OF m Suc.prems(2)]
    show ?thesis
    proof (cases "live = [] \<or> list_ex (\<lambda>p. p_pid p \<le> 1 \<or> p_pid p = self) live")
      case True
      with m Suc.prems show ?thesis by (auto simp: Let_def split: if_splits)
    next
      case False
      obtain ok sent' log where snd: "send_all w sig ?t live sent (signals ?st) = (ok, sent', log)"
        by (cases "send_all w sig ?t live sent (signals ?st)")
      have l: "list_all (stop_ok w me self) log"
      proof (rule send_all_ok [OF snd])
        fix p assume "p \<in> set live"
        with False seen(2) [of p self sig] show "stop_ok w me self (?t, p_pid p, sig)" by (auto simp: list_ex_iff)
      qed (use Suc.prems(3) in simp)
      have k: "\<forall>q\<in>set known'. seen_own w me (?t + 1) q" using seen(1) seen_own_mono by (metis le_add1)
      let ?st2 = "?st\<lparr>signals := log\<rparr>"
      show ?thesis
      proof (cases "ok \<and> \<not> late ?t \<and> \<not> cancelled ?t")
        case True
        with Suc.prems(1) m False snd
        have "stop_phase n w late cancelled me self roots sig known' sent' ?st2 = (r, st')" by (simp add: Let_def)
        from Suc.IH [OF this] l k show ?thesis by simp
      next
        case other: False
        with Suc.prems(1) m False snd l k show ?thesis by (auto simp: Let_def split: if_splits)
      qed
    qed
  qed
qed auto

text \<open>C11. \<open>StopTree\<close> signals only what it verified, however the processes change between two listings: each
  signal goes to a process that the listing of that moment shows alive, that is neither init nor the
  caller, and whose PID and start time are those of a process already seen as the user's own; with an
  unverifiable root nothing is signalled at all.\<close>

theorem stop_tree_safe:
  assumes "stop_tree n w late_term late_kill cancelled bounds me self roots st = (r, st')" and "signals st = []"
  shows "list_all (stop_ok w me self) (signals st')
    \<and> (\<not> validate_tree_roots roots \<longrightarrow> signals st' = [])"
proof (cases "\<not> validate_tree_roots roots \<or> (case bounds of (grace, kill_wait, poll) \<Rightarrow> grace \<le> 0 \<or> kill_wait \<le> 0 \<or> poll \<le> 0)")
  case True
  with assms show ?thesis by (simp add: stop_tree_def)
next
  case False
  obtain r1 st1 where p1: "stop_phase n w late_term cancelled me self roots SigTerm [] (\<lambda>_. 0) st = (r1, st1)"
    by (cases "stop_phase n w late_term cancelled me self roots SigTerm [] (\<lambda>_. 0) st")
  have ok1: "list_all (stop_ok w me self) (signals st1) \<and> (\<forall>k. r1 = Some (Elapsed k) \<longrightarrow> (\<forall>q\<in>set k. seen_own w me (ticks st1) q))"
    using stop_phase_ok [OF p1] assms(2) by simp
  show ?thesis
  proof (cases "\<exists>k. r1 = Some (Elapsed k)")
    case True
    then obtain k where k: "r1 = Some (Elapsed k)" ..
    obtain r2 st2 where p2: "stop_phase n w late_kill cancelled me self roots SigKill k (\<lambda>_. 0) st1 = (r2, st2)"
      by (cases "stop_phase n w late_kill cancelled me self roots SigKill k (\<lambda>_. 0) st1")
    have ok2: "list_all (stop_ok w me self) (signals st2)"
      using stop_phase_ok [OF p2] ok1 k by simp
    have "signals st' = signals st2"
      using assms(1) False p1 k p2
      by (auto simp: stop_tree_def split: option.splits phase_result.splits sum.splits)
    with ok2 False show ?thesis by simp
  next
    case other: False
    then have "(r, st') = (r1, st1)"
      using assms(1) False p1 by (auto simp: stop_tree_def split: option.splits phase_result.splits)
    with ok1 False show ?thesis by simp
  qed
qed

lemma stop_tree_safe_witness:
  "stop_tree 5 \<lparr>snaps = (\<lambda>t. if t < 1 then Some [sample_proc 10 1 10 5, sample_proc 11 10 10 6] else Some []),
       group_exists = (\<lambda>_ _. False), signal_fails = (\<lambda>_ _. False), remove_fails = (\<lambda>_. False)\<rparr>
     (\<lambda>_. False) (\<lambda>_. False) (\<lambda>_. False) (1, 1, 1) 7 99 [\<lparr>t_pid = 10, t_start = 5, t_group = False\<rparr>]
     \<lparr>ticks = 0, signals = [], removed = []\<rparr>
   = (Some Gone, \<lparr>ticks = 2, signals = [(0, 10, SigTerm), (0, 11, SigTerm)], removed = []\<rparr>)
  \<and> stop_ok \<lparr>snaps = (\<lambda>t. if t < 1 then Some [sample_proc 10 1 10 5, sample_proc 11 10 10 6] else Some []),
       group_exists = (\<lambda>_ _. False), signal_fails = (\<lambda>_ _. False), remove_fails = (\<lambda>_. False)\<rparr> 7 99 (0, 11, SigTerm)"
proof -
  have run: "stop_tree 5 \<lparr>snaps = (\<lambda>t. if t < 1 then Some [sample_proc 10 1 10 5, sample_proc 11 10 10 6] else Some []),
       group_exists = (\<lambda>_ _. False), signal_fails = (\<lambda>_ _. False), remove_fails = (\<lambda>_. False)\<rparr>
     (\<lambda>_. False) (\<lambda>_. False) (\<lambda>_. False) (1, 1, 1) 7 99 [\<lparr>t_pid = 10, t_start = 5, t_group = False\<rparr>]
     \<lparr>ticks = 0, signals = [], removed = []\<rparr>
   = (Some Gone, \<lparr>ticks = 2, signals = [(0, 10, SigTerm), (0, 11, SigTerm)], removed = []\<rparr>)"
    by code_simp
  from stop_tree_safe [OF run] run show ?thesis by simp
qed

end
