(* ===== verification/Endpoints.thy ===== *)
theory Endpoints
  imports GoBase "HOL-Library.List_Lexorder"
begin

text \<open>
  The channel spec and the registry of channel endpoints: \<open>internal/channel/spec.go\<close> and \<open>registry.go\<close>.

  The registry directory is a list of named files. What lies outside is a parameter, \<open>net\<close>: the hash of a
  session ID, the parts of a URL, whether an address is a numeric loopback address, whether a PID is alive
  and what the authenticated health request of an endpoint answers.
\<close>

section \<open>The spec\<close>

record config =
  registry_dir :: string
  listen_address :: string
  server_name :: string
  plugin_name :: string
  marketplace_name :: string
  server_version :: string
  protocol_version :: string
  io_timeout_ms :: int
  max_message_bytes :: int
  max_rpc_bytes :: int
  canary_model :: string
  canary_message :: string
  wait_timeout_ms :: int
  receipt_poll_ms :: int
  receipt_retention_ms :: int
  max_receipts :: int
  claude_metadata_dir :: string
  claude_metadata_pattern :: string
  max_metadata_bytes :: int
  reply_tool_name :: string
  reply_tool_description :: string
  sender_format :: string
  terminal_sender :: string
  instructions :: string

definition ident_char :: "char \<Rightarrow> bool" where
  "ident_char c \<longleftrightarrow> (let n = (of_char c :: nat)
     in (65 \<le> n \<and> n \<le> 90) \<or> (97 \<le> n \<and> n \<le> 122) \<or> (48 \<le> n \<and> n \<le> 57) \<or> c = CHR ''_'' \<or> c = CHR ''-'')"

definition is_identifier :: "string \<Rightarrow> bool" where
  "is_identifier s \<longleftrightarrow> s \<noteq> [] \<and> list_all ident_char s"

definition validate_config :: "(string \<Rightarrow> bool) \<Rightarrow> config \<Rightarrow> bool" where
  "validate_config loopback c \<longleftrightarrow>
     \<not> (registry_dir c = [] \<or> server_version c = [] \<or> protocol_version c = [] \<or> canary_message c = []
        \<or> instructions c = [] \<or> claude_metadata_dir c = [] \<or> claude_metadata_pattern c = []
        \<or> reply_tool_description c = [] \<or> sender_format c = [] \<or> terminal_sender c = [])
     \<and> is_identifier (server_name c) \<and> is_identifier (canary_model c) \<and> is_identifier (reply_tool_name c)
     \<and> is_identifier (plugin_name c) \<and> is_identifier (marketplace_name c)
     \<and> \<not> (io_timeout_ms c \<le> 0 \<or> max_message_bytes c \<le> 0 \<or> max_rpc_bytes c \<le> 0 \<or> wait_timeout_ms c \<le> 0
        \<or> receipt_poll_ms c \<le> 0 \<or> receipt_retention_ms c \<le> 0 \<or> max_receipts c \<le> 0 \<or> max_metadata_bytes c \<le> 0)
     \<and> loopback (listen_address c)"

text \<open>\<open>LoadConfig\<close> after decoding: \<open>home\<close> is \<^const>\<open>None\<close> when there is no home directory, \<open>join\<close> is \<open>filepath.Join\<close>.\<close>

definition expand_home :: "string option \<Rightarrow> (string \<Rightarrow> string \<Rightarrow> string) \<Rightarrow> string \<Rightarrow> string option" where
  "expand_home home join_path p =
     (if has_prefix p ''~/'' then map_option (\<lambda>h. join_path h (trim_prefix p ''~/'')) home else Some p)"

definition load_config ::
  "string option \<Rightarrow> (string \<Rightarrow> string \<Rightarrow> string) \<Rightarrow> (string \<Rightarrow> bool) \<Rightarrow> config option \<Rightarrow> config option" where
  "load_config home join_path loopback decoded =
     (case decoded of
        None \<Rightarrow> None
      | Some c \<Rightarrow>
          (case (expand_home home join_path (registry_dir c), expand_home home join_path (claude_metadata_dir c)) of
             (Some r, Some m) \<Rightarrow>
               let c' = c\<lparr>registry_dir := r, claude_metadata_dir := m\<rparr>
               in if validate_config loopback c' then Some c' else None
           | _ \<Rightarrow> None))"

section \<open>Registrations\<close>

record registration =
  session_id :: string
  pid :: int
  url :: string
  working_dir :: string
  token :: string

record url_parts =
  scheme :: string
  user_info :: bool
  host :: string
  port :: string
  url_path :: string
  raw_query :: string
  fragment :: string

record net =
  sha_hex :: "string \<Rightarrow> string"
  parse_url :: "string \<Rightarrow> url_parts option"
  loopback :: "string \<Rightarrow> bool"
  alive :: "int \<Rightarrow> bool"
  unlink_fails :: "string \<Rightarrow> bool"
  health :: "string \<Rightarrow> string \<Rightarrow> (string \<times> int \<times> string \<times> string) option"

datatype reg_file = Undecodable | Stored registration

type_synonym reg_dir = "(string \<times> reg_file) list"

datatype reg_err = NotExist | Invalid | Unknown | Stale | Duplicate | WriteErr

definition registry_name :: "net \<Rightarrow> string \<Rightarrow> string" where
  "registry_name n sid = sha_hex n sid @ ''.json''"

fun lookup_file :: "reg_dir \<Rightarrow> string \<Rightarrow> reg_file option" where
  "lookup_file [] name = None"
| "lookup_file ((k, f) # d) name = (if k = name then Some f else lookup_file d name)"

definition valid_url :: "net \<Rightarrow> string \<Rightarrow> bool" where
  "valid_url n u =
     (case parse_url n u of
        None \<Rightarrow> False
      | Some p \<Rightarrow> \<not> (scheme p \<noteq> ''http'' \<or> user_info p \<or> url_path p \<noteq> [] \<or> raw_query p \<noteq> [] \<or> fragment p \<noteq> []
          \<or> port p = [] \<or> port p = ''0'') \<and> loopback n (host p))"

definition read_registration :: "net \<Rightarrow> reg_dir \<Rightarrow> string \<Rightarrow> reg_err + registration" where
  "read_registration n d name =
     (case lookup_file d name of
        None \<Rightarrow> Inl NotExist
      | Some Undecodable \<Rightarrow> Inl Invalid
      | Some (Stored r) \<Rightarrow>
          if session_id r = [] \<or> pid r \<le> 0 \<or> token r = [] \<or> registry_name n (session_id r) \<noteq> name then Inl Invalid
          else if valid_url n (url r) then Inr r else Inl Invalid)"

definition process_alive :: "net \<Rightarrow> int \<Rightarrow> bool" where
  "process_alive n i \<longleftrightarrow> 0 < i \<and> alive n i"

definition endpoint :: "registration \<Rightarrow> string \<times> int \<times> string \<times> string" where
  "endpoint r = (session_id r, pid r, url r, working_dir r)"

definition check_registration :: "net \<Rightarrow> registration \<Rightarrow> bool" where
  "check_registration n r \<longleftrightarrow> process_alive n (pid r) \<and> health n (url r) (token r) = Some (endpoint r)"

definition lookup_registration :: "net \<Rightarrow> reg_dir \<Rightarrow> string \<Rightarrow> reg_err + registration" where
  "lookup_registration n d sid =
     (case read_registration n d (registry_name n sid) of
        Inl NotExist \<Rightarrow> Inl Unknown
      | Inl e \<Rightarrow> Inl e
      | Inr r \<Rightarrow> if check_registration n r then Inr r else Inl Stale)"

definition remove_entry :: "reg_dir \<Rightarrow> string \<Rightarrow> reg_dir" where
  "remove_entry d name = filter (\<lambda>e. fst e \<noteq> name) d"

definition unregister :: "net \<Rightarrow> registration \<Rightarrow> reg_dir \<Rightarrow> reg_err option \<times> reg_dir" where
  "unregister n r d =
     (case read_registration n d (registry_name n (session_id r)) of
        Inl NotExist \<Rightarrow> (None, d)
      | Inl e \<Rightarrow> (Some e, d)
      | Inr cur \<Rightarrow>
          if token cur \<noteq> token r then (None, d)
          else if unlink_fails n (registry_name n (session_id r)) then (Some WriteErr, d)
          else (None, remove_entry d (registry_name n (session_id r))))"

text \<open>The link that publishes the file fails when the name exists, as \<open>os.Link\<close> does.\<close>

definition publish :: "net \<Rightarrow> registration \<Rightarrow> reg_dir \<Rightarrow> reg_err option \<times> reg_dir" where
  "publish n r d =
     (case lookup_file d (registry_name n (session_id r)) of
        Some _ \<Rightarrow> (Some WriteErr, d)
      | None \<Rightarrow> (None, d @ [(registry_name n (session_id r), Stored r)]))"

definition register :: "net \<Rightarrow> registration \<Rightarrow> reg_dir \<Rightarrow> reg_err option \<times> reg_dir" where
  "register n r d =
     (case read_registration n d (registry_name n (session_id r)) of
        Inr prev \<Rightarrow>
          if check_registration n prev then (Some Duplicate, d)
          else (case unregister n prev d of (Some e, d') \<Rightarrow> (Some e, d') | (None, d') \<Rightarrow> publish n r d')
      | Inl NotExist \<Rightarrow> publish n r d
      | Inl e \<Rightarrow> (Some e, d))"

text \<open>The walk of \<open>List\<close> over the names the directory had at its start.\<close>

fun list_walk :: "net \<Rightarrow> string list \<Rightarrow> reg_dir \<Rightarrow> (reg_err + registration list) \<times> reg_dir" where
  "list_walk n [] d = (Inr [], d)"
| "list_walk n (name # names) d =
     (if \<not> has_suffix name ''.json'' then list_walk n names d
      else case read_registration n d name of
        Inl _ \<Rightarrow> list_walk n names d
      | Inr r \<Rightarrow>
          if \<not> process_alive n (pid r) then
            (case unregister n r d of
               (Some e, d') \<Rightarrow> (Inl e, d')
             | (None, d') \<Rightarrow> list_walk n names d')
          else (case list_walk n names d of
              (Inl e, d') \<Rightarrow> (Inl e, d')
            | (Inr rs, d') \<Rightarrow> (Inr (if check_registration n r then r # rs else rs), d')))"

definition list_endpoints :: "net \<Rightarrow> reg_dir \<Rightarrow> (reg_err + registration list) \<times> reg_dir" where
  "list_endpoints n d =
     (case list_walk n (map fst d) d of
        (Inl e, d') \<Rightarrow> (Inl e, d')
      | (Inr rs, d') \<Rightarrow> (Inr (sort_key (\<lambda>r. map of_char (session_id r) :: nat list) rs), d'))"

section \<open>Who owns an entry\<close>

lemma lookup_file_remove: "lookup_file (remove_entry d name) k = (if k = name then None else lookup_file d k)"
  by (induction d) (auto simp: remove_entry_def)

lemma lookup_file_append: "lookup_file (d @ e) k = (case lookup_file d k of None \<Rightarrow> lookup_file e k | Some f \<Rightarrow> Some f)"
  by (induction d) auto

lemma read_lookup: "lookup_file d k = lookup_file d' k \<Longrightarrow> read_registration n d k = read_registration n d' k"
  by (simp add: read_registration_def)

lemma read_InrD:
  "read_registration n d name = Inr r \<Longrightarrow> lookup_file d name = Some (Stored r) \<and> registry_name n (session_id r) = name"
  by (auto simp: read_registration_def split: option.splits reg_file.splits if_splits)

text \<open>The registration of a session that is live, the reason why nobody else may take its place.\<close>

definition live_at :: "net \<Rightarrow> reg_dir \<Rightarrow> registration \<Rightarrow> bool" where
  "live_at n d r \<longleftrightarrow> read_registration n d (registry_name n (session_id r)) = Inr r \<and> check_registration n r"

datatype reg_event = Register registration | Unregister registration | ListAll | Lookup string

definition reg_step :: "net \<Rightarrow> reg_event \<Rightarrow> reg_dir \<Rightarrow> reg_dir" where
  "reg_step n e d =
     (case e of
        Register r \<Rightarrow> snd (register n r d)
      | Unregister r \<Rightarrow> snd (unregister n r d)
      | ListAll \<Rightarrow> snd (list_endpoints n d)
      | Lookup _ \<Rightarrow> d)"

lemma unregister_keeps:
  assumes "live_at n d r" and "token r' \<noteq> token r \<or> registry_name n (session_id r') \<noteq> registry_name n (session_id r)"
  shows "live_at n (snd (unregister n r' d)) r"
proof -
  have "lookup_file (snd (unregister n r' d)) (registry_name n (session_id r)) = lookup_file d (registry_name n (session_id r))"
    using assms
    by (auto simp: unregister_def live_at_def lookup_file_remove split: sum.splits reg_err.splits)
  with assms(1) show ?thesis using read_lookup unfolding live_at_def by metis
qed

lemma publish_keeps: "live_at n d r \<Longrightarrow> live_at n (snd (publish n r' d)) r"
proof -
  assume l: "live_at n d r"
  then have "lookup_file d (registry_name n (session_id r)) = Some (Stored r)" by (auto simp: live_at_def dest: read_InrD)
  then have "lookup_file (snd (publish n r' d)) (registry_name n (session_id r)) = lookup_file d (registry_name n (session_id r))"
    by (auto simp: publish_def lookup_file_append split: option.splits)
  with l show ?thesis using read_lookup unfolding live_at_def by metis
qed

lemma live_reader: "live_at n d r \<Longrightarrow> read_registration n d name = Inr r' \<Longrightarrow> r' \<noteq> r \<Longrightarrow>
    registry_name n (session_id r') \<noteq> registry_name n (session_id r)"
  unfolding live_at_def using read_InrD by (metis sum.inject(2))

lemma register_keeps:
  assumes "live_at n d r"
  shows "live_at n (snd (register n r' d)) r"
proof (cases "read_registration n d (registry_name n (session_id r'))")
  case (Inl e)
  with assms publish_keeps [OF assms] show ?thesis by (cases e) (simp_all add: register_def)
next
  case (Inr prev)
  show ?thesis
  proof (cases "check_registration n prev")
    case True
    with Inr assms show ?thesis by (simp add: register_def)
  next
    case False
    have "registry_name n (session_id prev) \<noteq> registry_name n (session_id r)"
      using live_reader [OF assms Inr] assms False by (metis live_at_def)
    from unregister_keeps [OF assms disjI2 [OF this]] have k: "live_at n (snd (unregister n prev d)) r" .
    obtain e d' where u: "unregister n prev d = (e, d')" by (cases "unregister n prev d")
    have k': "live_at n d' r" using k unfolding u by simp
    then show ?thesis using publish_keeps [OF k', of r'] unfolding register_def Inr sum.case u
      by (cases e) (simp_all add: False)
  qed
qed

lemma list_walk_keeps:
  "live_at n d r \<Longrightarrow> live_at n (snd (list_walk n names d)) r"
proof (induction names arbitrary: d)
  case (Cons name names)
  show ?case
  proof (cases "has_suffix name ''.json''")
    case False
    with Cons show ?thesis by simp
  next
    case True
    show ?thesis
    proof (cases "read_registration n d name")
      case (Inl e)
      with True Cons show ?thesis by simp
    next
      case (Inr r')
      show ?thesis
      proof (cases "process_alive n (pid r')")
        case alive: True
        with True Inr Cons.IH [OF Cons.prems] show ?thesis by (auto split: sum.splits prod.splits)
      next
        case dead: False
        have "registry_name n (session_id r') \<noteq> registry_name n (session_id r)"
          using live_reader [OF Cons.prems Inr] Cons.prems dead by (metis live_at_def check_registration_def)
        from unregister_keeps [OF Cons.prems disjI2 [OF this]] have k: "live_at n (snd (unregister n r' d)) r" .
        obtain e d' where u: "unregister n r' d = (e, d')" by (cases "unregister n r' d")
        have k': "live_at n d' r" using k unfolding u by simp
        have "list_walk n (name # names) d = (case e of Some e \<Rightarrow> (Inl e, d') | None \<Rightarrow> list_walk n names d')"
          using True Inr dead u by simp
        then show ?thesis using k' Cons.IH [OF k'] by (cases e) simp_all
      qed
    qed
  qed
qed simp

lemma list_endpoints_keeps: "live_at n d r \<Longrightarrow> live_at n (snd (list_endpoints n d)) r"
  using list_walk_keeps [of n d r "map fst d"]
  by (auto simp: list_endpoints_def split: sum.splits prod.splits)

lemma reg_step_keeps:
  "live_at n d r \<Longrightarrow> (\<And>r'. e = Unregister r' \<Longrightarrow> token r' \<noteq> token r) \<Longrightarrow> live_at n (reg_step n e d) r"
  using register_keeps list_endpoints_keeps unregister_keeps
  by (cases e) (auto simp: reg_step_def)

lemma lookup_live: "live_at n d r \<Longrightarrow> lookup_registration n d (session_id r) = Inr r"
  by (simp add: live_at_def lookup_registration_def)

text \<open>A live registration cannot be taken away: while the process of an endpoint is alive and its health
  check answers with its identity, no sequence of registrations, listings, lookups and clean-ups by others,
  which do not know its token, removes or replaces it, every lookup of the session finds it, and a second
  registration of the session is refused.\<close>

theorem live_registration_survives:
  assumes "live_at n d r" and "\<forall>r'. Unregister r' \<in> set es \<longrightarrow> token r' \<noteq> token r"
  shows "lookup_registration n (fold (reg_step n) es d) (session_id r) = Inr r
    \<and> (session_id r' = session_id r \<longrightarrow>
        register n r' (fold (reg_step n) es d) = (Some Duplicate, fold (reg_step n) es d))"
proof -
  have l: "live_at n (fold (reg_step n) es d) r"
    using assms
  proof (induction es arbitrary: d)
    case (Cons e es)
    then show ?case using reg_step_keeps [OF Cons.prems(1), of e] by auto
  qed simp
  then show ?thesis by (auto simp: lookup_live) (simp add: live_at_def register_def)
qed

lemma publish_lookup:
  assumes "publish n r d = (None, d')" and "valid_url n (url r)" "session_id r \<noteq> []" "0 < pid r" "token r \<noteq> []"
  shows "read_registration n d' (registry_name n (session_id r)) = Inr r"
  using assms
  by (auto simp: publish_def read_registration_def lookup_file_append split: option.splits)

text \<open>Registering works: whenever \<open>register\<close> succeeds for an endpoint that is valid and healthy, the lookup
  of its session returns exactly this registration; it then stays until it is unregistered with its own
  token, after which the session is unknown. A dead predecessor is replaced, not kept.\<close>

theorem register_lookup_unregister:
  assumes "register n r d = (None, d')" and "valid_url n (url r)" and "session_id r \<noteq> []" and "token r \<noteq> []"
    and "check_registration n r" and "\<not> unlink_fails n (registry_name n (session_id r))"
  shows "lookup_registration n d' (session_id r) = Inr r
    \<and> fst (unregister n r d') = None
    \<and> lookup_registration n (snd (unregister n r d')) (session_id r) = Inl Unknown
    \<and> (\<forall>old. live_at n d old \<longrightarrow> session_id old \<noteq> session_id r)"
proof -
  from assms(1) obtain d0 where "publish n r d0 = (None, d')"
    by (auto simp: register_def split: sum.splits reg_err.splits if_splits prod.splits option.splits)
  moreover have "0 < pid r" using assms(5) by (simp add: check_registration_def process_alive_def)
  ultimately have rd: "read_registration n d' (registry_name n (session_id r)) = Inr r"
    using publish_lookup assms(2-4) by blast
  have "session_id old \<noteq> session_id r" if "live_at n d old" for old
    using that assms(1) by (auto simp: live_at_def register_def)
  with rd assms(5,6) show ?thesis
    by (auto simp: lookup_registration_def unregister_def read_registration_def [of _ "remove_entry d' _"] lookup_file_remove)
qed

lemma unregister_shrinks: "lookup_file (snd (unregister n r d)) k = Some f \<Longrightarrow> lookup_file d k = Some f"
  by (auto simp: unregister_def lookup_file_remove split: sum.splits reg_err.splits if_splits)

lemma read_valid: "read_registration n d name = Inr r \<Longrightarrow> valid_url n (url r)"
  by (auto simp: read_registration_def split: option.splits reg_file.splits if_splits)

lemma list_walk_sound:
  "list_walk n names d = (Inr rs, d') \<Longrightarrow>
    \<forall>r\<in>set rs. check_registration n r \<and> valid_url n (url r)
        \<and> lookup_file d (registry_name n (session_id r)) = Some (Stored r)"
proof (induction names arbitrary: d rs)
  case (Cons name names)
  consider "\<not> has_suffix name ''.json'' \<or> (\<exists>e. read_registration n d name = Inl e)"
    | r where "has_suffix name ''.json''" "read_registration n d name = Inr r" by (metis sum.exhaust)
  then show ?case
  proof cases
    case 1
    then have "list_walk n (name # names) d = list_walk n names d" by auto
    with Cons.prems have "list_walk n names d = (Inr rs, d')" by metis
    from Cons.IH [OF this] show ?thesis .
  next
    case 2
    show ?thesis
    proof (cases "process_alive n (pid r)")
      case True
      with 2 Cons.prems obtain rs1 where l: "list_walk n names d = (Inr rs1, d')"
        and rs: "rs = (if check_registration n r then r # rs1 else rs1)"
        by (auto split: sum.splits prod.splits)
      have "lookup_file d (registry_name n (session_id r)) = Some (Stored r)"
        using read_InrD [OF 2(2)] by simp
      with Cons.IH [OF l] rs read_valid [OF 2(2)] show ?thesis by auto
    next
      case False
      obtain e d1 where u: "unregister n r d = (e, d1)" by (cases "unregister n r d")
      have "list_walk n (name # names) d = (case e of Some e \<Rightarrow> (Inl e, d1) | None \<Rightarrow> list_walk n names d1)"
        using 2 False u by simp
      with Cons.prems have "list_walk n names d1 = (Inr rs, d')" by (cases e) simp_all
      from Cons.IH [OF this] unregister_shrinks [of n r d] show ?thesis unfolding u by simp
    qed
  qed
qed simp

text \<open>\<open>List\<close> returns only registered loopback endpoints that pass the health check, in the order of their session IDs.\<close>

theorem list_only_live:
  assumes "list_endpoints n d = (Inr rs, d')"
  shows "sorted (map (\<lambda>r. map of_char (session_id r) :: nat list) rs)
    \<and> (\<forall>r\<in>set rs. check_registration n r \<and> valid_url n (url r)
        \<and> lookup_file d (registry_name n (session_id r)) = Some (Stored r))"
proof -
  from assms obtain rs0 where l: "list_walk n (map fst d) d = (Inr rs0, d')"
    and rs: "rs = sort_key (\<lambda>r. map of_char (session_id r) :: nat list) rs0"
    by (auto simp: list_endpoints_def split: sum.splits prod.splits)
  from list_walk_sound [OF l] show ?thesis unfolding rs by simp
qed

section \<open>A concrete registry\<close>

definition sample_net :: net where
  "sample_net = \<lparr>sha_hex = (\<lambda>s. s), parse_url = (\<lambda>u. Some \<lparr>scheme = ''http'', user_info = False, host = ''127.0.0.1:9'',
       port = ''9'', url_path = [], raw_query = [], fragment = []\<rparr>), loopback = (\<lambda>h. h = ''127.0.0.1:9''),
     alive = (\<lambda>p. p \<noteq> 7), unlink_fails = (\<lambda>_. False),
     health = (\<lambda>u t. if t = ''tok'' then Some (''s1'', 5, ''u'', ''w'') else None)\<rparr>"

definition sample_reg :: registration where
  "sample_reg = \<lparr>session_id = ''s1'', pid = 5, url = ''u'', working_dir = ''w'', token = ''tok''\<rparr>"

definition dead_reg :: registration where
  "dead_reg = \<lparr>session_id = ''s1'', pid = 7, url = ''u'', working_dir = ''w'', token = ''old''\<rparr>"

lemma live_registration_survives_witness:
  "lookup_registration sample_net (fold (reg_step sample_net) [Register dead_reg, ListAll, Unregister dead_reg]
      [(''s1.json'', Stored sample_reg)]) ''s1'' = Inr sample_reg"
proof -
  have l: "live_at sample_net [(''s1.json'', Stored sample_reg)] sample_reg" by code_simp
  have t: "\<forall>r'. Unregister r' \<in> set [Register dead_reg, ListAll, Unregister dead_reg] \<longrightarrow> token r' \<noteq> token sample_reg"
    by (simp add: dead_reg_def sample_reg_def)
  from live_registration_survives [OF l t] show ?thesis by (simp add: sample_reg_def)
qed

lemma register_lookup_unregister_witness:
  "lookup_registration sample_net [(''s1.json'', Stored sample_reg)] ''s1'' = Inr sample_reg
    \<and> \<not> live_at sample_net [(''s1.json'', Stored dead_reg)] dead_reg"
proof -
  have r: "register sample_net sample_reg [(''s1.json'', Stored dead_reg)] = (None, [(''s1.json'', Stored sample_reg)])"
    by code_simp
  have "valid_url sample_net (url sample_reg)" "session_id sample_reg \<noteq> []" "token sample_reg \<noteq> []"
    "check_registration sample_net sample_reg"
    "\<not> unlink_fails sample_net (registry_name sample_net (session_id sample_reg))" by code_simp+
  from register_lookup_unregister [OF r this] show ?thesis by (auto simp: sample_reg_def dead_reg_def)
qed

lemma list_only_live_witness:
  "list_endpoints sample_net [(''s1.json'', Stored sample_reg)] = (Inr [sample_reg], [(''s1.json'', Stored sample_reg)])
    \<and> check_registration sample_net sample_reg"
proof -
  have l: "list_endpoints sample_net [(''s1.json'', Stored sample_reg)] = (Inr [sample_reg], [(''s1.json'', Stored sample_reg)])"
    by code_simp
  from list_only_live [OF l] l show ?thesis by simp
qed

end
