(* ===== verification/Channel.thy ===== *)
theory Channel
  imports Endpoints
begin

text \<open>
  The channel server: \<open>internal/channel/receipt.go\<close>, \<open>server.go\<close> and \<open>client.go\<close>.

  The receipt store takes the time of each call as an argument. The server handles one request or one line of
  input at a time (its handlers serialise on the mutexes of the store and of the output); a decoded body or
  line is data, as encoding/json is the library's, and \<open>rand.Text\<close> is an argument. The abstract store never
  forgets: it keeps every receipt with the time it ends, and the expiry is applied when it is asked.
\<close>

section \<open>Receipts\<close>

record receipt =
  received :: bool
  r_session :: string
  r_message :: string
  r_text :: string

type_synonym receipts = "(string \<times> receipt \<times> int) list"

fun entry :: "receipts \<Rightarrow> string \<Rightarrow> (receipt \<times> int) option" where
  "entry [] i = None"
| "entry ((k, v) # rs) i = (if k = i then Some v else entry rs i)"

definition put_entry :: "receipts \<Rightarrow> string \<Rightarrow> receipt \<times> int \<Rightarrow> receipts" where
  "put_entry rs i v = (i, v) # filter (\<lambda>e. fst e \<noteq> i) rs"

definition prune_receipts :: "int \<Rightarrow> receipts \<Rightarrow> receipts" where
  "prune_receipts now rs = filter (\<lambda>e. now < snd (snd e)) rs"

text \<open>Times are in nanoseconds, the retention is given in milliseconds.\<close>

definition reserve :: "config \<Rightarrow> int \<Rightarrow> string \<Rightarrow> string \<Rightarrow> receipts \<Rightarrow> bool \<times> receipts" where
  "reserve cfg now sid i rs =
     (let rs' = prune_receipts now rs
      in if max_receipts cfg \<le> int (length rs') then (False, rs')
         else (True, put_entry rs' i
           (\<lparr>received = False, r_session = sid, r_message = i, r_text = []\<rparr>,
            now + receipt_retention_ms cfg * 1000000)))"

definition get_receipt :: "int \<Rightarrow> string \<Rightarrow> receipts \<Rightarrow> receipt option \<times> receipts" where
  "get_receipt now i rs = (let rs' = prune_receipts now rs in (map_option fst (entry rs' i), rs'))"

definition ack :: "int \<Rightarrow> string \<Rightarrow> string \<Rightarrow> receipts \<Rightarrow> bool \<times> receipts" where
  "ack now i text rs =
     (let rs' = prune_receipts now rs
      in case entry rs' i of
           None \<Rightarrow> (False, rs')
         | Some (r, stop) \<Rightarrow>
             if \<not> received r then (True, put_entry rs' i (r\<lparr>received := True, r_text := text\<rparr>, stop))
             else (True, rs'))"

datatype reply_call = BadCall | ReplyCall string "(string \<times> string) option"

datatype reply = InvalidArguments | UnknownTool | TooLong | UnknownMessage | ReplyReceived

definition tool_result :: "config \<Rightarrow> int \<Rightarrow> reply_call \<Rightarrow> receipts \<Rightarrow> reply \<times> receipts" where
  "tool_result cfg now call rs =
     (case call of
        BadCall \<Rightarrow> (InvalidArguments, rs)
      | ReplyCall name args \<Rightarrow>
          (case args of
             None \<Rightarrow> (InvalidArguments, rs)
           | Some (i, text) \<Rightarrow>
               if name \<noteq> reply_tool_name cfg then (UnknownTool, rs)
               else if max_message_bytes cfg < int (length text) then (TooLong, rs)
               else (case ack now i text rs of
                   (False, rs') \<Rightarrow> (UnknownMessage, rs')
                 | (True, rs') \<Rightarrow> (ReplyReceived, rs'))))"

section \<open>The server\<close>

datatype rpc_error = ParseError | InvalidRequest | NotInitialized | MethodNotFound

datatype rpc_out =
    Failure "string option" rpc_error
  | InitializeResult string
  | ToolsResult string
  | CallResult string reply
  | PingResult string
  | Notify string string string

record server =
  initialized :: bool
  registered :: bool
  ready :: bool
  running :: bool
  store :: receipts
  out :: "rpc_out list"
  attempts :: nat
  registry :: reg_dir

datatype rpc_line =
    BadLine
  | Line string string "string option" reply_call

record http_request =
  authorization :: string
  req_path :: string
  req_method :: string
  query_id :: string
  body_len :: int
  body :: "(string \<times> string \<times> bool) option"

datatype http_response =
    Status nat
  | HealthOk "string \<times> int \<times> string \<times> string"
  | ReceiptOk receipt
  | AcceptedMsg string string

text \<open>A write to the output fails when \<open>wfail\<close> says so for that attempt.\<close>

definition write_out :: "(nat \<Rightarrow> bool) \<Rightarrow> rpc_out \<Rightarrow> server \<Rightarrow> bool \<times> server" where
  "write_out wfail m s =
     (if wfail (attempts s) then (False, s\<lparr>attempts := attempts s + 1\<rparr>)
      else (True, s\<lparr>attempts := attempts s + 1, out := out s @ [m]\<rparr>))"

text \<open>The end of \<open>Run\<close>: the deferred functions, after which nothing is served.\<close>

definition stop_server :: "net \<Rightarrow> registration \<Rightarrow> server \<Rightarrow> server" where
  "stop_server n reg s =
     (let s' = s\<lparr>ready := False, running := False\<rparr>
      in if registered s then s'\<lparr>registry := snd (unregister n reg (registry s))\<rparr> else s')"

definition respond :: "net \<Rightarrow> registration \<Rightarrow> (nat \<Rightarrow> bool) \<Rightarrow> rpc_out \<Rightarrow> server \<Rightarrow> server" where
  "respond n reg wfail m s = (case write_out wfail m s of (True, s') \<Rightarrow> s' | (False, s') \<Rightarrow> stop_server n reg s')"

definition rpc_method ::
  "config \<Rightarrow> int \<Rightarrow> string \<Rightarrow> string \<Rightarrow> reply_call \<Rightarrow> server \<Rightarrow> rpc_out \<times> server" where
  "rpc_method cfg now meth i params s =
     (if meth = ''initialize'' then (InitializeResult i, s\<lparr>initialized := True\<rparr>)
      else if meth = ''tools/list'' then (ToolsResult i, s)
      else if meth = ''tools/call'' then
        (if \<not> ready s then (Failure (Some i) NotInitialized, s)
         else case tool_result cfg now params (store s) of (r, rs) \<Rightarrow> (CallResult i r, s\<lparr>store := rs\<rparr>))
      else if meth = ''ping'' then (PingResult i, s)
      else (Failure (Some i) MethodNotFound, s))"

definition handle_line ::
  "net \<Rightarrow> config \<Rightarrow> registration \<Rightarrow> (nat \<Rightarrow> bool) \<Rightarrow> int \<Rightarrow> rpc_line \<Rightarrow> server \<Rightarrow> server" where
  "handle_line n cfg reg wfail now line s =
     (case line of
        BadLine \<Rightarrow> respond n reg wfail (Failure None ParseError) s
      | Line version meth i params \<Rightarrow>
          if version \<noteq> ''2.0'' \<or> meth = [] then respond n reg wfail (Failure i InvalidRequest) s
          else if meth = ''notifications/initialized'' then
            (if initialized s \<and> \<not> registered s then
               (case register n reg (registry s) of
                  (Some _, d) \<Rightarrow> stop_server n reg (s\<lparr>registry := d\<rparr>)
                | (None, d) \<Rightarrow> s\<lparr>registry := d, registered := True, ready := True\<rparr>)
             else s)
          else (case i of
              None \<Rightarrow> s
            | Some k \<Rightarrow> (case rpc_method cfg now meth k params s of (m, s') \<Rightarrow> respond n reg wfail m s')))"

text \<open>\<open>blank\<close> is \<open>strings.TrimSpace(content) == ""\<close>.\<close>

definition blank :: "string \<Rightarrow> bool" where
  "blank c \<longleftrightarrow> trim_space c = []"

definition handle_message ::
  "net \<Rightarrow> config \<Rightarrow> registration \<Rightarrow> (nat \<Rightarrow> bool) \<Rightarrow> int \<Rightarrow> string \<Rightarrow> http_request \<Rightarrow> server \<Rightarrow> http_response \<times> server" where
  "handle_message n cfg reg wfail now fresh r s =
     (case (if max_message_bytes cfg < body_len r then None else body r) of
        None \<Rightarrow> (Status 400, s)
      | Some (sid, content, at_end) \<Rightarrow>
          if \<not> at_end \<or> sid \<noteq> session_id reg \<or> blank content then (Status 400, s)
          else (case reserve cfg now (session_id reg) fresh (store s) of
              (False, rs) \<Rightarrow> (Status 503, s\<lparr>store := rs\<rparr>)
            | (True, rs) \<Rightarrow>
                (case write_out wfail (Notify content (session_id reg) fresh) (s\<lparr>store := rs\<rparr>) of
                   (False, s') \<Rightarrow> (Status 503, stop_server n reg s')
                 | (True, s') \<Rightarrow> (AcceptedMsg (session_id reg) fresh, s'))))"

definition channel_handler ::
  "net \<Rightarrow> config \<Rightarrow> registration \<Rightarrow> (nat \<Rightarrow> bool) \<Rightarrow> int \<Rightarrow> string \<Rightarrow> http_request \<Rightarrow> server \<Rightarrow> http_response \<times> server" where
  "channel_handler n cfg reg wfail now fresh r s =
     (if authorization r \<noteq> ''Bearer '' @ token reg then (Status 401, s)
      else if req_path r = ''/health'' \<and> req_method r = ''GET'' then (HealthOk (endpoint reg), s)
      else if req_path r = ''/receipt'' \<and> req_method r = ''GET'' then
        (case get_receipt now (query_id r) (store s) of
           (None, rs) \<Rightarrow> (Status 404, s\<lparr>store := rs\<rparr>)
         | (Some x, rs) \<Rightarrow> (ReceiptOk x, s\<lparr>store := rs\<rparr>))
      else if req_path r \<noteq> ''/message'' then (Status 404, s)
      else if req_method r \<noteq> ''POST'' then (Status 405, s)
      else if \<not> ready s then (Status 503, s)
      else handle_message n cfg reg wfail now fresh r s)"

text \<open>\<open>Elsewhere d\<close> is other processes changing the registry directory.\<close>

datatype event = Rpc int rpc_line | Http int string http_request | Elsewhere reg_dir | Closed

definition step ::
  "net \<Rightarrow> config \<Rightarrow> registration \<Rightarrow> (nat \<Rightarrow> bool) \<Rightarrow> event \<Rightarrow> server \<Rightarrow> http_response option \<times> server" where
  "step n cfg reg wfail e s =
     (if \<not> running s then (None, s)
      else case e of
        Rpc now line \<Rightarrow> (None, handle_line n cfg reg wfail now line s)
      | Http now fresh r \<Rightarrow> (case channel_handler n cfg reg wfail now fresh r s of (x, s') \<Rightarrow> (Some x, s'))
      | Elsewhere d \<Rightarrow> (None, s\<lparr>registry := d\<rparr>)
      | Closed \<Rightarrow> (None, stop_server n reg s))"

fun serve ::
  "net \<Rightarrow> config \<Rightarrow> registration \<Rightarrow> (nat \<Rightarrow> bool) \<Rightarrow> event list \<Rightarrow> server \<Rightarrow> (event \<times> http_response option) list \<times> server" where
  "serve n cfg reg wfail [] s = ([], s)"
| "serve n cfg reg wfail (e # es) s =
     (case step n cfg reg wfail e s of
        (x, s') \<Rightarrow> (case serve n cfg reg wfail es s' of (xs, s'') \<Rightarrow> ((e, x) # xs, s'')))"

definition start_server :: "reg_dir \<Rightarrow> server" where
  "start_server d = \<lparr>initialized = False, registered = False, ready = False, running = True, store = [],
     out = [], attempts = 0, registry = d\<rparr>"

definition run_server ::
  "net \<Rightarrow> config \<Rightarrow> registration \<Rightarrow> (nat \<Rightarrow> bool) \<Rightarrow> reg_dir \<Rightarrow> event list \<Rightarrow> ((event \<times> http_response option) list \<times> server) option" where
  "run_server n cfg reg wfail d es =
     (if \<not> validate_config (loopback n) cfg \<or> blank (session_id reg) then None
      else Some (serve n cfg reg wfail es (start_server d)))"

section \<open>The client\<close>

datatype send_error = EmptyArguments | LookupFailed reg_err | MessageTooLong | TransportFailed | HttpStatus nat | InvalidResponse

text \<open>\<open>marshal_len\<close> is the length of the encoded request and \<open>post\<close> the answer of the endpoint to it.\<close>

definition send_message ::
  "net \<Rightarrow> config \<Rightarrow> reg_dir \<Rightarrow> (string \<Rightarrow> string \<Rightarrow> int) \<Rightarrow> (registration \<Rightarrow> string \<Rightarrow> string \<Rightarrow> http_response option)
    \<Rightarrow> string \<Rightarrow> string \<Rightarrow> send_error + string \<times> string" where
  "send_message n cfg d marshal_len post sid content =
     (if blank sid \<or> blank content then Inl EmptyArguments
      else case lookup_registration n d sid of
        Inl e \<Rightarrow> Inl (LookupFailed e)
      | Inr reg \<Rightarrow>
          if max_message_bytes cfg < marshal_len sid content then Inl MessageTooLong
          else (case post reg sid content of
              None \<Rightarrow> Inl TransportFailed
            | Some (AcceptedMsg s i) \<Rightarrow> if s \<noteq> sid \<or> i = [] then Inl InvalidResponse else Inr (s, i)
            | Some (Status k) \<Rightarrow> Inl (HttpStatus k)
            | Some _ \<Rightarrow> Inl (HttpStatus 200)))"

text \<open>\<open>WaitReceipt\<close>: the answers to its polls; the context ends when they run out.\<close>

datatype poll_answer = PollFailed | PollStatus nat | PollReceipt "receipt option"

fun wait_receipt :: "string \<times> string \<Rightarrow> poll_answer list \<Rightarrow> receipt \<times> bool" where
  "wait_receipt (sid, i) [] = (\<lparr>received = False, r_session = sid, r_message = i, r_text = []\<rparr>, False)"
| "wait_receipt (sid, i) (a # as) =
     (let unconfirmed = \<lparr>received = False, r_session = sid, r_message = i, r_text = []\<rparr>
      in case a of
           PollFailed \<Rightarrow> (unconfirmed, False)
         | PollStatus k \<Rightarrow> (unconfirmed, False)
         | PollReceipt None \<Rightarrow> (unconfirmed, False)
         | PollReceipt (Some r) \<Rightarrow>
             if r_session r \<noteq> sid \<or> r_message r \<noteq> i then (unconfirmed, False)
             else if received r then (r, True) else wait_receipt (sid, i) as)"

section \<open>The store that never forgets\<close>

datatype receipt_op = Reserve string string | Get string | Ack string string

datatype receipt_outcome = Reserved bool | Got "receipt option" | Acked bool

fun receipt_step :: "config \<Rightarrow> int \<times> receipt_op \<Rightarrow> receipts \<Rightarrow> receipt_outcome \<times> receipts" where
  "receipt_step cfg (now, Reserve sid i) rs = (case reserve cfg now sid i rs of (b, rs') \<Rightarrow> (Reserved b, rs'))"
| "receipt_step cfg (now, Get i) rs = (case get_receipt now i rs of (r, rs') \<Rightarrow> (Got r, rs'))"
| "receipt_step cfg (now, Ack i text) rs = (case ack now i text rs of (b, rs') \<Rightarrow> (Acked b, rs'))"

fun receipt_run :: "config \<Rightarrow> (int \<times> receipt_op) list \<Rightarrow> receipts \<Rightarrow> receipt_outcome list \<times> receipts" where
  "receipt_run cfg [] rs = ([], rs)"
| "receipt_run cfg (x # xs) rs =
     (case receipt_step cfg x rs of (y, rs') \<Rightarrow> (case receipt_run cfg xs rs' of (ys, rs'') \<Rightarrow> (y # ys, rs'')))"

text \<open>The abstract store: a function from IDs to the last reservation and the first reply to it, with the ID's end of life.\<close>

type_synonym ledger = "string \<Rightarrow> (receipt \<times> int) option"

definition open_at :: "int \<Rightarrow> ledger \<Rightarrow> string set" where
  "open_at now l = {i. case l i of None \<Rightarrow> False | Some (_, stop) \<Rightarrow> now < stop}"

fun ledger_step :: "config \<Rightarrow> int \<times> receipt_op \<Rightarrow> ledger \<Rightarrow> receipt_outcome \<times> ledger" where
  "ledger_step cfg (now, Reserve sid i) l =
     (if max_receipts cfg \<le> int (card (open_at now l)) then (Reserved False, l)
      else (Reserved True, l(i \<mapsto> (\<lparr>received = False, r_session = sid, r_message = i, r_text = []\<rparr>,
        now + receipt_retention_ms cfg * 1000000))))"
| "ledger_step cfg (now, Get i) l = (Got (if i \<in> open_at now l then map_option fst (l i) else None), l)"
| "ledger_step cfg (now, Ack i text) l =
     (if i \<notin> open_at now l then (Acked False, l)
      else (Acked True, (case l i of Some (r, stop) \<Rightarrow>
        if received r then l else l(i \<mapsto> (r\<lparr>received := True, r_text := text\<rparr>, stop)) | None \<Rightarrow> l)))"

fun ledger_run :: "config \<Rightarrow> (int \<times> receipt_op) list \<Rightarrow> ledger \<Rightarrow> receipt_outcome list" where
  "ledger_run cfg [] l = []"
| "ledger_run cfg (x # xs) l = (case ledger_step cfg x l of (y, l') \<Rightarrow> y # ledger_run cfg xs l')"

lemma entry_put: "entry (put_entry rs i v) j = (if j = i then Some v else entry rs j)"
proof -
  have "j \<noteq> i \<Longrightarrow> entry (filter (\<lambda>e. fst e \<noteq> i) rs) j = entry rs j" by (induction rs) auto
  then show ?thesis by (simp add: put_entry_def)
qed

lemma put_distinct: "distinct (map fst rs) \<Longrightarrow> distinct (map fst (put_entry rs i v))"
  by (auto simp: put_entry_def distinct_map_filter)

lemma prune_distinct: "distinct (map fst rs) \<Longrightarrow> distinct (map fst (prune_receipts now rs))"
  by (simp add: prune_receipts_def distinct_map_filter)

lemma entry_None_iff: "entry rs i = None \<longleftrightarrow> i \<notin> fst ` set rs"
  by (induction rs i rule: entry.induct) auto

lemma entry_mem: "distinct (map fst rs) \<Longrightarrow> (i, v) \<in> set rs \<longleftrightarrow> entry rs i = Some v"
  by (induction rs i rule: entry.induct) (auto simp: image_iff)

lemma entry_prune:
  assumes "distinct (map fst rs)"
  shows "entry (prune_receipts now rs) i = (case entry rs i of None \<Rightarrow> None | Some (r, stop) \<Rightarrow> if now < stop then Some (r, stop) else None)"
proof -
  have "entry (prune_receipts now rs) i = Some v \<longleftrightarrow> entry rs i = Some v \<and> now < snd v" for v
    unfolding entry_mem [OF assms, symmetric] entry_mem [OF prune_distinct [OF assms], symmetric]
    by (auto simp: prune_receipts_def)
  note eq = this
  show ?thesis
  proof (cases "entry rs i")
    case None
    then have "entry (prune_receipts now rs) i \<noteq> Some v" for v using eq [of v] by simp
    then have "entry (prune_receipts now rs) i = None" by (metis option.exhaust)
    with None show ?thesis by simp
  next
    case (Some v)
    show ?thesis
    proof (cases "now < snd v")
      case True
      then have "entry (prune_receipts now rs) i = Some v" using eq [of v] Some by simp
      with Some True show ?thesis by (simp add: case_prod_beta)
    next
      case False
      then have "entry (prune_receipts now rs) i \<noteq> Some w" for w using eq [of w] Some by auto
      then have "entry (prune_receipts now rs) i = None" by (metis option.exhaust)
      with Some False show ?thesis by (simp add: case_prod_beta)
    qed
  qed
qed

text \<open>The store agrees with the ledger from a time on when they hold the same live receipts then.\<close>

definition agrees :: "int \<Rightarrow> receipts \<Rightarrow> ledger \<Rightarrow> bool" where
  "agrees now rs l \<longleftrightarrow> distinct (map fst rs)
     \<and> (\<forall>i r stop. now < stop \<longrightarrow> (entry rs i = Some (r, stop)) = (l i = Some (r, stop)))"

lemma agrees_entry:
  assumes "agrees now rs l" and "now \<le> t"
  shows "entry (prune_receipts t rs) i = (if i \<in> open_at t l then l i else None)"
proof -
  have "(entry (prune_receipts t rs) i = Some (r, stop)) = ((if i \<in> open_at t l then l i else None) = Some (r, stop))" for r stop
  proof -
    have d: "distinct (map fst rs)" and a: "now < stop \<Longrightarrow> (entry rs i = Some (r, stop)) = (l i = Some (r, stop))"
      using assms(1) by (auto simp: agrees_def)
    have "(entry (prune_receipts t rs) i = Some (r, stop)) \<longleftrightarrow> t < stop \<and> entry rs i = Some (r, stop)"
      unfolding entry_prune [OF d] by (auto split: option.splits if_splits)
    also have "\<dots> \<longleftrightarrow> t < stop \<and> l i = Some (r, stop)" using a assms(2) by auto
    also have "\<dots> \<longleftrightarrow> (if i \<in> open_at t l then l i else None) = Some (r, stop)" by (auto simp: open_at_def)
    finally show ?thesis .
  qed
  then show ?thesis by (metis option.exhaust surj_pair)
qed

lemma agrees_prune: "agrees now rs l \<Longrightarrow> now \<le> t \<Longrightarrow> agrees t (prune_receipts t rs) l"
  using agrees_entry [of now rs l t] prune_distinct [of rs t]
  by (auto simp: agrees_def open_at_def split: option.splits)

lemma agrees_card:
  assumes "agrees now rs l" and "now \<le> t"
  shows "card (open_at t l) = length (prune_receipts t rs)"
proof -
  have "i \<in> open_at t l \<longleftrightarrow> entry (prune_receipts t rs) i \<noteq> None" for i
    using agrees_entry [OF assms, of i] by (auto simp: open_at_def split: option.splits)
  then have "open_at t l = set (map fst (prune_receipts t rs))" by (auto simp: entry_None_iff image_iff)
  moreover have "distinct (map fst (prune_receipts t rs))" using assms(1) prune_distinct by (auto simp: agrees_def)
  ultimately show ?thesis by (metis distinct_card length_map)
qed

lemma agrees_put: "agrees t rs l \<Longrightarrow> agrees t (put_entry rs i v) (l(i \<mapsto> v))"
  using put_distinct [of rs i v] by (auto simp: agrees_def entry_put)

lemma receipt_step_agrees:
  assumes "agrees now rs l" and "now \<le> fst x" and "receipt_step cfg x rs = (y, rs')"
  shows "\<exists>l'. ledger_step cfg x l = (y, l') \<and> agrees (fst x) rs' l'"
proof -
  obtain t a where x: "x = (t, a)" by (cases x)
  with assms(2) have t: "now \<le> t" by simp
  note e = agrees_entry [OF assms(1) t] and c = agrees_card [OF assms(1) t] and p = agrees_prune [OF assms(1) t]
  show ?thesis
  proof (cases a)
    case (Reserve sid i)
    with assms(3) x c p agrees_put [OF p] show ?thesis by (auto simp: reserve_def Let_def split: if_splits)
  next
    case (Get i)
    with assms(3) x e [of i] p show ?thesis by (auto simp: get_receipt_def Let_def)
  next
    case (Ack i w)
    show ?thesis
    proof (cases "i \<in> open_at t l")
      case False
      with Ack assms(3) x e [of i] p show ?thesis by (auto simp: ack_def Let_def)
    next
      case True
      then obtain r stop where l: "l i = Some (r, stop)" by (auto simp: open_at_def split: option.splits)
      with Ack assms(3) x e [of i] True p agrees_put [OF p, of i] show ?thesis
        by (auto simp: ack_def Let_def split: if_splits)
    qed
  qed
qed

text \<open>C12. The receipt store refines a ledger that never forgets: for every sequence of reservations, questions
  and replies with a clock that does not go back, the outcomes are those of a ledger in which a receipt
  holds the first reply to the last reservation of its ID, is visible until its retention is over, and in
  which the capacity counts exactly the receipts still visible. Pruning is unobservable.\<close>

theorem receipts_refine_ledger:
  assumes "sorted (map fst ops)"
  shows "fst (receipt_run cfg ops []) = ledger_run cfg ops Map.empty"
proof -
  have "fst (receipt_run cfg ops rs) = ledger_run cfg ops l"
    if "agrees now rs l" "sorted (map fst ops)" "\<forall>x\<in>set ops. now \<le> fst x" for now rs l
    using that
  proof (induction ops arbitrary: now rs l)
    case (Cons x xs)
    obtain y rs' where s: "receipt_step cfg x rs = (y, rs')" by (cases "receipt_step cfg x rs")
    from receipt_step_agrees [OF Cons.prems(1) _ s] Cons.prems(3) obtain l' where
      l': "ledger_step cfg x l = (y, l')" "agrees (fst x) rs' l'" by auto
    with Cons.IH [OF l'(2)] Cons.prems(2) s show ?case by (auto split: prod.splits)
  qed simp
  moreover have "agrees (Min (insert 0 (set (map fst ops)))) [] Map.empty" by (simp add: agrees_def)
  ultimately show ?thesis using assms by auto
qed

section \<open>What the server promises\<close>

fun notified :: "rpc_out list \<Rightarrow> (string \<times> string) list" where
  "notified [] = []"
| "notified (Notify c sid i # ms) = (c, i) # notified ms"
| "notified (_ # ms) = notified ms"

fun accepted_messages :: "(event \<times> http_response option) list \<Rightarrow> (string \<times> string) list" where
  "accepted_messages [] = []"
| "accepted_messages ((Http t i r, Some (AcceptedMsg _ _)) # h) =
     (case body r of Some (_, c, _) \<Rightarrow> [(c, i)] | None \<Rightarrow> []) @ accepted_messages h"
| "accepted_messages (_ # h) = accepted_messages h"

lemma notified_append [simp]: "notified (a @ b) = notified a @ notified b"
  by (induction a rule: notified.induct) simp_all

lemma accepted_append [simp]: "accepted_messages (a @ b) = accepted_messages a @ accepted_messages b"
  by (induction a rule: accepted_messages.induct) simp_all

lemma accepted_none [simp]: "accepted_messages [(e, None)] = []" by (cases e) simp_all

lemma accepted_other: "\<forall>s i. x \<noteq> AcceptedMsg s i \<Longrightarrow> accepted_messages [(e, Some x)] = []"
  by (cases e; cases x) simp_all

lemma stop_server_same [simp]:
  "out (stop_server n reg s) = out s" "store (stop_server n reg s) = store s" "running (stop_server n reg s) = False"
  "ready (stop_server n reg s) = False"
  by (simp_all add: stop_server_def Let_def)

lemma respond_frame:
  "store (respond n reg wfail m s) = store s
    \<and> (out (respond n reg wfail m s) = out s \<or> out (respond n reg wfail m s) = out s @ [m])"
  by (simp add: respond_def write_out_def)

lemma rpc_method_frame:
  assumes "rpc_method cfg now meth i params s = (m, s')"
  shows "out s' = out s \<and> notified [m] = []
    \<and> (store s' = store s \<or> meth = ''tools/call'' \<and> store s' = snd (tool_result cfg now params (store s)))"
  using assms by (auto simp: rpc_method_def split: if_splits prod.splits)

lemma handle_line_frame:
  "notified (out (handle_line n cfg reg wfail now line s)) = notified (out s)
    \<and> (store (handle_line n cfg reg wfail now line s) = store s
      \<or> (\<exists>v i params. line = Line v ''tools/call'' (Some i) params
          \<and> store (handle_line n cfg reg wfail now line s) = snd (tool_result cfg now params (store s))))"
proof (cases line)
  case BadLine
  with respond_frame [of n reg wfail "Failure None ParseError" s] show ?thesis by (auto simp: handle_line_def)
next
  case (Line v meth i params)
  consider "v \<noteq> ''2.0'' \<or> meth = []" | "v = ''2.0''" "meth = ''notifications/initialized''"
    | "v = ''2.0''" "meth \<noteq> []" "meth \<noteq> ''notifications/initialized''" "i = None"
    | k where "v = ''2.0''" "meth \<noteq> []" "meth \<noteq> ''notifications/initialized''" "i = Some k" by (cases i) auto
  then show ?thesis
  proof cases
    case 1
    with Line respond_frame [of n reg wfail "Failure i InvalidRequest" s] show ?thesis by (auto simp: handle_line_def)
  next
    case 2
    with Line show ?thesis by (auto simp: handle_line_def split: prod.splits option.splits)
  next
    case 3
    with Line show ?thesis by (simp add: handle_line_def)
  next
    case 4
    obtain m s' where m: "rpc_method cfg now meth k params s = (m, s')" by (cases "rpc_method cfg now meth k params s")
    have h: "handle_line n cfg reg wfail now line s = respond n reg wfail m s'"
      using 4 Line m by (simp add: handle_line_def)
    show ?thesis unfolding h using rpc_method_frame [OF m] respond_frame [of n reg wfail m s'] 4 Line by auto
  qed
qed

text \<open>What the answers of the handler mean.\<close>

lemma handler_accepts:
  assumes "channel_handler n cfg reg wfail now fresh r s = (AcceptedMsg sid i, s')"
  shows "sid = session_id reg \<and> i = fresh \<and> authorization r = ''Bearer '' @ token reg \<and> ready s
    \<and> body_len r \<le> max_message_bytes cfg
    \<and> (\<exists>c. body r = Some (session_id reg, c, True) \<and> \<not> blank c
        \<and> out s' = out s @ [Notify c (session_id reg) fresh])
    \<and> store s' = snd (reserve cfg now (session_id reg) fresh (store s)) \<and> fst (reserve cfg now (session_id reg) fresh (store s))"
  using assms
  by (auto simp: channel_handler_def handle_message_def write_out_def split: if_splits option.splits prod.splits bool.splits)

lemma handler_receipt:
  assumes "channel_handler n cfg reg wfail now fresh r s = (ReceiptOk x, s')"
  shows "authorization r = ''Bearer '' @ token reg \<and> fst (get_receipt now (query_id r) (store s)) = Some x"
  using assms
  by (auto simp: channel_handler_def handle_message_def split: if_splits option.splits prod.splits bool.splits)

lemma handler_frame:
  assumes "channel_handler n cfg reg wfail now fresh r s = (x, s')" and "\<And>sid i. x \<noteq> AcceptedMsg sid i"
  shows "out s' = out s \<and> (running s' \<longrightarrow> store s' = store s \<or> store s' = prune_receipts now (store s))"
  using assms
  by (auto simp: channel_handler_def handle_message_def write_out_def get_receipt_def reserve_def Let_def
      split: if_splits option.splits prod.splits bool.splits)

text \<open>An unauthenticated request changes nothing.\<close>

lemma handler_unauthorized:
  "authorization r \<noteq> ''Bearer '' @ token reg \<Longrightarrow> channel_handler n cfg reg wfail now fresh r s = (Status 401, s)"
  by (simp add: channel_handler_def)

definition accepted_in :: "config \<Rightarrow> registration \<Rightarrow> (event \<times> http_response option) list \<Rightarrow> string \<Rightarrow> bool" where
  "accepted_in cfg reg h k \<longleftrightarrow> (\<exists>t r c. (Http t k r, Some (AcceptedMsg (session_id reg) k)) \<in> set h
     \<and> body r = Some (session_id reg, c, True))"

definition replied_in :: "config \<Rightarrow> (event \<times> http_response option) list \<Rightarrow> string \<Rightarrow> string \<Rightarrow> bool" where
  "replied_in cfg h k w \<longleftrightarrow> (\<exists>t v i x. (Rpc t (Line v ''tools/call'' (Some i)
     (ReplyCall (reply_tool_name cfg) (Some (k, w)))), x) \<in> set h \<and> int (length w) \<le> max_message_bytes cfg)"

definition entry_ok :: "config \<Rightarrow> registration \<Rightarrow> (event \<times> http_response option) list \<Rightarrow> string \<times> receipt \<times> int \<Rightarrow> bool" where
  "entry_ok cfg reg h e \<longleftrightarrow> (case e of (k, r, stop) \<Rightarrow> r_message r = k \<and> r_session r = session_id reg
     \<and> accepted_in cfg reg h k \<and> (received r \<longrightarrow> replied_in cfg h k (r_text r)))"

definition store_ok :: "config \<Rightarrow> registration \<Rightarrow> (event \<times> http_response option) list \<Rightarrow> receipts \<Rightarrow> bool" where
  "store_ok cfg reg h rs \<longleftrightarrow> distinct (map fst rs) \<and> list_all (entry_ok cfg reg h) rs \<and> int (length rs) \<le> max 0 (max_receipts cfg)"

lemma entry_ok_mono: "entry_ok cfg reg h e \<Longrightarrow> entry_ok cfg reg (h @ h') e"
  unfolding entry_ok_def accepted_in_def replied_in_def by (fastforce split: prod.splits)

lemma store_ok_mono: "store_ok cfg reg h rs \<Longrightarrow> store_ok cfg reg (h @ h') rs"
  by (auto simp: store_ok_def list_all_iff entry_ok_mono)

lemma store_ok_prune: "store_ok cfg reg h rs \<Longrightarrow> store_ok cfg reg h (prune_receipts now rs)"
proof -
  assume ok: "store_ok cfg reg h rs"
  have "int (length (prune_receipts now rs)) \<le> int (length rs)" by (simp add: prune_receipts_def)
  with ok have "int (length (prune_receipts now rs)) \<le> max 0 (max_receipts cfg)" by (simp add: store_ok_def)
  with ok prune_distinct [of rs now] show ?thesis by (simp add: store_ok_def prune_receipts_def list_all_iff)
qed

lemma put_length: "length (put_entry rs i v) \<le> length rs + 1"
  using length_filter_le [of "\<lambda>e. fst e \<noteq> i" rs] by (simp add: put_entry_def)

lemma put_length_same: "entry rs i \<noteq> None \<Longrightarrow> length (put_entry rs i v) \<le> length rs"
proof -
  assume "entry rs i \<noteq> None"
  then have "i \<in> fst ` set rs" by (simp add: entry_None_iff)
  then obtain e where "e \<in> set rs" "fst e = i" by auto
  then have "length (filter (\<lambda>e. fst e \<noteq> i) rs) < length rs" by (intro length_filter_less) auto
  then show ?thesis by (simp add: put_entry_def)
qed

lemma store_ok_put:
  "store_ok cfg reg h rs \<Longrightarrow> entry_ok cfg reg h (i, v) \<Longrightarrow>
    int (length (put_entry rs i v)) \<le> max 0 (max_receipts cfg) \<Longrightarrow> store_ok cfg reg h (put_entry rs i v)"
  using put_distinct [of rs i v] by (auto simp: store_ok_def put_entry_def list_all_iff)

lemma tool_result_store_ok:
  assumes "store_ok cfg reg h rs"
    and "\<And>k w. params = ReplyCall (reply_tool_name cfg) (Some (k, w)) \<Longrightarrow> int (length w) \<le> max_message_bytes cfg \<Longrightarrow> replied_in cfg h k w"
  shows "store_ok cfg reg h (snd (tool_result cfg now params rs))"
proof -
  have "store_ok cfg reg h (snd (ack now k w rs))" if "replied_in cfg h k w" for k w
  proof (cases "entry (prune_receipts now rs) k")
    case None
    with store_ok_prune [OF assms(1)] show ?thesis by (simp add: ack_def)
  next
    case (Some v)
    obtain r stop where v: "v = (r, stop)" by (cases v)
    note p = store_ok_prune [OF assms(1), of now]
    show ?thesis
    proof (cases "received r")
      case True
      with Some v p show ?thesis by (simp add: ack_def)
    next
      case False
      have "(k, v) \<in> set (prune_receipts now rs)" using Some entry_mem p by (metis store_ok_def)
      then have "entry_ok cfg reg h (k, v)" using p by (auto simp: store_ok_def list_all_iff)
      then have "entry_ok cfg reg h (k, r\<lparr>received := True, r_text := w\<rparr>, stop)"
        using v that by (simp add: entry_ok_def)
      moreover have "int (length (put_entry (prune_receipts now rs) k (r\<lparr>received := True, r_text := w\<rparr>, stop))) \<le> max 0 (max_receipts cfg)"
        using put_length_same [of "prune_receipts now rs" k "(r\<lparr>received := True, r_text := w\<rparr>, stop)"] Some p by (simp add: store_ok_def)
      ultimately show ?thesis using store_ok_put [OF p] Some v False by (simp add: ack_def)
    qed
  qed
  with assms show ?thesis
    by (auto simp: tool_result_def split: reply_call.splits option.splits prod.splits bool.splits) (metis snd_conv)+
qed

lemma serve_append:
  "serve n cfg reg wfail (es @ fs) s =
     (case serve n cfg reg wfail es s of (h, s1) \<Rightarrow> (case serve n cfg reg wfail fs s1 of (h', s2) \<Rightarrow> (h @ h', s2)))"
  by (induction es arbitrary: s) (auto split: prod.splits)

text \<open>The server and its history: the store is justified while it runs, and what was sent to the model is what was accepted.\<close>

definition server_ok :: "config \<Rightarrow> registration \<Rightarrow> (event \<times> http_response option) list \<Rightarrow> server \<Rightarrow> bool" where
  "server_ok cfg reg h s \<longleftrightarrow> (running s \<longrightarrow> store_ok cfg reg h (store s)) \<and> notified (out s) = accepted_messages h"

lemma reserve_store_ok:
  assumes "store_ok cfg reg h rs" and "reserve cfg now (session_id reg) k rs = (True, rs')"
    and "accepted_in cfg reg h k"
  shows "store_ok cfg reg h rs'"
proof -
  note p = store_ok_prune [OF assms(1), of now]
  let ?v = "(\<lparr>received = False, r_session = session_id reg, r_message = k, r_text = []\<rparr>, now + receipt_retention_ms cfg * 1000000)"
  from assms(2) have m: "int (length (prune_receipts now rs)) < max_receipts cfg" and rs': "rs' = put_entry (prune_receipts now rs) k ?v"
    by (auto simp: reserve_def Let_def split: if_splits)
  have "entry_ok cfg reg h (k, ?v)" using assms(3) by (simp add: entry_ok_def)
  moreover have "int (length (put_entry (prune_receipts now rs) k ?v)) \<le> max 0 (max_receipts cfg)"
    using m put_length [of "prune_receipts now rs" k ?v] by linarith
  ultimately show ?thesis unfolding rs' using store_ok_put [OF p] by blast
qed

lemma step_ok:
  assumes ok: "server_ok cfg reg h s" and st: "step n cfg reg wfail e s = (x, s')"
  shows "server_ok cfg reg (h @ [(e, x)]) s'"
proof (cases "running s")
  case False
  with assms show ?thesis by (auto simp: step_def server_ok_def)
next
  case True
  note run = this
  have so: "store_ok cfg reg (h @ [(e, x)]) (store s)" and no: "notified (out s) = accepted_messages h"
    using ok True store_ok_mono by (auto simp: server_ok_def)
  show ?thesis
  proof (cases e)
    case (Rpc now line)
    with st True have x: "x = None" and s': "s' = handle_line n cfg reg wfail now line s" by (auto simp: step_def)
    have "store_ok cfg reg (h @ [(e, x)]) (snd (tool_result cfg now params (store s)))"
      if "line = Line v ''tools/call'' (Some i) params" for v i params
      by (rule tool_result_store_ok [OF so]) (use that Rpc in \<open>auto simp: replied_in_def\<close>)
    with handle_line_frame [of n cfg reg wfail now line s] so have "store_ok cfg reg (h @ [(e, x)]) (store s')"
      unfolding s' by metis
    with handle_line_frame [of n cfg reg wfail now line s] no show ?thesis
      unfolding server_ok_def s' x by simp
  next
    case (Http now k r)
    with st True obtain y where x: "x = Some y" and y: "channel_handler n cfg reg wfail now k r s = (y, s')"
      by (auto simp: step_def split: prod.splits)
    show ?thesis
    proof (cases "\<exists>sid i. y = AcceptedMsg sid i")
      case False
      with handler_frame [OF y] so store_ok_prune [OF so] no accepted_other [of y e] show ?thesis
        unfolding server_ok_def x by auto
    next
      case True
      then obtain sid i where a: "y = AcceptedMsg sid i" by blast
      note acc = handler_accepts [OF y [unfolded a]]
      then obtain c where c: "body r = Some (session_id reg, c, True)" "out s' = out s @ [Notify c (session_id reg) k]" by blast
      have "accepted_in cfg reg (h @ [(e, x)]) k" unfolding accepted_in_def using acc c(1) a x Http by auto
      moreover obtain rs' where rs': "reserve cfg now (session_id reg) k (store s) = (True, rs')" "store s' = rs'"
        using acc by (cases "reserve cfg now (session_id reg) k (store s)") auto
      ultimately have "store_ok cfg reg (h @ [(e, x)]) (store s')" using reserve_store_ok [OF so rs'(1)] by simp
      with c no a x Http show ?thesis by (simp add: server_ok_def)
    qed
  next
    case (Elsewhere d)
    with st True no so show ?thesis by (auto simp: step_def server_ok_def)
  next
    case Closed
    with st True no show ?thesis by (auto simp: step_def server_ok_def)
  qed
qed

lemma serve_ok:
  "serve n cfg reg wfail es (start_server d) = (h, s) \<Longrightarrow> server_ok cfg reg h s"
proof (induction es arbitrary: h s rule: rev_induct)
  case Nil
  then show ?case by (auto simp: server_ok_def store_ok_def start_server_def)
next
  case (snoc e es)
  obtain h1 s1 where 1: "serve n cfg reg wfail es (start_server d) = (h1, s1)" by (cases "serve n cfg reg wfail es (start_server d)")
  obtain x s2 where 2: "step n cfg reg wfail e s1 = (x, s2)" by (cases "step n cfg reg wfail e s1")
  from snoc.prems have "h = h1 @ [(e, x)]" "s = s2" by (simp_all add: serve_append 1 2)
  with step_ok [OF snoc.IH [OF 1] 2] show ?case by simp
qed

lemma serve_split:
  "serve n cfg reg wfail es s0 = (h1 @ (e, x) # h2, s) \<Longrightarrow>
    \<exists>es1 s1 s2. serve n cfg reg wfail es1 s0 = (h1, s1) \<and> step n cfg reg wfail e s1 = (x, s2)"
proof (induction h1 arbitrary: es s0)
  case Nil
  then obtain es' where "es = e # es'" by (cases es) (auto split: prod.splits)
  with Nil have "step n cfg reg wfail e s0 = (x, snd (step n cfg reg wfail e s0))" by (auto split: prod.splits)
  moreover have "serve n cfg reg wfail [] s0 = ([], s0)" by simp
  ultimately show ?case by blast
next
  case (Cons y h1)
  then obtain e' es' where es: "es = e' # es'" by (cases es) auto
  obtain x' s' where st: "step n cfg reg wfail e' s0 = (x', s')" by (cases "step n cfg reg wfail e' s0")
  with Cons.prems es have y: "y = (e', x')" and "serve n cfg reg wfail es' s' = (h1 @ (e, x) # h2, s)"
    by (auto split: prod.splits)
  from Cons.IH [OF this(2)] obtain es1 s1 s2 where
    "serve n cfg reg wfail es1 s' = (h1, s1)" "step n cfg reg wfail e s1 = (x, s2)" by blast
  moreover from this(1) st y have "serve n cfg reg wfail (e' # es1) s0 = (y # h1, s1)" by simp
  ultimately show ?case by blast
qed

text \<open>C13. A receipt tells the truth: when the server answers a receipt request, the request carried the token, the
  receipt names the message and session asked for, that message was accepted before, and if it says
  received, the model replied before with exactly this ID and text through the reply tool. The capacity
  is never exceeded.\<close>

theorem receipt_truthful:
  assumes "serve n cfg reg wfail es (start_server d) = (h1 @ (Http t f r, Some (ReceiptOk x)) # h2, s)"
  shows "authorization r = ''Bearer '' @ token reg \<and> r_message x = query_id r \<and> r_session x = session_id reg
    \<and> accepted_in cfg reg h1 (r_message x) \<and> (received x \<longrightarrow> replied_in cfg h1 (r_message x) (r_text x))
    \<and> (running s \<longrightarrow> int (length (store s)) \<le> max 0 (max_receipts cfg))"
proof -
  from serve_split [OF assms] obtain es1 s1 s2 where h1: "serve n cfg reg wfail es1 (start_server d) = (h1, s1)"
    and st: "step n cfg reg wfail (Http t f r) s1 = (Some (ReceiptOk x), s2)" by blast
  from st have run: "running s1" and "channel_handler n cfg reg wfail t f r s1 = (ReceiptOk x, s2)"
    by (auto simp: step_def split: if_splits prod.splits)
  from handler_receipt [OF this(2)] have auth: "authorization r = ''Bearer '' @ token reg"
    and g: "fst (get_receipt t (query_id r) (store s1)) = Some x" by simp_all
  from serve_ok [OF h1] run have ok: "store_ok cfg reg h1 (store s1)" by (simp add: server_ok_def)
  from g obtain stop where "entry (prune_receipts t (store s1)) (query_id r) = Some (x, stop)"
    by (auto simp: get_receipt_def Let_def)
  then have "(query_id r, x, stop) \<in> set (prune_receipts t (store s1))"
    using entry_mem store_ok_prune [OF ok, of t] by (metis store_ok_def)
  then have "entry_ok cfg reg h1 (query_id r, x, stop)" using store_ok_prune [OF ok, of t] by (auto simp: store_ok_def list_all_iff)
  with auth serve_ok [OF assms] show ?thesis by (auto simp: entry_ok_def server_ok_def store_ok_def)
qed

definition handshake_in :: "(event \<times> http_response option) list \<Rightarrow> bool" where
  "handshake_in h \<longleftrightarrow> (\<exists>t j p. (Rpc t (Line ''2.0'' ''notifications/initialized'' j p), None) \<in> set h)"

lemma respond_ready: "ready (respond n reg wfail m s) \<Longrightarrow> ready s"
  by (auto simp: respond_def write_out_def split: if_splits)

lemma handle_line_ready:
  assumes "ready (handle_line n cfg reg wfail now line s)"
  shows "ready s \<or> (\<exists>j p. line = Line ''2.0'' ''notifications/initialized'' j p)"
proof -
  have "ready s' = ready s" if "rpc_method cfg now meth i params s = (m, s')" for meth i params m s'
    using that by (auto simp: rpc_method_def split: if_splits prod.splits)
  with assms show ?thesis
    by (auto simp: handle_line_def dest!: respond_ready split: rpc_line.splits if_splits option.splits prod.splits)
qed

lemma handler_ready: "channel_handler n cfg reg wfail now k r s = (x, s') \<Longrightarrow> ready s' \<Longrightarrow> ready s"
  by (auto simp: channel_handler_def handle_message_def write_out_def
      split: if_splits option.splits prod.splits bool.splits)

lemma ready_handshake:
  "serve n cfg reg wfail es (start_server d) = (h, s) \<Longrightarrow> ready s \<Longrightarrow> handshake_in h"
proof (induction es arbitrary: h s rule: rev_induct)
  case Nil
  then show ?case by (auto simp: start_server_def)
next
  case (snoc e es)
  obtain h1 s1 where 1: "serve n cfg reg wfail es (start_server d) = (h1, s1)" by (cases "serve n cfg reg wfail es (start_server d)")
  obtain x s2 where 2: "step n cfg reg wfail e s1 = (x, s2)" by (cases "step n cfg reg wfail e s1")
  have h: "h = h1 @ [(e, x)]" "s = s2" using snoc.prems(1) by (simp_all add: serve_append 1 2)
  have "ready s1 \<or> (\<exists>t j p. e = Rpc t (Line ''2.0'' ''notifications/initialized'' j p) \<and> x = None)"
    using 2 snoc.prems(2) h(2)
    by (auto simp: step_def dest!: handle_line_ready handler_ready split: if_splits event.splits prod.splits)
  with snoc.IH [OF 1] h(1) show ?case by (auto simp: handshake_in_def)
qed

text \<open>C14. The server delivers exactly what it accepted: in every run the messages written to the model are the
  accepted ones, each once and in order, and a message is accepted only with the token, after the
  handshake, for this session, within the size limit and with a non-blank content.\<close>

theorem server_delivers_accepted:
  assumes "serve n cfg reg wfail es (start_server d) = (h, s)"
  shows "notified (out s) = accepted_messages h
    \<and> (\<forall>h1 t k r sid i h2. h = h1 @ (Http t k r, Some (AcceptedMsg sid i)) # h2 \<longrightarrow>
        authorization r = ''Bearer '' @ token reg \<and> handshake_in h1 \<and> sid = session_id reg \<and> i = k
        \<and> body_len r \<le> max_message_bytes cfg \<and> (\<exists>c. body r = Some (session_id reg, c, True) \<and> \<not> blank c))"
proof -
  have "authorization r = ''Bearer '' @ token reg \<and> handshake_in h1 \<and> sid = session_id reg \<and> i = k
      \<and> body_len r \<le> max_message_bytes cfg \<and> (\<exists>c. body r = Some (session_id reg, c, True) \<and> \<not> blank c)"
    if h: "h = h1 @ (Http t k r, Some (AcceptedMsg sid i)) # h2" for h1 t k r sid i h2
  proof -
    from serve_split [OF assms [unfolded h]] obtain es1 s1 s2 where h1: "serve n cfg reg wfail es1 (start_server d) = (h1, s1)"
      and st: "step n cfg reg wfail (Http t k r) s1 = (Some (AcceptedMsg sid i), s2)" by blast
    from st have "channel_handler n cfg reg wfail t k r s1 = (AcceptedMsg sid i, s2)"
      by (auto simp: step_def split: if_splits prod.splits)
    from handler_accepts [OF this] ready_handshake [OF h1] show ?thesis by blast
  qed
  with serve_ok [OF assms] show ?thesis by (simp add: server_ok_def) blast
qed

text \<open>A send that succeeds was delivered: when \<open>Send\<close> gets its answer from the server of the session, the
  message is the next one written to the model, under the ID it returns, and a receipt for that ID is open.\<close>

theorem send_delivers:
  assumes "send_message n cfg d len (\<lambda>r sid c. if r = reg then Some (fst (channel_handler n cfg reg wfail now fresh (mk sid c) s)) else None)
      sid content = Inr (sid', i)"
    and "\<And>sid c. body (mk sid c) = Some (sid, c, True)"
    and "0 < receipt_retention_ms cfg"
  shows "live_at n d reg \<and> sid = session_id reg \<and> sid' = sid \<and> i = fresh \<and> \<not> blank content
    \<and> (let s' = snd (channel_handler n cfg reg wfail now fresh (mk sid content) s)
       in out s' = out s @ [Notify content sid i] \<and> (\<exists>r stop. entry (store s') i = Some (r, stop) \<and> \<not> received r \<and> now < stop))"
proof -
  from assms(1) have look: "lookup_registration n d sid = Inr reg"
    and post: "fst (channel_handler n cfg reg wfail now fresh (mk sid content) s) = AcceptedMsg sid' i" and eq: "sid' = sid"
    by (auto simp: send_message_def split: if_splits sum.splits option.splits http_response.splits)
  from look have live: "live_at n d reg"
    by (auto simp: lookup_registration_def live_at_def dest: read_InrD split: sum.splits reg_err.splits if_splits)
      (metis read_InrD)+
  obtain s' where h: "channel_handler n cfg reg wfail now fresh (mk sid content) s = (AcceptedMsg sid' i, s')"
    using post by (metis prod.collapse)
  note acc = handler_accepts [OF h]
  then have sid: "sid = session_id reg" "content = content" "\<not> blank content" "out s' = out s @ [Notify content sid i]" and i: "i = fresh"
    using assms(2) [of sid content] eq by auto
  obtain rs where rs: "reserve cfg now (session_id reg) fresh (store s) = (True, rs)" "store s' = rs"
    using acc by (cases "reserve cfg now (session_id reg) fresh (store s)") auto
  then have "store s' = put_entry (prune_receipts now (store s)) fresh (\<lparr>received = False, r_session = session_id reg,
      r_message = fresh, r_text = []\<rparr>, now + receipt_retention_ms cfg * 1000000)"
    by (auto simp: reserve_def Let_def split: if_splits)
  then have "entry (store s') i = Some (\<lparr>received = False, r_session = session_id reg, r_message = fresh, r_text = []\<rparr>,
      now + receipt_retention_ms cfg * 1000000)"
    by (simp add: entry_put i)
  with assms(3) live sid eq i h show ?thesis by (auto simp: Let_def)
qed

section \<open>A concrete run\<close>

definition sample_config :: config where
  "sample_config = \<lparr>registry_dir = ''r'', listen_address = ''127.0.0.1:9'', server_name = ''s'', plugin_name = ''p'',
     marketplace_name = ''m'', server_version = ''1'', protocol_version = ''1'', io_timeout_ms = 1,
     max_message_bytes = 100, max_rpc_bytes = 100, canary_model = ''c'', canary_message = ''c'', wait_timeout_ms = 1,
     receipt_poll_ms = 1, receipt_retention_ms = 1, max_receipts = 1, claude_metadata_dir = ''d'',
     claude_metadata_pattern = ''p'', max_metadata_bytes = 1, reply_tool_name = ''reply'',
     reply_tool_description = ''d'', sender_format = ''f'', terminal_sender = ''t'', instructions = ''i''\<rparr>"

definition sample_request :: "string \<Rightarrow> string \<Rightarrow> string \<Rightarrow> string \<Rightarrow> http_request" where
  "sample_request meth path i content = \<lparr>authorization = ''Bearer tok'', req_path = path, req_method = meth,
     query_id = i, body_len = 10, body = Some (''s1'', content, True)\<rparr>"

definition sample_events :: "event list" where
  "sample_events =
     [Rpc 0 (Line ''2.0'' ''initialize'' (Some ''1'') BadCall),
      Rpc 1 (Line ''2.0'' ''notifications/initialized'' None BadCall),
      Http 2 ''m1'' (sample_request ''POST'' ''/message'' [] ''hi''),
      Rpc 3 (Line ''2.0'' ''tools/call'' (Some ''2'') (ReplyCall ''reply'' (Some (''m1'', ''ok'')))),
      Http 4 [] (sample_request ''GET'' ''/receipt'' ''m1'' [])]"

definition sample_receipt :: receipt where
  "sample_receipt = \<lparr>received = True, r_session = ''s1'', r_message = ''m1'', r_text = ''ok''\<rparr>"

lemma sample_channel_run:
  "fst (serve sample_net sample_config sample_reg (\<lambda>_. False) sample_events (start_server [])) =
     [(sample_events ! 0, None), (sample_events ! 1, None), (sample_events ! 2, Some (AcceptedMsg ''s1'' ''m1'')),
      (sample_events ! 3, None)] @ (Http 4 [] (sample_request ''GET'' ''/receipt'' ''m1'' []), Some (ReceiptOk sample_receipt)) # []"
  by code_simp

lemma receipts_refine_ledger_witness:
  "fst (receipt_run sample_config [(0, Reserve ''s'' ''a''), (1, Reserve ''s'' ''b''), (2, Ack ''a'' ''x''), (3, Ack ''a'' ''y''),
      (4, Get ''a''), (2000000, Reserve ''s'' ''b'')] []) =
     [Reserved True, Reserved False, Acked True, Acked True,
      Got (Some \<lparr>received = True, r_session = ''s'', r_message = ''a'', r_text = ''x''\<rparr>), Reserved True]
  \<and> ledger_run sample_config [(0, Reserve ''s'' ''a''), (1, Reserve ''s'' ''b''), (2, Ack ''a'' ''x''), (3, Ack ''a'' ''y''),
      (4, Get ''a''), (2000000, Reserve ''s'' ''b'')] Map.empty =
     [Reserved True, Reserved False, Acked True, Acked True,
      Got (Some \<lparr>received = True, r_session = ''s'', r_message = ''a'', r_text = ''x''\<rparr>), Reserved True]"
proof -
  let ?ops = "[(0, Reserve ''s'' ''a''), (1, Reserve ''s'' ''b''), (2, Ack ''a'' ''x''), (3, Ack ''a'' ''y''),
      (4, Get ''a''), (2000000, Reserve ''s'' ''b'')]"
  have r: "fst (receipt_run sample_config ?ops []) =
     [Reserved True, Reserved False, Acked True, Acked True,
      Got (Some \<lparr>received = True, r_session = ''s'', r_message = ''a'', r_text = ''x''\<rparr>), Reserved True]"
    by code_simp
  have "sorted (map fst [(0 :: int, Reserve ''s'' ''a''), (1, Reserve ''s'' ''b''), (2, Ack ''a'' ''x''), (3, Ack ''a'' ''y''),
      (4, Get ''a''), (2000000, Reserve ''s'' ''b'')])" by simp
  from receipts_refine_ledger [OF this, of sample_config] show ?thesis unfolding r by (intro conjI) (rule refl, rule sym)
qed

lemma receipt_truthful_witness:
  "replied_in sample_config [(sample_events ! 0, None), (sample_events ! 1, None),
      (sample_events ! 2, Some (AcceptedMsg ''s1'' ''m1'')), (sample_events ! 3, None)] ''m1'' ''ok''"
proof -
  have "serve sample_net sample_config sample_reg (\<lambda>_. False) sample_events (start_server []) =
      ([(sample_events ! 0, None), (sample_events ! 1, None), (sample_events ! 2, Some (AcceptedMsg ''s1'' ''m1'')),
        (sample_events ! 3, None)] @ (Http 4 [] (sample_request ''GET'' ''/receipt'' ''m1'' []), Some (ReceiptOk sample_receipt)) # [],
       snd (serve sample_net sample_config sample_reg (\<lambda>_. False) sample_events (start_server [])))"
    unfolding sample_channel_run [symmetric] by simp
  note run = this
  have "received sample_receipt" "r_message sample_receipt = ''m1''" "r_text sample_receipt = ''ok''"
    by (simp_all add: sample_receipt_def)
  with receipt_truthful [OF run] show ?thesis by metis
qed

lemma server_delivers_accepted_witness:
  "notified (out (snd (serve sample_net sample_config sample_reg (\<lambda>_. False) sample_events (start_server [])))) = [(''hi'', ''m1'')]"
proof -
  let ?r = "serve sample_net sample_config sample_reg (\<lambda>_. False) sample_events (start_server [])"
  have "?r = (fst ?r, snd ?r)" by simp
  from server_delivers_accepted [OF this] have "notified (out (snd ?r)) = accepted_messages (fst ?r)" by simp
  then show ?thesis unfolding sample_channel_run by (simp add: sample_events_def sample_request_def)
qed

definition ready_server :: server where
  "ready_server = (start_server [])\<lparr>initialized := True, registered := True, ready := True,
     registry := [(''s1.json'', Stored sample_reg)]\<rparr>"

lemma send_delivers_witness:
  "out (snd (channel_handler sample_net sample_config sample_reg (\<lambda>_. False) 5 ''m1''
      (\<lparr>authorization = ''Bearer tok'', req_path = ''/message'', req_method = ''POST'', query_id = [],
        body_len = 10, body = Some (''s1'', ''hi'', True)\<rparr>) ready_server)) = [Notify ''hi'' ''s1'' ''m1'']"
proof -
  let ?mk = "\<lambda>sid c. \<lparr>authorization = ''Bearer tok'', req_path = ''/message'', req_method = ''POST'', query_id = [],
      body_len = 10, body = Some (sid, c, True)\<rparr>"
  have "live_at sample_net [(''s1.json'', Stored sample_reg)] sample_reg" by code_simp
  then have look: "lookup_registration sample_net [(''s1.json'', Stored sample_reg)] ''s1'' = Inr sample_reg"
    using lookup_live by (force simp: sample_reg_def)
  have post: "fst (channel_handler sample_net sample_config sample_reg (\<lambda>_. False) 5 ''m1'' (?mk ''s1'' ''hi'') ready_server)
      = AcceptedMsg ''s1'' ''m1''" by code_simp
  have nb: "\<not> blank ''s1''" "\<not> blank ''hi''" "\<not> max_message_bytes sample_config < 20" by code_simp+
  have "send_message sample_net sample_config [(''s1.json'', Stored sample_reg)] (\<lambda>_ _. 20)
      (\<lambda>r sid c. if r = sample_reg then Some (fst (channel_handler sample_net sample_config sample_reg (\<lambda>_. False) 5 ''m1''
        (?mk sid c) ready_server)) else None) ''s1'' ''hi'' = Inr (''s1'', ''m1'')"
    unfolding send_message_def using look post nb by simp
  note sent = this
  have "body (?mk sid c) = Some (sid, c, True)" for sid c by simp
  moreover have "0 < receipt_retention_ms sample_config" "out ready_server = []"
    by (simp_all add: sample_config_def ready_server_def start_server_def)
  ultimately show ?thesis using send_delivers [where mk = ?mk, OF sent] by (metis append_Nil)
qed

end
