(* ===== verification/Components.thy ===== *)
theory Components
  imports GoBase
begin

text \<open>
  The component selection of \<open>harnez apply\<close>: \<open>internal/claude/components.go\<close>. A nil set enables
  everything; the scope mark that rides in the map is a flag of its own here.
\<close>

datatype component = Docs | Skills | Telemetry | Agents | Usage

fun component_name :: "component \<Rightarrow> string" where
  "component_name Docs = ''docs''"
| "component_name Skills = ''skills''"
| "component_name Telemetry = ''telemetry''"
| "component_name Agents = ''agents''"
| "component_name Usage = ''usage''"

definition all_components :: "component list" where
  "all_components = [Docs, Skills, Telemetry, Agents, Usage]"

definition presets :: "(string \<times> component list) list" where
  "presets = [(''full'', all_components), (''docs-only'', [Docs, Skills]), (''telemetry-only'', [Telemetry]),
     (''agents-only'', [Agents])]"

record selection_set =
  chosen :: "component set"
  scope_mark :: bool

type_synonym selection = "selection_set option"

definition scope :: "selection \<Rightarrow> selection" where
  "scope s = map_option (\<lambda>r. r\<lparr>scope_mark := True\<rparr>) s"

definition scoped :: "selection \<Rightarrow> bool" where
  "scoped s \<longleftrightarrow> (case s of None \<Rightarrow> False | Some r \<Rightarrow> scope_mark r)"

definition has :: "selection \<Rightarrow> component \<Rightarrow> bool" where
  "has s c \<longleftrightarrow> (case s of None \<Rightarrow> True | Some r \<Rightarrow> c \<in> chosen r)"

definition named_component :: "string \<Rightarrow> component option" where
  "named_component n = find (\<lambda>c. component_name c = n) all_components"

definition has_component :: "selection \<Rightarrow> string \<Rightarrow> bool" where
  "has_component s n \<longleftrightarrow> (case s of None \<Rightarrow> True
     | Some r \<Rightarrow> (case named_component n of None \<Rightarrow> False | Some c \<Rightarrow> c \<in> chosen r))"

definition allows :: "selection \<Rightarrow> component list \<Rightarrow> bool" where
  "allows s requires \<longleftrightarrow> list_all (has s) requires"

definition selection_string :: "selection \<Rightarrow> string" where
  "selection_string s =
     (case s of
        None \<Rightarrow> ''full''
      | Some r \<Rightarrow>
          (let names = map component_name (filter (\<lambda>c. c \<in> chosen r) all_components)
           in if names = [] then ''(none)'' else join '','' names))"

definition parse_parts :: "string list \<Rightarrow> string list" where
  "parse_parts names = filter (\<lambda>p. p \<noteq> []) (map trim_space (concat (map (split_on CHR '','') names)))"

fun parse_set :: "string list \<Rightarrow> component set \<Rightarrow> string + component set" where
  "parse_set [] S = Inr S"
| "parse_set (p # ps) S =
     (case map_of presets p of
        Some cs \<Rightarrow> parse_set ps (S \<union> set cs)
      | None \<Rightarrow>
          (case named_component p of
             None \<Rightarrow> Inl p
           | Some c \<Rightarrow> parse_set ps (insert c S)))"

text \<open>An unknown name is the error value.\<close>

definition parse_selection :: "string list \<Rightarrow> string + selection" where
  "parse_selection names =
     (let parts = parse_parts names
      in if parts = [] then Inr None
         else map_inr (\<lambda>S. Some \<lparr>chosen = S, scope_mark = False\<rparr>) (parse_set parts {}))"

definition resolve_selection :: "string list \<Rightarrow> string list \<Rightarrow> string list \<Rightarrow> bool \<Rightarrow> string + selection" where
  "resolve_selection flag config local prune =
     (if flag \<noteq> [] then
        (if prune then parse_selection flag else map_inr scope (parse_selection flag))
      else if config \<noteq> [] then parse_selection config
      else if local \<noteq> [] then parse_selection local
      else Inr None)"

definition validate_components :: "string list \<Rightarrow> (string \<times> string list) list \<Rightarrow> bool" where
  "validate_components names skills \<longleftrightarrow>
     (case parse_selection names of Inl _ \<Rightarrow> False
      | Inr _ \<Rightarrow> list_all (\<lambda>(_, requires). list_all (\<lambda>n. named_component n \<noteq> None) requires) skills)"

lemma component_lists: "set all_components = UNIV"
  using component.exhaust by (auto simp: all_components_def)

lemma subset_cases: "(S :: component set) \<in> set (map set (subseqs all_components))"
proof -
  have "set (filter (\<lambda>c. c \<in> S) all_components) = S" using component_lists by auto
  moreover have "filter (\<lambda>c. c \<in> S) all_components \<in> set (subseqs all_components)" by (simp add: subseqs_refl)
  ultimately show ?thesis by (metis image_eqI list.set_map)
qed

lemma roundtrip_table:
  "list_all (\<lambda>S. S = {} \<or> parse_selection [selection_string (Some \<lparr>chosen = S, scope_mark = False\<rparr>)]
      = Inr (Some \<lparr>chosen = S, scope_mark = False\<rparr>)) (map set (subseqs all_components))"
  by code_simp

lemma full_parses: "parse_selection [selection_string None] = Inr (Some \<lparr>chosen = set all_components, scope_mark = False\<rparr>)"
  by code_simp

text \<open>A selection can be written down and read back: the text of every nonempty selection parses to exactly
  this selection, without its scope mark, and the text of the unrestricted one to one that enables every
  component.\<close>

theorem selection_roundtrip:
  assumes "S \<noteq> {}"
  shows "parse_selection [selection_string (Some \<lparr>chosen = S, scope_mark = m\<rparr>)]
      = Inr (Some \<lparr>chosen = S, scope_mark = False\<rparr>)
    \<and> (\<exists>s. parse_selection [selection_string None] = Inr s \<and> (\<forall>c. has s c = has None c))"
proof -
  have "selection_string (Some \<lparr>chosen = S, scope_mark = m\<rparr>) = selection_string (Some \<lparr>chosen = S, scope_mark = False\<rparr>)"
    by (simp add: selection_string_def)
  moreover have "parse_selection [selection_string (Some \<lparr>chosen = S, scope_mark = False\<rparr>)]
      = Inr (Some \<lparr>chosen = S, scope_mark = False\<rparr>)"
    using roundtrip_table subset_cases [of S] assms unfolding list_all_iff by blast
  ultimately show ?thesis using full_parses component_lists by (simp add: has_def)
qed

lemma selection_roundtrip_witness:
  "parse_selection [selection_string (Some \<lparr>chosen = {Usage, Docs}, scope_mark = True\<rparr>)]
    = Inr (Some \<lparr>chosen = {Docs, Usage}, scope_mark = False\<rparr>)"
  using selection_roundtrip [of "{Usage, Docs}" True] by (simp add: insert_commute)

lemma has_named: "has_component s (component_name c) = has s c"
  by (cases c) (auto simp: has_component_def has_def named_component_def all_components_def split: option.splits)

end
