(* ===== verification/Json.thy ===== *)
theory Json
  imports Main "HOL-Library.Finite_Map"
begin

text \<open>
  Decoded JSON, what encoding/json puts into a variable of type \<open>any\<close>. An object is a finite map, as a Go map is, and
  a number its text.
\<close>

datatype json = JNull | JBool bool | JNum string | JStr string | JArr "json list" | JObj "(string, json) fmap"

type_synonym obj = "(string, json) fmap"

definition str_field :: "obj \<Rightarrow> string \<Rightarrow> string option" where
  "str_field o' k = (case fmlookup o' k of Some (JStr s) \<Rightarrow> Some s | _ \<Rightarrow> None)"

lemma str_field_upd [simp]: "str_field (fmupd a (JStr s) o') k = (if a = k then Some s else str_field o' k)"
  by (simp add: str_field_def)

end
