(* ===== verification/Settings.thy ===== *)
theory Settings
  imports Components Json
begin

text \<open>
  The merge of harnez settings into \<open>settings.json\<close>: \<open>internal/jsonc/jsonc.go\<close> and
  \<open>internal/claude/apply_settings.go\<close>.

  A JSON object is a finite map, as a Go map is. The typed values \<open>buildSettingsDoc\<close> puts into its document
  are constructors of \<open>docval\<close>, so that the type switches of \<open>applyMerge\<close> are case distinctions. Decoding and
  encoding are encoding/json and parameters of the operations on the file.
\<close>

section \<open>JSON with comments\<close>

definition to_strings :: "json option \<Rightarrow> string list" where
  "to_strings v = (case v of
     Some (JArr xs) \<Rightarrow> List.map_filter (\<lambda>x. case x of JStr s \<Rightarrow> Some s | _ \<Rightarrow> None) xs
   | _ \<Rightarrow> [])"

fun union_acc :: "string list \<Rightarrow> string list \<Rightarrow> string list" where
  "union_acc seen [] = []"
| "union_acc seen (s # ss) = (if s \<in> set seen then union_acc seen ss else s # union_acc (s # seen) ss)"

definition union_strings :: "string list \<Rightarrow> string list \<Rightarrow> string list" where
  "union_strings a b = (let r = union_acc [] a in r @ union_acc (rev r) b)"

text \<open>The scanner of \<open>StripComments\<close>: inside a string, inside a comment, or in plain text.\<close>

datatype scan = Plain | InString | InComment

fun strip_scan :: "scan \<Rightarrow> string \<Rightarrow> string" where
  "strip_scan m [] = []"
| "strip_scan InString (b # bs) =
     (if b = CHR 0x5C then (case bs of [] \<Rightarrow> [b] | c # cs \<Rightarrow> b # c # strip_scan InString cs)
      else b # strip_scan (if b = CHR 0x22 then Plain else InString) bs)"
| "strip_scan InComment (b # bs) = (if b = nl then nl # strip_scan Plain bs else strip_scan InComment bs)"
| "strip_scan Plain (b # bs) =
     (if b = CHR 0x22 then b # strip_scan InString bs
      else if b = CHR ''/'' \<and> (case bs of [] \<Rightarrow> False | c # _ \<Rightarrow> c = CHR ''/'') then strip_scan InComment bs
      else b # strip_scan Plain bs)"

definition strip_comments :: "string \<Rightarrow> string" where
  "strip_comments data = strip_scan Plain data"

text \<open>\<open>Read\<close>: a file that is missing or does not decode reads as an empty object.\<close>

definition read_jsonc :: "(string \<Rightarrow> obj option) \<Rightarrow> string option \<Rightarrow> obj" where
  "read_jsonc decode file =
     (case file of None \<Rightarrow> fmempty
      | Some data \<Rightarrow> (case decode (strip_comments data) of None \<Rightarrow> fmempty | Some m \<Rightarrow> m))"

section \<open>Merging\<close>

datatype docval =
    DNil
  | DPerms "string list" "string list"
  | DHooks "(string \<times> json list) list"
  | DEnv "(string \<times> string) list"
  | DVal json

type_synonym doc = "(string \<times> docval) list"

definition managed_settings_keys :: "string list" where
  "managed_settings_keys = [''model'', ''effortLevel'', ''permissions'', ''hooks'', ''env'', ''spinnerVerbs'', ''statusLine'']"

definition is_managed_settings_key :: "string \<Rightarrow> bool" where
  "is_managed_settings_key k \<longleftrightarrow> k \<in> set managed_settings_keys"

definition is_harnez_command :: "string \<Rightarrow> bool" where
  "is_harnez_command c \<longleftrightarrow> (let t = trim_space c in t = ''harnez'' \<or> has_prefix t ''harnez '')"

definition merge_permissions :: "obj \<Rightarrow> string list \<Rightarrow> string list \<Rightarrow> obj" where
  "merge_permissions e allow deny =
     fmupd ''deny'' (JArr (map JStr (union_strings (to_strings (fmlookup e ''deny'')) deny)))
       (fmupd ''allow'' (JArr (map JStr (union_strings (to_strings (fmlookup e ''allow'')) allow))) e)"

definition harnez_hook :: "json \<Rightarrow> bool" where
  "harnez_hook h \<longleftrightarrow> (case h of
     JObj m \<Rightarrow> (case fmlookup m ''command'' of Some (JStr c) \<Rightarrow> is_harnez_command c | _ \<Rightarrow> False)
   | _ \<Rightarrow> False)"

definition strip_entry :: "json \<Rightarrow> json option" where
  "strip_entry e = (case e of
     JObj m \<Rightarrow> (case fmlookup m ''hooks'' of
         Some (JArr hs) \<Rightarrow>
           (let kept = filter (\<lambda>h. \<not> harnez_hook h) hs
            in if kept = [] then None else Some (JObj (fmupd ''hooks'' (JArr kept) m)))
       | _ \<Rightarrow> Some e)
   | _ \<Rightarrow> Some e)"

definition strip_entries :: "json \<Rightarrow> json list" where
  "strip_entries v = (case v of JArr es \<Rightarrow> List.map_filter strip_entry es | _ \<Rightarrow> [])"

definition is_array :: "json \<Rightarrow> bool" where
  "is_array v \<longleftrightarrow> (case v of JArr _ \<Rightarrow> True | _ \<Rightarrow> False)"

text \<open>\<^const>\<open>None\<close> is the invalid result.\<close>

definition remove_harnez_hooks :: "json option \<Rightarrow> obj option" where
  "remove_harnez_hooks v = (case v of
     Some (JObj h) \<Rightarrow>
       if \<not> fmpred (\<lambda>_. is_array) h then None
       else Some (fmfilter (\<lambda>ev. case fmlookup h ev of None \<Rightarrow> False | Some es \<Rightarrow> strip_entries es \<noteq> [])
         (fmmap (\<lambda>es. JArr (strip_entries es)) h))
   | _ \<Rightarrow> None)"

definition add_hooks :: "(string \<times> json list) list \<Rightarrow> obj \<Rightarrow> obj" where
  "add_hooks inc kept = fold (\<lambda>(ev, es) k.
     fmupd ev (JArr ((case fmlookup k ev of Some (JArr prior) \<Rightarrow> prior | _ \<Rightarrow> []) @ es)) k) inc kept"

definition set_env :: "(string \<times> string) list \<Rightarrow> obj \<Rightarrow> obj" where
  "set_env env e = fold (\<lambda>(a, b). fmupd a (JStr b)) env e"

fun merge_key :: "string \<times> docval \<Rightarrow> obj \<Rightarrow> obj" where
  "merge_key (k, DNil) out =
     (if \<not> is_managed_settings_key k then out
      else if k = ''hooks'' then
        (case remove_harnez_hooks (fmlookup out k) of
           None \<Rightarrow> out
         | Some kept \<Rightarrow> if kept = fmempty then fmdrop k out else fmupd k (JObj kept) out)
      else if k = ''statusLine'' then
        (case fmlookup out k of
           Some (JObj sl) \<Rightarrow> (case fmlookup sl ''command'' of
               Some (JStr c) \<Rightarrow> if is_harnez_command c then fmdrop k out else out
             | _ \<Rightarrow> out)
         | _ \<Rightarrow> out)
      else out)"
| "merge_key (k, DPerms allow deny) out =
     (case fmlookup out k of
        Some (JObj e) \<Rightarrow> fmupd k (JObj (merge_permissions e allow deny)) out
      | _ \<Rightarrow> fmupd k (JObj (fmap_of_list [(''allow'', JArr (map JStr allow)), (''deny'', JArr (map JStr deny))])) out)"
| "merge_key (k, DHooks inc) out =
     fmupd k (JObj (add_hooks inc (case remove_harnez_hooks (fmlookup out k) of None \<Rightarrow> fmempty | Some kept \<Rightarrow> kept))) out"
| "merge_key (k, DEnv env) out =
     (case fmlookup out k of
        Some (JObj e) \<Rightarrow> fmupd k (JObj (set_env env e)) out
      | _ \<Rightarrow> fmupd k (JObj (set_env env fmempty)) out)"
| "merge_key (k, DVal v) out = fmupd k v out"

definition apply_merge :: "obj \<Rightarrow> doc \<Rightarrow> obj" where
  "apply_merge existing d = fold merge_key d existing"

section \<open>The document\<close>

record hook_config =
  hk_event :: string
  hk_matcher :: string
  hk_command :: string

record settings_config =
  cfg_model :: string
  cfg_effort :: string
  cfg_verbs :: "string list"
  cfg_allow :: "string list"
  cfg_deny :: "string list"
  cfg_hooks :: "hook_config list"
  cfg_env :: "(string \<times> string) list"
  cfg_status_line :: bool

definition model_aliases :: "(string \<times> string) list" where
  "model_aliases = [(''sonnet'', ''claude-sonnet-4-6''), (''opus'', ''claude-opus-4-7''), (''haiku'', ''claude-haiku-5-5'')]"

definition resolve_model :: "string \<Rightarrow> string" where
  "resolve_model s = (case map_of model_aliases (to_lower s) of Some full \<Rightarrow> full | None \<Rightarrow> s)"

definition hook_entry :: "hook_config \<Rightarrow> json" where
  "hook_entry h = JObj (fmap_of_list
     ((''hooks'', JArr [JObj (fmap_of_list [(''command'', JStr (hk_command h)), (''type'', JStr ''command'')])])
      # (if hk_matcher h \<noteq> [] then [(''matcher'', JStr (hk_matcher h))] else [])))"

fun add_event :: "string \<Rightarrow> json \<Rightarrow> (string \<times> json list) list \<Rightarrow> (string \<times> json list) list" where
  "add_event ev e [] = [(ev, [e])]"
| "add_event ev e ((k, es) # m) = (if k = ev then (k, es @ [e]) # m else (k, es) # add_event ev e m)"

definition event_map :: "selection \<Rightarrow> hook_config list \<Rightarrow> (string \<times> json list) list" where
  "event_map sel hs =
     foldl (\<lambda>m h. if \<not> has_component sel ''telemetry'' \<and> is_harnez_command (hk_command h) then m
                  else add_event (hk_event h) (hook_entry h) m) [] hs"

definition build_settings_doc :: "settings_config \<Rightarrow> selection \<Rightarrow> doc" where
  "build_settings_doc cfg sel =
     (if cfg_model cfg \<noteq> [] then [(''model'', DVal (JStr (resolve_model (cfg_model cfg))))] else [])
     @ (if cfg_effort cfg \<noteq> [] then [(''effortLevel'', DVal (JStr (cfg_effort cfg)))] else [])
     @ (if cfg_allow cfg \<noteq> [] \<or> cfg_deny cfg \<noteq> [] then [(''permissions'', DPerms (cfg_allow cfg) (cfg_deny cfg))] else [])
     @ (if \<not> has_component sel ''telemetry'' \<and> scoped sel then []
        else if event_map sel (cfg_hooks cfg) \<noteq> [] then [(''hooks'', DHooks (event_map sel (cfg_hooks cfg)))]
        else if \<not> has_component sel ''telemetry'' then [(''hooks'', DNil)] else [])
     @ (if cfg_env cfg \<noteq> [] then [(''env'', DEnv (cfg_env cfg))] else [])
     @ (if cfg_verbs cfg \<noteq> [] then [(''spinnerVerbs'', DVal (JObj (fmap_of_list
          [(''mode'', JStr ''replace''), (''verbs'', JArr (map JStr (cfg_verbs cfg)))])))] else [])
     @ (if cfg_status_line cfg \<and> has_component sel ''usage'' then [(''statusLine'', DVal (JObj (fmap_of_list
          [(''type'', JStr ''command''), (''command'', JStr ''harnez statusline'')])))]
        else if has_component sel ''usage'' \<or> \<not> scoped sel then [(''statusLine'', DNil)] else [])"

section \<open>The file\<close>

definition settings_stats :: "(json option \<Rightarrow> string) \<Rightarrow> obj \<Rightarrow> obj \<Rightarrow> (string \<times> int \<times> int) list \<times> (string \<times> bool) list" where
  "settings_stats marshal existing merged =
     (let field = (\<lambda>ob f. case fmlookup ob ''permissions'' of Some (JObj p) \<Rightarrow> int (length (to_strings (fmlookup p f))) | _ \<Rightarrow> 0)
      in (case fmlookup merged ''permissions'' of
            Some (JObj _) \<Rightarrow> List.map_filter (\<lambda>f. if field merged f \<noteq> field existing f then Some (f, field existing f, field merged f) else None)
              [''allow'', ''deny'']
          | _ \<Rightarrow> [],
          List.map_filter (\<lambda>k. if marshal (fmlookup existing k) \<noteq> marshal (fmlookup merged k)
            then Some (k, case fmlookup existing k of None \<Rightarrow> True | Some v \<Rightarrow> v = JNull) else None)
            (filter (\<lambda>k. k \<noteq> ''permissions'') managed_settings_keys)))"

datatype settings_error = InvalidJson | MkdirFailed | WriteFailed

text \<open>\<open>encode\<close> is \<open>MarshalPretty\<close>, \<open>valid\<close> is \<open>json.Valid\<close>; the result is whether the file changed.\<close>

definition apply_settings_json ::
  "(string \<Rightarrow> obj option) \<Rightarrow> (obj \<Rightarrow> string) \<Rightarrow> (string \<Rightarrow> bool) \<Rightarrow> bool \<Rightarrow> bool \<Rightarrow> doc \<Rightarrow> string option
    \<Rightarrow> (settings_error + bool) \<times> string option" where
  "apply_settings_json decode encode valid mkdir_ok write_ok d file =
     (let merged = apply_merge (read_jsonc decode file) d; data = encode merged @ [nl]
      in if \<not> valid data then (Inl InvalidJson, file)
         else if (case file of None \<Rightarrow> [] | Some old \<Rightarrow> old) = data then (Inr False, file)
         else if \<not> mkdir_ok then (Inl MkdirFailed, file)
         else if \<not> write_ok then (Inl WriteFailed, file)
         else (Inr True, Some data))"

text \<open>\<open>diffSettingsJSON\<close> up to the call of diff: whether the managed part of the document changes.\<close>

definition managed_part :: "doc \<Rightarrow> obj \<Rightarrow> obj" where
  "managed_part d ob = fmfilter (\<lambda>k. k \<in> fst ` set d) ob"

definition diff_settings_json :: "(string \<Rightarrow> obj option) \<Rightarrow> (obj \<Rightarrow> string) \<Rightarrow> doc \<Rightarrow> string option \<Rightarrow> bool" where
  "diff_settings_json decode encode d file =
     (let existing = read_jsonc decode file
      in encode (managed_part d existing) \<noteq> encode (managed_part d (apply_merge existing d)))"

definition clean_settings_json ::
  "(string \<Rightarrow> obj option) \<Rightarrow> (obj \<Rightarrow> string) \<Rightarrow> string option \<Rightarrow> string option" where
  "clean_settings_json decode encode file =
     (let existing = read_jsonc decode file
      in if existing = fmempty then file
         else (let rest = fold fmdrop managed_settings_keys existing
               in if rest = fmempty then None else Some (encode rest @ [nl])))"


definition sample_settings :: settings_config where
  "sample_settings = \<lparr>cfg_model = ''opus'', cfg_effort = [], cfg_verbs = [], cfg_allow = [''a''], cfg_deny = [],
     cfg_hooks = [\<lparr>hk_event = ''Stop'', hk_matcher = [], hk_command = ''harnez hook sound''\<rparr>],
     cfg_env = [(''K'', ''v'')], cfg_status_line = True\<rparr>"

section \<open>Comments\<close>

lemma strip_scan_idem: "strip_scan (if m = InComment then Plain else m) (strip_scan m s) = strip_scan m s"
proof (induction m s rule: strip_scan.induct)
  case (2 b bs)
  then show ?case by (cases bs) (auto split: if_splits)
next
  case (3 b bs)
  then show ?case by auto
next
  case (4 b bs)
  show ?case
  proof (cases "b = CHR 0x22 \<or> b = CHR ''/'' \<and> (case bs of [] \<Rightarrow> False | c # _ \<Rightarrow> c = CHR ''/'')")
    case True
    with 4 show ?thesis by auto
  next
    case False
    have "strip_scan Plain bs = [] \<or> hd (strip_scan Plain bs) = hd bs \<or> (\<exists>t. bs = CHR ''/'' # t)"
      by (cases bs) auto
    moreover have "strip_scan Plain bs \<noteq> [] \<Longrightarrow> bs \<noteq> []" by auto
    ultimately have "b = CHR ''/'' \<Longrightarrow> (case strip_scan Plain bs of [] \<Rightarrow> False | c # _ \<Rightarrow> c = CHR ''/'') = False"
      using False by (cases bs; cases "strip_scan Plain bs") (auto split: if_splits)
    with 4 False show ?thesis by auto
  qed
qed simp

lemma strip_comments_idem: "strip_comments (strip_comments s) = strip_comments s"
  using strip_scan_idem [of Plain s] by (simp add: strip_comments_def)

section \<open>Unions\<close>

lemma union_acc_set: "set (union_acc seen xs) = set xs - set seen"
  by (induction seen xs rule: union_acc.induct) auto

lemma union_acc_distinct: "distinct (union_acc seen xs)"
  by (induction seen xs rule: union_acc.induct) (auto simp: union_acc_set)

lemma union_acc_none: "set xs \<subseteq> set seen \<Longrightarrow> union_acc seen xs = []"
  by (induction seen xs rule: union_acc.induct) auto

lemma union_acc_same: "distinct xs \<Longrightarrow> set xs \<inter> set seen = {} \<Longrightarrow> union_acc seen xs = xs"
  by (induction seen xs rule: union_acc.induct) auto

lemma union_strings_set: "set (union_strings a b) = set a \<union> set b"
  by (auto simp: union_strings_def union_acc_set Let_def)

lemma union_strings_distinct: "distinct (union_strings a b)"
  by (auto simp: union_strings_def union_acc_set union_acc_distinct Let_def)

lemma union_strings_same: "distinct a \<Longrightarrow> set b \<subseteq> set a \<Longrightarrow> union_strings a b = a"
  by (simp add: union_strings_def union_acc_same union_acc_none)

lemma union_strings_idem: "union_strings (union_strings a b) b = union_strings a b"
  using union_strings_same [OF union_strings_distinct, of b a b] by (simp add: union_strings_set)

lemma to_strings_map [simp]: "to_strings (Some (JArr (map JStr xs))) = xs"
  by (induction xs) (auto simp: to_strings_def List.map_filter_def)

lemma fmupd_same: "fmlookup m k = Some v \<Longrightarrow> fmupd k v m = m"
  by (rule fmap_ext) auto

lemma merge_permissions_idem: "merge_permissions (merge_permissions e a d) a d = merge_permissions e a d"
  by (rule fmap_ext) (auto simp: merge_permissions_def union_strings_idem)

section \<open>Hooks\<close>

lemma strip_entry_idem: "strip_entry e = Some e' \<Longrightarrow> strip_entry e' = Some e'"
proof -
  assume e: "strip_entry e = Some e'"
  show ?thesis
  proof (cases "\<exists>m hs. e = JObj m \<and> fmlookup m ''hooks'' = Some (JArr hs)")
    case True
    then obtain m hs where m: "e = JObj m" "fmlookup m ''hooks'' = Some (JArr hs)" by blast
    let ?k = "filter (\<lambda>h. \<not> harnez_hook h) hs"
    from e m have k: "?k \<noteq> []" "e' = JObj (fmupd ''hooks'' (JArr ?k) m)"
      by (simp_all add: strip_entry_def Let_def del: filter_empty_conv split: if_splits)
    have "filter (\<lambda>h. \<not> harnez_hook h) ?k = ?k" by simp
    moreover have "fmupd ''hooks'' (JArr ?k) (fmupd ''hooks'' (JArr ?k) m) = fmupd ''hooks'' (JArr ?k) m"
      by (rule fmupd_same) simp
    ultimately show ?thesis using k by (simp add: strip_entry_def Let_def del: filter_filter)
  next
    case False
    with e have "e' = e" by (auto simp: strip_entry_def split: json.splits option.splits)
    with e show ?thesis by simp
  qed
qed

lemma map_filter_idem: "(\<And>x y. f x = Some y \<Longrightarrow> f y = Some y) \<Longrightarrow> List.map_filter f (List.map_filter f xs) = List.map_filter f xs"
  by (induction xs) (auto simp: List.map_filter_simps split: option.splits)

lemma strip_entries_idem [simp]: "strip_entries (JArr (strip_entries v)) = strip_entries v"
  using map_filter_idem [of strip_entry, OF strip_entry_idem]
  by (cases v) (simp_all add: strip_entries_def List.map_filter_simps)

text \<open>What an object of hooks holds of others, event by event.\<close>

definition foreign_entries :: "obj \<Rightarrow> string \<Rightarrow> json list" where
  "foreign_entries h ev = (case fmlookup h ev of None \<Rightarrow> [] | Some v \<Rightarrow> strip_entries v)"

definition foreign_part :: "obj \<Rightarrow> obj" where
  "foreign_part h = fmfilter (\<lambda>ev. foreign_entries h ev \<noteq> []) (fmmap (\<lambda>es. JArr (strip_entries es)) h)"

lemma foreign_part_lookup:
  "fmlookup (foreign_part h) ev = (if foreign_entries h ev = [] then None else Some (JArr (foreign_entries h ev)))"
  by (auto simp: foreign_part_def foreign_entries_def split: option.splits)

lemma remove_foreign:
  "remove_harnez_hooks (Some (JObj h)) = (if fmpred (\<lambda>_. is_array) h then Some (foreign_part h) else None)"
proof -
  have "(\<lambda>ev. case fmlookup h ev of None \<Rightarrow> False | Some es \<Rightarrow> strip_entries es \<noteq> []) = (\<lambda>ev. foreign_entries h ev \<noteq> [])"
    by (auto simp: foreign_entries_def split: option.splits)
  then show ?thesis unfolding remove_harnez_hooks_def foreign_part_def by (simp only: option.case json.case) simp
qed

lemma remove_SomeD:
  assumes "remove_harnez_hooks v = Some kept"
  shows "\<exists>h. v = Some (JObj h) \<and> fmpred (\<lambda>_. is_array) h \<and> kept = foreign_part h"
proof -
  from assms obtain h where h: "v = Some (JObj h)"
    by (auto simp: remove_harnez_hooks_def split: option.splits json.splits)
  with assms show ?thesis by (simp add: remove_foreign split: if_splits)
qed

lemma foreign_part_eq: "(\<And>ev. foreign_entries h ev = foreign_entries h' ev) \<Longrightarrow> foreign_part h = foreign_part h'"
  by (rule fmap_ext) (simp add: foreign_part_lookup)

lemma foreign_of_part: "foreign_entries (foreign_part h) ev = foreign_entries h ev"
proof -
  have "strip_entries (JArr []) = []" by (simp add: strip_entries_def List.map_filter_def)
  then have "strip_entries (JArr (foreign_entries h ev)) = foreign_entries h ev"
    by (cases "fmlookup h ev") (simp_all add: foreign_entries_def)
  then show ?thesis by (simp add: foreign_entries_def [of "foreign_part h"] foreign_part_lookup)
qed

lemma foreign_part_arrays: "fmpred (\<lambda>_. is_array) (foreign_part h)"
  by (rule fmpredI) (auto simp: foreign_part_lookup is_array_def split: if_splits)

lemma remove_clean: "remove_harnez_hooks v = Some kept \<Longrightarrow> remove_harnez_hooks (Some (JObj kept)) = Some kept"
proof -
  assume "remove_harnez_hooks v = Some kept"
  then obtain h where h: "kept = foreign_part h" using remove_SomeD by blast
  have "foreign_part (foreign_part h) = foreign_part h" by (rule foreign_part_eq) (rule foreign_of_part)
  with h show ?thesis by (simp add: remove_foreign foreign_part_arrays)
qed

definition ours :: "(string \<times> json list) list \<Rightarrow> bool" where
  "ours inc \<longleftrightarrow> (\<forall>(ev, es)\<in>set inc. \<forall>e\<in>set es. strip_entry e = None)"

lemma map_filter_none: "\<forall>e\<in>set es. f e = None \<Longrightarrow> List.map_filter f (xs @ es) = List.map_filter f xs"
  by (induction es) (auto simp: List.map_filter_def)

lemma foreign_upd:
  assumes "fmpred (\<lambda>_. is_array) k"
  shows "foreign_entries (fmupd ev (JArr ((case fmlookup k ev of Some (JArr prior) \<Rightarrow> prior | _ \<Rightarrow> []) @ es)) k) j =
    foreign_entries k j @ (if j = ev then List.map_filter strip_entry es else [])"
proof -
  have "\<exists>p. v = JArr p" if "fmlookup k ev = Some v" for v
    using fmpredD [OF assms that] by (auto simp: is_array_def split: json.splits)
  then show ?thesis
    by (auto simp: foreign_entries_def strip_entries_def List.map_filter_def is_array_def split: option.splits json.splits)
qed

lemma add_hooks_foreign:
  "fmpred (\<lambda>_. is_array) k \<Longrightarrow> fmpred (\<lambda>_. is_array) (add_hooks inc k) \<and>
    foreign_entries (add_hooks inc k) j = foreign_entries k j @ concat (map (\<lambda>(ev, es). if j = ev then List.map_filter strip_entry es else []) inc)"
proof (induction inc arbitrary: k)
  case (Cons x inc)
  obtain ev es where x: "x = (ev, es)" by (cases x)
  let ?k = "fmupd ev (JArr ((case fmlookup k ev of Some (JArr prior) \<Rightarrow> prior | _ \<Rightarrow> []) @ es)) k"
  have arr: "fmpred (\<lambda>_. is_array) ?k" by (rule fmpred_upd [OF Cons.prems]) (simp add: is_array_def)
  have "add_hooks (x # inc) k = add_hooks inc ?k" by (simp add: add_hooks_def x)
  with Cons.IH [OF arr] foreign_upd [OF Cons.prems, of ev es] show ?case by (simp add: x)
qed (simp add: add_hooks_def)

lemma add_ours:
  assumes "remove_harnez_hooks v = Some kept \<or> kept = fmempty" and "ours inc"
  shows "remove_harnez_hooks (Some (JObj (add_hooks inc kept))) = Some kept"
proof -
  have arr: "fmpred (\<lambda>_. is_array) kept" and self: "foreign_part kept = kept"
    using assms(1) remove_clean [of v kept] remove_foreign [of kept]
    by (auto split: if_splits intro: fmap_ext simp: foreign_part_lookup foreign_entries_def)
  have "concat (map (\<lambda>(ev, es). if j = ev then List.map_filter strip_entry es else []) inc) = []" for j
    using assms(2) by (auto simp: ours_def List.map_filter_def)
  then have "foreign_part (add_hooks inc kept) = kept"
    using add_hooks_foreign [OF arr, of inc] foreign_part_eq [of "add_hooks inc kept" kept] self by simp
  with add_hooks_foreign [OF arr, of inc] show ?thesis by (simp add: remove_foreign)
qed

section \<open>Keys are independent\<close>

text \<open>What merging a value does to its own key.\<close>

definition merge_at :: "string \<Rightarrow> docval \<Rightarrow> json option \<Rightarrow> json option" where
  "merge_at k v x = fmlookup (merge_key (k, v) (case x of None \<Rightarrow> fmempty | Some y \<Rightarrow> fmupd k y fmempty)) k"

definition nil_at :: "string \<Rightarrow> json option \<Rightarrow> json option" where
  "nil_at k x =
     (if \<not> is_managed_settings_key k then x
      else if k = ''hooks'' then
        (case remove_harnez_hooks x of None \<Rightarrow> x | Some kept \<Rightarrow> if kept = fmempty then None else Some (JObj kept))
      else if k = ''statusLine'' then
        (case x of Some (JObj sl) \<Rightarrow> (case fmlookup sl ''command'' of
            Some (JStr c) \<Rightarrow> if is_harnez_command c then None else x | _ \<Rightarrow> x) | _ \<Rightarrow> x)
      else x)"

lemma merge_nil_lookup: "fmlookup (merge_key (k, DNil) ob) j = (if j = k then nil_at k (fmlookup ob k) else fmlookup ob j)"
proof -
  consider "\<not> is_managed_settings_key k" | "is_managed_settings_key k" "k = ''hooks''"
    | "is_managed_settings_key k" "k \<noteq> ''hooks''" "k = ''statusLine''"
    | "is_managed_settings_key k" "k \<noteq> ''hooks''" "k \<noteq> ''statusLine''" by blast
  then show ?thesis
  proof cases
    case 1
    then show ?thesis by (simp add: nil_at_def)
  next
    case 2
    then show ?thesis by (cases "remove_harnez_hooks (fmlookup ob k)") (simp_all add: nil_at_def)
  next
    case 3
    show ?thesis
    proof (cases "\<exists>sl c. fmlookup ob k = Some (JObj sl) \<and> fmlookup sl ''command'' = Some (JStr c)")
      case True
      then obtain sl c where "fmlookup ob k = Some (JObj sl)" "fmlookup sl ''command'' = Some (JStr c)" by blast
      with 3 show ?thesis by (simp add: nil_at_def)
    next
      case False
      then have "merge_key (k, DNil) ob = ob" "nil_at k (fmlookup ob k) = fmlookup ob k"
        using 3 False by (auto simp: nil_at_def split: option.split json.split)
      then show ?thesis by simp
    qed
  next
    case 4
    then show ?thesis by (simp add: nil_at_def)
  qed
qed

lemma merge_key_lookup: "fmlookup (merge_key (k, v) ob) j = (if j = k then merge_at k v (fmlookup ob k) else fmlookup ob j)"
proof (cases v)
  case DNil
  then show ?thesis
    by (cases "fmlookup ob k") (simp_all add: merge_at_def merge_nil_lookup del: merge_key.simps)
next
  case (DPerms a d)
  then show ?thesis by (auto simp: merge_at_def split: option.splits json.splits)
next
  case (DHooks inc)
  then show ?thesis by (cases "fmlookup ob k") (auto simp: merge_at_def)
next
  case (DEnv env)
  then show ?thesis by (auto simp: merge_at_def split: option.splits json.splits)
next
  case (DVal x)
  then show ?thesis by (simp add: merge_at_def)
qed

lemma apply_merge_lookup:
  "distinct (map fst d) \<Longrightarrow> fmlookup (apply_merge e d) j = (case map_of d j of None \<Rightarrow> fmlookup e j | Some v \<Rightarrow> merge_at j v (fmlookup e j))"
proof (induction d arbitrary: e)
  case (Cons x d)
  obtain k v where x: "x = (k, v)" by (cases x)
  have "apply_merge e (x # d) = apply_merge (merge_key x e) d" by (simp add: apply_merge_def)
  moreover have "map_of d k = None" using Cons.prems x by (simp add: map_of_eq_None_iff)
  ultimately show ?case using Cons.IH [of "merge_key x e"] Cons.prems x
    by (auto simp: merge_key_lookup split: option.splits)
qed (simp add: apply_merge_def)

text \<open>A document settles when every value of it does.\<close>

definition settles :: "string \<Rightarrow> docval \<Rightarrow> bool" where
  "settles k v \<longleftrightarrow> (\<forall>x. merge_at k v (merge_at k v x) = merge_at k v x)"

lemma apply_merge_settles:
  assumes "distinct (map fst d)" and "\<forall>(k, v)\<in>set d. settles k v"
  shows "apply_merge (apply_merge e d) d = apply_merge e d"
proof (rule fmap_ext)
  fix j
  have "settles j v" if "map_of d j = Some v" for v using that assms(2) by (auto dest: map_of_SomeD)
  then show "fmlookup (apply_merge (apply_merge e d) d) j = fmlookup (apply_merge e d) j"
    by (auto simp: apply_merge_lookup [OF assms(1)] settles_def split: option.splits)
qed

lemma set_env_lookup:
  "fmlookup (set_env env e) k = (case map_of (rev env) k of Some v \<Rightarrow> Some (JStr v) | None \<Rightarrow> fmlookup e k)"
proof -
  have "fmlookup (fold (\<lambda>(a, b). fmupd a (JStr b)) env e) k = (case map_of (rev env) k of Some v \<Rightarrow> Some (JStr v) | None \<Rightarrow> fmlookup e k)"
    by (induction env arbitrary: e) (auto simp: map_add_def split: option.splits)
  then show ?thesis by (simp add: set_env_def)
qed

lemma set_env_idem: "set_env env (set_env env e) = set_env env e"
  by (rule fmap_ext) (simp add: set_env_lookup split: option.splits)

lemma settles_val: "settles k (DVal v)"
  by (simp add: settles_def merge_at_def)

lemma settles_env: "settles k (DEnv env)"
  by (auto simp: settles_def merge_at_def set_env_idem split: option.splits json.splits)

lemma settles_perms: "distinct a \<Longrightarrow> distinct d \<Longrightarrow> settles k (DPerms a d)"
proof -
  assume d: "distinct a" "distinct d"
  have "merge_permissions (fmap_of_list [(''allow'', JArr (map JStr a)), (''deny'', JArr (map JStr d))]) a d
      = fmap_of_list [(''allow'', JArr (map JStr a)), (''deny'', JArr (map JStr d))]"
    by (rule fmap_ext) (auto simp: merge_permissions_def union_strings_same d)
  then show ?thesis
    by (auto simp: settles_def merge_at_def merge_permissions_idem split: option.splits json.splits)
qed

lemma settles_hooks: "ours inc \<Longrightarrow> settles k (DHooks inc)"
proof -
  assume o: "ours inc"
  have m: "merge_at k (DHooks inc) x =
      Some (JObj (add_hooks inc (case remove_harnez_hooks x of None \<Rightarrow> fmempty | Some kept \<Rightarrow> kept)))" for x
    by (cases x) (simp_all add: merge_at_def)
  show ?thesis unfolding settles_def
  proof
    fix x
    let ?kept = "case remove_harnez_hooks x of None \<Rightarrow> fmempty | Some kept \<Rightarrow> kept"
    have "remove_harnez_hooks (Some (JObj (add_hooks inc ?kept))) = Some ?kept"
      by (rule add_ours [OF _ o, of x]) (auto split: option.splits)
    then show "merge_at k (DHooks inc) (merge_at k (DHooks inc) x) = merge_at k (DHooks inc) x"
      by (simp only: m option.case)
  qed
qed

lemma merge_at_nil: "merge_at k DNil x = nil_at k x"
  by (cases x) (simp_all add: merge_at_def merge_nil_lookup del: merge_key.simps)

lemma settles_nil: "settles k DNil"
proof -
  have none: "remove_harnez_hooks None = None" by (simp add: remove_harnez_hooks_def)
  have "nil_at k (nil_at k x) = nil_at k x" for x
  proof (cases "is_managed_settings_key k \<and> k = ''hooks''")
    case True
    then have h: "nil_at k y = (case remove_harnez_hooks y of None \<Rightarrow> y | Some kept \<Rightarrow> if kept = fmempty then None else Some (JObj kept))" for y
      using True by (simp add: nil_at_def is_managed_settings_key_def managed_settings_keys_def)
    show ?thesis
    proof (cases "remove_harnez_hooks x")
      case None
      then have "nil_at k x = x" by (simp add: h)
      then show ?thesis by simp
    next
      case (Some kept)
      then show ?thesis using remove_clean [OF Some] none by (simp add: h)
    qed
  next
    case False
    then have "nil_at k x = x \<or> nil_at k x = None" and "nil_at k None = None"
      by (auto simp: nil_at_def split: option.split json.split)
    then show ?thesis by auto
  qed
  then show ?thesis by (simp add: settles_def merge_at_nil)
qed

section \<open>The document of a configuration\<close>

definition keyed :: "doc \<Rightarrow> string set \<Rightarrow> bool" where
  "keyed d K \<longleftrightarrow> distinct (map fst d) \<and> fst ` set d \<subseteq> K"

lemma keyed_opt:
  "xs = [] \<or> (\<exists>v. xs = [(k, v)]) \<Longrightarrow> k \<notin> K \<Longrightarrow> keyed d K \<Longrightarrow> keyed (xs @ d) (insert k K)"
  by (auto simp: keyed_def)

lemma keyed_last: "xs = [] \<or> (\<exists>v. xs = [(k, v)]) \<Longrightarrow> keyed xs {k}"
  by (auto simp: keyed_def)

lemma build_keyed: "keyed (build_settings_doc cfg sel)
    {''model'', ''effortLevel'', ''permissions'', ''hooks'', ''env'', ''spinnerVerbs'', ''statusLine''}"
  unfolding build_settings_doc_def
  by (rule keyed_opt, simp, simp)+ (rule keyed_last, simp)

lemma build_distinct: "distinct (map fst (build_settings_doc cfg sel))"
  using build_keyed by (simp add: keyed_def)

lemma hook_entry_ours: "is_harnez_command (hk_command h) \<Longrightarrow> strip_entry (hook_entry h) = None"
  by (simp add: strip_entry_def hook_entry_def harnez_hook_def)

lemma hook_entry_foreign: "\<not> is_harnez_command (hk_command h) \<Longrightarrow> strip_entry (hook_entry h) = Some (hook_entry h)"
  by (simp add: strip_entry_def hook_entry_def harnez_hook_def Let_def)

lemma add_event_set: "(ev', es) \<in> set (add_event ev e m) \<Longrightarrow> x \<in> set es \<Longrightarrow>
    (ev' = ev \<and> x = e) \<or> (\<exists>es'. (ev', es') \<in> set m \<and> x \<in> set es')"
  by (induction m arbitrary: es) (fastforce split: if_splits)+

lemma event_map_entries:
  "(ev, es) \<in> set (event_map sel hs) \<Longrightarrow> e \<in> set es \<Longrightarrow> \<exists>h\<in>set hs. ev = hk_event h \<and> e = hook_entry h"
proof -
  let ?f = "\<lambda>m h. if \<not> has_component sel ''telemetry'' \<and> is_harnez_command (hk_command h) then m
    else add_event (hk_event h) (hook_entry h) m"
  have "(ev, es) \<in> set (foldl ?f m0 hs) \<Longrightarrow> e \<in> set es \<Longrightarrow>
      (\<exists>h\<in>set hs. ev = hk_event h \<and> e = hook_entry h) \<or> (\<exists>es'. (ev, es') \<in> set m0 \<and> e \<in> set es')" for m0
  proof (induction hs arbitrary: m0)
    case (Cons h hs)
    from Cons.prems(1) have "(ev, es) \<in> set (foldl ?f (?f m0 h) hs)" by simp
    from Cons.IH [OF this Cons.prems(2)] show ?case
      using add_event_set [of ev _ "hk_event h" "hook_entry h" m0 e] by (auto split: if_splits)
  qed auto
  from this [of "[]"] show "(ev, es) \<in> set (event_map sel hs) \<Longrightarrow> e \<in> set es \<Longrightarrow> ?thesis"
    unfolding event_map_def by auto
qed

lemma event_map_ours: "\<forall>h\<in>set hs. is_harnez_command (hk_command h) \<Longrightarrow> ours (event_map sel hs)"
  unfolding ours_def using event_map_entries hook_entry_ours by fastforce



section \<open>What the merge keeps\<close>

definition hooks_of :: "obj \<Rightarrow> obj" where
  "hooks_of e = (case fmlookup e ''hooks'' of Some (JObj h) \<Rightarrow> h | _ \<Rightarrow> fmempty)"

definition permission :: "obj \<Rightarrow> string \<Rightarrow> string list" where
  "permission e field = (case fmlookup e ''permissions'' of Some (JObj p) \<Rightarrow> to_strings (fmlookup p field) | _ \<Rightarrow> [])"

definition env_value :: "obj \<Rightarrow> string \<Rightarrow> json option" where
  "env_value e k = (case fmlookup e ''env'' of Some (JObj m) \<Rightarrow> fmlookup m k | _ \<Rightarrow> None)"

lemma foreign_empty [simp]: "foreign_entries fmempty ev = []"
  by (simp add: foreign_entries_def)

lemma doc_values:
  assumes "map_of (build_settings_doc cfg sel) k = Some v"
  shows "k = ''hooks'' \<Longrightarrow> v = DNil \<or> v = DHooks (event_map sel (cfg_hooks cfg))"
    and "k = ''permissions'' \<Longrightarrow> \<exists>a b. v = DPerms a b"
    and "k = ''env'' \<Longrightarrow> v = DEnv (cfg_env cfg)"
  using map_of_SomeD [OF assms] by (auto simp: build_settings_doc_def split: if_splits)

lemma merge_hooks_foreign:
  assumes "v = DNil \<or> (\<exists>inc. v = DHooks inc \<and> ours inc)"
    and "fmpred (\<lambda>_. is_array) h"
  shows "foreign_entries (case merge_at ''hooks'' v (Some (JObj h)) of Some (JObj m) \<Rightarrow> m | _ \<Rightarrow> fmempty) ev = foreign_entries h ev"
proof -
  have kept: "remove_harnez_hooks (Some (JObj h)) = Some (foreign_part h)" using assms(2) by (simp add: remove_foreign)
  from assms(1) consider "v = DNil" | inc where "v = DHooks inc" "ours inc" by blast
  then show ?thesis
  proof cases
    case 1
    have "is_managed_settings_key ''hooks''" by (simp add: is_managed_settings_key_def managed_settings_keys_def)
    then have "merge_at ''hooks'' v (Some (JObj h)) = (if foreign_part h = fmempty then None else Some (JObj (foreign_part h)))"
      using 1 kept by (simp add: merge_at_nil nil_at_def)
    moreover have "foreign_entries h ev = []" if "foreign_part h = fmempty"
      using foreign_of_part [of h ev] that by simp
    ultimately show ?thesis using foreign_of_part by simp
  next
    case 2
    have "merge_at ''hooks'' v (Some (JObj h)) = Some (JObj (add_hooks inc (foreign_part h)))"
      using 2(1) kept by (simp add: merge_at_def)
    moreover have "foreign_entries (add_hooks inc (foreign_part h)) ev = foreign_entries (foreign_part h) ev"
      using add_hooks_foreign [OF foreign_part_arrays, of inc h ev] 2(2)
      by (auto simp: ours_def List.map_filter_def)
    ultimately show ?thesis using foreign_of_part by simp
  qed
qed

text \<open>Applying settings keeps what is the user's: every key harnez does not manage, every hook of others in its
  event and order, every permission, and every environment variable the configuration does not set, for
  every configuration whose hooks are harnez's own and every selection.\<close>

theorem settings_merge_keeps:
  assumes "\<forall>h\<in>set (cfg_hooks cfg). is_harnez_command (hk_command h)"
    and "fmlookup e ''hooks'' = None \<or> (\<exists>h. fmlookup e ''hooks'' = Some (JObj h) \<and> fmpred (\<lambda>_. is_array) h)"
  shows "(\<forall>k. k \<notin> set managed_settings_keys \<longrightarrow> fmlookup (apply_merge e (build_settings_doc cfg sel)) k = fmlookup e k)
    \<and> foreign_entries (hooks_of (apply_merge e (build_settings_doc cfg sel))) ev = foreign_entries (hooks_of e) ev
    \<and> set (permission e ''allow'') \<subseteq> set (permission (apply_merge e (build_settings_doc cfg sel)) ''allow'')
    \<and> set (permission e ''deny'') \<subseteq> set (permission (apply_merge e (build_settings_doc cfg sel)) ''deny'')
    \<and> (x \<notin> fst ` set (cfg_env cfg) \<longrightarrow>
        env_value (apply_merge e (build_settings_doc cfg sel)) x = env_value e x)"
proof -
  let ?d = "build_settings_doc cfg sel"
  note look = apply_merge_lookup [OF build_distinct, of e cfg sel]
  have "fmlookup (apply_merge e ?d) k = fmlookup e k" if "k \<notin> set managed_settings_keys" for k
  proof -
    have "k \<notin> fst ` set ?d" using build_keyed [of cfg sel] that by (auto simp: keyed_def managed_settings_keys_def)
    then have "map_of ?d k = None" by (simp add: map_of_eq_None_iff)
    then show ?thesis by (simp add: look)
  qed
  moreover have "foreign_entries (hooks_of (apply_merge e ?d)) ev = foreign_entries (hooks_of e) ev"
  proof (cases "map_of ?d ''hooks''")
    case None
    then show ?thesis by (simp add: hooks_of_def look)
  next
    case (Some v)
    then have v: "v = DNil \<or> (\<exists>inc. v = DHooks inc \<and> ours inc)"
      using doc_values(1) [OF Some] assms(1) event_map_ours by blast
    from assms(2) show ?thesis
    proof (elim disjE exE conjE)
      fix h assume h: "fmlookup e ''hooks'' = Some (JObj h)" "fmpred (\<lambda>_. is_array) h"
      show ?thesis using merge_hooks_foreign [OF v h(2), of ev] by (simp add: hooks_of_def look Some h(1))
    next
      assume n: "fmlookup e ''hooks'' = None"
      have "merge_at ''hooks'' v None = None \<or> (\<exists>inc. ours inc \<and> merge_at ''hooks'' v None = Some (JObj (add_hooks inc fmempty)))"
        using v by (auto simp: merge_at_def remove_harnez_hooks_def)
      moreover have "foreign_entries (add_hooks inc fmempty) ev = []" if "ours inc" for inc
        using add_hooks_foreign [of fmempty inc ev] that by (auto simp: ours_def List.map_filter_def)
      ultimately show ?thesis by (auto simp: hooks_of_def look Some n)
    qed
  qed
  moreover have "set (permission e f) \<subseteq> set (permission (apply_merge e ?d) f)" if f: "f = ''allow'' \<or> f = ''deny''" for f
  proof -
    have "map_of ?d ''permissions'' = None \<or> (\<exists>a b. map_of ?d ''permissions'' = Some (DPerms a b))"
      using doc_values(2) [of cfg sel "''permissions''"] by (cases "map_of ?d ''permissions''") blast+
    then show ?thesis
    proof (elim disjE exE)
      fix a b assume "map_of ?d ''permissions'' = Some (DPerms a b)"
      then show ?thesis using f
        by (cases "\<exists>p. fmlookup e ''permissions'' = Some (JObj p)")
          (auto simp: permission_def look merge_at_def merge_permissions_def union_strings_set split: option.splits json.splits)
    qed (simp add: permission_def look)
  qed
  moreover have "env_value (apply_merge e ?d) x = env_value e x" if "x \<notin> fst ` set (cfg_env cfg)"
  proof -
    have n: "map_of (rev (cfg_env cfg)) x = None" using that by (simp add: map_of_eq_None_iff)
    have "map_of ?d ''env'' = None \<or> map_of ?d ''env'' = Some (DEnv (cfg_env cfg))"
      using doc_values(3) [of cfg sel "''env''"] by (cases "map_of ?d ''env''") blast+
    then show ?thesis
    proof
      assume d: "map_of ?d ''env'' = Some (DEnv (cfg_env cfg))"
      show ?thesis using n
        by (cases "\<exists>p. fmlookup e ''env'' = Some (JObj p)")
          (auto simp: env_value_def look d merge_at_def set_env_lookup split: option.splits json.splits)
    qed (simp add: env_value_def look)
  qed
  ultimately show ?thesis by blast
qed

definition user_hook :: json where
  "user_hook = JObj (fmap_of_list [(''hooks'', JArr [JObj (fmap_of_list [(''command'', JStr ''mine'')])])])"

definition sample_file :: obj where
  "sample_file = fmap_of_list [(''theme'', JStr ''dark''), (''hooks'', JObj (fmap_of_list [(''Stop'', JArr [user_hook])]))]"

lemma settings_merge_keeps_witness:
  "foreign_entries (hooks_of (apply_merge sample_file (build_settings_doc sample_settings None))) ''Stop'' = [user_hook]"
proof -
  have h: "\<forall>h\<in>set (cfg_hooks sample_settings). is_harnez_command (hk_command h)" by code_simp
  have f: "fmlookup sample_file ''hooks'' = Some (JObj (fmap_of_list [(''Stop'', JArr [user_hook])]))"
    by (simp add: sample_file_def)
  have "fmpred (\<lambda>_. is_array) (fmap_of_list [(''Stop'', JArr [user_hook])])" by code_simp
  with f have "fmlookup sample_file ''hooks'' = None \<or> (\<exists>h. fmlookup sample_file ''hooks'' = Some (JObj h) \<and> fmpred (\<lambda>_. is_array) h)"
    by blast
  from settings_merge_keeps [OF h this] have
    "foreign_entries (hooks_of (apply_merge sample_file (build_settings_doc sample_settings None))) ''Stop''
      = foreign_entries (hooks_of sample_file) ''Stop''" by blast
  moreover have "foreign_entries (hooks_of sample_file) ''Stop'' = [user_hook]" by code_simp
  ultimately show ?thesis by simp
qed

text \<open>A scoped selection leaves the unselected components alone: hooks stay as they are on disk when telemetry is
  not selected, the status line when usage is not.\<close>

theorem scoped_selection_untouched:
  assumes "scoped sel"
  shows "(\<not> has_component sel ''telemetry'' \<longrightarrow>
      fmlookup (apply_merge e (build_settings_doc cfg sel)) ''hooks'' = fmlookup e ''hooks'')
    \<and> (\<not> has_component sel ''usage'' \<longrightarrow>
      fmlookup (apply_merge e (build_settings_doc cfg sel)) ''statusLine'' = fmlookup e ''statusLine'')"
proof -
  have "map_of (build_settings_doc cfg sel) ''hooks'' = None" if "\<not> has_component sel ''telemetry''"
    using that assms by (auto simp: map_of_eq_None_iff build_settings_doc_def split: if_splits)
  moreover have "map_of (build_settings_doc cfg sel) ''statusLine'' = None" if "\<not> has_component sel ''usage''"
    using that assms by (auto simp: map_of_eq_None_iff build_settings_doc_def split: if_splits)
  ultimately show ?thesis by (simp add: apply_merge_lookup [OF build_distinct])
qed

lemma scoped_selection_untouched_witness:
  "fmlookup (apply_merge sample_file (build_settings_doc sample_settings
      (Some \<lparr>chosen = {Docs}, scope_mark = True\<rparr>))) ''hooks'' = fmlookup sample_file ''hooks''"
proof -
  have "scoped (Some \<lparr>chosen = {Docs}, scope_mark = True\<rparr>)" "\<not> has_component (Some \<lparr>chosen = {Docs}, scope_mark = True\<rparr>) ''telemetry''"
    by code_simp+
  with scoped_selection_untouched [of "Some \<lparr>chosen = {Docs}, scope_mark = True\<rparr>"] show ?thesis by blast
qed

section \<open>Foreign hooks in the configuration\<close>

lemma add_event_mem: "\<exists>es. (ev, es) \<in> set (add_event ev e m) \<and> e \<in> set es"
  by (induction m) (force split: if_splits)+

lemma add_event_keeps: "(ev', es) \<in> set m \<Longrightarrow> x \<in> set es \<Longrightarrow> \<exists>es'. (ev', es') \<in> set (add_event ev e m) \<and> x \<in> set es'"
  by (induction m) (force split: if_splits)+

lemma event_map_has:
  assumes "h \<in> set hs" and "\<not> is_harnez_command (hk_command h)"
  shows "\<exists>es. (hk_event h, es) \<in> set (event_map sel hs) \<and> hook_entry h \<in> set es"
proof -
  let ?f = "\<lambda>m h. if \<not> has_component sel ''telemetry'' \<and> is_harnez_command (hk_command h) then m
    else add_event (hk_event h) (hook_entry h) m"
  have keep: "\<exists>es. (ev, es) \<in> set (foldl ?f m hs) \<and> x \<in> set es" if "(ev, es) \<in> set m" "x \<in> set es" for ev es x m hs
    using that
  proof (induction hs arbitrary: m es)
    case (Cons k hs)
    obtain es' where "(ev, es') \<in> set (?f m k)" "x \<in> set es'"
      using Cons.prems add_event_keeps [of ev es m x] by (cases "\<not> has_component sel ''telemetry'' \<and> is_harnez_command (hk_command k)") auto
    from Cons.IH [OF this] show ?case by simp
  qed auto
  obtain a b where hs: "hs = a @ h # b" using assms(1) split_list by metis
  obtain es where "(hk_event h, es) \<in> set (?f (foldl ?f [] a) h)" "hook_entry h \<in> set es"
    using add_event_mem [of "hk_event h" "hook_entry h" "foldl ?f [] a"] assms(2) by auto
  from keep [OF this, of b] show ?thesis unfolding event_map_def hs by simp
qed

definition entry_count :: "json \<Rightarrow> string \<Rightarrow> obj \<Rightarrow> nat" where
  "entry_count x ev e = count_list (foreign_entries (hooks_of e) ev) x"

lemma count_concat_ge: "xs \<in> set xss \<Longrightarrow> count_list xs x \<le> count_list (concat xss) x"
  by (induction xss) auto

lemma foreign_hook_grows:
  assumes "h \<in> set (cfg_hooks cfg)" and "\<not> is_harnez_command (hk_command h)" and "\<not> (\<not> has_component sel ''telemetry'' \<and> scoped sel)"
    and "fmpred (\<lambda>_. is_array) (hooks_of e)"
  shows "entry_count (hook_entry h) (hk_event h) e < entry_count (hook_entry h) (hk_event h) (apply_merge e (build_settings_doc cfg sel))
    \<and> fmpred (\<lambda>_. is_array) (hooks_of (apply_merge e (build_settings_doc cfg sel)))"
proof -
  let ?inc = "event_map sel (cfg_hooks cfg)" and ?d = "build_settings_doc cfg sel"
  let ?kept = "case remove_harnez_hooks (fmlookup e ''hooks'') of None \<Rightarrow> fmempty | Some kept \<Rightarrow> kept"
  obtain es where es: "(hk_event h, es) \<in> set ?inc" "hook_entry h \<in> set es" using event_map_has [OF assms(1,2)] by blast
  then have "(''hooks'', DHooks ?inc) \<in> set ?d" using assms(3) by (auto simp: build_settings_doc_def)
  then have "map_of ?d ''hooks'' = Some (DHooks ?inc)" using build_distinct by (simp add: map_of_eq_Some_iff)
  then have "fmlookup (apply_merge e ?d) ''hooks'' = Some (JObj (add_hooks ?inc ?kept))"
    by (cases "fmlookup e ''hooks''") (simp_all add: apply_merge_lookup [OF build_distinct] merge_at_def)
  then have hooks: "hooks_of (apply_merge e ?d) = add_hooks ?inc ?kept" by (simp add: hooks_of_def)
  have kept: "fmpred (\<lambda>_. is_array) ?kept \<and> foreign_entries ?kept ev = foreign_entries (hooks_of e) ev" for ev
  proof (cases "\<exists>m. fmlookup e ''hooks'' = Some (JObj m)")
    case True
    then obtain m where m: "fmlookup e ''hooks'' = Some (JObj m)" by blast
    with assms(4) have "remove_harnez_hooks (fmlookup e ''hooks'') = Some (foreign_part m)"
      by (simp add: hooks_of_def remove_foreign)
    with m show ?thesis by (simp add: hooks_of_def foreign_part_arrays foreign_of_part)
  next
    case False
    then have "remove_harnez_hooks (fmlookup e ''hooks'') = None" "hooks_of e = fmempty"
      by (auto simp: remove_harnez_hooks_def hooks_of_def split: option.split json.split)
    then show ?thesis by simp
  qed
  have add: "foreign_entries (add_hooks ?inc ?kept) (hk_event h) = foreign_entries (hooks_of e) (hk_event h)
      @ concat (map (\<lambda>(ev, es). if hk_event h = ev then List.map_filter strip_entry es else []) ?inc)"
    using add_hooks_foreign [of ?kept ?inc "hk_event h"] kept by simp
  have "hook_entry h \<in> set (List.map_filter strip_entry es)"
    using es(2) hook_entry_foreign [OF assms(2)] by (force simp: List.map_filter_def)
  then have pos: "0 < count_list (List.map_filter strip_entry es) (hook_entry h)" by (metis count_list_0_iff gr0I)
  have "List.map_filter strip_entry es \<in> set (map (\<lambda>(ev, es). if hk_event h = ev then List.map_filter strip_entry es else []) ?inc)"
    using es(1) by force
  from count_concat_ge [OF this, of "hook_entry h"] pos have
    "0 < count_list (concat (map (\<lambda>(ev, es). if hk_event h = ev then List.map_filter strip_entry es else []) ?inc)) (hook_entry h)"
    by linarith
  with add have "entry_count (hook_entry h) (hk_event h) e < entry_count (hook_entry h) (hk_event h) (apply_merge e ?d)"
    by (simp add: entry_count_def hooks)
  moreover have "fmpred (\<lambda>_. is_array) (hooks_of (apply_merge e ?d))"
    using add_hooks_foreign [of ?kept ?inc] kept hooks by simp
  ultimately show ?thesis by blast
qed

text \<open>A configured hook that is not a harnez command is never recognised as its own again: every apply appends
  another copy, so that after n applies the event holds at least n.\<close>

theorem foreign_hook_duplicates:
  assumes "h \<in> set (cfg_hooks cfg)" and "\<not> is_harnez_command (hk_command h)" and "\<not> (\<not> has_component sel ''telemetry'' \<and> scoped sel)"
  shows "n \<le> entry_count (hook_entry h) (hk_event h) (((\<lambda>e. apply_merge e (build_settings_doc cfg sel)) ^^ n) fmempty)"
proof -
  have "n \<le> entry_count (hook_entry h) (hk_event h) (((\<lambda>e. apply_merge e (build_settings_doc cfg sel)) ^^ n) fmempty)
      \<and> fmpred (\<lambda>_. is_array) (hooks_of (((\<lambda>e. apply_merge e (build_settings_doc cfg sel)) ^^ n) fmempty))"
  proof (induction n)
    case 0
    then show ?case by (simp add: hooks_of_def)
  next
    case (Suc n)
    with foreign_hook_grows [OF assms, of "((\<lambda>e. apply_merge e (build_settings_doc cfg sel)) ^^ n) fmempty"] show ?case by simp
  qed
  then show ?thesis ..
qed

definition foreign_settings :: settings_config where
  "foreign_settings = sample_settings\<lparr>cfg_hooks := [\<lparr>hk_event = ''Stop'', hk_matcher = [], hk_command = ''notify-send''\<rparr>]\<rparr>"

lemma foreign_hook_duplicates_witness:
  "3 \<le> entry_count (hook_entry \<lparr>hk_event = ''Stop'', hk_matcher = [], hk_command = ''notify-send''\<rparr>) ''Stop''
    (((\<lambda>e. apply_merge e (build_settings_doc foreign_settings None)) ^^ 3) fmempty)"
proof -
  have "\<not> is_harnez_command ''notify-send''" by code_simp
  then show ?thesis
    using foreign_hook_duplicates [of "\<lparr>hk_event = ''Stop'', hk_matcher = [], hk_command = ''notify-send''\<rparr>" foreign_settings None 3]
    by (simp add: foreign_settings_def scoped_def)
qed

section \<open>The file settles\<close>

text \<open>\<open>apply\<close> settles: when the written document decodes to what was encoded, a second run after a successful one reports no
  change and leaves the file alone, and the diff finds nothing to do.\<close>

theorem apply_settings_settles:
  assumes "decode (strip_comments (encode (apply_merge (read_jsonc decode file) (build_settings_doc cfg sel)) @ [nl]))
      = Some (apply_merge (read_jsonc decode file) (build_settings_doc cfg sel))"
    and "\<forall>h\<in>set (cfg_hooks cfg). is_harnez_command (hk_command h)" and "distinct (cfg_allow cfg)" and "distinct (cfg_deny cfg)"
    and "apply_settings_json decode encode valid m w (build_settings_doc cfg sel) file = (Inr True, file')"
  shows "apply_settings_json decode encode valid m' w' (build_settings_doc cfg sel) file' = (Inr False, file')
    \<and> \<not> diff_settings_json decode encode (build_settings_doc cfg sel) file'"
proof -
  let ?d = "build_settings_doc cfg sel"
  let ?merged = "apply_merge (read_jsonc decode file) ?d"
  from assms(5) have file': "file' = Some (encode ?merged @ [nl])" and v: "valid (encode ?merged @ [nl])"
    by (auto simp: apply_settings_json_def Let_def split: if_splits)
  have "read_jsonc decode (Some x) = (case decode (strip_comments x) of None \<Rightarrow> fmempty | Some m \<Rightarrow> m)" for x
    by (simp add: read_jsonc_def)
  from this [of "encode ?merged @ [nl]"] have r: "read_jsonc decode file' = ?merged" unfolding file' assms(1) by simp
  have i: "apply_merge ?merged ?d = ?merged"
    by (rule apply_merge_settles [OF build_distinct])
      (use assms(2-4) event_map_ours [of "cfg_hooks cfg" sel] in
        \<open>auto simp: build_settings_doc_def settles_val settles_env settles_perms settles_hooks settles_nil split: if_splits\<close>)
  have "apply_settings_json decode encode valid m' w' ?d file' = (Inr False, file')"
    using v by (simp add: apply_settings_json_def Let_def r i) (simp add: file')
  moreover have "\<not> diff_settings_json decode encode ?d file'" by (simp add: diff_settings_json_def r i Let_def)
  ultimately show ?thesis by blast
qed

lemma apply_settings_settles_witness:
  "apply_settings_json (\<lambda>s. if s = ''{}'' @ [nl] then Some (apply_merge fmempty (build_settings_doc sample_settings None)) else None)
      (\<lambda>_. ''{}'') (\<lambda>_. True) True True (build_settings_doc sample_settings None) (Some (''{}'' @ [nl]))
    = (Inr False, Some (''{}'' @ [nl]))"
proof -
  let ?d = "build_settings_doc sample_settings None"
  let ?dec = "\<lambda>s. if s = ''{}'' @ [nl] then Some (apply_merge fmempty ?d) else None"
  have r: "read_jsonc ?dec None = fmempty" by (simp add: read_jsonc_def)
  have st: "strip_comments (''{}'' @ [nl]) = ''{}'' @ [nl]" by code_simp
  have 1: "?dec (strip_comments ((\<lambda>_. ''{}'') (apply_merge (read_jsonc ?dec None) ?d) @ [nl])) = Some (apply_merge (read_jsonc ?dec None) ?d)"
    unfolding r st by simp
  have 2: "\<forall>h\<in>set (cfg_hooks sample_settings). is_harnez_command (hk_command h)" by code_simp
  have 3: "distinct (cfg_allow sample_settings)" "distinct (cfg_deny sample_settings)" by (simp_all add: sample_settings_def)
  have 4: "apply_settings_json ?dec (\<lambda>_. ''{}'') (\<lambda>_. True) True True ?d None = (Inr True, Some (''{}'' @ [nl]))"
    by (simp add: apply_settings_json_def Let_def)
  from apply_settings_settles [where encode = "\<lambda>_. ''{}''", OF 1 2 3 4] show ?thesis by blast
qed

text \<open>A settings file that does not decode is lost: applying replaces it by what it would write without any file,
  so that nothing of the user's settings remains, and no error is reported.\<close>

theorem undecodable_settings_lost:
  assumes "decode (strip_comments data) = None" and "valid (encode (apply_merge fmempty d) @ [nl])"
    and "data \<noteq> encode (apply_merge fmempty d) @ [nl]"
  shows "apply_settings_json decode encode valid True True d (Some data)
    = (Inr True, Some (encode (apply_merge fmempty d) @ [nl]))"
  using assms by (simp add: apply_settings_json_def read_jsonc_def Let_def)

lemma undecodable_settings_lost_witness:
  "apply_settings_json (\<lambda>_. None) (\<lambda>_. ''{}'') (\<lambda>_. True) True True [] (Some ''{ \"model\": }'')
    = (Inr True, Some (''{}'' @ [nl]))"
  by (rule undecodable_settings_lost) simp_all

end
