(* ===== verification/Forge.thy ===== *)
theory Forge
  imports GoBase
begin

text \<open>
  Forges: remote URLs, tokens, API errors and paged listings (\<open>internal/forge/forge.go\<close>, \<open>api.go\<close>,
  \<open>pulls.go\<close>). An HTTP exchange is a parameter: \<^const>\<open>None\<close> when no response was received, else the status and
  the decoded body.
\<close>

section \<open>Remote URLs\<close>

text \<open>The last group of both expressions: the repository, without a suffix \<open>.git\<close> if something is left.\<close>

definition repo_part :: "string \<Rightarrow> string option" where
  "repo_part r =
     (if r = [] \<or> CHR ''/'' \<in> set r then None
      else if 4 < length r \<and> equal_fold (drop (length r - 4) r) ''.git'' then Some (take (length r - 4) r)
      else Some r)"

definition owner_repo :: "string \<Rightarrow> (string \<times> string) option" where
  "owner_repo s =
     (let owner = takeWhile (\<lambda>c. c \<noteq> CHR ''/'') s; rest = dropWhile (\<lambda>c. c \<noteq> CHR ''/'') s
      in if owner = [] \<or> rest = [] then None else map_option (\<lambda>r. (owner, r)) (repo_part (tl rest)))"

definition ssh_tail :: "string \<Rightarrow> (string \<times> string \<times> string) option" where
  "ssh_tail s =
     (let host = takeWhile (\<lambda>c. c \<noteq> CHR '':'' \<and> c \<noteq> CHR ''/'') s; rest = dropWhile (\<lambda>c. c \<noteq> CHR '':'' \<and> c \<noteq> CHR ''/'') s
      in if host = [] \<or> rest = [] then None else map_option (\<lambda>r. (host, r)) (owner_repo (tl rest)))"

text \<open>\<open>(?:[^@]+@)?\<close>: with the part up to the first \<open>@\<close> if there is one, else without it.\<close>

definition ssh_user :: "string \<Rightarrow> (string \<times> string \<times> string) option" where
  "ssh_user s =
     (let user = takeWhile (\<lambda>c. c \<noteq> CHR ''@'') s; rest = dropWhile (\<lambda>c. c \<noteq> CHR ''@'') s
      in case (if user = [] \<or> rest = [] then None else ssh_tail (tl rest)) of
           Some r \<Rightarrow> Some r
         | None \<Rightarrow> ssh_tail s)"

definition ssh_remote :: "string \<Rightarrow> (string \<times> string \<times> string) option" where
  "ssh_remote s =
     (case (if equal_fold (take 6 s) ''ssh://'' then ssh_user (drop 6 s) else None) of
        Some r \<Rightarrow> Some r
      | None \<Rightarrow> ssh_user s)"

definition https_tail :: "string \<Rightarrow> (string \<times> string \<times> string) option" where
  "https_tail s =
     (let host = takeWhile (\<lambda>c. c \<noteq> CHR ''/'') s; rest = dropWhile (\<lambda>c. c \<noteq> CHR ''/'') s
      in if host = [] \<or> rest = [] then None else map_option (\<lambda>r. (host, r)) (owner_repo (tl rest)))"

definition https_remote :: "string \<Rightarrow> (string \<times> string \<times> string) option" where
  "https_remote s =
     (if equal_fold (take 8 s) ''https://'' then https_tail (drop 8 s)
      else if equal_fold (take 7 s) ''http://'' then https_tail (drop 7 s)
      else None)"

definition parse_remote_url :: "string \<Rightarrow> (string \<times> string \<times> string) option" where
  "parse_remote_url raw =
     (case ssh_remote (trim_space raw) of
        Some r \<Rightarrow> Some r
      | None \<Rightarrow> https_remote (trim_space raw))"

section \<open>Requests\<close>

record forge =
  f_host :: string
  f_kind :: string
  f_api_base :: string
  f_token_env :: "string list"

record api_error =
  e_status :: int
  e_transient :: bool

definition first_token :: "(string \<Rightarrow> string) \<Rightarrow> string list \<Rightarrow> string option" where
  "first_token getenv names = find (\<lambda>v. v \<noteq> []) (map (\<lambda>n. trim_space (getenv n)) names)"

text \<open>\<open>TokenSource.For\<close>; \<open>stored\<close> and \<open>gh\<close> are \<^const>\<open>None\<close> where the source has a nil function, and \<open>gh\<close> gives
  \<^const>\<open>None\<close> on an error.\<close>

definition token_for ::
  "(string \<Rightarrow> string) \<Rightarrow> (unit \<Rightarrow> string option) option \<Rightarrow> (string \<Rightarrow> string) option \<Rightarrow> forge \<Rightarrow> string" where
  "token_for getenv gh stored fg =
     (case (if f_kind fg = ''forgejo'' then stored else None) of
        Some st \<Rightarrow>
          if trim_space (st (f_host fg)) \<noteq> [] then trim_space (st (f_host fg))
          else (case first_token getenv (f_token_env fg) of Some v \<Rightarrow> v | None \<Rightarrow> [])
      | None \<Rightarrow>
          (case first_token getenv (f_token_env fg) of
             Some v \<Rightarrow> v
           | None \<Rightarrow>
               (case (if f_kind fg = ''github'' then gh else None) of
                  Some g \<Rightarrow> (case g () of Some tok \<Rightarrow> trim_space tok | None \<Rightarrow> [])
                | None \<Rightarrow> [])))"

definition auth_header :: "forge \<Rightarrow> string \<Rightarrow> string option" where
  "auth_header fg token =
     (if token = [] then None
      else Some ((if f_kind fg = ''github'' then ''Bearer '' else ''token '') @ token))"

type_synonym 'a exchange = "string \<Rightarrow> string option \<Rightarrow> (int \<times> 'a option) option"

definition get_once :: "'a exchange \<Rightarrow> forge \<Rightarrow> string \<Rightarrow> string \<Rightarrow> api_error + 'a" where
  "get_once http fg u token =
     (case http u (auth_header fg token) of
        None \<Rightarrow> Inl \<lparr>e_status = 0, e_transient = True\<rparr>
      | Some (status, body) \<Rightarrow>
          if status \<noteq> 200 then Inl \<lparr>e_status = status, e_transient = (status = 429 \<or> 500 \<le> status)\<rparr>
          else (case body of None \<Rightarrow> Inl \<lparr>e_status = status, e_transient = False\<rparr> | Some v \<Rightarrow> Inr v))"

definition get_json :: "'a exchange \<Rightarrow> forge \<Rightarrow> string \<Rightarrow> string \<Rightarrow> api_error + 'a" where
  "get_json http fg u token =
     (case get_once http fg u token of
        Inr v \<Rightarrow> Inr v
      | Inl e \<Rightarrow>
          if token = [] \<or> e_status e \<noteq> 403 then Inl e
          else (case get_once http fg u [] of
              Inr v \<Rightarrow> Inr v
            | Inl _ \<Rightarrow> Inl \<lparr>e_status = 403, e_transient = False\<rparr>))"

section \<open>Listings\<close>

record scan_options =
  sc_page_size :: int
  sc_max_pages :: int

datatype list_error = Api api_error | TooManyPages

text \<open>The loop from \<open>page\<close> on, with \<open>left\<close> pages of the budget left; \<open>fetch\<close> is the request for one page.\<close>

fun paged_loop :: "(int \<Rightarrow> api_error + 'a list) \<Rightarrow> int \<Rightarrow> int \<Rightarrow> nat \<Rightarrow> 'a list \<Rightarrow> list_error + 'a list" where
  "paged_loop fetch psize page 0 acc = Inl TooManyPages"
| "paged_loop fetch psize page (Suc left) acc =
     (case fetch page of
        Inl e \<Rightarrow> Inl (Api e)
      | Inr items \<Rightarrow>
          if int (length items) < psize then Inr (acc @ items)
          else paged_loop fetch psize (page + 1) left (acc @ items))"

definition paged_get :: "(int \<Rightarrow> api_error + 'a list) \<Rightarrow> scan_options \<Rightarrow> list_error + 'a list" where
  "paged_get fetch opts = paged_loop fetch (sc_page_size opts) 1 (nat (sc_max_pages opts)) []"

definition page_param :: "forge \<Rightarrow> string" where
  "page_param fg = (if f_kind fg = ''github'' then ''per_page'' else ''limit'')"

fun pull_files ::
  "(int \<Rightarrow> int \<Rightarrow> api_error + string list) \<Rightarrow> scan_options \<Rightarrow> (int \<times> string) list \<Rightarrow> list_error + (int \<times> string list) list" where
  "pull_files files opts [] = Inr []"
| "pull_files files opts ((number, state) # ps) =
     (if state \<noteq> ''open'' \<or> number \<le> 0 then pull_files files opts ps
      else case paged_get (files number) opts of
        Inl e \<Rightarrow> Inl e
      | Inr fs \<Rightarrow> map_inr ((#) (number, fs)) (pull_files files opts ps))"

definition open_pulls ::
  "(int \<Rightarrow> api_error + (int \<times> string) list) \<Rightarrow> (int \<Rightarrow> int \<Rightarrow> api_error + string list) \<Rightarrow> scan_options
    \<Rightarrow> list_error + (int \<times> string list) list" where
  "open_pulls pages files opts =
     (case paged_get pages opts of Inl e \<Rightarrow> Inl e | Inr ps \<Rightarrow> pull_files files opts ps)"

section \<open>A listing is complete or an error\<close>

text \<open>A server that pages through \<open>xs\<close>.\<close>

definition serves :: "(int \<Rightarrow> api_error + 'a list) \<Rightarrow> nat \<Rightarrow> 'a list \<Rightarrow> bool" where
  "serves fetch s xs \<longleftrightarrow> (\<forall>k::nat. fetch (int k + 1) = Inr (take s (drop (k * s) xs)))"

lemma paged_loop_serves:
  assumes "serves fetch s xs" and "0 < s"
  shows "k * s \<le> length xs \<Longrightarrow> paged_loop fetch (int s) (int k + 1) n (take (k * s) xs) =
    (if length xs < (k + n) * s then Inr xs else Inl TooManyPages)"
proof (induction n arbitrary: k)
  case (Suc n)
  have f: "fetch (int k + 1) = Inr (take s (drop (k * s) xs))" using assms(1) by (simp add: serves_def)
  have next_acc: "take (k * s) xs @ take s (drop (k * s) xs) = take ((k + 1) * s) xs"
    using take_add [of "k * s" s xs] by (simp add: add.commute)
  show ?case
  proof (cases "length xs < (k + 1) * s")
    case True
    then have "length xs < (k + Suc n) * s" by (rule less_le_trans) simp
    moreover have "length xs - k * s < s" "take ((k + 1) * s) xs = xs"
      using True Suc.prems assms(2) by (simp_all add: algebra_simps)
    ultimately show ?thesis using f next_acc by (simp add: algebra_simps)
  next
    case False
    then have "(k + 1) * s \<le> length xs" by simp
    from Suc.IH [OF this] False f next_acc show ?thesis by (simp add: algebra_simps)
  qed
qed simp

text \<open>A paged listing is complete or it is an error: against a server that pages through a list, \<open>pagedGet\<close> returns
  exactly the whole list when it fits the budget with room for the short page that ends it, and reports too
  many pages otherwise; a truncated list is never returned.\<close>

theorem paged_get_complete:
  assumes "serves fetch (nat (sc_page_size opts)) xs" and "0 < sc_page_size opts"
  shows "paged_get fetch opts =
    (if length xs < nat (sc_max_pages opts) * nat (sc_page_size opts) then Inr xs else Inl TooManyPages)"
  using paged_loop_serves [OF assms(1), of 0 "nat (sc_max_pages opts)"] assms(2) by (simp add: paged_get_def)

definition sample_pages :: "int \<Rightarrow> api_error + nat list" where
  "sample_pages p = Inr (take 2 (drop (nat (p - 1) * 2) [1, 2, 3]))"

lemma paged_get_complete_witness:
  "paged_get sample_pages \<lparr>sc_page_size = 2, sc_max_pages = 5\<rparr> = Inr [1, 2, 3]"
proof -
  have "serves sample_pages (nat (sc_page_size \<lparr>sc_page_size = 2, sc_max_pages = 5\<rparr>)) [1, 2, 3]"
    by (simp add: serves_def sample_pages_def)
  from paged_get_complete [OF this] show ?thesis by simp
qed

text \<open>The token decides nothing but access: \<open>GetJSON\<close> gives the answer of the request with the token, or of the
  anonymous one after a 403, and the error of the anonymous retry is never shown.\<close>

lemma get_json_cases:
  "get_json http fg u token =
     (if \<exists>v. get_once http fg u token = Inr v then get_once http fg u token
      else if token \<noteq> [] \<and> (\<exists>e. get_once http fg u token = Inl e \<and> e_status e = 403) then
        (if \<exists>v. get_once http fg u [] = Inr v then get_once http fg u [] else Inl \<lparr>e_status = 403, e_transient = False\<rparr>)
      else get_once http fg u token)"
  by (auto simp: get_json_def split: sum.splits)

end
