(* ===== verification/PrWait.thy ===== *)
theory PrWait
  imports Forge
begin

text \<open>
  Waiting for a pull request: \<open>internal/prwait/wait.go\<close>, \<open>run.go\<close>, \<open>target.go\<close> and the fetcher of \<open>client.go\<close>.

  The world is a parameter: what the k-th request answers, the clock reading after it, and git. The loop
  has fuel; the theorem on its end says how much is enough when \<open>Sleep(d)\<close> sleeps at least \<open>d\<close>.
\<close>

section \<open>Targets\<close>

record target =
  t_forge :: forge
  t_owner :: string
  t_repo :: string
  t_number :: int

record pr_spec =
  s_remote :: string
  s_branch :: string
  s_poll :: int
  s_timeout :: int
  s_max_errors :: int
  s_forges :: "forge list"

definition forge_for :: "pr_spec \<Rightarrow> string \<Rightarrow> forge option" where
  "forge_for spec h = find (\<lambda>f. equal_fold (f_host f) h) (s_forges spec)"

definition parse_number :: "string \<Rightarrow> int option" where
  "parse_number s = (case atoi s of None \<Rightarrow> None | Some n \<Rightarrow> if n \<le> 0 then None else Some n)"

text \<open>\<open>url\<close> is \<open>url.Parse\<close>: scheme, host and path.\<close>

definition parse_pr_url ::
  "(string \<Rightarrow> (string \<times> string \<times> string) option) \<Rightarrow> string \<Rightarrow> (string \<times> string \<times> string \<times> int) option" where
  "parse_pr_url url raw =
     (case url (trim_space raw) of
        None \<Rightarrow> None
      | Some (scheme, host, path) \<Rightarrow>
          if scheme \<noteq> ''https'' \<or> host = [] then None
          else (case split_on CHR ''/'' (trim_right (trim_left path ''/'') ''/'') of
              [owner, repo, kind, num] \<Rightarrow>
                if owner = [] \<or> repo = [] \<or> (kind \<noteq> ''pulls'' \<and> kind \<noteq> ''pull'') then None
                else map_option (\<lambda>n. (host, owner, repo, n)) (parse_number num)
            | _ \<Rightarrow> None))"

definition resolve_target ::
  "(string \<Rightarrow> (string \<times> string \<times> string) option) \<Rightarrow> pr_spec \<Rightarrow> string \<Rightarrow> string \<Rightarrow> target option" where
  "resolve_target url spec arg remote_url =
     (let a = trim_space arg;
          parts = (if contains a ''://'' then parse_pr_url url a
                   else (case parse_number a of
                       None \<Rightarrow> None
                     | Some n \<Rightarrow> map_option (\<lambda>(h, ow, r). (h, ow, r, n)) (parse_remote_url remote_url)))
      in case parts of
           None \<Rightarrow> None
         | Some (host, owner, repo, n) \<Rightarrow>
             map_option (\<lambda>f. \<lparr>t_forge = f, t_owner = owner, t_repo = repo, t_number = n\<rparr>) (forge_for spec host))"

definition page_url :: "target \<Rightarrow> string" where
  "page_url t = ''https://'' @ f_host (t_forge t) @ ''/'' @ t_owner t @ ''/'' @ t_repo t @ ''/''
     @ (if f_kind (t_forge t) = ''github'' then ''pull'' else ''pulls'') @ ''/'' @ int_dec (t_number t)"

section \<open>The wait\<close>

record pull_info =
  p_state :: string
  p_merged :: bool
  p_sha :: string

datatype pr_outcome = Merged | LocalFailed | ClosedUnmerged | TimedOut | APIFailed | NotOnBranch

fun exit_code :: "pr_outcome \<Rightarrow> nat" where
  "exit_code Merged = 0"
| "exit_code LocalFailed = 1"
| "exit_code ClosedUnmerged = 2"
| "exit_code TimedOut = 3"
| "exit_code APIFailed = 4"
| "exit_code NotOnBranch = 5"

record wait_options =
  o_poll :: int
  o_timeout :: int
  o_max_errors :: int
  o_contains :: string
  o_remote :: string
  o_branch :: string

record world =
  fetch :: "nat \<Rightarrow> api_error + pull_info"
  clock :: "nat \<Rightarrow> int"
  git_fetch :: "string \<Rightarrow> bool"
  git_ancestor :: "string \<Rightarrow> string \<Rightarrow> bool option"

type_synonym pr_result = "pr_outcome \<times> pull_info"

definition no_info :: pull_info where
  "no_info = \<lparr>p_state = [], p_merged = False, p_sha = []\<rparr>"

definition after_merge :: "world \<Rightarrow> wait_options \<Rightarrow> pull_info \<Rightarrow> pr_result" where
  "after_merge w opt info =
     (if o_contains opt = [] then (Merged, info)
      else if \<not> git_fetch w (o_remote opt) then (LocalFailed, info)
      else (case git_ancestor w (o_contains opt) (o_remote opt @ ''/'' @ o_branch opt) of
          None \<Rightarrow> (LocalFailed, info)
        | Some ok \<Rightarrow> if \<not> ok then (NotOnBranch, info) else (Merged, info)))"

text \<open>The body of the loop for the answer to poll \<open>k\<close>: a result, or the new error count and last info.\<close>

definition poll_once ::
  "world \<Rightarrow> wait_options \<Rightarrow> nat \<Rightarrow> int \<Rightarrow> pull_info \<Rightarrow> pr_result + int \<times> pull_info" where
  "poll_once w opt k consecutive last_info =
     (case fetch w k of
        Inl e \<Rightarrow>
          if \<not> e_transient e then Inl (APIFailed, last_info)
          else if o_max_errors opt \<le> consecutive + 1 then Inl (APIFailed, last_info)
          else Inr (consecutive + 1, last_info)
      | Inr info \<Rightarrow>
          if p_merged info then Inl (after_merge w opt info)
          else if p_state info = ''closed'' then Inl (ClosedUnmerged, info)
          else if p_state info \<noteq> ''open'' then Inl (APIFailed, info)
          else Inr (0, info))"

text \<open>\<open>clock w 0\<close> is read for the deadline and \<open>clock w (k + 1)\<close> after poll \<open>k\<close>.\<close>

fun wait_loop :: "nat \<Rightarrow> world \<Rightarrow> wait_options \<Rightarrow> int \<Rightarrow> nat \<Rightarrow> int \<Rightarrow> pull_info \<Rightarrow> pr_result option" where
  "wait_loop 0 w opt deadline k consecutive last_info = None"
| "wait_loop (Suc n) w opt deadline k consecutive last_info =
     (case poll_once w opt k consecutive last_info of
        Inl r \<Rightarrow> Some r
      | Inr (c, info) \<Rightarrow>
          if deadline - clock w (k + 1) \<le> 0 then Some (TimedOut, info)
          else wait_loop n w opt deadline (k + 1) c info)"

definition wait_pr :: "nat \<Rightarrow> world \<Rightarrow> wait_options \<Rightarrow> pr_result option" where
  "wait_pr n w opt = wait_loop n w opt (clock w 0 + o_timeout opt) 0 0 no_info"

section \<open>The command\<close>

record request =
  q_arg :: string
  q_remote :: string
  q_timeout :: int
  q_contains :: string

definition options_for :: "pr_spec \<Rightarrow> request \<Rightarrow> wait_options" where
  "options_for spec req =
     \<lparr>o_poll = s_poll spec, o_timeout = (if q_timeout req = 0 then s_timeout spec else q_timeout req),
      o_max_errors = s_max_errors spec, o_contains = q_contains req,
      o_remote = (if q_remote req = [] then s_remote spec else q_remote req), o_branch = s_branch spec\<rparr>"

text \<open>\<open>remote_url\<close> is \<open>git remote get-url\<close>; the world may depend on the target.\<close>

definition run_pr ::
  "nat \<Rightarrow> (string \<Rightarrow> (string \<times> string \<times> string) option) \<Rightarrow> (string \<Rightarrow> string option) \<Rightarrow> (target \<Rightarrow> world)
    \<Rightarrow> pr_spec \<Rightarrow> request \<Rightarrow> pr_result option" where
  "run_pr n url remote_url w spec req =
     (if q_timeout req < 0 then Some (LocalFailed, no_info)
      else let opt = options_for spec req
        in case (if contains (q_arg req) ''://'' then Some [] else remote_url (o_remote opt)) of
             None \<Rightarrow> Some (LocalFailed, no_info)
           | Some ru \<Rightarrow>
               (case resolve_target url spec (q_arg req) ru of
                  None \<Rightarrow> Some (LocalFailed, no_info)
                | Some t \<Rightarrow> wait_pr n (w t) opt))"

definition summary :: "target \<Rightarrow> wait_options \<Rightarrow> string \<Rightarrow> pr_result \<Rightarrow> string" where
  "summary t opt timeout r =
     (case r of (res, info) \<Rightarrow>
        (case res of
           Merged \<Rightarrow> ''PR '' @ int_dec (t_number t) @ '' merged: state='' @ p_state info @ '' merged=''
             @ (if p_merged info then ''true'' else ''false'') @ '' merge_commit='' @ p_sha info @ '' url='' @ page_url t
             @ (if o_contains opt \<noteq> [] then '' contains='' @ o_contains opt @ '' on '' @ o_remote opt @ ''/'' @ o_branch opt else [])
         | ClosedUnmerged \<Rightarrow> ''PR '' @ int_dec (t_number t) @ '' closed without merge: state='' @ p_state info
             @ '' merged=false url='' @ page_url t
         | TimedOut \<Rightarrow> ''PR '' @ int_dec (t_number t) @ '' still open after '' @ timeout @ '': state=''
             @ (if p_state info = [] then ''unknown'' else p_state info) @ '' url='' @ page_url t
         | NotOnBranch \<Rightarrow> ''PR '' @ int_dec (t_number t) @ '' merged as '' @ p_sha info @ '', but '' @ o_contains opt
             @ '' is not on '' @ o_remote opt @ ''/'' @ o_branch opt @ '': url='' @ page_url t
         | _ \<Rightarrow> []))"

section \<open>The wait ends\<close>

text \<open>\<open>Sleep(d)\<close> sleeps at least \<open>d\<close>, so that the clock moves by the poll interval or past the deadline.\<close>

definition sleeps :: "world \<Rightarrow> wait_options \<Rightarrow> bool" where
  "sleeps w opt \<longleftrightarrow> (\<forall>k. let r = clock w 0 + o_timeout opt - clock w (k + 1)
     in 0 < r \<longrightarrow> clock w (k + 1) + min (o_poll opt) r \<le> clock w (k + 2))"

lemma wait_loop_ends:
  assumes "sleeps w opt" and "0 < o_poll opt" and "deadline = clock w 0 + o_timeout opt"
  shows "deadline - clock w (k + 1) \<le> int m * o_poll opt \<Longrightarrow> m < n \<Longrightarrow>
    \<exists>r. wait_loop n w opt deadline k c info = Some r"
proof (induction m arbitrary: n k c info)
  case 0
  then obtain n' where "n = Suc n'" by (cases n) auto
  with 0 show ?case by (auto split: sum.split)
next
  case (Suc m)
  then obtain n' where n: "n = Suc n'" "m < n'" by (cases n) auto
  let ?r = "deadline - clock w (k + 1)"
  show ?case
  proof (cases "?r \<le> 0")
    case True
    with n show ?thesis by (auto split: sum.split)
  next
    case False
    then have "clock w (k + 1) + min (o_poll opt) ?r \<le> clock w (k + 2)"
      using assms(1,3) by (simp add: sleeps_def Let_def)
    then have "deadline - clock w (k + 1 + 1) \<le> max 0 (?r - o_poll opt)" by (simp add: min_def max_def split: if_splits)
    also have "\<dots> \<le> int m * o_poll opt" using Suc.prems(1) assms(2) by (simp add: algebra_simps)
    finally have "\<exists>r. wait_loop n' w opt deadline (k + 1) c' info' = Some r" for c' info' using Suc.IH n(2) by blast
    with n(1) show ?thesis by (auto split: sum.split)
  qed
qed


section \<open>What the verdict says\<close>

definition waiting :: "world \<Rightarrow> nat \<Rightarrow> bool" where
  "waiting w k \<longleftrightarrow> (case fetch w k of Inl e \<Rightarrow> e_transient e | Inr i \<Rightarrow> \<not> p_merged i \<and> p_state i = ''open'')"

text \<open>The number of errors in a row before poll \<open>k\<close>.\<close>

fun streak :: "world \<Rightarrow> nat \<Rightarrow> int" where
  "streak w 0 = 0"
| "streak w (Suc k) = (case fetch w k of Inl _ \<Rightarrow> streak w k + 1 | Inr _ \<Rightarrow> 0)"

definition verdict_at :: "world \<Rightarrow> wait_options \<Rightarrow> int \<Rightarrow> nat \<Rightarrow> pr_result \<Rightarrow> bool" where
  "verdict_at w opt deadline k r \<longleftrightarrow>
     fst r = TimedOut \<and> waiting w k \<and> deadline \<le> clock w (k + 1)
     \<or> (\<exists>i. fetch w k = Inr i \<and> p_merged i \<and> r = after_merge w opt i)
     \<or> (\<exists>i. fetch w k = Inr i \<and> \<not> p_merged i \<and> p_state i = ''closed'' \<and> r = (ClosedUnmerged, i))
     \<or> fst r = APIFailed \<and> (\<not> waiting w k \<or> o_max_errors opt \<le> streak w (Suc k))"

lemma wait_loop_verdict:
  "wait_loop n w opt deadline k c info = Some r \<Longrightarrow> c = streak w k \<Longrightarrow>
    \<exists>m\<ge>k. (\<forall>j. k \<le> j \<longrightarrow> j < m \<longrightarrow> waiting w j \<and> clock w (j + 1) < deadline) \<and> verdict_at w opt deadline m r"
proof (induction n arbitrary: k c info)
  case (Suc n)
  show ?case
  proof (cases "poll_once w opt k c info")
    case (Inl r')
    with Suc.prems have "verdict_at w opt deadline k r"
      by (auto simp: poll_once_def verdict_at_def waiting_def split: sum.splits if_splits)
    then show ?thesis by auto
  next
    case (Inr ci)
    then obtain c' i where ci: "poll_once w opt k c info = Inr (c', i)" by (cases ci) simp
    then have w: "waiting w k" and c': "c' = streak w (Suc k)"
      using Suc.prems(2) by (auto simp: poll_once_def waiting_def split: sum.splits if_splits)
    show ?thesis
    proof (cases "deadline - clock w (k + 1) \<le> 0")
      case True
      with Suc.prems(1) ci w have "verdict_at w opt deadline k r" by (auto simp: verdict_at_def)
      then show ?thesis by auto
    next
      case False
      with Suc.prems(1) ci have "wait_loop n w opt deadline (Suc k) c' i = Some r" by simp
      from Suc.IH [OF this c'] obtain m where m: "Suc k \<le> m" "verdict_at w opt deadline m r"
        "\<forall>j. Suc k \<le> j \<longrightarrow> j < m \<longrightarrow> waiting w j \<and> clock w (j + 1) < deadline" by blast
      have "waiting w j \<and> clock w (j + 1) < deadline" if "k \<le> j" "j < m" for j
        using that w False m(3) by (cases "j = k") auto
      with m show ?thesis by (intro exI [of _ m]) auto
    qed
  qed
qed simp

text \<open>The result is the first verdict: until some poll every answer was an open pull request or a transient error
  and the time was not over, and the result is what that poll says: merged, with the ancestor check if one
  was asked for, closed without merge, an error that is permanent or one too many in a row, or the timeout.
  Exit code 0 means that the forge said merged and that a commit asked for is on the branch.\<close>

theorem wait_pr_verdict:
  assumes "wait_pr n w opt = Some r"
  shows "(\<exists>k. (\<forall>j<k. waiting w j \<and> clock w (j + 1) < clock w 0 + o_timeout opt)
        \<and> verdict_at w opt (clock w 0 + o_timeout opt) k r)
    \<and> (exit_code (fst r) = 0 \<longrightarrow> (\<exists>k. fetch w k = Inr (snd r)) \<and> p_merged (snd r)
        \<and> (o_contains opt \<noteq> [] \<longrightarrow> git_ancestor w (o_contains opt) (o_remote opt @ ''/'' @ o_branch opt) = Some True))"
proof -
  from wait_loop_verdict [OF assms [unfolded wait_pr_def]] obtain k where k:
    "\<forall>j<k. waiting w j \<and> clock w (j + 1) < clock w 0 + o_timeout opt" "verdict_at w opt (clock w 0 + o_timeout opt) k r" by auto
  have "(\<exists>k. fetch w k = Inr (snd r)) \<and> p_merged (snd r)
      \<and> (o_contains opt \<noteq> [] \<longrightarrow> git_ancestor w (o_contains opt) (o_remote opt @ ''/'' @ o_branch opt) = Some True)"
    if "exit_code (fst r) = 0"
  proof -
    from that have "fst r = Merged" by (cases "fst r") auto
    with k(2) obtain i where i: "fetch w k = Inr i" "p_merged i" "r = after_merge w opt i" by (auto simp: verdict_at_def)
    with \<open>fst r = Merged\<close> have "snd r = i" "o_contains opt \<noteq> [] \<longrightarrow> git_ancestor w (o_contains opt) (o_remote opt @ ''/'' @ o_branch opt) = Some True"
      by (auto simp: after_merge_def split: if_splits option.splits)
    with i show ?thesis by auto
  qed
  with k show ?thesis by blast
qed

section \<open>A concrete wait\<close>

definition open_info :: pull_info where
  "open_info = \<lparr>p_state = ''open'', p_merged = False, p_sha = []\<rparr>"

definition merged_info :: pull_info where
  "merged_info = \<lparr>p_state = ''closed'', p_merged = True, p_sha = ''abc''\<rparr>"

definition sample_wait_world :: world where
  "sample_wait_world = \<lparr>fetch = (\<lambda>k. if k < 2 then Inr open_info else Inr merged_info), clock = (\<lambda>k. int k * 10),
     git_fetch = (\<lambda>_. True), git_ancestor = (\<lambda>_ _. Some True)\<rparr>"

definition sample_wait :: wait_options where
  "sample_wait = \<lparr>o_poll = 10, o_timeout = 100, o_max_errors = 3, o_contains = ''abc'', o_remote = ''origin'', o_branch = ''main''\<rparr>"


lemma wait_pr_verdict_witness:
  "wait_pr 12 sample_wait_world sample_wait = Some (Merged, merged_info) \<and> p_merged merged_info"
proof -
  have r: "wait_pr 12 sample_wait_world sample_wait = Some (Merged, merged_info)" by code_simp
  from wait_pr_verdict [OF r] r show ?thesis by simp
qed

end
