(* ===== verification/Ansi.thy ===== *)
theory Ansi
  imports GoBase
begin

text \<open>
  The terminal sanitizer of the chat view: \<open>internal/tui/ansi.go\<close>. Content is a list of code points. The
  combining marks of the unicode tables and what the loom package does (display width, the sequences of a
  style, parsing a sequence into one) are a parameter. A line is kept as the pieces written to it, so that a
  lemma can say where each came from; \<open>render\<close> gives the text.
\<close>

section \<open>Tokens\<close>

type_synonym runes = "int list"

datatype ansi_token = Sgr runes | Newline | Tab | Cluster runes

definition is_control :: "int \<Rightarrow> bool" where
  "is_control r \<longleftrightarrow> r < 32 \<or> (127 \<le> r \<and> r < 160)"

definition is_regional :: "int \<Rightarrow> bool" where
  "is_regional r \<longleftrightarrow> 0x1F1E6 \<le> r \<and> r \<le> 0x1F1FF"

definition sgr_params :: "runes \<Rightarrow> bool" where
  "sgr_params p \<longleftrightarrow> list_all (\<lambda>r. (48 \<le> r \<and> r \<le> 57) \<or> r = 59) p"

text \<open>The body of a control string; an unterminated one is dropped up to the end of the line.\<close>

fun skip_string :: "runes \<Rightarrow> runes" where
  "skip_string [] = []"
| "skip_string (r # rs) =
     (if r = 0x07 \<or> r = 0x9c then rs
      else if r = 10 then r # rs
      else if r = 0x1b \<and> (case rs of [] \<Rightarrow> False | c # _ \<Rightarrow> c = 0x5c) then tl rs
      else skip_string rs)"

text \<open>The body of a CSI; \<open>esc\<close> says that it was introduced by ESC and not by the C1 control.\<close>

definition skip_csi :: "bool \<Rightarrow> runes \<Rightarrow> runes \<times> runes option" where
  "skip_csi esc rs =
     (let params = takeWhile (\<lambda>r. 0x30 \<le> r \<and> r \<le> 0x3f) rs;
          rs1 = dropWhile (\<lambda>r. 0x30 \<le> r \<and> r \<le> 0x3f) rs;
          rs2 = dropWhile (\<lambda>r. 0x20 \<le> r \<and> r \<le> 0x2f) rs1
      in case rs2 of
           [] \<Rightarrow> ([], None)
         | c # rest \<Rightarrow>
             if c < 0x40 \<or> 0x7e < c then (rs2, None)
             else if c = 0x6d \<and> rs2 = rs1 \<and> esc \<and> sgr_params params then (rest, Some ([0x1b, 0x5b] @ params @ [0x6d]))
             else (rest, None))"

text \<open>What follows an ESC.\<close>

definition skip_escape :: "runes \<Rightarrow> runes \<times> runes option" where
  "skip_escape rs =
     (case rs of
        [] \<Rightarrow> ([], None)
      | c # t \<Rightarrow>
          if c = 0x5b then skip_csi True t
          else if c \<in> {0x5d, 0x50, 0x58, 0x5e, 0x5f} then (skip_string t, None)
          else if 0x20 \<le> c \<and> c \<le> 0x2f then
            (case dropWhile (\<lambda>r. 0x20 \<le> r \<and> r \<le> 0x2f) rs of
               [] \<Rightarrow> ([], None)
             | d # u \<Rightarrow> (if 0x30 \<le> d \<and> d \<le> 0x7e then u else d # u, None))
          else if 0x30 \<le> c \<and> c \<le> 0x7e then (t, None)
          else (rs, None))"

text \<open>The runes that join the cluster of the rune before them, and the rest.\<close>

fun cluster_rest :: "(int \<Rightarrow> bool) \<Rightarrow> runes \<Rightarrow> runes \<times> runes" where
  "cluster_rest mark [] = ([], [])"
| "cluster_rest mark [n] = (if n = 0x200D \<or> n = 0xFE0F \<or> n = 0xFE0E \<or> mark n then ([n], []) else ([], [n]))"
| "cluster_rest mark (n # c # t) =
     (if n = 0x200D then
        (if \<not> is_control c then (case cluster_rest mark t of (a, b) \<Rightarrow> (n # c # a, b))
         else (case cluster_rest mark (c # t) of (a, b) \<Rightarrow> (n # a, b)))
      else if n = 0xFE0F \<or> n = 0xFE0E \<or> mark n then (case cluster_rest mark (c # t) of (a, b) \<Rightarrow> (n # a, b))
      else ([], n # c # t))"

definition cluster :: "(int \<Rightarrow> bool) \<Rightarrow> int \<Rightarrow> runes \<Rightarrow> runes \<times> runes" where
  "cluster mark r rs =
     (case rs of
        q # t \<Rightarrow> if is_regional r \<and> is_regional q then ([r, q], t)
                else (case cluster_rest mark rs of (a, b) \<Rightarrow> (r # a, b))
      | [] \<Rightarrow> ([r], []))"

lemma skip_string_le: "length (skip_string rs) \<le> length rs"
  by (induction rs rule: skip_string.induct) auto

lemma dropWhile_le: "length (dropWhile P xs) \<le> length xs"
  by (induction xs) auto

lemma skip_csi_le: "length (fst (skip_csi e rs)) \<le> length rs"
proof -
  define d where "d = dropWhile (\<lambda>r. 0x20 \<le> r \<and> r \<le> 0x2f) (dropWhile (\<lambda>r. 0x30 \<le> r \<and> r \<le> 0x3f) rs)"
  have "length d \<le> length rs" unfolding d_def by (meson dropWhile_le le_trans)
  then show ?thesis unfolding skip_csi_def Let_def d_def [symmetric] by (cases d) auto
qed

lemma skip_escape_le: "length (fst (skip_escape rs)) \<le> length rs"
proof (cases rs)
  case (Cons c t)
  define d where "d = dropWhile (\<lambda>r. 0x20 \<le> r \<and> r \<le> 0x2f) rs"
  have "length d \<le> length rs" unfolding d_def by (rule dropWhile_le)
  then show ?thesis
    using skip_csi_le [of True t] skip_string_le [of t] Cons
    unfolding skip_escape_def d_def [symmetric] by (cases d) auto
qed (simp add: skip_escape_def)

lemma cluster_rest_split: "cluster_rest mark rs = (a, b) \<Longrightarrow> rs = a @ b"
  by (induction mark rs arbitrary: a b rule: cluster_rest.induct) (auto split: if_splits prod.splits)

lemma cluster_split: "cluster mark r rs = (a, b) \<Longrightarrow> r # rs = a @ b \<and> a \<noteq> []"
  by (cases rs) (auto simp: cluster_def dest: cluster_rest_split split: if_splits prod.splits)

lemma skip_escape_less: "(a, b) = skip_escape rs \<Longrightarrow> length a < Suc (length rs)"
  using skip_escape_le [of rs] by (metis fst_conv le_imp_less_Suc)

lemma cluster_less: "(a, b) = cluster mark r rs \<Longrightarrow> length b < Suc (length rs)"
proof -
  assume "(a, b) = cluster mark r rs"
  then have "r # rs = a @ b" "a \<noteq> []" using cluster_split [of mark r rs a b] by auto
  then have "length b < length (r # rs)" by (metis length_append length_greater_0_conv less_add_same_cancel2)
  then show ?thesis by simp
qed

function ansi_tokens :: "(int \<Rightarrow> bool) \<Rightarrow> runes \<Rightarrow> ansi_token list" where
  "ansi_tokens mark [] = []"
| "ansi_tokens mark (r # rs) =
     (if r = 0x1b then
        (case skip_escape rs of (rest, tok) \<Rightarrow>
           (case tok of Some s \<Rightarrow> [Sgr s] | None \<Rightarrow> []) @ ansi_tokens mark rest)
      else if r = 0x9b then ansi_tokens mark (fst (skip_csi False rs))
      else if r = 0x90 \<or> r = 0x9d \<or> r = 0x98 \<or> r = 0x9e \<or> r = 0x9f then ansi_tokens mark (skip_string rs)
      else if r = 10 then Newline # ansi_tokens mark rs
      else if r = 9 then Tab # ansi_tokens mark rs
      else if is_control r then ansi_tokens mark rs
      else (case cluster mark r rs of (c, rest) \<Rightarrow> Cluster c # ansi_tokens mark rest))"
  by pat_completeness auto
termination
  by (relation "measure (\<lambda>(mark, rs). length rs)")
    (auto simp: skip_csi_le skip_string_le le_imp_less_Suc dest: skip_escape_less cluster_less)

section \<open>Wrapping\<close>

record 's loom =
  plain :: 's
  ansi_of :: "'s \<Rightarrow> runes"
  parse_ansi :: "runes \<Rightarrow> 's list"
  string_width :: "runes \<Rightarrow> nat"
  mark_rune :: "int \<Rightarrow> bool"

datatype 's piece = Text runes nat | Space | Kept runes | Reset | Reopen 's

definition sgr_reset :: runes where
  "sgr_reset = [0x1b, 0x5b, 48, 0x6d]"

fun render :: "'s loom \<Rightarrow> 's piece \<Rightarrow> runes" where
  "render l (Text t w) = t"
| "render l Space = [32]"
| "render l (Kept s) = s"
| "render l Reset = sgr_reset"
| "render l (Reopen s) = ansi_of l s"

definition apply_sgr :: "'s loom \<Rightarrow> 's \<Rightarrow> runes \<Rightarrow> 's" where
  "apply_sgr l style s =
     (let cells = parse_ansi l (ansi_of l style @ s @ [32]) in if cells = [] then style else last cells)"

record 's wrap_state =
  done_lines :: "'s piece list list"
  cur_line :: "'s piece list"
  cur_style :: 's
  cur_col :: nat

definition flush_line :: "'s loom \<Rightarrow> 's wrap_state \<Rightarrow> 's wrap_state" where
  "flush_line l st =
     (let styled = (cur_style st \<noteq> plain l)
      in st\<lparr>done_lines := done_lines st @ [cur_line st @ (if styled then [Reset] else [])],
            cur_line := (if styled then [Reopen (cur_style st)] else []), cur_col := 0\<rparr>)"

definition put_piece :: "'s loom \<Rightarrow> nat \<Rightarrow> 's piece \<Rightarrow> nat \<Rightarrow> 's wrap_state \<Rightarrow> 's wrap_state" where
  "put_piece l width p w st =
     (let st' = (if 0 < width \<and> 0 < cur_col st \<and> width < cur_col st + w then flush_line l st else st)
      in st'\<lparr>cur_line := cur_line st' @ [p], cur_col := cur_col st' + w\<rparr>)"

fun put_token :: "'s loom \<Rightarrow> nat \<Rightarrow> ansi_token \<Rightarrow> 's wrap_state \<Rightarrow> 's wrap_state" where
  "put_token l width (Sgr s) st =
     st\<lparr>cur_line := cur_line st @ [Kept s], cur_style := apply_sgr l (cur_style st) s\<rparr>"
| "put_token l width Newline st = flush_line l st"
| "put_token l width Tab st = (put_piece l width Space 1 ^^ (8 - cur_col st mod 8)) st"
| "put_token l width (Cluster c) st = put_piece l width (Text c (string_width l c)) (string_width l c) st"

definition wrap_pieces :: "'s loom \<Rightarrow> runes \<Rightarrow> nat \<Rightarrow> 's piece list list" where
  "wrap_pieces l content width =
     done_lines (flush_line l (fold (put_token l width) (ansi_tokens (mark_rune l) content)
       \<lparr>done_lines = [], cur_line = [], cur_style = plain l, cur_col = 0\<rparr>))"

definition wrap_ansi :: "'s loom \<Rightarrow> runes \<Rightarrow> nat \<Rightarrow> runes list" where
  "wrap_ansi l content width = map (\<lambda>ps. concat (map (render l) ps)) (wrap_pieces l content width)"

fun join_runes :: "runes list \<Rightarrow> runes" where
  "join_runes [] = []"
| "join_runes [x] = x"
| "join_runes (x # xs) = x @ 10 # join_runes xs"

definition sanitize_lines :: "'s loom \<Rightarrow> runes list \<Rightarrow> runes list" where
  "sanitize_lines l xs = (if xs = [] then [] else wrap_ansi l (join_runes xs) 0)"

section \<open>Tokens are safe\<close>

definition sgr_form :: "runes \<Rightarrow> bool" where
  "sgr_form s \<longleftrightarrow> (\<exists>p. s = [0x1b, 0x5b] @ p @ [0x6d] \<and> sgr_params p)"

definition clean_text :: "runes \<Rightarrow> bool" where
  "clean_text c \<longleftrightarrow> c \<noteq> [] \<and> list_all (\<lambda>r. \<not> is_control r) c"

fun token_ok :: "ansi_token \<Rightarrow> bool" where
  "token_ok (Sgr s) = sgr_form s"
| "token_ok Newline = True"
| "token_ok Tab = True"
| "token_ok (Cluster c) = clean_text c"

lemma skip_csi_form: "skip_csi e rs = (rest, Some s) \<Longrightarrow> sgr_form s"
proof -
  assume s: "skip_csi e rs = (rest, Some s)"
  define d where "d = dropWhile (\<lambda>r. 0x20 \<le> r \<and> r \<le> 0x2f) (dropWhile (\<lambda>r. 0x30 \<le> r \<and> r \<le> 0x3f) rs)"
  from s show ?thesis unfolding skip_csi_def Let_def d_def [symmetric] sgr_form_def
    by (cases d) (auto split: if_splits)
qed

lemma skip_escape_form: "skip_escape rs = (rest, Some s) \<Longrightarrow> sgr_form s"
  by (auto simp: skip_escape_def dest: skip_csi_form split: list.splits if_splits)

definition marks_printable :: "(int \<Rightarrow> bool) \<Rightarrow> bool" where
  "marks_printable mark \<longleftrightarrow> (\<forall>r. mark r \<longrightarrow> \<not> is_control r)"

lemma cluster_rest_clean:
  "marks_printable mark \<Longrightarrow> cluster_rest mark rs = (a, b) \<Longrightarrow> list_all (\<lambda>r. \<not> is_control r) a"
proof (induction mark rs arbitrary: a b rule: cluster_rest.induct)
  case (2 mark n)
  then show ?case by (auto simp: marks_printable_def is_control_def split: if_splits)
next
  case (3 mark n c t)
  have j: "\<not> is_control 0x200D" "\<not> is_control 0xFE0F" "\<not> is_control 0xFE0E" by (simp_all add: is_control_def)
  show ?case
  proof (cases "n = 0x200D \<or> n = 0xFE0F \<or> n = 0xFE0E \<or> mark n")
    case True
    then have "\<not> is_control n" using j 3(4) by (auto simp: marks_printable_def)
    with 3 True show ?thesis by (auto split: if_splits prod.splits)
  next
    case False
    with 3(5) show ?thesis by auto
  qed
qed simp

lemma cluster_clean:
  assumes "marks_printable mark" and "\<not> is_control r" and "cluster mark r rs = (a, b)"
  shows "clean_text a"
proof (cases rs)
  case (Cons q t)
  have "\<not> is_control q" if "is_regional q" using that by (simp add: is_regional_def is_control_def)
  with Cons assms show ?thesis
    by (auto simp: cluster_def clean_text_def dest: cluster_rest_clean split: if_splits prod.splits)
qed (use assms in \<open>auto simp: cluster_def clean_text_def\<close>)

lemma tokens_ok: "marks_printable mark \<Longrightarrow> list_all token_ok (ansi_tokens mark rs)"
proof (induction mark rs rule: ansi_tokens.induct)
  case (2 mark r rs)
  then show ?case
    using skip_escape_form [of rs] cluster_clean [OF 2(8), of r rs]
    by (auto split: prod.splits option.splits)
qed simp

section \<open>Lines\<close>

fun piece_ok :: "'s loom \<Rightarrow> 's piece \<Rightarrow> bool" where
  "piece_ok l (Text t w) = (clean_text t \<and> w = string_width l t)"
| "piece_ok l (Kept s) = sgr_form s"
| "piece_ok l _ = True"

fun piece_width :: "'s piece \<Rightarrow> nat" where
  "piece_width (Text t w) = w"
| "piece_width Space = 1"
| "piece_width _ = 0"

definition line_width :: "'s piece list \<Rightarrow> nat" where
  "line_width ps = sum_list (map piece_width ps)"

fun piece_tokens :: "'s piece \<Rightarrow> ansi_token list" where
  "piece_tokens (Text t w) = [Cluster t]"
| "piece_tokens (Kept s) = [Sgr s]"
| "piece_tokens _ = []"

fun kept_token :: "ansi_token \<Rightarrow> bool" where
  "kept_token (Cluster _) = True"
| "kept_token (Sgr _) = True"
| "kept_token _ = False"

fun token_fits :: "'s loom \<Rightarrow> nat \<Rightarrow> ansi_token \<Rightarrow> bool" where
  "token_fits l width (Cluster c) = (string_width l c \<le> width)"
| "token_fits l width _ = True"

definition all_lines :: "'s wrap_state \<Rightarrow> 's piece list list" where
  "all_lines st = done_lines st @ [cur_line st]"

definition line_ok :: "'s loom \<Rightarrow> nat \<Rightarrow> 's piece list \<Rightarrow> bool" where
  "line_ok l width ps \<longleftrightarrow> list_all (piece_ok l) ps \<and> (0 < width \<longrightarrow> line_width ps \<le> width)"

definition wrap_inv :: "'s loom \<Rightarrow> nat \<Rightarrow> ansi_token list \<Rightarrow> 's wrap_state \<Rightarrow> bool" where
  "wrap_inv l width ts st \<longleftrightarrow> list_all (line_ok l width) (all_lines st) \<and> cur_col st = line_width (cur_line st)
     \<and> concat (map piece_tokens (concat (all_lines st))) = filter kept_token ts"

lemma line_width_simps [simp]:
  "line_width [] = 0" "line_width (ps @ qs) = line_width ps + line_width qs" "line_width (p # ps) = piece_width p + line_width ps"
  by (simp_all add: line_width_def)

lemma flush_inv: "wrap_inv l width ts st \<Longrightarrow> wrap_inv l width ts (flush_line l st) \<and> cur_col (flush_line l st) = 0"
  by (auto simp: wrap_inv_def flush_line_def all_lines_def line_ok_def Let_def)

lemma put_inv:
  assumes "wrap_inv l width ts st" and "piece_ok l p" and "w = piece_width p" and "0 < width \<longrightarrow> w \<le> width"
    and "filter kept_token ts' = filter kept_token ts @ piece_tokens p"
  shows "wrap_inv l width ts' (put_piece l width p w st)"
proof -
  let ?st = "if 0 < width \<and> 0 < cur_col st \<and> width < cur_col st + w then flush_line l st else st"
  have i: "wrap_inv l width ts ?st" and c: "0 < width \<longrightarrow> cur_col ?st + w \<le> width"
    using assms(1,4) flush_inv [OF assms(1)] by auto
  have "put_piece l width p w st = ?st\<lparr>cur_line := cur_line ?st @ [p], cur_col := cur_col ?st + w\<rparr>"
    by (simp add: put_piece_def Let_def)
  with i c assms(2,3,5) show ?thesis
    by (auto simp: wrap_inv_def all_lines_def line_ok_def)
qed

lemma put_spaces: "wrap_inv l width ts st \<Longrightarrow> wrap_inv l width ts ((put_piece l width Space 1 ^^ n) st)"
  by (induction n) (auto intro!: put_inv)

lemma put_token_inv:
  assumes "wrap_inv l width ts st" and "token_ok t" and "0 < width \<longrightarrow> token_fits l width t"
  shows "wrap_inv l width (ts @ [t]) (put_token l width t st)"
proof (cases t)
  case (Sgr s)
  with assms show ?thesis by (auto simp: wrap_inv_def all_lines_def line_ok_def)
next
  case Newline
  with flush_inv [OF assms(1)] show ?thesis by (simp add: wrap_inv_def)
next
  case Tab
  with put_spaces [OF assms(1)] show ?thesis by (simp add: wrap_inv_def)
next
  case (Cluster c)
  with assms show ?thesis by (auto intro!: put_inv)
qed

lemma put_tokens_inv:
  "wrap_inv l width ts0 st \<Longrightarrow> list_all token_ok ts \<Longrightarrow> 0 < width \<longrightarrow> list_all (token_fits l width) ts \<Longrightarrow>
    wrap_inv l width (ts0 @ ts) (fold (put_token l width) ts st)"
proof (induction ts arbitrary: ts0 st)
  case (Cons t ts)
  have "wrap_inv l width (ts0 @ [t]) (put_token l width t st)" using Cons.prems by (intro put_token_inv) auto
  from Cons.IH [OF this] Cons.prems show ?case by simp
qed simp

text \<open>Untrusted content cannot control the terminal, and none of it is lost: every line is made of printable
  clusters without any control character, spaces, colour sequences that were plain SGR in the content, and
  resets and reopenings of the style; the clusters and sequences of the lines are those of the content in
  order; and with a positive width no line is wider than it, as long as no single cluster is.\<close>

theorem wrap_ansi_safe:
  assumes "marks_printable (mark_rune l)"
    and "\<forall>c. Cluster c \<in> set (ansi_tokens (mark_rune l) content) \<longrightarrow> string_width l c \<le> width \<or> width = 0"
  shows "wrap_ansi l content width = map (\<lambda>ps. concat (map (render l) ps)) (wrap_pieces l content width)
    \<and> (\<forall>ps\<in>set (wrap_pieces l content width). list_all (piece_ok l) ps \<and> (0 < width \<longrightarrow> line_width ps \<le> width))
    \<and> concat (map piece_tokens (concat (wrap_pieces l content width))) = filter kept_token (ansi_tokens (mark_rune l) content)"
proof -
  let ?st = "\<lparr>done_lines = [], cur_line = [], cur_style = plain l, cur_col = 0\<rparr>"
  let ?ts = "ansi_tokens (mark_rune l) content"
  have fits: "0 < width \<longrightarrow> list_all (token_fits l width) ?ts"
    unfolding list_all_iff
  proof (intro impI ballI)
    fix t assume "0 < width" "t \<in> set ?ts"
    with assms(2) show "token_fits l width t" by (cases t) auto
  qed
  have "wrap_inv l width [] ?st" by (simp add: wrap_inv_def all_lines_def line_ok_def)
  note tokens = put_tokens_inv [OF this tokens_ok [OF assms(1)] fits]
  define st where "st = flush_line l (fold (put_token l width) ?ts ?st)"
  have inv: "wrap_inv l width ?ts st"
    unfolding st_def using flush_inv [OF tokens] by simp
  have cur: "concat (map piece_tokens (cur_line st)) = []" by (simp add: st_def flush_line_def Let_def)
  have lines: "wrap_pieces l content width = done_lines st" by (simp add: wrap_pieces_def st_def)
  from inv cur have "concat (map piece_tokens (concat (done_lines st))) = filter kept_token ?ts"
    by (simp add: wrap_inv_def all_lines_def)
  moreover from inv have "\<forall>ps\<in>set (done_lines st). list_all (piece_ok l) ps \<and> (0 < width \<longrightarrow> line_width ps \<le> width)"
    by (simp add: wrap_inv_def all_lines_def line_ok_def list_all_iff)
  ultimately show ?thesis unfolding wrap_ansi_def lines by blast
qed

text \<open>A loom whose styles are the last sequence, every cluster one column wide.\<close>

definition sample_cells :: "runes \<Rightarrow> runes list" where
  "sample_cells s = (if s = [32] then [] else [butlast s])"

definition sample_loom :: "runes loom" where
  "sample_loom = \<lparr>plain = [], ansi_of = (\<lambda>s. s), parse_ansi = sample_cells,
     string_width = (\<lambda>_. 1), mark_rune = (\<lambda>_. False)\<rparr>"

text \<open>A red letter, an OSC 52 clipboard write, a cursor movement and two more letters.\<close>

definition sample_content :: runes where
  "sample_content = [0x1b, 0x5b, 51, 49, 0x6d, 65, 0x1b, 0x5d, 53, 50, 59, 99, 7, 0x1b, 0x5b, 50, 0x4a, 66, 67]"

lemma wrap_ansi_safe_witness:
  "wrap_ansi sample_loom sample_content 2 =
      [[0x1b, 0x5b, 51, 49, 0x6d, 65, 66] @ sgr_reset, [0x1b, 0x5b, 51, 49, 0x6d, 67] @ sgr_reset]
    \<and> list_all (\<lambda>ps. line_width ps \<le> 2) (wrap_pieces sample_loom sample_content 2)"
proof -
  have "marks_printable (mark_rune sample_loom)" by (simp add: marks_printable_def sample_loom_def)
  moreover have "string_width sample_loom c = 1" for c by (simp add: sample_loom_def)
  then have "\<forall>c. Cluster c \<in> set (ansi_tokens (mark_rune sample_loom) sample_content) \<longrightarrow> string_width sample_loom c \<le> 2 \<or> (2 :: nat) = 0"
    by (metis one_le_numeral)
  ultimately have "list_all (\<lambda>ps. line_width ps \<le> 2) (wrap_pieces sample_loom sample_content 2)"
    unfolding list_all_iff using wrap_ansi_safe [of sample_loom sample_content 2] zero_less_numeral by blast
  moreover have "wrap_ansi sample_loom sample_content 2 =
      [[0x1b, 0x5b, 51, 49, 0x6d, 65, 66] @ sgr_reset, [0x1b, 0x5b, 51, 49, 0x6d, 67] @ sgr_reset]" by code_simp
  ultimately show ?thesis by blast
qed

end
