(* ===== verification/Exec.thy ===== *)
theory Exec
  imports Ring Quota
begin

text \<open>
  Running a command under \<open>harnez exec\<close>: \<open>internal/exec/exec.go\<close> and \<open>stopped.go\<close>.

  The bounded capture of the output, the shell words of a command, the time limit, the monitor of stopped
  process groups, and the wrapper that composes them with the test-run quota. The child process, the clock
  and the decoding of durations and of the repository's configuration are parameters.
\<close>

section \<open>Bounded capture\<close>

text \<open>\<open>headTailBuffer\<close>: \<open>total_bytes\<close> is an int64, which no stream of a run overflows.\<close>

record head_tail =
  ht_head :: string
  ht_tail :: string
  head_limit :: nat
  tail_limit :: nat
  total_bytes :: nat

definition newHeadTailBuffer :: "nat \<Rightarrow> nat \<Rightarrow> head_tail" where
  "newHeadTailBuffer h t = \<lparr>ht_head = [], ht_tail = [], head_limit = h, tail_limit = t, total_bytes = 0\<rparr>"

definition ht_write :: "head_tail \<Rightarrow> string \<Rightarrow> head_tail" where
  "ht_write b p =
     (let n = length p;
          needed = head_limit b - length (ht_head b);
          hd' = (if length (ht_head b) < head_limit b
            then if n \<le> needed then ht_head b @ p else ht_head b @ take needed p
            else ht_head b);
          overflow = length (ht_tail b) + n - tail_limit b;
          tl' = (if 0 < tail_limit b
            then if tail_limit b \<le> n then drop (n - tail_limit b) p
                 else (if 0 < overflow then drop overflow (ht_tail b) else ht_tail b) @ p
            else ht_tail b)
      in b\<lparr>ht_head := hd', ht_tail := tl', total_bytes := total_bytes b + n\<rparr>)"

definition ellipsis :: string where
  "ellipsis = [CHR 0xE2, CHR 0x80, CHR 0xA6]"

definition omission :: "nat \<Rightarrow> string" where
  "omission n = [nl] @ ellipsis @ '' ['' @ nat_dec n @ '' bytes omitted] '' @ ellipsis @ [nl]"

definition ht_string :: "head_tail \<Rightarrow> string" where
  "ht_string b =
     (let hd' = ht_head b; tl' = ht_tail b; total = total_bytes b in
      if total \<le> head_limit b then hd'
      else if total \<le> length hd' + length tl' then
        if total \<le> length hd' then take total hd'
        else let overlap = length hd' + length tl' - total in
          if 0 < overlap \<and> overlap \<le> length tl' then hd' @ drop overlap tl' else hd' @ tl'
      else hd' @ omission (total - length hd' - length tl') @ tl')"

definition ht_len :: "head_tail \<Rightarrow> nat" where
  "ht_len b = length (ht_head b) + length (ht_tail b)"

text \<open>\<open>tailBuffer\<close>, with the limit as it is.\<close>

record tail_buffer =
  tb_buf :: string
  tb_limit :: int

definition newTailBuffer :: "int \<Rightarrow> tail_buffer" where
  "newTailBuffer k = \<lparr>tb_buf = [], tb_limit = k\<rparr>"

definition tb_write :: "tail_buffer \<Rightarrow> string \<Rightarrow> tail_buffer" where
  "tb_write b p =
     (let n = int (length p); overflow = int (length (tb_buf b)) + n - tb_limit b in
      if tb_limit b \<le> 0 then b
      else if tb_limit b \<le> n then b\<lparr>tb_buf := drop (nat (n - tb_limit b)) p\<rparr>
      else b\<lparr>tb_buf := (if 0 < overflow then drop (nat overflow) (tb_buf b) else tb_buf b) @ p\<rparr>)"

definition ht_ok :: "head_tail \<Rightarrow> bool" where
  "ht_ok b \<longleftrightarrow> length (ht_tail b) \<le> tail_limit b"

definition tb_ok :: "tail_buffer \<Rightarrow> bool" where
  "tb_ok b \<longleftrightarrow> int (length (tb_buf b)) \<le> max 0 (tb_limit b)"

text \<open>The tail of the one and the whole of the other are sinks that keep the last bytes.\<close>

interpretation ht_sink: tail_sink ht_write ht_tail tail_limit ht_ok
  by unfold_locales (auto simp: ht_write_def ht_ok_def lastn_def Let_def)

interpretation tb_sink: tail_sink tb_write tb_buf "\<lambda>b. nat (tb_limit b)" tb_ok
  by unfold_locales (auto simp: tb_write_def tb_ok_def lastn_def Let_def nat_diff_distrib nat_add_distrib)

lemma ht_write_head:
  assumes "ht_head b = take (head_limit b) hist" and "total_bytes b = length hist"
  shows "ht_head (ht_write b p) = take (head_limit b) (hist @ p) \<and> total_bytes (ht_write b p) = length (hist @ p)
    \<and> head_limit (ht_write b p) = head_limit b"
  using assms by (auto simp: ht_write_def Let_def min_def)

lemma ht_writes_head:
  "ht_head b = take (head_limit b) hist \<Longrightarrow> total_bytes b = length hist \<Longrightarrow>
    ht_head (foldl ht_write b ps) = take (head_limit b) (hist @ concat ps)
    \<and> total_bytes (foldl ht_write b ps) = length (hist @ concat ps)
    \<and> head_limit (foldl ht_write b ps) = head_limit b"
proof (induction ps arbitrary: b hist)
  case (Cons p ps)
  note step = ht_write_head [OF Cons.prems, of p]
  with Cons.IH [of "ht_write b p" "hist @ p"] show ?case by simp
qed simp

text \<open>C17. The capture shows everything written to it while it fits into head and tail together, and else the
  first bytes, the exact number of bytes left out, and the last bytes, however the output was cut into writes.\<close>

theorem capture_refines_output:
  "ht_string (foldl ht_write (newHeadTailBuffer h t) ps) =
     (let out = concat ps in
      if length out \<le> h + t then out
      else take h out @ omission (length out - h - t) @ lastn t out)"
proof -
  let ?b = "foldl ht_write (newHeadTailBuffer h t) ps"
  let ?out = "concat ps"
  have "ht_sink.keeps (newHeadTailBuffer h t) []"
    by (simp add: ht_sink.keeps_def newHeadTailBuffer_def ht_ok_def)
  from ht_sink.keeps_writes [OF this, of ps] have tl: "ht_tail ?b = lastn (tail_limit ?b) ?out"
    by (simp add: ht_sink.keeps_def)
  have lim: "tail_limit ?b = t"
    using ht_sink.cap_writes [of "newHeadTailBuffer h t" ps] by (simp add: newHeadTailBuffer_def ht_ok_def)
  have hd: "ht_head ?b = take h ?out" "total_bytes ?b = length ?out" "head_limit ?b = h"
    using ht_writes_head [of "newHeadTailBuffer h t" "[]" ps] by (simp_all add: newHeadTailBuffer_def)
  consider (all) "length ?out \<le> t" | (overlap) "t < length ?out" "length ?out \<le> h + t" | (cut) "h + t < length ?out"
    by linarith
  then show ?thesis
  proof cases
    case all
    then show ?thesis using hd tl lim by (auto simp: ht_string_def Let_def min_def)
  next
    case overlap
    then show ?thesis using hd tl lim by (auto simp: ht_string_def Let_def min_def lastn_def)
  next
    case cut
    then show ?thesis using hd tl lim by (auto simp: ht_string_def Let_def min_def)
  qed
qed

section \<open>Words of a command\<close>

definition option_group :: "string \<Rightarrow> bool" where
  "option_group a \<longleftrightarrow> 1 < length a \<and> has_prefix a ''-'' \<and> \<not> has_prefix a ''--''"

fun unwrap_options :: "string list \<Rightarrow> string list \<Rightarrow> string list" where
  "unwrap_options args [] = args"
| "unwrap_options args (a # rest) =
     (if option_group a then
        if CHR ''c'' \<in> set (tl a) then (case rest of [] \<Rightarrow> args | script # _ \<Rightarrow> [script])
        else unwrap_options args rest
      else args)"

definition unwrapShellCommand :: "string list \<Rightarrow> string list" where
  "unwrapShellCommand args =
     (if length args < 3 then args
      else if base_name (hd args) \<noteq> ''bash'' \<and> base_name (hd args) \<noteq> ''sh'' then args
      else unwrap_options args (tl args))"

text \<open>The words the checks below look at: those of the script when there is one.\<close>

definition command_words :: "string list \<Rightarrow> string list" where
  "command_words args =
     (case unwrapShellCommand args of
        [t] \<Rightarrow> if t \<noteq> hd args then string_fields t else [t]
      | ts \<Rightarrow> ts)"

definition assigns :: "string \<Rightarrow> bool" where
  "assigns w \<longleftrightarrow> CHR ''='' \<in> set w \<and> \<not> has_prefix w ''-''"

fun waits_in :: "string list \<Rightarrow> bool" where
  "waits_in (t # a # b # rest) =
     (if assigns t then waits_in (a # b # rest)
      else if base_name t \<noteq> ''harnez'' then waits_in (a # b # rest)
      else if a @ '' '' @ b \<in> {''agent wait'', ''agent start'', ''agent resume'', ''pr wait''} then True
      else waits_in (a # b # rest))"
| "waits_in _ = False"

definition isHarnezAgentWait :: "string list \<Rightarrow> bool" where
  "isHarnezAgentWait args \<longleftrightarrow> waits_in (command_words args)"

fun timeout_option :: "string list \<Rightarrow> string option" where
  "timeout_option [] = None"
| "timeout_option (t # rest) =
     (if t = ''--'' then None
      else if has_prefix t ''--timeout='' then Some (trim_prefix t ''--timeout='')
      else if t = ''--timeout'' \<and> rest \<noteq> [] then Some (hd rest)
      else timeout_option rest)"

fun agent_timeout_in :: "string list \<Rightarrow> string option" where
  "agent_timeout_in (t # a # rest) =
     (if base_name t \<noteq> ''harnez'' \<or> a \<noteq> ''agent'' then agent_timeout_in (a # rest)
      else case timeout_option rest of Some v \<Rightarrow> Some v | None \<Rightarrow> agent_timeout_in (a # rest))"
| "agent_timeout_in _ = None"

definition harnezAgentTimeoutArg :: "string list \<Rightarrow> string option" where
  "harnezAgentTimeoutArg args = agent_timeout_in (command_words args)"

text \<open>
  The assignments in front of a command, as the regular expressions read them: a run of words \<open>NAME=value\<close>, each
  followed by white space. The expression for the time limit takes the last \<open>HTO\<close> or \<open>HARNEZ_TIMEOUT\<close> of the
  run, since its repetition is greedy.
\<close>

definition re_space :: "char \<Rightarrow> bool" where
  "re_space c \<longleftrightarrow> c \<in> {CHR 0x09, CHR 0x0A, CHR 0x0C, CHR 0x0D, CHR '' ''}"

definition word_char :: "char \<Rightarrow> bool" where
  "word_char c \<longleftrightarrow> is_digit c \<or> c = CHR ''_''
     \<or> (65 \<le> (of_char c :: nat) \<and> of_char c \<le> (90 :: nat)) \<or> (97 \<le> (of_char c :: nat) \<and> of_char c \<le> (122 :: nat))"

definition assignment_word :: "string \<Rightarrow> bool" where
  "assignment_word w \<longleftrightarrow>
     (let name = takeWhile (\<lambda>c. c \<noteq> CHR ''='') w in
      name \<noteq> w \<and> name \<noteq> [] \<and> list_all word_char name \<and> \<not> is_digit (hd name))"

definition timeout_value :: "string \<Rightarrow> string option" where
  "timeout_value w =
     (let v = tl (dropWhile (\<lambda>c. c \<noteq> CHR ''='') w) in
      if (has_prefix w ''HARNEZ_TIMEOUT='' \<or> has_prefix w ''HTO='') \<and> v \<noteq> [] then Some v else None)"

function timeout_run :: "string \<Rightarrow> string option \<Rightarrow> string option" where
  "timeout_run s found =
     (let w = takeWhile (\<lambda>c. \<not> re_space c) s; rest = dropWhile (\<lambda>c. \<not> re_space c) s in
      if assignment_word w \<and> rest \<noteq> []
      then timeout_run (dropWhile re_space rest) (case timeout_value w of Some v \<Rightarrow> Some v | None \<Rightarrow> found)
      else found)"
  by pat_completeness auto

lemma length_dropWhile: "length (dropWhile P xs) \<le> length xs"
  by (induction xs) auto

lemma rest_shorter:
  assumes "assignment_word (takeWhile (\<lambda>c. \<not> re_space c) s)"
  shows "length (dropWhile re_space (dropWhile (\<lambda>c. \<not> re_space c) s)) < length s"
proof -
  let ?w = "takeWhile (\<lambda>c. \<not> re_space c) s"
  have "?w \<noteq> []" using assms by (auto simp: assignment_word_def)
  then have "length (dropWhile (\<lambda>c. \<not> re_space c) s) < length s"
    using takeWhile_dropWhile_id [of "\<lambda>c. \<not> re_space c" s] length_append [of ?w "dropWhile (\<lambda>c. \<not> re_space c) s"]
    by (metis length_greater_0_conv less_add_same_cancel2)
  then show ?thesis using length_dropWhile le_less_trans by blast
qed

termination timeout_run
  by (relation "measure (\<lambda>(s, found). length s)") (auto simp: rest_shorter)

declare timeout_run.simps [simp del]

definition timeout_prefix :: "string \<Rightarrow> string option" where
  "timeout_prefix s = timeout_run (dropWhile re_space s) None"

fun explicitTimeoutPrefix :: "string list \<Rightarrow> string" where
  "explicitTimeoutPrefix [] = []"
| "explicitTimeoutPrefix (a # args) =
     (case timeout_prefix a of Some v \<Rightarrow> v | None \<Rightarrow> explicitTimeoutPrefix args)"

definition word_ends :: "string \<Rightarrow> bool" where
  "word_ends s \<longleftrightarrow> s = [] \<or> \<not> word_char (hd s)"

definition truthy_flag :: "string \<Rightarrow> bool" where
  "truthy_flag s \<longleftrightarrow> (has_prefix s ''1'' \<and> word_ends (drop 1 s))
     \<or> (to_lower (take 4 s) = ''true'' \<and> word_ends (drop 4 s))"

function flag_run :: "string \<Rightarrow> string \<Rightarrow> bool" where
  "flag_run name s =
     (let w = takeWhile (\<lambda>c. \<not> re_space c) s; rest = dropWhile (\<lambda>c. \<not> re_space c) s in
      if has_prefix s (name @ ''='') \<and> truthy_flag (drop (length name + 1) s) then True
      else if assignment_word w \<and> rest \<noteq> [] then flag_run name (dropWhile re_space rest)
      else False)"
  by pat_completeness auto

termination flag_run
  by (relation "measure (\<lambda>(name, s). length s)") (auto simp: rest_shorter)

declare flag_run.simps [simp del]

definition flag_prefix :: "string \<Rightarrow> string \<Rightarrow> bool" where
  "flag_prefix name s = flag_run name (dropWhile re_space s)"

section \<open>Options and the time limit\<close>

text \<open>The fields of \<open>execOptions\<close> that decide; the environment is a function, \<open>HARNEZ_\<close> names and all. Durations
  are nanoseconds.\<close>

record exec_options =
  eo_expect_failure :: bool
  eo_quota1 :: bool
  eo_timeout :: int
  eo_timeout_set :: bool
  eo_getenv :: "string \<Rightarrow> string"

definition env_true :: "string \<Rightarrow> bool" where
  "env_true v \<longleftrightarrow> v = ''1'' \<or> equal_fold v ''true''"

definition detectExpectFailure :: "exec_options \<Rightarrow> string list \<Rightarrow> bool" where
  "detectExpectFailure o' args \<longleftrightarrow>
     env_true (eo_getenv o' ''HARNEZ_EXPECT_FAILURE'') \<or> list_ex (flag_prefix ''HARNEZ_EXPECT_FAILURE'') args"

definition detectQuota1 :: "exec_options \<Rightarrow> string list \<Rightarrow> bool" where
  "detectQuota1 o' args \<longleftrightarrow>
     eo_quota1 o' \<or> env_true (eo_getenv o' ''HARNEZ_QUOTA_1'')
     \<or> list_ex (flag_prefix ''HARNEZ_QUOTA_1'') (unwrapShellCommand args)"

definition hasExplicitExecTimeout :: "exec_options \<Rightarrow> string list \<Rightarrow> bool" where
  "hasExplicitExecTimeout o' args \<longleftrightarrow>
     eo_timeout_set o' \<or> 0 < eo_timeout o' \<or> explicitTimeoutPrefix args \<noteq> []
     \<or> harnezAgentTimeoutArg args \<noteq> None
     \<or> eo_getenv o' ''HTO'' \<noteq> [] \<or> eo_getenv o' ''HARNEZ_TIMEOUT'' \<noteq> []"

definition default_exec_timeout :: int where
  "default_exec_timeout = 60 * 10 ^ 9"

text \<open>A written limit: \<open>0\<close> lifts it, a positive duration sets it, and anything else is passed over.\<close>

definition written_limit :: "(string \<Rightarrow> int option) \<Rightarrow> string \<Rightarrow> int option" where
  "written_limit parse v =
     (if v = ''0'' then Some 0
      else case parse v of Some d \<Rightarrow> if 0 < d then Some d else None | None \<Rightarrow> None)"

text \<open>\<open>config\<close> is \<open>exec.timeout\<close> of the repository's configuration, when it can be opened.\<close>

fun first_some :: "'a option list \<Rightarrow> 'a \<Rightarrow> 'a" where
  "first_some [] d = d"
| "first_some (Some x # xs) d = x"
| "first_some (None # xs) d = first_some xs d"

definition positive_duration :: "(string \<Rightarrow> int option) \<Rightarrow> string option \<Rightarrow> int option" where
  "positive_duration parse v =
     (case v of None \<Rightarrow> None
      | Some s \<Rightarrow> if s = [] then None
          else (case parse s of Some d \<Rightarrow> if 0 < d then Some d else None | None \<Rightarrow> None))"

definition limit_choices ::
  "(string \<Rightarrow> int option) \<Rightarrow> string option \<Rightarrow> exec_options \<Rightarrow> string list \<Rightarrow> int option list" where
  "limit_choices parse config o' args =
     (let written = (\<lambda>v. if v = [] then None else written_limit parse v) in
        [written (explicitTimeoutPrefix args),
         written (eo_getenv o' ''HTO''),
         written (eo_getenv o' ''HARNEZ_TIMEOUT''),
         if 0 < eo_timeout o' then Some (eo_timeout o') else None,
         case harnezAgentTimeoutArg args of None \<Rightarrow> None | Some v \<Rightarrow> written_limit parse v,
         if isHarnezAgentWait args then Some 0 else None,
         positive_duration parse config])"

definition resolveExecTimeout ::
  "(string \<Rightarrow> int option) \<Rightarrow> string option \<Rightarrow> exec_options \<Rightarrow> string list \<Rightarrow> int" where
  "resolveExecTimeout parse config o' args = first_some (limit_choices parse config o' args) default_exec_timeout"

section \<open>Stopped process groups\<close>

text \<open>\<open>monitorStoppedGroup\<close>: each tick has its time and what \<open>isStopped\<close> answered (\<^const>\<open>None\<close> is an error);
  the end of the list is the end of the command. The signals are returned with their times.\<close>

datatype group_signal = Cont int | Kill int

record stopped_outcome =
  detected :: bool
  killed :: bool

fun monitor :: "int \<Rightarrow> int option \<Rightarrow> bool \<Rightarrow> stopped_outcome \<Rightarrow> (int \<times> bool option) list
    \<Rightarrow> stopped_outcome \<times> group_signal list" where
  "monitor grace at continued outcome [] = (outcome, [])"
| "monitor grace at continued outcome ((now, st) # ticks) =
     (case st of
        None \<Rightarrow> (outcome, [])
      | Some False \<Rightarrow>
          if at \<noteq> None \<and> continued then (outcome, [])
          else monitor grace None continued outcome ticks
      | Some True \<Rightarrow>
          (case at of
             None \<Rightarrow> monitor grace (Some now) continued outcome ticks
           | Some t \<Rightarrow>
               if now - t < grace then monitor grace at continued outcome ticks
               else if \<not> continued then
                 (case monitor grace (Some now) True (outcome\<lparr>detected := True\<rparr>) ticks of
                    (o', sigs) \<Rightarrow> (o', Cont now # sigs))
               else (outcome\<lparr>detected := True, killed := True\<rparr>, [Kill now])))"

definition monitorStoppedGroup :: "int \<Rightarrow> (int \<times> bool option) list \<Rightarrow> stopped_outcome \<times> group_signal list" where
  "monitorStoppedGroup grace ticks =
     monitor (if grace \<le> 0 then 300 * 10 ^ 6 else grace) None False \<lparr>detected = False, killed = False\<rparr> ticks"

text \<open>\<open>stopped_for g t b\<close>: every tick of \<open>b\<close> saw the group stopped, the last one \<open>g\<close> or more after \<open>t\<close>.\<close>

definition stopped_for :: "int \<Rightarrow> int \<Rightarrow> (int \<times> bool option) list \<Rightarrow> bool" where
  "stopped_for g t b \<longleftrightarrow> b \<noteq> [] \<and> list_all (\<lambda>x. snd x = Some True) b \<and> g \<le> fst (last b) - t"

lemma stopped_for_Cons: "stopped_for g t b \<Longrightarrow> stopped_for g t ((now, Some True) # b)"
  by (auto simp: stopped_for_def)

lemma stopped_for_single: "g \<le> now - t \<Longrightarrow> stopped_for g t [(now, Some True)]"
  by (simp add: stopped_for_def)

lemma monitor_after_cont:
  assumes "monitor g (Some t) True out ticks = (o', sigs)"
  shows "(sigs = [] \<and> o' = out)
    \<or> (\<exists>c d. ticks = c @ d \<and> stopped_for g t c \<and> sigs = [Kill (fst (last c))]
         \<and> o' = out\<lparr>detected := True, killed := True\<rparr>)"
  using assms
proof (induction ticks)
  case (Cons x ticks)
  obtain now st where x: "x = (now, st)" by (cases x)
  show ?case
  proof (cases "st = Some True \<and> now - t < g")
    case True
    with Cons x have "monitor g (Some t) True out ticks = (o', sigs)" by simp
    from Cons.IH [OF this] show ?thesis
    proof
      assume "\<exists>c d. ticks = c @ d \<and> stopped_for g t c \<and> sigs = [Kill (fst (last c))]
         \<and> o' = out\<lparr>detected := True, killed := True\<rparr>"
      then obtain c d where c: "ticks = c @ d" "stopped_for g t c" "sigs = [Kill (fst (last c))]"
        "o' = out\<lparr>detected := True, killed := True\<rparr>" by blast
      moreover from c(2) have "c \<noteq> []" by (simp add: stopped_for_def)
      ultimately have "x # ticks = (x # c) @ d \<and> stopped_for g t (x # c) \<and> sigs = [Kill (fst (last (x # c)))]
         \<and> o' = out\<lparr>detected := True, killed := True\<rparr>"
        using True x stopped_for_Cons by simp
      then show ?thesis by blast
    qed simp
  next
    case False
    show ?thesis
    proof (cases "st = Some True")
      case True
      with False have "stopped_for g t [x]" using x stopped_for_single by simp
      moreover have "o' = out\<lparr>detected := True, killed := True\<rparr>" "sigs = [Kill now]"
        using Cons.prems x False True by auto
      ultimately have "x # ticks = [x] @ ticks \<and> stopped_for g t [x] \<and> sigs = [Kill (fst (last [x]))]
         \<and> o' = out\<lparr>detected := True, killed := True\<rparr>"
        using x by simp
      then show ?thesis by blast
    next
      case False
      with Cons.prems x show ?thesis by (cases st) (auto split: bool.splits)
    qed
  qed
qed simp

text \<open>What the monitor does once a group was seen stopped at \<open>t\<close>: nothing, or a continue after the grace and then
  perhaps a kill after another one.\<close>

definition cont_evidence :: "int \<Rightarrow> int \<Rightarrow> (int \<times> bool option) list \<Rightarrow> stopped_outcome \<Rightarrow> group_signal list \<Rightarrow> bool" where
  "cont_evidence g t ts out sigs \<longleftrightarrow>
     (\<exists>b c. ts = b @ c \<and> stopped_for g t b
        \<and> ((sigs = [Cont (fst (last b))] \<and> out = \<lparr>detected = True, killed = False\<rparr>)
          \<or> (\<exists>k d. c = k @ d \<and> stopped_for g (fst (last b)) k
               \<and> sigs = [Cont (fst (last b)), Kill (fst (last k))] \<and> out = \<lparr>detected = True, killed = True\<rparr>)))"

definition stop_evidence :: "int \<Rightarrow> (int \<times> bool option) list \<Rightarrow> stopped_outcome \<Rightarrow> group_signal list \<Rightarrow> bool" where
  "stop_evidence g ticks out sigs \<longleftrightarrow>
     (sigs = [] \<and> out = \<lparr>detected = False, killed = False\<rparr>)
     \<or> (\<exists>a t ts. ticks = a @ (t, Some True) # ts \<and> cont_evidence g t ts out sigs)"

lemma cont_evidence_Cons: "cont_evidence g t ts out sigs \<Longrightarrow> cont_evidence g t ((now, Some True) # ts) out sigs"
  unfolding cont_evidence_def
proof (elim exE conjE)
  fix b c
  assume a: "ts = b @ c" "stopped_for g t b"
    "(sigs = [Cont (fst (last b))] \<and> out = \<lparr>detected = True, killed = False\<rparr>)
          \<or> (\<exists>k d. c = k @ d \<and> stopped_for g (fst (last b)) k
               \<and> sigs = [Cont (fst (last b)), Kill (fst (last k))] \<and> out = \<lparr>detected = True, killed = True\<rparr>)"
  from a(2) have "b \<noteq> []" by (simp add: stopped_for_def)
  with a show "\<exists>b c. (now, Some True) # ts = b @ c \<and> stopped_for g t b
        \<and> ((sigs = [Cont (fst (last b))] \<and> out = \<lparr>detected = True, killed = False\<rparr>)
          \<or> (\<exists>k d. c = k @ d \<and> stopped_for g (fst (last b)) k
               \<and> sigs = [Cont (fst (last b)), Kill (fst (last k))] \<and> out = \<lparr>detected = True, killed = True\<rparr>))"
    by (intro exI [of _ "(now, Some True) # b"] exI [of _ c]) (simp add: stopped_for_Cons)
qed

lemma stop_evidence_Cons: "stop_evidence g ticks out sigs \<Longrightarrow> stop_evidence g (x # ticks) out sigs"
  unfolding stop_evidence_def by (metis append_Cons)

lemma monitor_before_cont:
  "monitor g None False \<lparr>detected = False, killed = False\<rparr> ticks = (out, sigs) \<Longrightarrow> stop_evidence g ticks out sigs"
  "monitor g (Some t) False \<lparr>detected = False, killed = False\<rparr> ticks = (out, sigs) \<Longrightarrow>
     stop_evidence g ticks out sigs \<or> cont_evidence g t ticks out sigs"
proof (induction ticks arbitrary: t)
  case Nil
  case 1 then show ?case by (simp add: stop_evidence_def)
next
  case Nil
  case 2 then show ?case by (simp add: stop_evidence_def)
next
  case (Cons x ticks)
  obtain now st where x: "x = (now, st)" by (cases x)
  case 1
  consider (err) "st = None" | (no) "st = Some False" | (yes) "st = Some True" by (cases st) auto
  then show ?case
  proof cases
    case err
    with 1 x show ?thesis by (simp add: stop_evidence_def)
  next
    case no
    with 1 x Cons.IH(1) stop_evidence_Cons show ?thesis by simp
  next
    case yes
    with 1 x have "monitor g (Some now) False \<lparr>detected = False, killed = False\<rparr> ticks = (out, sigs)" by simp
    from Cons.IH(2) [OF this] show ?thesis
    proof
      assume "cont_evidence g now ticks out sigs"
      then have "x # ticks = [] @ (now, Some True) # ticks \<and> cont_evidence g now ticks out sigs" using x yes by simp
      then show ?thesis unfolding stop_evidence_def by blast
    qed (rule stop_evidence_Cons)
  qed
next
  case (Cons x ticks)
  obtain now st where x: "x = (now, st)" by (cases x)
  case 2
  consider (err) "st = None" | (no) "st = Some False" | (early) "st = Some True" "now - t < g"
    | (due) "st = Some True" "g \<le> now - t" by (cases st) force+
  then show ?case
  proof cases
    case err
    with 2 x show ?thesis by (simp add: stop_evidence_def)
  next
    case no
    with 2 x have "stop_evidence g ticks out sigs" using Cons.IH(1) by simp
    then show ?thesis by (simp add: stop_evidence_Cons)
  next
    case early
    with 2 x have "stop_evidence g ticks out sigs \<or> cont_evidence g t ticks out sigs" using Cons.IH(2) [of t] by simp
    then show ?thesis using stop_evidence_Cons cont_evidence_Cons x early by blast
  next
    case due
    then have run: "stopped_for g t [x]" using x stopped_for_single by simp
    obtain o' ss where m: "monitor g (Some now) True \<lparr>detected = True, killed = False\<rparr> ticks = (o', ss)"
      by (cases "monitor g (Some now) True \<lparr>detected = True, killed = False\<rparr> ticks")
    with 2 x due have res: "out = o'" "sigs = Cont now # ss" by simp_all
    have "cont_evidence g t (x # ticks) out sigs"
      unfolding cont_evidence_def
      using monitor_after_cont [OF m] run res x
      by (intro exI [of _ "[x]"] exI [of _ ticks]) auto
    then show ?thesis by blast
  qed
qed

text \<open>C18. A process group is continued only after it was seen stopped at every look for the whole grace period, and
  killed only when it then stayed stopped for another grace period after the continue; the reported outcome says
  exactly which of the two happened, and no other signal is ever sent.\<close>

theorem monitor_signals_on_evidence:
  "case monitorStoppedGroup grace ticks of (out, sigs) \<Rightarrow>
     stop_evidence (if grace \<le> 0 then 300 * 10 ^ 6 else grace) ticks out sigs"
proof -
  obtain out sigs where m: "monitorStoppedGroup grace ticks = (out, sigs)" by (cases "monitorStoppedGroup grace ticks")
  then show ?thesis
    using monitor_before_cont(1) [of "if grace \<le> 0 then 300 * 10 ^ 6 else grace" ticks out sigs]
    by (simp add: monitorStoppedGroup_def)
qed

text \<open>
  \<open>processGroupStoppedAt\<close>: the table has the processes below \<open>/proc\<close>. A process is there with its stat line and
  the numbers in the \<open>children\<close> files of its tasks (\<^const>\<open>None\<close> when one cannot be read), or there and
  unreadable; one that is not in the table is gone. The state and the group are what \<open>parseStoppedProcessStat\<close>
  finds in the line.
\<close>

datatype proc_node = Unreadable_proc | Live_proc string "int list option"

definition parseStoppedProcessStat :: "string \<Rightarrow> (char \<times> int) option" where
  "parseStoppedProcessStat stat =
     (case last_index_of stat '')'' of
        None \<Rightarrow> None
      | Some stop \<Rightarrow>
          if length stat \<le> stop + 1 then None
          else case string_fields (drop (stop + 1) stat) of
              [st] # ppid # grp # _ \<Rightarrow> map_option (\<lambda>g. (st, g)) (atoi grp)
            | _ \<Rightarrow> None)"

definition stopped_member :: "int \<Rightarrow> string \<Rightarrow> bool" where
  "stopped_member pgid stat \<longleftrightarrow>
     (case parseStoppedProcessStat stat of
        Some (st, g) \<Rightarrow> g = pgid \<and> (st = CHR ''T'' \<or> st = CHR ''t'')
      | None \<Rightarrow> False)"

function scan_stopped :: "(int \<times> proc_node) list \<Rightarrow> int \<Rightarrow> int list \<Rightarrow> int list \<Rightarrow> bool option" where
  "scan_stopped tab pid seen [] = Some False"
| "scan_stopped tab pid seen (p # queue) =
     (if p \<in> set seen then scan_stopped tab pid seen queue
      else case map_of tab p of
        None \<Rightarrow> if p = pid then None else scan_stopped tab pid (p # seen) queue
      | Some Unreadable_proc \<Rightarrow> None
      | Some (Live_proc stat children) \<Rightarrow>
          if stopped_member pid stat then Some True
          else case children of
              None \<Rightarrow> None
            | Some cs \<Rightarrow> scan_stopped tab pid (p # seen) (queue @ filter (\<lambda>c. 0 < c) cs))"
  by pat_completeness auto

termination scan_stopped
proof (relation "inv_image (less_than <*lex*> less_than)
    (\<lambda>(tab, pid, seen, queue). (card (fst ` set tab - set seen), length queue))", goal_cases)
  case (3 tab pid seen p queue)
  then have "p \<notin> fst ` set tab" by (simp add: map_of_eq_None_iff)
  then have "fst ` set tab - set (p # seen) = fst ` set tab - set seen" by auto
  then show ?case by simp
next
  case (4 tab pid seen p queue node stat children cs)
  then have "p \<in> fst ` set tab" by (force dest: map_of_SomeD)
  with 4 have "fst ` set tab - set (p # seen) \<subset> fst ` set tab - set seen" by auto
  then have "card (fst ` set tab - set (p # seen)) < card (fst ` set tab - set seen)" by (intro psubset_card_mono) auto
  then show ?case by simp
qed auto

definition processGroupStoppedAt :: "(int \<times> proc_node) list \<Rightarrow> int \<Rightarrow> bool option" where
  "processGroupStoppedAt tab pid = scan_stopped tab pid [] [pid]"

text \<open>The descent the search follows.\<close>

definition child_of :: "(int \<times> proc_node) list \<Rightarrow> int \<Rightarrow> int \<Rightarrow> bool" where
  "child_of tab p c \<longleftrightarrow> (\<exists>stat cs. map_of tab p = Some (Live_proc stat (Some cs)) \<and> c \<in> set cs \<and> 0 < c)"

definition readable_procs :: "(int \<times> proc_node) list \<Rightarrow> bool" where
  "readable_procs tab \<longleftrightarrow> list_all (\<lambda>(p, n). case n of Live_proc stat (Some cs) \<Rightarrow> True | _ \<Rightarrow> False) tab"

definition stopped_at :: "(int \<times> proc_node) list \<Rightarrow> int \<Rightarrow> int \<Rightarrow> bool" where
  "stopped_at tab pid p \<longleftrightarrow> (\<exists>stat cs. map_of tab p = Some (Live_proc stat cs) \<and> stopped_member pid stat)"

lemma readable_node:
  "readable_procs tab \<Longrightarrow> map_of tab p = Some n \<Longrightarrow> \<exists>stat cs. n = Live_proc stat (Some cs)"
  by (auto simp: readable_procs_def list_all_iff split: proc_node.splits option.splits dest!: map_of_SomeD)

lemma scan_stopped_exact:
  assumes "readable_procs tab" and "map_of tab pid \<noteq> None"
    and "\<forall>p c. p \<in> set seen \<longrightarrow> \<not> stopped_at tab pid p \<and> (child_of tab p c \<longrightarrow> c \<in> set seen \<union> set queue)"
  shows "scan_stopped tab pid seen queue
    = Some (\<exists>p q. p \<in> set seen \<union> set queue \<and> (child_of tab)\<^sup>*\<^sup>* p q \<and> stopped_at tab pid q)"
  using assms
proof (induction tab pid seen queue rule: scan_stopped.induct)
  case (1 tab pid seen)
  have step: "c \<in> set seen" if "p \<in> set seen" "child_of tab p c" for p c
    using 1(3) that by simp
  have "q \<in> set seen" if "(child_of tab)\<^sup>*\<^sup>* p q" "p \<in> set seen" for p q
    using that by (induction rule: rtranclp_induct) (auto intro: step)
  moreover have "\<not> stopped_at tab pid q" if "q \<in> set seen" for q using 1(3) that by simp
  ultimately show ?case by simp
next
  case (2 tab pid seen p queue)
  show ?case
  proof (cases "p \<in> set seen")
    case True
    then have "set seen \<union> set (p # queue) = set seen \<union> set queue" by auto
    with 2(1) [OF True 2(4,5)] 2(6) True show ?thesis by auto
  next
    case fresh: False
    show ?thesis
    proof (cases "map_of tab p")
      case None
      then have p: "p \<noteq> pid" using 2(5) by auto
      have no: "\<not> stopped_at tab pid p" "\<not> child_of tab p c" for c using None by (auto simp: stopped_at_def child_of_def)
      have "\<forall>p' c. p' \<in> set (p # seen) \<longrightarrow> \<not> stopped_at tab pid p' \<and> (child_of tab p' c \<longrightarrow> c \<in> set (p # seen) \<union> set queue)"
        using 2(6) no by auto
      from 2(2) [OF fresh None p 2(4,5) this] show ?thesis using fresh None p by (auto simp: insert_commute)
    next
      case (Some n)
      from readable_node [OF 2(4) Some] obtain stat cs where n: "n = Live_proc stat (Some cs)" by blast
      show ?thesis
      proof (cases "stopped_member pid stat")
        case True
        then have "stopped_at tab pid p" using Some n by (auto simp: stopped_at_def)
        then have "\<exists>a b. a \<in> set seen \<union> set (p # queue) \<and> (child_of tab)\<^sup>*\<^sup>* a b \<and> stopped_at tab pid b"
          by (intro exI [of _ p]) simp
        then show ?thesis using True Some n fresh by simp
      next
        case False
        let ?q = "queue @ filter (\<lambda>c. 0 < c) cs"
        have no: "\<not> stopped_at tab pid p" using False Some n by (auto simp: stopped_at_def)
        have ch: "child_of tab p c \<longleftrightarrow> c \<in> set cs \<and> 0 < c" for c using Some n by (auto simp: child_of_def)
        have inv: "\<forall>p' c. p' \<in> set (p # seen) \<longrightarrow> \<not> stopped_at tab pid p' \<and> (child_of tab p' c \<longrightarrow> c \<in> set (p # seen) \<union> set ?q)"
          using 2(6) no ch by auto
        have reach: "(\<exists>a b. a \<in> set (p # seen) \<union> set ?q \<and> (child_of tab)\<^sup>*\<^sup>* a b \<and> stopped_at tab pid b)
            \<longleftrightarrow> (\<exists>a b. a \<in> set seen \<union> set (p # queue) \<and> (child_of tab)\<^sup>*\<^sup>* a b \<and> stopped_at tab pid b)"
        proof -
          have "(child_of tab)\<^sup>*\<^sup>* p b" if "a \<in> set (filter (\<lambda>c. 0 < c) cs)" "(child_of tab)\<^sup>*\<^sup>* a b" for a b
            using that ch by (auto intro: converse_rtranclp_into_rtranclp)
          then show ?thesis by auto
        qed
        from 2(3) [OF fresh Some n False refl 2(4,5) inv] reach show ?thesis
          using fresh Some n False by simp
      qed
    qed
  qed
qed

text \<open>On a process table that can be read, a group counts as stopped exactly when the command itself or some
  process reached from it through the children of live processes is in the group and stopped, however deep it is
  and whatever cycles a table read while it changes shows; the search always ends.\<close>

theorem stopped_descendant_found:
  assumes "readable_procs tab" and "map_of tab pid \<noteq> None"
  shows "processGroupStoppedAt tab pid = Some (\<exists>q. (child_of tab)\<^sup>*\<^sup>* pid q \<and> stopped_at tab pid q)"
  unfolding processGroupStoppedAt_def using scan_stopped_exact [OF assms, of "[]" "[pid]"] by simp

lemma stopped_descendant_found_witness:
  "processGroupStoppedAt [(7, Live_proc ''7 (make) S 1 7'' (Some [9])), (9, Live_proc ''9 (a) b) T 7 7'' (Some [7]))] 7 = Some True
    \<and> (\<exists>q. (child_of [(7, Live_proc ''7 (make) S 1 7'' (Some [9])), (9, Live_proc ''9 (a) b) T 7 7'' (Some [7]))])\<^sup>*\<^sup>* 7 q
        \<and> stopped_at [(7, Live_proc ''7 (make) S 1 7'' (Some [9])), (9, Live_proc ''9 (a) b) T 7 7'' (Some [7]))] 7 q)"
proof -
  let ?t = "[(7, Live_proc ''7 (make) S 1 7'' (Some [9])), (9, Live_proc ''9 (a) b) T 7 7'' (Some [7]))]"
  have "processGroupStoppedAt ?t 7 = Some True" by code_simp
  moreover have "readable_procs ?t" "map_of ?t 7 \<noteq> None" by (simp_all add: readable_procs_def)
  ultimately show ?thesis using stopped_descendant_found [of ?t 7] by simp
qed

section \<open>The wrapper\<close>

text \<open>What \<open>Wait\<close> reports: an exit, a death by a signal, or an error that is not about the child's end.\<close>

datatype child_end = Exited int | Signaled int | WaitError

fun exitCodeFromError :: "child_end \<Rightarrow> int" where
  "exitCodeFromError (Exited c) = c"
| "exitCodeFromError (Signaled n) = 128 + n"
| "exitCodeFromError WaitError = - 1"

definition quota1PreTestFailure :: "string \<Rightarrow> bool" where
  "quota1PreTestFailure out \<longleftrightarrow>
     \<not> contains out ''go test'' \<and> (contains out ''gofmt -l .'' \<or> contains out ''go vet ./...'')"

text \<open>\<open>world\<close> is what happens around one run: the quota's source scan and times, the faults before the child runs,
  the child with its output, and the ticks of the monitor.\<close>

record world =
  w_state :: "string list"
  w_at :: "string list"
  w_root :: node
  w_now :: int
  w_log_fault :: bool
  w_start_fault :: bool
  w_pgid :: int
  w_pid_start :: nat
  w_chunks :: "string list"
  w_child :: child_end
  w_ticks :: "(int \<times> bool option) list"
  w_timed_out :: bool
  w_finished :: int

text \<open>The row \<open>recordExecTelemetry\<close> hands to the writer, as far as the run decides it.\<close>

record exec_row =
  er_call_type :: string
  er_exit_code :: int

datatype exec_end = ExecError int | Blocked verdict | Done int exec_row

definition call_type :: "bool \<Rightarrow> bool \<Rightarrow> string" where
  "call_type timed_out expect =
     (if expect then ''shell-expected'' else if timed_out then ''shell-timeout'' else ''shell'')"

definition captured_output :: "world \<Rightarrow> string" where
  "captured_output w = ht_string (foldl ht_write (newHeadTailBuffer (256 * 1024) (1024 * 1024)) (w_chunks w))"

definition stopped_of :: "world \<Rightarrow> stopped_outcome" where
  "stopped_of w = fst (monitorStoppedGroup (300 * 10 ^ 6) (w_ticks w))"

text \<open>The exit that \<open>FinishRun\<close> records; \<^const>\<open>None\<close> leaves the quota available.\<close>

definition normal_exit :: "world \<Rightarrow> int option" where
  "normal_exit w =
     (if detected (stopped_of w) then None
      else if w_child w = Exited 0 then Some 0
      else if quota1PreTestFailure (captured_output w) then None
      else case w_child w of Exited c \<Rightarrow> Some c | _ \<Rightarrow> None)"

definition run_child :: "exec_options \<Rightarrow> string list \<Rightarrow> world \<Rightarrow> bool \<Rightarrow> quota \<Rightarrow> exec_end \<times> quota" where
  "run_child o' args w active q =
     (if w_start_fault w then (ExecError 1, q)
      else
        let q1 = (if active then snd (update_process q (w_pgid w) (w_pid_start w)) else q);
            q2 = (if active then snd (finish_run q1 (w_finished w) (normal_exit w)) else q1);
            code = (if detected (stopped_of w) then 125 else exitCodeFromError (w_child w))
        in if w_child w = WaitError then (ExecError 1, q2)
           else (Done code \<lparr>er_call_type = call_type (w_timed_out w) (eo_expect_failure o' \<or> detectExpectFailure o' args),
                   er_exit_code = code\<rparr>, q2))"

definition runExecWrapper :: "exec_options \<Rightarrow> string list \<Rightarrow> world \<Rightarrow> quota \<Rightarrow> exec_end \<times> quota" where
  "runExecWrapper o' args w q =
     (if args = [] then (ExecError 0, q)
      else if \<not> detectQuota1 o' args then run_child o' args w False q
      else case check_and_record q (eo_getenv o') (w_state w) (w_at w) (w_root w) (w_now w) of
          (None, q1) \<Rightarrow> (ExecError 1, q1)
        | (Some v, q1) \<Rightarrow>
            if \<not> allowed v then (Blocked v, q1)
            else if w_log_fault w then (ExecError 1, q1)
            else run_child o' args w True q1)"

text \<open>\<open>harnez clean q1\<close> (\<open>cleanQuota1WithGroupCheck\<close>): \<open>gone\<close> answers whether a group has ended.\<close>

datatype clean_status = CleanError | Unchanged | Kept | WouldRelease | Released

definition cleanQuota1 :: "bool \<Rightarrow> (int \<Rightarrow> bool option) \<Rightarrow> bool \<Rightarrow> quota \<Rightarrow> clean_status \<times> quota" where
  "cleanQuota1 kill gone remove_fault q =
     (case read_run_record (q_file q) of
        Inl NotExist \<Rightarrow> (Unchanged, q)
      | Inl Unreadable \<Rightarrow> (CleanError, q)
      | Inr r \<Rightarrow>
          if rr_exit r \<noteq> None then (Kept, q)
          else if rr_pgid r \<le> 0 then (Kept, q)
          else case gone (rr_pgid r) of
              None \<Rightarrow> (CleanError, q)
            | Some False \<Rightarrow> (Kept, q)
            | Some True \<Rightarrow>
                if \<not> kill then (WouldRelease, q)
                else if remove_fault then (CleanError, q)
                else (Released, q\<lparr>q_file := NoState\<rparr>))"

text \<open>What happens to the quota afterwards: another wrapped command, or a cleanup.\<close>

datatype quota_use =
    UseExec exec_options "string list" world
  | UseClean bool "int \<Rightarrow> bool option" bool

fun use_quota :: "quota \<Rightarrow> quota_use \<Rightarrow> exec_end option \<times> quota" where
  "use_quota q (UseExec o' args w) = (case runExecWrapper o' args w q of (e, q') \<Rightarrow> (Some e, q'))"
| "use_quota q (UseClean kill gone fault) = (None, snd (cleanQuota1 kill gone fault q))"

definition stuck :: "quota \<Rightarrow> bool" where
  "stuck q \<longleftrightarrow> (\<exists>r. read_run_record (q_file q) = Inr r \<and> rr_exit r = None \<and> rr_finished r = None \<and> rr_pgid r \<le> 0)"

lemma read_new_record:
  "now \<noteq> 0 \<Longrightarrow> read_run_record (State (new_record now retry)) = Inr (new_record now retry)"
  by (simp add: read_run_record_def new_record_def)

lemma allowed_records:
  assumes "check_and_record q getenv state at root now = (Some v, q')" and "allowed v"
  shows "\<exists>retry. q' = q\<lparr>q_file := State (new_record now retry)\<rparr>"
  using assms
  by (auto simp: check_and_record_def record_run_def write_record_def
      split: sum.splits read_error.splits list.splits option.splits if_splits)

lemma failed_start_stuck:
  assumes "detectQuota1 o' args" and "args \<noteq> []" and "w_start_fault w \<or> w_log_fault w" and "w_now w \<noteq> 0"
    and "check_and_record q (eo_getenv o') (w_state w) (w_at w) (w_root w) (w_now w) = (Some v, q1)" and "allowed v"
  shows "runExecWrapper o' args w q = (ExecError 1, q1) \<and> stuck q1"
proof -
  from allowed_records [OF assms(5,6)] obtain retry where "q1 = q\<lparr>q_file := State (new_record (w_now w) retry)\<rparr>" by blast
  then have "read_run_record (q_file q1) = Inr (new_record (w_now w) retry)" using read_new_record [OF assms(4)] by simp
  then have "stuck q1" by (auto simp: stuck_def new_record_def)
  then show ?thesis using assms by (auto simp: runExecWrapper_def run_child_def)
qed

definition bypass_free :: "quota_use \<Rightarrow> bool" where
  "bypass_free u \<longleftrightarrow> (case u of UseExec o' args w \<Rightarrow> detectQuota1 o' args \<and> args \<noteq> [] \<and> \<not> is_bypass (eo_getenv o') | _ \<Rightarrow> True)"

lemma stuck_use:
  assumes "stuck q" and "bypass_free u"
  shows "use_quota q u = ((case u of UseExec _ _ _ \<Rightarrow> Some (Blocked Unfinished) | UseClean _ _ _ \<Rightarrow> None), q)"
  using assms
  by (cases u) (auto simp: stuck_def bypass_free_def runExecWrapper_def check_and_record_def cleanQuota1_def)

fun use_all :: "quota \<Rightarrow> quota_use list \<Rightarrow> exec_end option list \<times> quota" where
  "use_all q [] = ([], q)"
| "use_all q (u # us) = (case use_quota q u of (e, q1) \<Rightarrow> case use_all q1 us of (es, q2) \<Rightarrow> (e # es, q2))"

text \<open>A test run whose command cannot be started, or whose log file cannot be created, after the quota was granted
  leaves a record without a process group and without an end. From then on every run under the quota is refused,
  however the sources change, and \<open>harnez clean q1 --kill\<close>, which the refusal recommends, keeps the record.\<close>

theorem failed_start_blocks_quota:
  assumes "detectQuota1 o' args" and "args \<noteq> []" and "w_start_fault w \<or> w_log_fault w" and "w_now w \<noteq> 0"
    and "check_and_record q (eo_getenv o') (w_state w) (w_at w) (w_root w) (w_now w) = (Some v, q1)" and "allowed v"
    and "list_all bypass_free us"
  shows "fst (runExecWrapper o' args w q) = ExecError 1
    \<and> list_all (\<lambda>e. e = None \<or> e = Some (Blocked Unfinished)) (fst (use_all (snd (runExecWrapper o' args w q)) us))
    \<and> snd (use_all (snd (runExecWrapper o' args w q)) us) = snd (runExecWrapper o' args w q)"
proof -
  have all: "list_all (\<lambda>e. e = None \<or> e = Some (Blocked Unfinished)) (fst (use_all q us)) \<and> snd (use_all q us) = q"
    if "stuck q" "list_all bypass_free us" for q us
    using that
  proof (induction us)
    case (Cons u us)
    then have "use_quota q u = ((case u of UseExec _ _ _ \<Rightarrow> Some (Blocked Unfinished) | UseClean _ _ _ \<Rightarrow> None), q)"
      using stuck_use by simp
    with Cons show ?case by (auto split: prod.splits quota_use.splits)
  qed simp
  from failed_start_stuck [OF assms(1-6)] all [OF _ assms(7), of q1] show ?thesis by simp
qed

lemma recorded_run:
  assumes "runExecWrapper o' args w q = (Done code row, q')" and "detectQuota1 o' args" and "w_now w \<noteq> 0"
  shows "\<not> q_write_fault q' \<and> (\<exists>retry. q_file q' = State ((new_record (w_now w) retry)\<lparr>rr_pgid := w_pgid w, rr_pid_start := w_pid_start w,
    rr_finished := Some (w_finished w), rr_exit := normal_exit w\<rparr>))"
proof -
  from assms(1,2) obtain v q1 where v:
    "check_and_record q (eo_getenv o') (w_state w) (w_at w) (w_root w) (w_now w) = (Some v, q1)" "allowed v"
    "run_child o' args w True q1 = (Done code row, q')"
    by (auto simp: runExecWrapper_def split: if_splits option.splits prod.splits)
  have "\<not> q_write_fault q"
    using v(1,2) by (auto simp: check_and_record_def record_run_def write_record_def
      split: sum.splits read_error.splits list.splits option.splits if_splits)
  moreover from allowed_records [OF v(1,2)] obtain retry where
    "q1 = q\<lparr>q_file := State (new_record (w_now w) retry)\<rparr>" by blast
  ultimately have q1: "q_file q1 = State (new_record (w_now w) retry)" "\<not> q_write_fault q1" by simp_all
  then show ?thesis
    using v(3) assms(3)
    by (auto simp: run_child_def Let_def update_process_def finish_run_def write_record_def read_run_record_def new_record_def
        split: if_splits)
qed

text \<open>The wrapper reports exactly how the child ended: its own exit code, 128 plus the signal that killed it, or 125 when
  its group was found stopped, and the telemetry row carries the same code however the run is classified. Under the
  quota the run is recorded with its process group, its end, and the exit that counts.\<close>

theorem exec_reports_child:
  assumes "runExecWrapper o' args w q = (Done code row, q')" and "w_now w \<noteq> 0"
  shows "code = (if detected (stopped_of w) then 125 else exitCodeFromError (w_child w))
    \<and> w_child w \<noteq> WaitError \<and> er_exit_code row = code
    \<and> (if detectQuota1 o' args
       then \<exists>retry. q_file q' = State ((new_record (w_now w) retry)\<lparr>rr_pgid := w_pgid w, rr_pid_start := w_pid_start w,
         rr_finished := Some (w_finished w), rr_exit := normal_exit w\<rparr>)
       else q' = q)"
  using assms recorded_run [OF assms(1) _ assms(2)]
  by (auto simp: runExecWrapper_def run_child_def Let_def split: if_splits option.splits prod.splits)

text \<open>A test run that ended by itself uses up the quota: until a source file changes, the next run is refused without
  touching the record. A run that was stopped or killed, or failed before the tests, is granted exactly one more.\<close>

theorem finished_run_uses_quota:
  assumes "runExecWrapper o' args w q = (Done code row, q')" and "detectQuota1 o' args" and "w_now w \<noteq> 0"
    and "detectQuota1 p args'" and "args' \<noteq> []" and "\<not> is_bypass (eo_getenv p)"
    and "walk_modified (w_state w') (w_now w) (w_at w') (w_root w') = []"
  shows "if normal_exit w \<noteq> None then runExecWrapper p args' w' q' = (Blocked NothingModified, q')
    else \<exists>r. q_file q' = State r \<and>
      (if rr_retry r then runExecWrapper p args' w' q' = (Blocked NothingModified, q')
       else runExecWrapper p args' w' q' =
         (if w_log_fault w' then (ExecError 1, q'\<lparr>q_file := State (new_record (w_now w') True)\<rparr>)
          else run_child p args' w' True (q'\<lparr>q_file := State (new_record (w_now w') True)\<rparr>)))"
proof -
  from recorded_run [OF assms(1-3)] obtain retry where r:
    "q_file q' = State ((new_record (w_now w) retry)\<lparr>rr_pgid := w_pgid w, rr_pid_start := w_pid_start w,
      rr_finished := Some (w_finished w), rr_exit := normal_exit w\<rparr>)" "\<not> q_write_fault q'" by blast
  show ?thesis
    using r assms(3-7)
    by (simp add: runExecWrapper_def check_and_record_def record_run_def write_record_def read_run_record_def new_record_def
        find_modified_file_def)
qed

section \<open>The time limit\<close>

definition limit_sources :: "exec_options \<Rightarrow> string list \<Rightarrow> string list" where
  "limit_sources o' args =
     [explicitTimeoutPrefix args, eo_getenv o' ''HTO'', eo_getenv o' ''HARNEZ_TIMEOUT''] @
     (case harnezAgentTimeoutArg args of None \<Rightarrow> [] | Some v \<Rightarrow> [v])"

lemma first_some_cases: "first_some xs d = d \<or> Some (first_some xs d) \<in> set xs"
  by (induction xs d rule: first_some.induct) auto

lemma written_limit_cases: "written_limit parse v = Some d \<Longrightarrow> (d = 0 \<and> v = ''0'') \<or> 0 < d"
  by (auto simp: written_limit_def split: option.splits if_splits)

lemma positive_durationD: "positive_duration parse v = Some d \<Longrightarrow> 0 < d"
  by (auto simp: positive_duration_def split: option.splits if_splits)

lemma limit_choices_source:
  assumes "Some d \<in> set (limit_choices parse config o' args)"
  shows "0 < d \<or> (d = 0 \<and> (''0'' \<in> set (limit_sources o' args) \<or> isHarnezAgentWait args))"
proof -
  consider v where "written_limit parse v = Some d" "v \<in> set (limit_sources o' args)"
    | "0 < eo_timeout o'" "d = eo_timeout o'" | "isHarnezAgentWait args" "d = 0" | "positive_duration parse config = Some d"
    using assms by (auto simp: limit_choices_def limit_sources_def Let_def split: if_splits option.splits)
  then show ?thesis
    by cases (auto dest: written_limit_cases positive_durationD)
qed

lemma time_limit_source:
  "0 < resolveExecTimeout parse config o' args
    \<or> (resolveExecTimeout parse config o' args = 0 \<and> (''0'' \<in> set (limit_sources o' args) \<or> isHarnezAgentWait args))"
  using first_some_cases [of "limit_choices parse config o' args" default_exec_timeout]
proof
  assume "Some (first_some (limit_choices parse config o' args) default_exec_timeout) \<in> set (limit_choices parse config o' args)"
  then show ?thesis unfolding resolveExecTimeout_def by (rule limit_choices_source)
qed (simp add: resolveExecTimeout_def default_exec_timeout_def)

text \<open>A limit is never negative, and it is lifted only on request: by a written \<open>0\<close>, or because the command is one of
  harnez' own waits. Without an explicit limit any other command gets the configured limit, or a minute.\<close>

theorem time_limit_lifted_on_request:
  "0 \<le> resolveExecTimeout parse config o' args
    \<and> (resolveExecTimeout parse config o' args = 0 \<longrightarrow>
        ''0'' \<in> set (limit_sources o' args) \<or> isHarnezAgentWait args)
    \<and> (\<not> hasExplicitExecTimeout o' args \<longrightarrow>
        resolveExecTimeout parse config o' args =
          (if isHarnezAgentWait args then 0
           else case positive_duration parse config of None \<Rightarrow> 60 * 10 ^ 9 | Some d \<Rightarrow> d))"
proof (intro conjI)
  show "0 \<le> resolveExecTimeout parse config o' args"
    and "resolveExecTimeout parse config o' args = 0 \<longrightarrow> ''0'' \<in> set (limit_sources o' args) \<or> isHarnezAgentWait args"
    using time_limit_source [of parse config o' args] by auto
  show "\<not> hasExplicitExecTimeout o' args \<longrightarrow> resolveExecTimeout parse config o' args =
          (if isHarnezAgentWait args then 0
           else case positive_duration parse config of None \<Rightarrow> 60 * 10 ^ 9 | Some d \<Rightarrow> d)"
    by (simp add: hasExplicitExecTimeout_def resolveExecTimeout_def limit_choices_def default_exec_timeout_def Let_def
        split: option.splits)
qed

section \<open>Witnesses\<close>

definition quota_options :: exec_options where
  "quota_options = \<lparr>eo_expect_failure = False, eo_quota1 = True, eo_timeout = 0, eo_timeout_set = False, eo_getenv = no_env\<rparr>"

definition sample_world :: world where
  "sample_world = \<lparr>w_state = [''s''], w_at = [], w_root = sample_tree 5, w_now = 20, w_log_fault = False, w_start_fault = False,
     w_pgid = 77, w_pid_start = 4, w_chunks = [''go test'', ''ok''], w_child = Exited 0, w_ticks = [(1, Some False)],
     w_timed_out = False, w_finished = 25\<rparr>"

definition empty_quota :: quota where
  "empty_quota = \<lparr>q_file = NoState, q_write_fault = False\<rparr>"

lemma sample_granted:
  "check_and_record empty_quota (eo_getenv quota_options) (w_state sample_world) (w_at sample_world) (w_root sample_world)
     (w_now sample_world) = (Some InitialRun, empty_quota\<lparr>q_file := State (new_record 20 False)\<rparr>)"
proof -
  have "\<not> is_bypass no_env" by code_simp
  then show ?thesis
    by (simp add: check_and_record_def read_run_record_def empty_quota_def record_run_def write_record_def
        quota_options_def sample_world_def)
qed

lemma quota_detected: "detectQuota1 quota_options args"
  by (simp add: detectQuota1_def quota_options_def)

lemma failed_start_blocks_quota_witness:
  "fst (runExecWrapper quota_options [''gotest''] (sample_world\<lparr>w_start_fault := True\<rparr>) empty_quota) = ExecError 1"
  using failed_start_blocks_quota [of quota_options "[''gotest'']" "sample_world\<lparr>w_start_fault := True\<rparr>" empty_quota
      InitialRun "empty_quota\<lparr>q_file := State (new_record 20 False)\<rparr>"
      "[UseClean True (\<lambda>g. Some True) False, UseExec quota_options [''make''] sample_world]"]
    sample_granted quota_detected
  by (simp add: sample_world_def bypass_free_def is_bypass_def quota_options_def no_env_def trim_space_def trim_left_def
      trim_right_def equal_fold_def to_lower_def)

lemma sample_done:
  "runExecWrapper quota_options [''make''] sample_world empty_quota
    = (Done 0 \<lparr>er_call_type = ''shell'', er_exit_code = 0\<rparr>,
       empty_quota\<lparr>q_file := State ((new_record 20 False)\<lparr>rr_pgid := 77, rr_pid_start := 4, rr_finished := Some 25, rr_exit := Some 0\<rparr>)\<rparr>)"
proof -
  have st: "stopped_of sample_world = \<lparr>detected = False, killed = False\<rparr>"
    by (simp add: stopped_of_def sample_world_def monitorStoppedGroup_def)
  have exp: "\<not> detectExpectFailure quota_options [''make'']"
    by (simp add: detectExpectFailure_def quota_options_def no_env_def) code_simp
  have det: "detectQuota1 quota_options [''make'']" by (rule quota_detected)
  have "normal_exit sample_world = Some 0" using st by (simp add: normal_exit_def sample_world_def)
  with st exp det sample_granted show ?thesis
    by (simp add: runExecWrapper_def run_child_def Let_def update_process_def finish_run_def write_record_def
        read_run_record_def new_record_def empty_quota_def sample_world_def call_type_def quota_options_def)
qed

lemma exec_reports_child_witness:
  "fst (runExecWrapper quota_options [''make''] sample_world empty_quota) = Done 0 \<lparr>er_call_type = ''shell'', er_exit_code = 0\<rparr>
    \<and> (0::int) = (if detected (stopped_of sample_world) then 125 else exitCodeFromError (w_child sample_world))"
  using exec_reports_child [OF sample_done] sample_done by (simp add: sample_world_def)

lemma finished_run_uses_quota_witness:
  "fst (runExecWrapper quota_options [''make''] (sample_world\<lparr>w_now := 40\<rparr>)
      (snd (runExecWrapper quota_options [''make''] sample_world empty_quota))) = Blocked NothingModified"
proof -
  have "\<not> is_bypass no_env" by code_simp
  moreover have "walk_modified [''s''] 20 [] (sample_tree 5) = []" by code_simp
  moreover have "normal_exit sample_world = Some 0"
    by (simp add: normal_exit_def stopped_of_def sample_world_def monitorStoppedGroup_def)
  ultimately show ?thesis
    using finished_run_uses_quota [OF sample_done quota_detected _ quota_detected, of "[''make'']" "sample_world\<lparr>w_now := 40\<rparr>"]
      sample_done
    by (simp add: sample_world_def quota_options_def)
qed

end
