(* ===== verification/Hook.thy ===== *)
theory Hook
  imports GoBase
begin

text \<open>
  The hook that routes shell commands through \<open>harnez exec\<close>: the second half of \<open>internal/exec/exec.go\<close>, with the word
  lists of \<open>internal/telemetry/toolname.go\<close> and \<open>internal/exec/gear.go\<close>.

  Decoding the payload and printing a duration are the standard library's. The specification side is \<open>sh_words\<close>,
  how a POSIX shell splits a line without expansions into words; it models no code of the repository.
\<close>

section \<open>Rewriting a command\<close>

definition gear :: string where
  "gear = [CHR 0xE2, CHR 0x9A, CHR 0x99]"

definition isGearInvocation :: "string \<Rightarrow> bool" where
  "isGearInvocation arg \<longleftrightarrow>
     (let base = base_name arg in base = gear \<or> base = gear @ [CHR 0xEF, CHR 0xB8, CHR 0x8F])"

definition ShellMetacharacters :: "string list" where
  "ShellMetacharacters = [[nl], [CHR 0x0D], '';'', ''&'', ''|'', ''<'', ''>'', ''$'', [CHR 0x60], ''('', '')'', ''{'', ''}'']"

definition ShellKeywords :: "string list" where
  "ShellKeywords =
    [''if'', ''then'', ''else'', ''elif'', ''fi'', ''case'', ''esac'', ''for'', ''while'', ''until'',
     ''do'', ''done'', ''in'', ''select'', ''time'', ''function'', ''export'', ''set'', ''unset'',
     ''alias'', ''unalias'', ''source'', ''.'', ''eval'', ''exec'', ''trap'', ''return'', ''exit'',
     ''builtin'', ''command'', ''shopt'', ''cd'', ''read'', ''pushd'', ''popd'', ''dirs'',
     ''declare'', ''typeset'', ''local'', ''readonly'', ''type'', ''ulimit'', ''umask'', ''disown'',
     ''jobs'', ''bg'', ''fg'', ''wait'', ''!'', ''[['', '']]'']"

definition variable_word :: "string \<Rightarrow> bool" where
  "variable_word f \<longleftrightarrow> contains f ''='' \<and> \<not> has_prefix f ''-''"

fun first_is_gear :: "string list \<Rightarrow> bool" where
  "first_is_gear [] = False"
| "first_is_gear (f # fs) = (if variable_word f then first_is_gear fs else isGearInvocation (base_name f))"

definition alreadyRoutedThroughExec :: "string \<Rightarrow> bool" where
  "alreadyRoutedThroughExec command \<longleftrightarrow>
     contains command ''harnez exec'' \<or> first_is_gear (string_fields (trim_space command))"

definition isSimpleShellCommand :: "string \<Rightarrow> bool" where
  "isSimpleShellCommand command \<longleftrightarrow>
     (let trimmed = trim_space command; fields = string_fields trimmed in
      trimmed \<noteq> [] \<and> list_all (\<lambda>m. \<not> contains trimmed m) ShellMetacharacters \<and> fields \<noteq> []
      \<and> \<not> has_prefix (hd fields) ''-'' \<and> \<not> contains (hd fields) ''='' \<and> hd fields \<notin> set ShellKeywords)"

definition shellQuote :: "string \<Rightarrow> string" where
  "shellQuote s = [CHR 0x27] @ concat (map (\<lambda>c. if c = CHR 0x27 then [CHR 0x27, CHR 0x5C, CHR 0x27, CHR 0x27] else [c]) s) @ [CHR 0x27]"

definition formatGearRewrite :: "string \<Rightarrow> string \<Rightarrow> string" where
  "formatGearRewrite command distill =
     (let flag = trim_space distill in
      if flag = [] \<and> isSimpleShellCommand command then gear @ '' '' @ trim_space command
      else if flag \<noteq> [] then gear @ '' '' @ flag @ '' -- bash -c '' @ shellQuote command
      else gear @ '' bash -c '' @ shellQuote command)"

text \<open>The last lines of \<open>runExecHookWithStateDir\<close>: the flag for the tool's own time limit, and the prefix for a command
  that runs in the background.\<close>

definition add_flags :: "string \<Rightarrow> string \<Rightarrow> string" where
  "add_flags flags rewritten =
     (if flags = [] then rewritten
      else case cut rewritten '' -- '' of
          (before, after, True) \<Rightarrow> gear @ '' '' @ flags @ trim_prefix before gear @ '' -- '' @ after
        | _ \<Rightarrow> gear @ '' '' @ flags @ '' -- '' @ trim_prefix rewritten (gear @ '' ''))"

record hook_input =
  hi_tool :: string
  hi_command :: "string option option"
  hi_timeout :: "int option"
  hi_background :: bool

datatype hook_result = Silent | DecodeError | Rewrite string

definition wrapper_flags :: "(int \<Rightarrow> string) \<Rightarrow> hook_input \<Rightarrow> string" where
  "wrapper_flags show_duration p =
     (case hi_timeout p of
        Some ms \<Rightarrow> if 0 < ms then ''--timeout='' @ show_duration (wrap64 (ms * 10 ^ 6)) else []
      | None \<Rightarrow> [])"

definition rewrite_command :: "(int \<Rightarrow> string) \<Rightarrow> bool \<Rightarrow> hook_input \<Rightarrow> string \<Rightarrow> string" where
  "rewrite_command show_duration noisy p command =
     (let flags = wrapper_flags show_duration p;
          prefix = (if hi_background p \<and> flags = [] then ''HTO=0 '' else [])
      in prefix @ add_flags flags (formatGearRewrite command (if noisy then '' --distill'' else [])))"

text \<open>\<open>hi_command\<close> is \<^const>\<open>None\<close> when the input has none, and \<open>Some None\<close> when it is not a string. \<open>noisy\<close> is
  whether distilling is on and matches.\<close>

definition runExecHook :: "(int \<Rightarrow> string) \<Rightarrow> (string \<Rightarrow> bool) \<Rightarrow> hook_input \<Rightarrow> hook_result" where
  "runExecHook show_duration noisy p =
     (if hi_tool p \<noteq> ''Bash'' then Silent
      else case hi_command p of
          None \<Rightarrow> Silent
        | Some None \<Rightarrow> DecodeError
        | Some (Some command) \<Rightarrow>
            if command = [] \<or> alreadyRoutedThroughExec command then Silent
            else Rewrite (rewrite_command show_duration (noisy command) p command))"

section \<open>The words of a shell line\<close>

datatype quoting = Bare | Single | Double

definition word_of :: "string option \<Rightarrow> string" where
  "word_of w = (case w of None \<Rightarrow> [] | Some u \<Rightarrow> u)"

fun sh_lex :: "quoting \<Rightarrow> string option \<Rightarrow> string \<Rightarrow> string list option" where
  "sh_lex Bare w [] = Some (case w of None \<Rightarrow> [] | Some u \<Rightarrow> [u])"
| "sh_lex Bare w (c # s) =
     (if c = CHR 0x27 then sh_lex Single (Some (word_of w)) s
      else if c = CHR 0x22 then sh_lex Double (Some (word_of w)) s
      else if c = CHR 0x5C then
        (case s of [] \<Rightarrow> None | d # s' \<Rightarrow> if d = nl then sh_lex Bare w s' else sh_lex Bare (Some (word_of w @ [d])) s')
      else if c = CHR '' '' \<or> c = CHR 0x09 then
        (case w of None \<Rightarrow> sh_lex Bare None s | Some u \<Rightarrow> map_option (Cons u) (sh_lex Bare None s))
      else sh_lex Bare (Some (word_of w @ [c])) s)"
| "sh_lex Single w [] = None"
| "sh_lex Single w (c # s) =
     (if c = CHR 0x27 then sh_lex Bare w s else sh_lex Single (Some (word_of w @ [c])) s)"
| "sh_lex Double w [] = None"
| "sh_lex Double w (c # s) =
     (if c = CHR 0x22 then sh_lex Bare w s
      else if c = CHR 0x5C then
        (case s of [] \<Rightarrow> None
         | d # s' \<Rightarrow> if d = nl then sh_lex Double w s'
             else if d \<in> set [CHR ''$'', CHR 0x60, CHR 0x22, CHR 0x5C] then sh_lex Double (Some (word_of w @ [d])) s'
             else sh_lex Double (Some (word_of w @ [c, d])) s')
      else sh_lex Double (Some (word_of w @ [c])) s)"

definition sh_words :: "string \<Rightarrow> string list option" where
  "sh_words s = sh_lex Bare None s"

definition plain_char :: "char \<Rightarrow> bool" where
  "plain_char c \<longleftrightarrow> c \<notin> {CHR 0x27, CHR 0x22, CHR 0x5C, CHR '' '', CHR 0x09}"

definition plain_word :: "string \<Rightarrow> bool" where
  "plain_word w \<longleftrightarrow> w \<noteq> [] \<and> list_all plain_char w"

lemma sh_lex_plain:
  "list_all plain_char u \<Longrightarrow> u \<noteq> [] \<Longrightarrow> sh_lex Bare w (u @ s) = sh_lex Bare (Some (word_of w @ u)) s"
proof (induction u arbitrary: w)
  case (Cons c u)
  have "sh_lex Bare w (c # u @ s) = sh_lex Bare (Some (word_of w @ [c])) (u @ s)"
    using Cons.prems by (simp add: plain_char_def)
  also have "\<dots> = sh_lex Bare (Some (word_of w @ c # u)) s"
    using Cons by (cases "u = []") (simp_all add: word_of_def)
  finally show ?case by simp
qed simp

lemma sh_words_plain:
  "plain_word u \<Longrightarrow> sh_words (u @ CHR '' '' # s) = map_option (Cons u) (sh_words s)"
  unfolding sh_words_def plain_word_def by (simp add: sh_lex_plain word_of_def)

lemma sh_lex_quoted:
  "sh_lex Single (Some u) (concat (map (\<lambda>c. if c = CHR 0x27 then [CHR 0x27, CHR 0x5C, CHR 0x27, CHR 0x27] else [c]) t) @ CHR 0x27 # s)
    = sh_lex Bare (Some (u @ t)) s"
  by (induction t arbitrary: u) (simp_all add: word_of_def)

lemma sh_words_quote: "sh_words (shellQuote t) = Some [t]"
  using sh_lex_quoted [of "[]" t "[]"] by (simp add: sh_words_def shellQuote_def word_of_def)

lemma add_flags_gear:
  assumes "flags \<noteq> []"
  shows "add_flags flags (gear @ CHR '' '' # r) =
    gear @ CHR '' '' # flags @ (if contains (gear @ CHR '' '' # r) '' -- '' then [] else '' --'') @ CHR '' '' # r"
proof (cases "index_of (gear @ CHR '' '' # r) '' -- ''")
  case None
  have "trim_prefix (gear @ CHR '' '' # r) (gear @ '' '') = r"
    using trim_prefix_append [of "gear @ '' ''" r] by simp
  with None assms show ?thesis by (simp add: add_flags_def cut_def contains_def)
next
  case (Some i)
  let ?s = "gear @ CHR '' '' # r"
  from index_of_SomeE [OF Some] obtain pre post where s: "?s = pre @ '' -- '' @ post" and i: "length pre = i" .
  then obtain us where "gear = pre @ us \<and> us @ CHR '' '' # r = '' -- '' @ post \<or> gear @ us = pre \<and> CHR '' '' # r = us @ '' -- '' @ post"
    unfolding append_eq_append_conv2 by blast
  then have us: "gear @ us = pre \<and> CHR '' '' # r = us @ '' -- '' @ post"
  proof
    assume a: "gear = pre @ us \<and> us @ CHR '' '' # r = '' -- '' @ post"
    have "CHR '' '' \<notin> set gear" by (simp add: gear_def)
    moreover from a have "set us \<subseteq> set gear" by (metis Un_upper2 set_append)
    ultimately have "us = []" using a by (cases us) auto
    with a show ?thesis by simp
  qed
  have "cut ?s '' -- '' = (pre, post, True)"
    using Some s i by (simp add: cut_def)
  then have "add_flags flags ?s = gear @ '' '' @ flags @ us @ '' -- '' @ post"
    using assms us by (auto simp: add_flags_def)
  then show ?thesis using us Some by (simp add: contains_def)
qed

text \<open>What \<open>harnez exec\<close> runs: the arguments after its own options, which the hook writes without a separate value. The
  flag parser stops at the first other argument.\<close>

fun exec_arguments :: "string list \<Rightarrow> string list" where
  "exec_arguments [] = []"
| "exec_arguments (a # args) =
     (if a = ''--'' then args else if has_prefix a ''-'' then exec_arguments args else a # args)"

definition routed_command :: "string \<Rightarrow> string list option" where
  "routed_command line = map_option (\<lambda>ws. exec_arguments (tl (dropWhile (\<lambda>w. w \<noteq> gear) ws))) (sh_words line)"

lemma plain_gear: "plain_word gear" "plain_word ''--''" "plain_word ''HTO=0''" "plain_word ''--distill''"
    "plain_word ''bash''" "plain_word ''-c''"
  by (simp_all add: plain_word_def plain_char_def gear_def)

lemma lex_tail:
  assumes "list_all plain_word us"
  shows "sh_words (concat (map (\<lambda>u. u @ '' '') us) @ s) = map_option (\<lambda>ws. us @ ws) (sh_words s)"
  using assms
proof (induction us)
  case Nil
  then show ?case by (simp add: option.map_id0 [unfolded id_def] option.map_ident)
next
  case (Cons u us)
  then have "sh_words (concat (map (\<lambda>u. u @ '' '') (u # us)) @ s) = map_option (Cons u) (map_option (\<lambda>ws. us @ ws) (sh_words s))"
    using sh_words_plain [of u "concat (map (\<lambda>u. u @ '' '') us) @ s"] by simp
  then show ?case by (simp add: option.map_comp comp_def)
qed

lemma words_of_lines:
  "sh_words (''--distill -- bash -c '' @ shellQuote t) = Some [''--distill'', ''--'', ''bash'', ''-c'', t]"
  "sh_words (''bash -c '' @ shellQuote t) = Some [''bash'', ''-c'', t]"
  using lex_tail [of "[''--distill'', ''--'', ''bash'', ''-c'']" "shellQuote t"] lex_tail [of "[''bash'', ''-c'']" "shellQuote t"]
  by (simp_all add: plain_gear sh_words_quote)

lemma routed_flags:
  assumes "list_all plain_word env" and "gear \<notin> set env" and "list_all plain_word fs"
    and "list_all (\<lambda>f. has_prefix f ''--timeout='') fs"
    and "sh_words r = Some ws \<Longrightarrow> exec_arguments (dash @ ws) = ws'" and "dash = [] \<or> dash = [''--'']"
    and "sh_words r = Some ws"
  shows "routed_command (concat (map (\<lambda>u. u @ '' '') (env @ gear # fs @ dash)) @ r) = Some ws'"
proof -
  have "list_all plain_word (env @ gear # fs @ dash)" using assms(1,3,6) plain_gear by auto
  from lex_tail [OF this, of r] have "sh_words (concat (map (\<lambda>u. u @ '' '') (env @ gear # fs @ dash)) @ r)
    = Some (env @ gear # fs @ dash @ ws)"
    using assms(7) by simp
  moreover have "dropWhile (\<lambda>w. w \<noteq> gear) (env @ gear # fs @ dash @ ws) = gear # fs @ dash @ ws"
    using assms(2) by (induction env) auto
  moreover have "exec_arguments (fs @ dash @ ws) = exec_arguments (dash @ ws)"
    using assms(4) by (induction fs) (auto simp: has_prefix_iff)
  ultimately show ?thesis using assms(5,7) by (simp add: routed_command_def)
qed

text \<open>The text after the gear and the flags, and the words in front of it.\<close>

lemma rewrite_shape:
  obtains env fs dash r where
    "rewrite_command show_duration noisy p command = concat (map (\<lambda>u. u @ '' '') (env @ gear # fs @ dash)) @ r"
    "env = [] \<or> env = [''HTO=0'']" "fs = [] \<or> fs = [wrapper_flags show_duration p]" "fs = [] \<or> wrapper_flags show_duration p \<noteq> []"
    "dash = [] \<or> dash = [''--'']" "noisy \<longrightarrow> dash = []"
    "r = (if noisy then ''--distill -- bash -c '' @ shellQuote command
          else if isSimpleShellCommand command then trim_space command else ''bash -c '' @ shellQuote command)"
proof -
  let ?fl = "wrapper_flags show_duration p"
  let ?r = "if noisy then ''--distill -- bash -c '' @ shellQuote command
          else if isSimpleShellCommand command then trim_space command else ''bash -c '' @ shellQuote command"
  let ?env = "if hi_background p \<and> ?fl = [] then [''HTO=0''] else []"
  let ?dash = "if ?fl = [] \<or> contains (gear @ CHR '' '' # ?r) '' -- '' then [] else [''--'']"
  have f: "formatGearRewrite command (if noisy then '' --distill'' else []) = gear @ CHR '' '' # ?r"
  proof -
    have "trim_space '' --distill'' = ''--distill''" "trim_space [] = []" by code_simp+
    then show ?thesis by (auto simp: formatGearRewrite_def Let_def)
  qed
  have dash: "noisy \<longrightarrow> ?dash = []"
    using contains_appendI [of "gear @ '' --distill''" "'' -- ''" "''bash -c '' @ shellQuote command"] by simp
  have "rewrite_command show_duration noisy p command =
    concat (map (\<lambda>u. u @ '' '') (?env @ gear # (if ?fl = [] then [] else [?fl]) @ ?dash)) @ ?r"
  proof (cases "?fl = []")
    case True
    then show ?thesis unfolding rewrite_command_def Let_def f by (simp add: add_flags_def)
  next
    case False
    then show ?thesis unfolding rewrite_command_def Let_def f add_flags_gear [OF False] by simp
  qed
  from that [OF this _ _ _ _ dash refl] show thesis by simp
qed


section \<open>Scripted writes\<close>

abbreviation squote :: char where "squote \<equiv> CHR 0x27"
abbreviation dquote :: char where "dquote \<equiv> CHR 0x22"
abbreviation bslash :: char where "bslash \<equiv> CHR 0x5C"

definition blank :: "char \<Rightarrow> bool" where
  "blank c \<longleftrightarrow> c = CHR '' '' \<or> c = CHR 0x09"

definition is_quote :: "char \<Rightarrow> bool" where
  "is_quote c \<longleftrightarrow> c = squote \<or> c = dquote"

definition delimiter_char :: "char \<Rightarrow> bool" where
  "delimiter_char c \<longleftrightarrow> c \<notin> {CHR '' '', CHR 0x09, CHR 0x0D, nl, CHR '';'', CHR ''|'', CHR ''&''}"

text \<open>\<open>heredocCommandHeader\<close> from the position behind \<open>\<langle>\<langle>\<close> on: what is kept of the rest.\<close>

definition heredoc_rest :: "string \<Rightarrow> string" where
  "heredoc_rest s =
     (let s1 = (if has_prefix s ''-'' then tl s else s); s2 = dropWhile blank s1 in
      if s2 = [] then s
      else
        let (delimiter, s3) =
              (if is_quote (hd s2)
               then (takeWhile (\<lambda>c. c \<noteq> hd s2) (tl s2), dropWhile (\<lambda>c. c \<noteq> hd s2) (tl s2))
               else (takeWhile delimiter_char s2, dropWhile delimiter_char s2))
        in if delimiter = [] then s
           else case index_of s3 [nl] of
               Some e \<Rightarrow> take (length s - length s3) s @ take e s3
             | None \<Rightarrow> s)"

fun heredoc_scan :: "char option \<Rightarrow> string \<Rightarrow> string" where
  "heredoc_scan q (c # d # s) =
     (case q of
        Some k \<Rightarrow>
          if c = bslash \<and> k = dquote then c # d # heredoc_scan q s
          else c # heredoc_scan (if c = k then None else q) (d # s)
      | None \<Rightarrow>
          if is_quote c then c # heredoc_scan (Some c) (d # s)
          else if c \<noteq> CHR ''<'' \<or> d \<noteq> CHR ''<'' \<or> has_prefix s ''<'' then c # heredoc_scan None (d # s)
          else c # d # heredoc_rest s)"
| "heredoc_scan q s = s"

definition heredocCommandHeader :: "string \<Rightarrow> string" where
  "heredocCommandHeader command = heredoc_scan None command"

text \<open>\<open>shellCommandSegments\<close>: \<open>prev\<close> is the byte before the current one, \<open>cur\<close> the segment so far.\<close>

fun segments :: "char option \<Rightarrow> char option \<Rightarrow> string \<Rightarrow> string \<Rightarrow> string list" where
  "segments q prev cur [] = [cur]"
| "segments (Some k) prev cur (c # s) =
     (if c = bslash \<and> k = dquote then
        (case s of [] \<Rightarrow> [cur @ [c]] | d # s' \<Rightarrow> segments (Some k) (Some d) (cur @ [c, d]) s')
      else segments (if c = k then None else Some k) (Some c) (cur @ [c]) s)"
| "segments None prev cur (c # s) =
     (if is_quote c then segments (Some c) (Some c) (cur @ [c]) s
      else if \<not> (c \<in> {CHR '';'', nl, CHR ''|''} \<or> (c = CHR ''&'' \<and> prev \<noteq> Some (CHR ''>'')))
        then segments None (Some c) (cur @ [c]) s
      else if c \<in> {CHR ''|'', CHR ''&''} \<and> has_prefix s ''>'' then segments None (Some c) (cur @ [c]) s
      else case s of
          [] \<Rightarrow> [cur, []]
        | d # s' \<Rightarrow>
            if c \<in> {CHR ''&'', CHR ''|''} \<and> d = c then cur # segments None (Some d) [] s'
            else cur # segments None (Some c) [] s)"

definition shellCommandSegments :: "string \<Rightarrow> string list" where
  "shellCommandSegments command = segments None None [] command"

text \<open>\<open>filepath.Clean\<close> of a rooted path, as its components, and \<open>filepath.Rel\<close> between two such.\<close>

fun clean_rooted :: "string list \<Rightarrow> string list \<Rightarrow> string list" where
  "clean_rooted done' [] = done'"
| "clean_rooted done' (c # cs) =
     clean_rooted (if c = [] \<or> c = ''.'' then done' else if c = ''..'' then butlast done' else done' @ [c]) cs"

definition path_parts :: "string \<Rightarrow> string list" where
  "path_parts p = clean_rooted [] (split_on (CHR ''/'') p)"

fun rel_parts :: "string list \<Rightarrow> string list \<Rightarrow> string list" where
  "rel_parts (b # base) (t # target) =
     (if b = t then rel_parts base target else replicate (length (b # base)) ''..'' @ t # target)"
| "rel_parts base target = replicate (length base) ''..'' @ target"

definition rel_path :: "string list \<Rightarrow> string list \<Rightarrow> string" where
  "rel_path base target = (let r = rel_parts base target in if r = [] then ''.'' else join ''/'' r)"

definition resolve_dest :: "string \<Rightarrow> string \<Rightarrow> string list" where
  "resolve_dest root dest = path_parts (if has_prefix dest ''/'' then dest else root @ ''/'' @ dest)"

definition pathInRoot :: "string \<Rightarrow> string \<Rightarrow> bool" where
  "pathInRoot dest root \<longleftrightarrow>
     \<not> (dest = [] \<or> contains_any dest [CHR ''$'', CHR 0x60, CHR ''*'', CHR ''?'', CHR ''['', CHR '']'']
        \<or> has_prefix dest ''~'' \<or> has_prefix dest ''/dev/'')
     \<and> (let rel = rel_path (path_parts root) (resolve_dest root dest)
        in rel \<noteq> ''..'' \<and> \<not> has_prefix rel ''../'')"

definition trim_quotes :: "string \<Rightarrow> string" where
  "trim_quotes s = trim_right (trim_left s [squote, dquote]) [squote, dquote]"

definition in_place_edit :: "string \<Rightarrow> string \<Rightarrow> bool" where
  "in_place_edit root segment \<longleftrightarrow>
     (let words = string_fields segment in
      3 \<le> length words
      \<and> base_name (trim_quotes (hd words)) \<in> {''sed'', ''perl''}
      \<and> list_ex (\<lambda>a. has_prefix (trim_quotes a) ''-'' \<and> contains (trim_quotes a) ''i'') (tl words)
      \<and> pathInRoot (trim_quotes (last words)) root)"

text \<open>The rest behind the quoted text that \<open>k\<close> opened.\<close>

fun skip_quoted :: "char \<Rightarrow> string \<Rightarrow> string" where
  "skip_quoted k [] = []"
| "skip_quoted k (c # s) =
     (if c = bslash \<and> k = dquote then (case s of [] \<Rightarrow> [] | d # s' \<Rightarrow> skip_quoted k s')
      else if c = k then s else skip_quoted k s)"

lemma skip_quoted_length: "length (skip_quoted k s) \<le> length s"
proof (induction s rule: length_induct)
  case (1 s)
  then have IH: "length (skip_quoted k t) \<le> length t" if "length t < length s" for t using that by blast
  show ?case
  proof (cases s)
    case (Cons c u)
    show ?thesis
    proof (cases u)
      case Nil
      then show ?thesis using Cons by simp
    next
      case u: (Cons d v)
      have "length (skip_quoted k v) \<le> length s" "length (skip_quoted k u) \<le> length s"
        using IH [of v] IH [of u] Cons u by simp_all
      moreover have "skip_quoted k s = (if c = bslash \<and> k = dquote then skip_quoted k v else if c = k then u else skip_quoted k u)"
        unfolding Cons u by (subst skip_quoted.simps(2)) (simp only: list.case)
      then have "skip_quoted k s = skip_quoted k v \<or> skip_quoted k s = u \<or> skip_quoted k s = skip_quoted k u"
        by presburger
      ultimately show ?thesis using Cons by auto
    qed
  qed simp
qed

definition stops_word :: "char \<Rightarrow> bool" where
  "stops_word c \<longleftrightarrow> c \<in> {CHR '' '', CHR 0x09, nl, CHR '';'', CHR ''&'', CHR ''|''}"

text \<open>The destination of the output redirection whose \<open>\<rangle>\<close> stands just before: a word, or a quoted one with what follows it.\<close>

datatype redirect = Word string | Quoted char string string | Unclosed

definition redirect_dest :: "string \<Rightarrow> redirect" where
  "redirect_dest s =
     (let t = dropWhile blank (if has_prefix s ''>'' then tl s else s) in
      case t of
        [] \<Rightarrow> Word []
      | k # u \<Rightarrow>
          if is_quote k then (case index_of u [k] of None \<Rightarrow> Unclosed | Some i \<Rightarrow> Quoted k (take i u) (drop (i + 1) u))
          else Word (takeWhile (\<lambda>c. \<not> stops_word c) t))"

lemma redirect_rest_length: "redirect_dest s = Quoted k w r \<Longrightarrow> length r < length s"
proof -
  assume a: "redirect_dest s = Quoted k w r"
  let ?t = "dropWhile blank (if has_prefix s ''>'' then tl s else s)"
  have "length ?t \<le> length s"
    using le_trans [OF length_dropWhile_le [of blank "if has_prefix s ''>'' then tl s else s"]] by (simp split: if_splits)
  moreover from a obtain u where "?t = k # u" "length r \<le> length u"
    by (auto simp: redirect_dest_def Let_def split: list.splits if_splits option.splits)
  ultimately show ?thesis by simp
qed

function redirects_into :: "string \<Rightarrow> char option \<Rightarrow> string \<Rightarrow> bool" where
  "redirects_into root prev [] = False"
| "redirects_into root prev (c # s) =
     (if is_quote c then redirects_into root (Some c) (skip_quoted c s)
      else if c \<noteq> CHR ''>'' \<or> prev = Some (CHR ''>'') \<or> prev = Some (CHR ''&'') \<or> s = [] \<or> has_prefix s ''&''
        then redirects_into root (Some c) s
      else case redirect_dest s of
          Word w \<Rightarrow> (w \<noteq> [] \<and> pathInRoot w root) \<or> redirects_into root (Some c) s
        | Unclosed \<Rightarrow> redirects_into root (Some c) s
        | Quoted k w r \<Rightarrow> pathInRoot w root \<or> redirects_into root (Some k) r)"
  by pat_completeness auto

termination redirects_into
  by (relation "measure (\<lambda>(root, prev, s). length s)")
    (auto simp: skip_quoted_length le_imp_less_Suc dest!: redirect_rest_length)

definition scriptedRepoWrite :: "string \<Rightarrow> string \<Rightarrow> bool" where
  "scriptedRepoWrite command root \<longleftrightarrow>
     (let header = heredocCommandHeader command in
      list_ex (in_place_edit root) (shellCommandSegments header) \<or> redirects_into root None header)"

lemma heredoc_scan_plain:
  "list_all (\<lambda>c. \<not> is_quote c \<and> c \<noteq> CHR ''<'') pre \<Longrightarrow> heredoc_scan None (pre @ s) = pre @ heredoc_scan None s"
proof (induction pre)
  case (Cons c pre)
  then show ?case by (cases "pre @ s") auto
qed simp

lemma index_of_nl: "nl \<notin> set u \<Longrightarrow> index_of (u @ nl # r) [nl] = Some (length u)"
  by (induction u) auto

lemma heredoc_rest_line:
  assumes "list_all blank bl" and "nl \<notin> set w" and "w = c # u"
    and "delimiter_char c" "\<not> is_quote c" "c \<noteq> CHR ''-''"
  shows "heredoc_rest (bl @ w @ nl # r) = bl @ w" and "heredoc_rest (bl @ w) = bl @ w"
proof -
  define a where "a = takeWhile delimiter_char w"
  define b where "b = dropWhile delimiter_char w"
  have w: "w = a @ b" by (simp add: a_def b_def)
  have nl_stop: "\<not> delimiter_char nl" by (simp add: delimiter_char_def)
  have dash: "\<not> has_prefix (bl @ w @ z) ''-''" for z
    using assms(1,3,6) by (cases bl) (auto simp: blank_def)
  have nb: "\<not> blank c" using assms(4) by (auto simp: blank_def delimiter_char_def)
  have drop_bl: "dropWhile blank (bl @ w @ z) = w @ z" for z
    using assms(1,3) nb by (simp add: list_all_iff dropWhile_append2)
  have cut_w: "takeWhile delimiter_char (w @ nl # r) = a" "dropWhile delimiter_char (w @ nl # r) = b @ nl # r"
    unfolding a_def b_def using nl_stop by (induction w) auto
  have "nl \<notin> set b" using assms(2) w by simp
  then have i: "index_of (b @ nl # r) [nl] = Some (length b)" "index_of b [nl] = None"
    using index_of_nl contains_subset [of b "[nl]"] by (simp, cases "index_of b [nl]") (auto simp: contains_def)
  have a: "a \<noteq> []" using assms(3,4) by (simp add: a_def)
  have hd_w: "\<not> is_quote (hd (w @ z))" "w @ z \<noteq> []" for z using assms(3,5) by simp_all
  have tk: "take (length (bl @ w @ nl # r) - length (b @ nl # r)) (bl @ w @ nl # r) = bl @ a" by (simp add: w)
  have "heredoc_rest (bl @ w @ nl # r)
    = take (length (bl @ w @ nl # r) - length (b @ nl # r)) (bl @ w @ nl # r) @ take (length b) (b @ nl # r)"
    unfolding heredoc_rest_def Let_def
    by (simp only: dash drop_bl hd_w cut_w i a if_False prod.case option.case)
  then show "heredoc_rest (bl @ w @ nl # r) = bl @ w" using tk w by simp
  have "heredoc_rest (bl @ w @ []) = bl @ w @ []"
    unfolding heredoc_rest_def Let_def
    by (simp only: dash drop_bl hd_w if_False) (simp add: a_def [symmetric] b_def [symmetric] a i)
  then show "heredoc_rest (bl @ w) = bl @ w" by simp
qed

text \<open>A here-string hides the rest of the script from the edit guard. The scan steps over the first of its three
  characters only and takes the other two for a here-document, so everything behind the line of the here-string
  counts as its body: whatever those commands write, the guard decides as if they were not there.\<close>

theorem here_string_hides_commands:
  assumes "list_all (\<lambda>c. \<not> is_quote c \<and> c \<noteq> CHR ''<'') pre" and "list_all blank bl"
    and "nl \<notin> set w" and "w = c # u" and "delimiter_char c" and "\<not> is_quote c" and "c \<noteq> CHR ''-''" and "c \<noteq> CHR ''<''"
  shows "scriptedRepoWrite (pre @ ''<<<'' @ bl @ w @ nl # rest) root = scriptedRepoWrite (pre @ ''<<<'' @ bl @ w) root"
proof -
  have no: "\<not> has_prefix (bl @ w @ z) ''<''" for z
    using assms(2,4,8) by (cases bl) (auto simp: blank_def)
  have scan: "heredoc_scan None (pre @ ''<<<'' @ bl @ w @ z) = pre @ ''<<<'' @ heredoc_rest (bl @ w @ z)" for z
    using heredoc_scan_plain [OF assms(1), of "''<<<'' @ bl @ w @ z"] no [of z] by (simp add: is_quote_def)
  have "heredocCommandHeader (pre @ ''<<<'' @ bl @ w @ nl # rest) = pre @ ''<<<'' @ bl @ w"
    unfolding heredocCommandHeader_def scan using heredoc_rest_line(1) [OF assms(2-7)] by simp
  moreover have "heredocCommandHeader (pre @ ''<<<'' @ bl @ w) = pre @ ''<<<'' @ bl @ w"
    unfolding heredocCommandHeader_def using scan [of "[]"] heredoc_rest_line(2) [OF assms(2-7)] by simp
  ultimately show ?thesis by (simp add: scriptedRepoWrite_def)
qed

lemma here_string_hides_commands_witness:
  "\<not> scriptedRepoWrite (''cat <<< x'' @ nl # ''sed -i s/a/b/ main.go'') ''/repo''
    \<and> scriptedRepoWrite (''cat x'' @ nl # ''sed -i s/a/b/ main.go'') ''/repo''"
proof
  have "scriptedRepoWrite (''cat '' @ ''<<<'' @ '' '' @ ''x'' @ nl # ''sed -i s/a/b/ main.go'') ''/repo''
      = scriptedRepoWrite (''cat '' @ ''<<<'' @ '' '' @ ''x'') ''/repo''"
    by (rule here_string_hides_commands [where c = "CHR ''x''" and u = "[]"])
      (simp_all add: is_quote_def blank_def delimiter_char_def)
  moreover have "\<not> scriptedRepoWrite (''cat '' @ ''<<<'' @ '' '' @ ''x'') ''/repo''" by code_simp
  ultimately show "\<not> scriptedRepoWrite (''cat <<< x'' @ nl # ''sed -i s/a/b/ main.go'') ''/repo''" by simp
  show "scriptedRepoWrite (''cat x'' @ nl # ''sed -i s/a/b/ main.go'') ''/repo''" by code_simp
qed

section \<open>Paths below the repository\<close>

definition clean_part :: "string \<Rightarrow> bool" where
  "clean_part c \<longleftrightarrow> c \<noteq> [] \<and> c \<noteq> ''.'' \<and> c \<noteq> ''..'' \<and> CHR ''/'' \<notin> set c"

lemma clean_rooted_parts:
  "list_all clean_part ds \<Longrightarrow> list_all (\<lambda>c. CHR ''/'' \<notin> set c) cs \<Longrightarrow> list_all clean_part (clean_rooted ds cs)"
proof (induction cs arbitrary: ds)
  case (Cons c cs)
  have "list_all clean_part (butlast ds)" using Cons.prems(1) by (auto simp: list_all_iff dest: in_set_butlastD)
  moreover have "clean_part c" if "c \<noteq> []" "c \<noteq> ''.''" "c \<noteq> ''..''" using that Cons.prems(2) by (simp add: clean_part_def)
  ultimately have "list_all clean_part (if c = [] \<or> c = ''.'' then ds else if c = ''..'' then butlast ds else ds @ [c])"
    using Cons.prems(1) by simp
  from Cons.IH [OF this] Cons.prems(2) show ?case by simp
qed simp

lemma path_parts_clean: "list_all clean_part (path_parts p)"
  unfolding path_parts_def by (rule clean_rooted_parts) (auto simp: list_all_iff split_on_no_sep)

lemma rel_parts_cases:
  "(\<exists>r. t = b @ r \<and> rel_parts b t = r) \<or> (\<exists>r. rel_parts b t = ''..'' # r \<and> \<not> Sublist.prefix b t)"
proof (induction b arbitrary: t)
  case (Cons c base)
  show ?case
  proof (cases t)
    case (Cons d target)
    with Cons.IH [of target] show ?thesis by (cases "c = d") auto
  next
    case Nil
    then show ?thesis by (cases base) auto
  qed
qed auto

lemma join_head: "c \<noteq> [] \<Longrightarrow> \<exists>r. join ''/'' (c # cs) = c @ r \<and> (r = [] \<or> hd r = CHR ''/'')"
  by (cases cs) auto

text \<open>What the guard takes for a write into the repository: a destination without expansions whose cleaned path lies below
  the root, however many dots it goes through.\<close>

lemma path_in_root_exact:
  "pathInRoot dest root \<longleftrightarrow>
    \<not> (dest = [] \<or> contains_any dest [CHR ''$'', CHR 0x60, CHR ''*'', CHR ''?'', CHR ''['', CHR '']'']
        \<or> has_prefix dest ''~'' \<or> has_prefix dest ''/dev/'')
    \<and> Sublist.prefix (path_parts root) (resolve_dest root dest)"
proof -
  let ?b = "path_parts root" and ?t = "resolve_dest root dest"
  have clean: "list_all clean_part ?t" unfolding resolve_dest_def by (rule path_parts_clean)
  have "rel_path ?b ?t \<noteq> ''..'' \<and> \<not> has_prefix (rel_path ?b ?t) ''../'' \<longleftrightarrow> Sublist.prefix ?b ?t"
    using rel_parts_cases [of ?t ?b]
  proof (elim disjE exE conjE)
    fix r assume r: "?t = ?b @ r" "rel_parts ?b ?t = r"
    show ?thesis
    proof (cases r)
      case Nil
      then show ?thesis using r by (simp add: rel_path_def)
    next
      case (Cons c cs)
      then have c: "clean_part c" using clean r by simp
      then obtain z where z: "join ''/'' r = c @ z" "z = [] \<or> hd z = CHR ''/''"
        using join_head [of c cs] Cons by (auto simp: clean_part_def)
      have "c @ z \<noteq> ''..''" using z(2) c by (cases z) (auto simp: clean_part_def append_eq_Cons_conv Cons_eq_append_conv)
      moreover have "\<not> has_prefix (c @ z) ''../''"
      proof
        assume "has_prefix (c @ z) ''../''"
        then obtain y where "c @ z = ''../'' @ y" by (auto simp: has_prefix_iff)
        with z(2) c show False by (auto simp: clean_part_def append_eq_Cons_conv Cons_eq_append_conv)
      qed
      ultimately show ?thesis using r z Cons by (simp add: rel_path_def)
    qed
  next
    fix r assume r: "rel_parts ?b ?t = ''..'' # r" "\<not> Sublist.prefix ?b ?t"
    then have "rel_path ?b ?t = ''..'' \<or> has_prefix (rel_path ?b ?t) ''../''"
      by (cases r) (auto simp: rel_path_def)
    with r show ?thesis by auto
  qed
  then show ?thesis unfolding pathInRoot_def Let_def by simp
qed

section \<open>The warning counter\<close>

text \<open>The state directory maps a file name to a counter, or to bytes that do not decode. Times are nanoseconds since
  Go's zero time. \<open>name\<close> is the file name of a session, from a hash.\<close>

datatype guard_file = Counter int int | Garbled

record guard_dir =
  gd_files :: "string \<Rightarrow> guard_file option"
  gd_write_fault :: bool

record edit_guard_spec =
  escalation_after :: int
  retention_days :: int
  warning :: string
  escalated_warning :: string

definition loadEditGuardSpec :: "edit_guard_spec option \<Rightarrow> edit_guard_spec" where
  "loadEditGuardSpec decoded =
     (case decoded of
        Some s \<Rightarrow> if escalation_after s < 1 \<or> trim_space (warning s) = [] \<or> trim_space (escalated_warning s) = []
          then \<lparr>escalation_after = 0, retention_days = 0, warning = [], escalated_warning = []\<rparr> else s
      | None \<Rightarrow> \<lparr>escalation_after = 0, retention_days = 0, warning = [], escalated_warning = []\<rparr>)"

definition retention :: "int \<Rightarrow> int" where
  "retention days = days * 24 * 3600 * 10 ^ 9"

definition cleanExpiredEditGuardFiles :: "guard_dir \<Rightarrow> int \<Rightarrow> int \<Rightarrow> guard_dir" where
  "cleanExpiredEditGuardFiles d days now =
     (if days < 1 then d
      else d\<lparr>gd_files := (\<lambda>p. case gd_files d p of
          Some (Counter n t) \<Rightarrow> if t \<noteq> 0 \<and> retention days < now - t then None else Some (Counter n t)
        | f \<Rightarrow> f)\<rparr>)"

definition read_counter :: "guard_dir \<Rightarrow> string \<Rightarrow> int \<times> int" where
  "read_counter d p = (case gd_files d p of Some (Counter n t) \<Rightarrow> (n, t) | _ \<Rightarrow> (0, 0))"

definition writeEditGuardState :: "guard_dir \<Rightarrow> string \<Rightarrow> int \<Rightarrow> int \<Rightarrow> guard_dir" where
  "writeEditGuardState d p n t = (if gd_write_fault d then d else d\<lparr>gd_files := (gd_files d)(p \<mapsto> Counter n t)\<rparr>)"

definition editGuardWarningAt ::
  "(string \<Rightarrow> string) \<Rightarrow> string \<Rightarrow> guard_dir \<Rightarrow> edit_guard_spec \<Rightarrow> int \<Rightarrow> string \<times> guard_dir" where
  "editGuardWarningAt name session d spec now =
     (let d1 = cleanExpiredEditGuardFiles d (retention_days spec) now;
          (n, t) = read_counter d1 (name session);
          n1 = (if 0 < retention_days spec \<and> retention (retention_days spec) < now - t then 0 else n) + 1
      in (if escalation_after spec < n1 then escalated_warning spec else warning spec,
          writeEditGuardState d1 (name session) n1 now))"

definition editGuardWarning ::
  "(string \<Rightarrow> string) \<Rightarrow> string \<Rightarrow> guard_dir \<Rightarrow> edit_guard_spec \<Rightarrow> int \<Rightarrow> string \<times> guard_dir" where
  "editGuardWarning name session d spec now =
     (if escalation_after spec < 1 then ([], d)
      else if session = [] then (warning spec, d)
      else editGuardWarningAt name session d spec now)"

definition resetEditGuardFeedback :: "(string \<Rightarrow> string) \<Rightarrow> string \<Rightarrow> guard_dir \<Rightarrow> int \<Rightarrow> guard_dir" where
  "resetEditGuardFeedback name session d now =
     (if session = [] then d else writeEditGuardState d (name session) 0 now)"

text \<open>The sessions warn and give feedback in any order. \<open>streak\<close> is what the counter stands for.\<close>

datatype guard_event = Warns string int | Rated string int

fun event_time :: "guard_event \<Rightarrow> int" where
  "event_time (Warns s t) = t"
| "event_time (Rated s t) = t"

fun event_session :: "guard_event \<Rightarrow> string" where
  "event_session (Warns s t) = s"
| "event_session (Rated s t) = s"

fun guard_step :: "(string \<Rightarrow> string) \<Rightarrow> edit_guard_spec \<Rightarrow> guard_dir \<Rightarrow> guard_event \<Rightarrow> guard_dir" where
  "guard_step name spec d (Warns s t) = snd (editGuardWarning name s d spec t)"
| "guard_step name spec d (Rated s t) = resetEditGuardFeedback name s d t"

fun streak_step :: "string \<Rightarrow> int \<Rightarrow> guard_event \<Rightarrow> int" where
  "streak_step s n (Warns r t) = (if r = s then n + 1 else n)"
| "streak_step s n (Rated r t) = (if r = s then 0 else n)"

definition streak :: "string \<Rightarrow> guard_event list \<Rightarrow> int" where
  "streak s es = foldl (streak_step s) 0 es"

definition in_window :: "int \<Rightarrow> int \<Rightarrow> int \<Rightarrow> bool" where
  "in_window t0 days t \<longleftrightarrow> t0 \<le> t \<and> t \<le> t0 + retention days"

definition counts :: "int \<Rightarrow> int \<Rightarrow> guard_file option \<Rightarrow> int \<Rightarrow> bool" where
  "counts t0 days f n \<longleftrightarrow> (f = None \<and> n = 0) \<or> (\<exists>t. f = Some (Counter n t) \<and> in_window t0 days t)"

lemma counts_kept:
  assumes "counts t0 days (gd_files d p) n" and "in_window t0 days now" and "0 < t0"
  shows "gd_files (cleanExpiredEditGuardFiles d days now) p = gd_files d p"
  using assms by (auto simp: counts_def in_window_def cleanExpiredEditGuardFiles_def split: option.splits)

lemma warning_step:
  assumes "counts t0 (retention_days spec) (gd_files d (name s)) n" and "in_window t0 (retention_days spec) now" and "0 < t0"
    and "\<not> gd_write_fault d" and "1 \<le> escalation_after spec" and "s \<noteq> []"
  shows "editGuardWarning name s d spec now =
    (if escalation_after spec < n + 1 then escalated_warning spec else warning spec,
     writeEditGuardState (cleanExpiredEditGuardFiles d (retention_days spec) now) (name s) (n + 1) now)"
proof -
  have "gd_files (cleanExpiredEditGuardFiles d (retention_days spec) now) (name s) = gd_files d (name s)"
    using counts_kept assms(1-3) by blast
  then show ?thesis
    using assms
    by (auto simp: editGuardWarning_def editGuardWarningAt_def read_counter_def Let_def counts_def in_window_def)
qed

lemma guard_step_counts:
  assumes "\<forall>r. counts t0 (retention_days spec) (gd_files d (name r)) (n r)" and "in_window t0 (retention_days spec) (event_time e)"
    and "0 < t0" and "\<not> gd_write_fault d" and "1 \<le> escalation_after spec" and "event_session e \<noteq> []" and "inj name"
  shows "counts t0 (retention_days spec) (gd_files (guard_step name spec d e) (name r)) (streak_step r (n r) e)
    \<and> \<not> gd_write_fault (guard_step name spec d e)"
proof -
  have nf: "\<not> gd_write_fault (cleanExpiredEditGuardFiles d days t)" for days t
    using assms(4) by (simp add: cleanExpiredEditGuardFiles_def)
  have inj: "name a = name b \<longleftrightarrow> a = b" for a b using assms(7) by (simp add: inj_eq)
  show ?thesis
  proof (cases e)
    case (Warns s t)
    have w: "in_window t0 (retention_days spec) t" "s \<noteq> []" using assms(2,6) Warns by simp_all
    have step: "guard_step name spec d e
        = writeEditGuardState (cleanExpiredEditGuardFiles d (retention_days spec) t) (name s) (n s + 1) t"
      using warning_step [OF _ w(1) assms(3-5) w(2), of name "n s"] assms(1) Warns by simp
    have "gd_files (cleanExpiredEditGuardFiles d (retention_days spec) t) (name r) = gd_files d (name r)"
      using counts_kept [OF _ w(1) assms(3)] assms(1) by blast
    then show ?thesis
      using assms(1) w Warns step nf inj by (auto simp: writeEditGuardState_def counts_def)
  next
    case (Rated s t)
    then show ?thesis
      using assms inj by (auto simp: resetEditGuardFeedback_def writeEditGuardState_def counts_def)
  qed
qed

text \<open>The edit guard escalates exactly after more than the configured number of warnings since the session's last
  rating, whatever other sessions do in between: inside one retention window the counter file of a session is its
  streak of unanswered warnings.\<close>

theorem edit_guard_escalates:
  assumes "list_all (\<lambda>e. in_window t0 (retention_days spec) (event_time e) \<and> event_session e \<noteq> []) es"
    and "in_window t0 (retention_days spec) now" and "0 < t0" and "1 \<le> escalation_after spec" and "s \<noteq> []" and "inj name"
  shows "fst (editGuardWarning name s
      (foldl (guard_step name spec) \<lparr>gd_files = (\<lambda>p. None), gd_write_fault = False\<rparr> es) spec now)
    = (if escalation_after spec \<le> streak s es then escalated_warning spec else warning spec)"
proof -
  let ?d = "foldl (guard_step name spec) \<lparr>gd_files = (\<lambda>p. None), gd_write_fault = False\<rparr> es"
  have "(\<forall>r. counts t0 (retention_days spec) (gd_files ?d (name r)) (streak r es)) \<and> \<not> gd_write_fault ?d"
    using assms(1)
  proof (induction es rule: rev_induct)
    case Nil
    then show ?case by (simp add: counts_def streak_def)
  next
    case (snoc e es)
    let ?c = "foldl (guard_step name spec) \<lparr>gd_files = (\<lambda>p. None), gd_write_fault = False\<rparr> es"
    from snoc have "\<forall>r. counts t0 (retention_days spec) (gd_files ?c (name r)) (streak r es)" "\<not> gd_write_fault ?c" by simp_all
    from guard_step_counts [where n = "\<lambda>r. streak r es", OF this(1) _ assms(3) this(2) assms(4) _ assms(6), of e] snoc.prems
    show ?case by (simp add: streak_def)
  qed
  then show ?thesis
    using warning_step [OF _ assms(2,3) _ assms(4,5), of ?d name "streak s es"] by auto
qed

section \<open>Witnesses\<close>

definition sample_guard_spec :: edit_guard_spec where
  "sample_guard_spec = \<lparr>escalation_after = 2, retention_days = 30, warning = ''w'', escalated_warning = ''e''\<rparr>"

lemma edit_guard_escalates_witness:
  "fst (editGuardWarning (\<lambda>s. s) ''a'' (foldl (guard_step (\<lambda>s. s) sample_guard_spec) \<lparr>gd_files = (\<lambda>p. None), gd_write_fault = False\<rparr>
      [Warns ''a'' 5, Warns ''b'' 6, Rated ''b'' 7, Warns ''a'' 8]) sample_guard_spec 9) = ''e''"
  using edit_guard_escalates [of 5 sample_guard_spec "[Warns ''a'' 5, Warns ''b'' 6, Rated ''b'' 7, Warns ''a'' 8]" 9 "''a''" "\<lambda>s. s"]
  by (simp add: sample_guard_spec_def in_window_def retention_def streak_def)

definition sample_hook :: hook_input where
  "sample_hook = \<lparr>hi_tool = ''Bash'', hi_command = Some (Some ''echo 'a  b' | wc -- x''), hi_timeout = Some 2000, hi_background = False\<rparr>"


end
