(* ===== verification/Compact.thy ===== *)
theory Compact
  imports Json Utf8 Complex_Main
begin

text \<open>
  Compaction of agent transcripts: \<open>internal/decide/compact.go\<close>.

  The decision model is a parameter: what it answers to the state and the questions of a request, or that it fails.
  Decoding a line, the size of an encoded value and \<open>fmt\<close>'s rendering of one are the standard library's. A level is a
  rational number, as every finite float is. The reduction ratio, a quotient of floats, is left out of the report.
\<close>

section \<open>Entries\<close>

text \<open>\<open>en_tool_input\<close> is \<^const>\<open>JNull\<close> for nil. \<open>en_raw\<close> is empty when there is none.\<close>

record entry =
  en_index :: nat
  en_role :: string
  en_type :: string
  en_content :: string
  en_tool_name :: string
  en_tool_input :: json
  en_tool_output :: string
  en_call_id :: string
  en_raw :: obj

definition field_or :: "string option \<Rightarrow> string \<Rightarrow> string" where
  "field_or v d = (case v of Some s \<Rightarrow> s | None \<Rightarrow> d)"

text \<open>The first of the nested tool calls, for an entry without an ID of its own.\<close>

definition object_of :: "json option \<Rightarrow> obj option" where
  "object_of v = (case v of Some (JObj f) \<Rightarrow> Some f | _ \<Rightarrow> None)"

definition first_call :: "json option \<Rightarrow> obj option" where
  "first_call v = (case v of Some (JArr (c # _)) \<Rightarrow> object_of (Some c) | _ \<Rightarrow> None)"

definition with_function :: "obj \<Rightarrow> entry \<Rightarrow> entry" where
  "with_function f e =
     (let e1 = (case str_field f ''name'' of
           Some name \<Rightarrow> if en_tool_name e = [] then e\<lparr>en_tool_name := name\<rparr> else e | None \<Rightarrow> e)
      in case fmlookup f ''arguments'' of
           Some args \<Rightarrow> if en_tool_input e1 = JNull then e1\<lparr>en_tool_input := args\<rparr> else e1 | None \<Rightarrow> e1)"

definition nested_call :: "obj \<Rightarrow> entry \<Rightarrow> entry" where
  "nested_call raw e =
     (case first_call (fmlookup raw ''tool_calls'') of
        None \<Rightarrow> e
      | Some tc \<Rightarrow>
          let e1 = e\<lparr>en_call_id := field_or (str_field tc ''id'') (en_call_id e)\<rparr> in
          case object_of (fmlookup tc ''function'') of None \<Rightarrow> e1 | Some f \<Rightarrow> with_function f e1)"

definition call_id_of :: "obj \<Rightarrow> string \<Rightarrow> string \<Rightarrow> string" where
  "call_id_of raw role type =
     (case str_field raw ''tool_call_id'' of
        Some i \<Rightarrow> i
      | None \<Rightarrow> (case str_field raw ''tool_use_id'' of
          Some i \<Rightarrow> i
        | None \<Rightarrow> (case str_field raw ''id'' of
            Some i \<Rightarrow> if role = ''tool'' \<or> type = ''tool_use'' \<or> type = ''tool_result'' then i else []
          | None \<Rightarrow> [])))"

definition parse_entry :: "nat \<Rightarrow> obj \<Rightarrow> entry" where
  "parse_entry idx raw =
     (let role = field_or (str_field raw ''role'') []; type = field_or (str_field raw ''type'') [];
          e = \<lparr>en_index = idx, en_role = role, en_type = type, en_content = field_or (str_field raw ''content'') [],
            en_tool_name = field_or (str_field raw ''tool_name'') [],
            en_tool_input = (case fmlookup raw ''tool_input'' of Some v \<Rightarrow> v | None \<Rightarrow> JNull),
            en_tool_output = (case str_field raw ''tool_output'' of Some s \<Rightarrow> s | None \<Rightarrow> field_or (str_field raw ''output'') []),
            en_call_id = call_id_of raw role type, en_raw = raw\<rparr>;
          e1 = (if en_call_id e = [] then nested_call raw e else e)
      in if en_role e1 = [] \<and> (en_tool_name e1 \<noteq> [] \<or> en_tool_output e1 \<noteq> []) then e1\<lparr>en_role := ''tool''\<rparr> else e1)"

text \<open>\<open>ParseJSONLTranscript\<close>: the error is the number of the line that does not decode, or 0 for a read error.\<close>

fun parse_lines :: "(string \<Rightarrow> obj option) \<Rightarrow> nat \<Rightarrow> nat \<Rightarrow> string list \<Rightarrow> nat + entry list" where
  "parse_lines decode num idx [] = Inr []"
| "parse_lines decode num idx (l # ls) =
     (let t = trim_space l in
      if t = [] then parse_lines decode (num + 1) idx ls
      else case decode t of
          None \<Rightarrow> Inl num
        | Some raw \<Rightarrow> map_inr (Cons (parse_entry idx raw)) (parse_lines decode (num + 1) (idx + 1) ls))"

definition ParseJSONLTranscript :: "(string \<Rightarrow> obj option) \<Rightarrow> bool \<Rightarrow> string list \<Rightarrow> nat + entry list" where
  "ParseJSONLTranscript decode read_error ls =
     (case parse_lines decode 1 0 ls of Inr es \<Rightarrow> if read_error then Inl 0 else Inr es | Inl n \<Rightarrow> Inl n)"

text \<open>What \<open>WriteJSONLTranscript\<close> encodes for an entry that has its raw object.\<close>

definition written_raw :: "entry \<Rightarrow> obj" where
  "written_raw e =
     (let r0 = en_raw e;
          r1 = (if en_tool_output e \<noteq> [] then
                 (if fmlookup r0 ''tool_output'' \<noteq> None then fmupd ''tool_output'' (JStr (en_tool_output e)) r0
                  else if fmlookup r0 ''output'' \<noteq> None then fmupd ''output'' (JStr (en_tool_output e)) r0 else r0)
               else r0)
      in if en_content e \<noteq> [] \<and> fmlookup r1 ''content'' \<noteq> None then fmupd ''content'' (JStr (en_content e)) r1 else r1)"

section \<open>Candidates\<close>

record candidate =
  cd_call :: "nat option"
  cd_result :: "nat option"
  cd_tool :: string
  cd_input :: json
  cd_output_len :: nat
  cd_id :: string

definition result_like :: "entry \<Rightarrow> bool" where
  "result_like e \<longleftrightarrow> en_role e = ''tool'' \<or> en_tool_output e \<noteq> [] \<or> en_type e = ''tool_result''"

text \<open>The maps from an ID to the index of its call and of its result: a later entry overwrites an earlier one.\<close>

definition last_at :: "(entry \<Rightarrow> bool) \<Rightarrow> entry list \<Rightarrow> nat option" where
  "last_at P es = (case filter (\<lambda>i. P (es ! i)) [0..<length es] of [] \<Rightarrow> None | is \<Rightarrow> Some (last is))"

definition call_map :: "entry list \<Rightarrow> string \<Rightarrow> nat option" where
  "call_map es i = last_at (\<lambda>e. en_call_id e = i \<and> i \<noteq> [] \<and> \<not> result_like e) es"

definition result_map :: "entry list \<Rightarrow> string \<Rightarrow> nat option" where
  "result_map es i = last_at (\<lambda>e. en_call_id e = i \<and> i \<noteq> [] \<and> result_like e) es"

definition shown_output :: "entry \<Rightarrow> string" where
  "shown_output e = (if en_tool_output e = [] then en_content e else en_tool_output e)"

text \<open>The entries that stay as they are: the first, and the recent ones from \<open>recent\<close> on.\<close>

definition pinned :: "int \<Rightarrow> nat \<Rightarrow> bool" where
  "pinned recent i \<longleftrightarrow> i = 0 \<or> recent \<le> int i"

definition pinned_part :: "int \<Rightarrow> nat option \<Rightarrow> bool" where
  "pinned_part recent p \<longleftrightarrow> (case p of None \<Rightarrow> False | Some i \<Rightarrow> pinned recent i)"

definition pair_candidate :: "entry list \<Rightarrow> nat \<Rightarrow> candidate" where
  "pair_candidate es i =
     (let e = es ! i; c = call_map es (en_call_id e); r = result_map es (en_call_id e) in
      \<lparr>cd_call = c, cd_result = r,
        cd_tool = (case c of Some j \<Rightarrow> if en_tool_name e = [] then en_tool_name (es ! j) else en_tool_name e
          | None \<Rightarrow> en_tool_name e),
        cd_input = (case c of Some j \<Rightarrow> if en_tool_input e = JNull then en_tool_input (es ! j) else en_tool_input e
          | None \<Rightarrow> en_tool_input e),
        cd_output_len = (case r of Some j \<Rightarrow> length (shown_output (es ! j)) | None \<Rightarrow> length (en_tool_output e)),
        cd_id = en_call_id e\<rparr>)"

definition single_candidate :: "entry list \<Rightarrow> nat \<Rightarrow> candidate" where
  "single_candidate es i =
     \<lparr>cd_call = Some i, cd_result = Some i, cd_tool = en_tool_name (es ! i), cd_input = en_tool_input (es ! i),
       cd_output_len = length (shown_output (es ! i)), cd_id = []\<rparr>"

definition tool_entry :: "entry \<Rightarrow> bool" where
  "tool_entry e \<longleftrightarrow> en_role e = ''tool'' \<or> en_tool_name e \<noteq> [] \<or> en_tool_output e \<noteq> []"

definition parts :: "candidate \<Rightarrow> nat list" where
  "parts c = (case cd_call c of Some i \<Rightarrow> [i] | None \<Rightarrow> []) @ (case cd_result c of Some i \<Rightarrow> [i] | None \<Rightarrow> [])"

text \<open>One turn of the loop over the entries; the second component marks the entries that belong to a candidate.\<close>

definition candidate_step :: "entry list \<Rightarrow> int \<Rightarrow> candidate list \<times> nat list \<Rightarrow> nat \<Rightarrow> candidate list \<times> nat list" where
  "candidate_step es recent st i =
     (let (cs, marked) = st; e = es ! i; c = pair_candidate es i in
      if pinned recent i \<or> i \<in> set marked then st
      else if en_call_id e \<noteq> [] \<and> (pinned_part recent (cd_call c) \<or> pinned_part recent (cd_result c)) then st
      else if en_call_id e \<noteq> [] \<and> (cd_call c \<noteq> None \<or> cd_result c \<noteq> None) then (cs @ [c], parts c @ marked)
      else if tool_entry e then (cs @ [single_candidate es i], i # marked)
      else st)"

definition candidates :: "entry list \<Rightarrow> int \<Rightarrow> candidate list" where
  "candidates es recent = fst (foldl (candidate_step es recent) ([], []) [0..<length es])"

section \<open>The request\<close>

record question =
  q_type :: string
  q_instructions :: string
  q_criteria :: "(string \<times> string) list"

definition keep_call_key :: "nat \<Rightarrow> string" where
  "keep_call_key k = ''cand_'' @ nat_dec k @ ''_keep_call''"

definition keep_result_key :: "nat \<Rightarrow> string" where
  "keep_result_key k = ''cand_'' @ nat_dec k @ ''_keep_result''"

definition candidate_questions :: "nat \<Rightarrow> candidate \<Rightarrow> (string \<times> question) list" where
  "candidate_questions k c =
     (let i = (if cd_id c = [] then ''t'' @ nat_dec k else cd_id c) in
      [(keep_call_key k, \<lparr>q_type = ''noul'',
         q_instructions = ''Tool call '' @ i @ '' ('' @ cd_tool c @ '') should stay in the history: knowing this call was made, with its input, still matters for what the assistant does next'',
         q_criteria = [(''true'', ''The tool execution is an important milestone or state change needed for reference''),
           (''false'', ''The tool call is intermediate or obsolete noise'')]\<rparr>),
       (keep_result_key k, \<lparr>q_type = ''noul'',
         q_instructions = ''The full output of tool call '' @ i @ '' ('' @ cd_tool c @ '', '' @ nat_dec (cd_output_len c) @ '' bytes) should stay in the history verbatim: the assistant still needs its contents and re-running the tool would not do'',
         q_criteria = [(''true'', ''Verbatim content contains critical errors, code snippets, or definitions''),
           (''false'', ''Result is bulky listing, repetitive logs, or output that can be safely truncated'')]\<rparr>)])"

definition numbered :: "'a list \<Rightarrow> (nat \<times> 'a) list" where
  "numbered xs = zip [0..<length xs] xs"

definition questions :: "candidate list \<Rightarrow> (string \<times> question) list" where
  "questions cs = concat (map (\<lambda>(k, c). candidate_questions k c) (numbered cs))"

definition first_runes :: "nat \<Rightarrow> string \<Rightarrow> string" where
  "first_runes k s = concat (take k (rune_list s))"

definition last_runes :: "nat \<Rightarrow> string \<Rightarrow> string" where
  "last_runes k s = concat (drop (length (rune_list s) - k) (rune_list s))"

definition shorten :: "nat \<Rightarrow> string \<Rightarrow> string" where
  "shorten k s = (if k < length (rune_list s) then first_runes k s @ ''...'' else s)"

definition user_goals :: "entry list \<Rightarrow> string list" where
  "user_goals es = map en_content (filter (\<lambda>e. en_role e = ''user'' \<and> en_content e \<noteq> []) es)"

definition first_goal :: "entry list \<Rightarrow> string" where
  "first_goal es = (case user_goals es of g # _ \<Rightarrow> g | [] \<Rightarrow> (case es of e # _ \<Rightarrow> en_content e | [] \<Rightarrow> []))"

definition stage_input :: "(json \<Rightarrow> string) \<Rightarrow> nat \<Rightarrow> json \<Rightarrow> json" where
  "stage_input show stage v =
     (let limit = (if 5 \<le> stage then 20 else if 3 \<le> stage then 60 else 200);
          v1 = (if 2 \<le> stage \<and> v \<noteq> JNull \<and> limit < length (rune_list (show v))
            then JStr (first_runes limit (show v) @ ''...'') else v)
      in if 6 \<le> stage then JNull else v1)"

definition stage_text :: "nat \<Rightarrow> string \<Rightarrow> string" where
  "stage_text stage s =
     (if 3 \<le> stage \<and> 400 < length (rune_list s) then first_runes 250 s @ '' ... [abridged] ... '' @ last_runes 100 s
      else if 4 \<le> stage then shorten 150 s else s)"

definition json_object :: "(string \<times> json) list \<Rightarrow> json" where
  "json_object kvs = JObj (fmap_of_list kvs)"

definition candidate_state :: "(json \<Rightarrow> string) \<Rightarrow> nat \<Rightarrow> candidate \<Rightarrow> json" where
  "candidate_state show stage c =
     json_object [(''tool_name'', JStr (cd_tool c)), (''tool_input'', stage_input show stage (cd_input c)),
       (''output_length'', JNum (nat_dec (cd_output_len c))), (''call_id'', JStr (cd_id c))]"

definition call_summary :: "entry \<Rightarrow> string" where
  "call_summary e =
     (if en_tool_name e = [] \<and> en_call_id e = [] then []
      else en_call_id e @ '' ('' @ en_tool_name e @ '') -> ok, '' @ nat_dec (length (shown_output e)) @ '' chars (omitted)'')"

definition nonempty_fields :: "(string \<times> string) list \<Rightarrow> json" where
  "nonempty_fields kvs = json_object (map (\<lambda>(k, v). (k, JStr v)) (filter (\<lambda>(k, v). v \<noteq> []) kvs))"

definition history_entry :: "nat \<Rightarrow> entry \<Rightarrow> json" where
  "history_entry stage e =
     nonempty_fields [(''role'', en_role e), (''text'', stage_text stage (en_content e)), (''tool_call'', call_summary e)]"

definition stage_goal :: "nat \<Rightarrow> string \<Rightarrow> string" where
  "stage_goal stage g =
     (let g1 = (if 2 \<le> stage then shorten 400 g else g) in if 3 \<le> stage then shorten 150 g1 else g1)"

definition json_strings :: "string list \<Rightarrow> json" where
  "json_strings ss = (if ss = [] then JNull else JArr (map JStr ss))"

definition last_three :: "'a list \<Rightarrow> 'a list" where
  "last_three xs = drop (length xs - 3) xs"

definition stage_goals :: "nat \<Rightarrow> entry list \<Rightarrow> string list" where
  "stage_goals stage es =
     (let g = first_goal es; g1 = (if 2 \<le> stage then shorten 400 g else g) in
      if 3 \<le> stage \<and> 150 < length (rune_list g1) then [stage_goal stage g] else last_three (user_goals es))"

definition stage_state :: "(json \<Rightarrow> string) \<Rightarrow> entry list \<Rightarrow> candidate list \<Rightarrow> nat \<Rightarrow> json" where
  "stage_state show es cs stage =
     (let goal = JStr (stage_goal stage (first_goal es));
          context = (if stage < 4 then map (\<lambda>e. json_object [(''role'', JStr (en_role e)), (''content'', JStr (stage_text stage (en_content e)))])
              (filter (\<lambda>e. en_role e \<in> {''user'', ''assistant'', ''system''}) es) else []);
          history = (if stage < 5 then map (history_entry stage) es else [])
      in json_object
        ([(''initial_instruction'', goal), (''initial_goal'', goal), (''recent_goals'', json_strings (stage_goals stage es)),
          (''candidates'', json_object (map (\<lambda>(k, c). (''candidate_'' @ nat_dec k, candidate_state show stage c)) (numbered cs))),
          (''total_candidates'', JNum (nat_dec (length cs)))]
         @ (if context = [] then [] else [(''conversation_context'', JArr context)])
         @ (if history = [] then [] else [(''history'', JArr history)])))"

definition minimal_states :: "entry list \<Rightarrow> candidate list \<Rightarrow> json list" where
  "minimal_states es cs =
     (let goal = (''initial_instruction'', JStr (shorten 100 (first_goal es)));
          total = (''total_candidates'', JNum (nat_dec (length cs)))
      in [json_object [goal, (''candidates'', json_object (map (\<lambda>(k, c). (''cand_'' @ nat_dec k,
            json_object [(''tool'', JStr (cd_tool c)), (''len'', JNum (nat_dec (cd_output_len c)))])) (numbered cs))), total],
          json_object [goal, total],
          json_object [total]])"

text \<open>\<open>fits\<close>: the size of the encoding is at most the limit; \<open>too_big\<close>: it is more. Neither holds for a value that does not
  encode.\<close>

definition fits :: "(json \<Rightarrow> nat option) \<Rightarrow> int \<Rightarrow> json \<Rightarrow> bool" where
  "fits encoded limit v \<longleftrightarrow> (case encoded v of Some n \<Rightarrow> int n \<le> limit | None \<Rightarrow> False)"

definition too_big :: "(json \<Rightarrow> nat option) \<Rightarrow> int \<Rightarrow> json \<Rightarrow> bool" where
  "too_big encoded limit v \<longleftrightarrow> (case encoded v of Some n \<Rightarrow> limit < int n | None \<Rightarrow> False)"

fun minimal_fit :: "(json \<Rightarrow> nat option) \<Rightarrow> int \<Rightarrow> json list \<Rightarrow> json" where
  "minimal_fit encoded limit [] = json_object []"
| "minimal_fit encoded limit (v # vs) = (if too_big encoded limit v then minimal_fit encoded limit vs else v)"

definition fitCompactionState ::
  "(json \<Rightarrow> string) \<Rightarrow> (json \<Rightarrow> nat option) \<Rightarrow> entry list \<Rightarrow> candidate list \<Rightarrow> int \<Rightarrow> json \<times> (string \<times> question) list" where
  "fitCompactionState show encoded es cs limit0 =
     (let limit = (if limit0 \<le> 0 then 100 * 1024 else limit0) in
      (case find (fits encoded limit) (map (stage_state show es cs) [1, 2, 3, 4, 5, 6]) of
         Some v \<Rightarrow> v
       | None \<Rightarrow> minimal_fit encoded limit (minimal_states es cs),
       questions cs))"

section \<open>Compaction\<close>

record compact_options =
  pin_recent :: int
  threshold :: rat
  truncate_length :: int
  max_state_bytes :: int

definition normal_options :: "compact_options \<Rightarrow> compact_options" where
  "normal_options o' =
     \<lparr>pin_recent = (if pin_recent o' \<le> 0 then 5 else pin_recent o'),
       threshold = (if threshold o' < 0 then 1 / 2 else threshold o'),
       truncate_length = (if truncate_length o' \<le> 0 then 200 else truncate_length o'),
       max_state_bytes = (if max_state_bytes o' \<le> 0 then 100 * 1024 else max_state_bytes o')\<rparr>"

type_synonym backend = "json \<Rightarrow> (string \<times> question) list \<Rightarrow> (string \<Rightarrow> rat option) option"

definition keeps_part :: "rat \<Rightarrow> (string \<Rightarrow> rat option) \<Rightarrow> string \<Rightarrow> bool" where
  "keeps_part t answers key \<longleftrightarrow> (case answers key of Some v \<Rightarrow> t \<le> v | None \<Rightarrow> True)"

text \<open>Whether the call and the result of the \<open>k\<close>-th candidate are kept. A failing backend keeps everything.\<close>

definition decisions :: "rat \<Rightarrow> (string \<Rightarrow> rat option) option \<Rightarrow> nat \<Rightarrow> bool \<times> bool" where
  "decisions t res k =
     (case res of
        None \<Rightarrow> (True, True)
      | Some answers \<Rightarrow> (keeps_part t answers (keep_call_key k), keeps_part t answers (keep_result_key k)))"

definition excised :: "(nat \<Rightarrow> bool \<times> bool) \<Rightarrow> candidate list \<Rightarrow> nat list" where
  "excised d cs = concat (map (\<lambda>(k, c). if d k = (False, False) then parts c else []) (numbered cs))"

definition truncated :: "(nat \<Rightarrow> bool \<times> bool) \<Rightarrow> candidate list \<Rightarrow> nat list" where
  "truncated d cs = concat (map (\<lambda>(k, c). if d k = (True, False)
     then (case cd_result c of Some i \<Rightarrow> [i] | None \<Rightarrow> []) else []) (numbered cs))"

definition long_marker :: "nat \<Rightarrow> string" where
  "long_marker n = [nl] @ ''... [harnez compact truncated '' @ nat_dec n @ '' chars of this tool result; re-run the tool if needed]''"

definition short_marker :: "nat \<Rightarrow> string" where
  "short_marker n = [nl] @ ''... [truncated '' @ nat_dec n @ '' chars]''"

definition truncate_text :: "nat \<Rightarrow> string \<Rightarrow> string" where
  "truncate_text limit s =
     (let n = length (rune_list s);
          long = length (rune_list (long_marker n)); short = length (rune_list (short_marker n));
          text' = (if limit \<le> long then
              if short < limit then first_runes (limit - short) s @ short_marker (n - (limit - short))
              else first_runes limit s
            else first_runes (limit - long) s @ long_marker (n - (limit - long)))
      in if limit < length (rune_list text') then first_runes limit text' else text')"

definition truncate_entry :: "nat \<Rightarrow> entry \<Rightarrow> entry" where
  "truncate_entry limit e =
     (let t = truncate_text limit (shown_output e);
          e1 = (if en_tool_output e \<noteq> [] then
              e\<lparr>en_tool_output := t,
                en_raw := (if fmlookup (en_raw e) ''tool_output'' \<noteq> None then fmupd ''tool_output'' (JStr t) (en_raw e)
                  else if fmlookup (en_raw e) ''output'' \<noteq> None then fmupd ''output'' (JStr t) (en_raw e) else en_raw e)\<rparr>
            else e)
      in if en_content e1 \<noteq> [] then
           e1\<lparr>en_content := t,
             en_raw := (if fmlookup (en_raw e1) ''content'' \<noteq> None then fmupd ''content'' (JStr t) (en_raw e1) else en_raw e1)\<rparr>
         else e1)"

record compact_report =
  original_entries :: nat
  compacted_entries :: nat
  original_bytes :: nat
  compacted_bytes :: nat
  excised_tools :: nat
  truncated_results :: nat
  kept_verbatim :: nat

definition shortens :: "nat \<Rightarrow> nat list \<Rightarrow> entry list \<Rightarrow> nat \<Rightarrow> bool" where
  "shortens limit ts es i \<longleftrightarrow> i \<in> set ts \<and> limit < length (rune_list (shown_output (es ! i)))"

definition rebuild :: "nat \<Rightarrow> nat list \<Rightarrow> nat list \<Rightarrow> entry list \<Rightarrow> entry list" where
  "rebuild limit xs ts es =
     map (\<lambda>i. if shortens limit ts es i then truncate_entry limit (es ! i) else es ! i)
       (filter (\<lambda>i. i \<notin> set xs) [0..<length es])"

definition recent_from :: "entry list \<Rightarrow> compact_options \<Rightarrow> int" where
  "recent_from es o' = int (length es) - pin_recent o'"

definition compaction_plan ::
  "(json \<Rightarrow> string) \<Rightarrow> (json \<Rightarrow> nat option) \<Rightarrow> backend \<Rightarrow> entry list \<Rightarrow> compact_options
    \<Rightarrow> candidate list \<times> (nat \<Rightarrow> bool \<times> bool)" where
  "compaction_plan show encoded backend es o' =
     (let cs = candidates es (recent_from es o');
          res = (if cs = [] then None
            else case fitCompactionState show encoded es cs (max_state_bytes o') of (st, qs) \<Rightarrow> backend st qs)
      in (cs, decisions (threshold o') res))"

definition CompactTranscript ::
  "(json \<Rightarrow> string) \<Rightarrow> (json \<Rightarrow> nat option) \<Rightarrow> (entry \<Rightarrow> nat) \<Rightarrow> backend \<Rightarrow> entry list \<Rightarrow> compact_options
    \<Rightarrow> entry list \<times> compact_report" where
  "CompactTranscript show encoded bytes backend es o0 =
     (let o' = normal_options o0; limit = nat (truncate_length o');
          (cs, d) = compaction_plan show encoded backend es o';
          xs = excised d cs; ts = truncated d cs;
          out = rebuild limit xs ts es;
          cut = length (filter (\<lambda>i. i \<notin> set xs \<and> shortens limit ts es i) [0..<length es])
      in (out, \<lparr>original_entries = length es, compacted_entries = length out,
            original_bytes = sum_list (map bytes es), compacted_bytes = sum_list (map bytes out),
            excised_tools = length (filter (\<lambda>(k, c). d k = (False, False)) (numbered cs)),
            truncated_results = cut, kept_verbatim = length out - cut\<rparr>))"

section \<open>What compaction may touch\<close>

lemma last_at_Some: "last_at P es = Some i \<Longrightarrow> i < length es \<and> P (es ! i)"
proof -
  assume a: "last_at P es = Some i"
  let ?l = "filter (\<lambda>i. P (es ! i)) [0..<length es]"
  from a have "?l \<noteq> []" "i = last ?l" by (auto simp: last_at_def split: list.splits)
  then have "i \<in> set ?l" using last_in_set by blast
  then show ?thesis by simp
qed

lemma last_at_None: "last_at P es = None \<longleftrightarrow> (\<forall>i<length es. \<not> P (es ! i))"
proof -
  have "last_at P es = None \<longleftrightarrow> filter (\<lambda>i. P (es ! i)) [0..<length es] = []"
    by (simp add: last_at_def split: list.splits)
  then show ?thesis by (auto simp: filter_empty_conv)
qed

lemma last_at_unique:
  assumes "i < length es" and "P (es ! i)" and "\<And>j. j < length es \<Longrightarrow> P (es ! j) \<Longrightarrow> j = i"
  shows "last_at P es = Some i"
proof (cases "last_at P es")
  case None
  with assms(1,2) show ?thesis by (simp add: last_at_None)
next
  case (Some j)
  with last_at_Some assms(3) show ?thesis by blast
qed

lemma id_in_maps:
  assumes "i < length es" and "en_call_id (es ! i) \<noteq> []"
  shows "call_map es (en_call_id (es ! i)) \<noteq> None \<or> result_map es (en_call_id (es ! i)) \<noteq> None"
  using assms by (cases "result_like (es ! i)") (auto simp: call_map_def result_map_def last_at_None)

text \<open>What every candidate is: a call and a result found under one ID, neither of them pinned, or a single tool entry
  without an ID.\<close>

definition paired :: "entry list \<Rightarrow> int \<Rightarrow> candidate \<Rightarrow> bool" where
  "paired es recent c \<longleftrightarrow>
     (\<exists>i. i \<noteq> [] \<and> cd_call c = call_map es i \<and> cd_result c = result_map es i
        \<and> \<not> pinned_part recent (cd_call c) \<and> \<not> pinned_part recent (cd_result c))"

definition single :: "entry list \<Rightarrow> int \<Rightarrow> candidate \<Rightarrow> bool" where
  "single es recent c \<longleftrightarrow>
     (\<exists>i<length es. en_call_id (es ! i) = [] \<and> tool_entry (es ! i) \<and> \<not> pinned recent i
        \<and> cd_call c = Some i \<and> cd_result c = Some i)"

lemma candidate_step_ok:
  assumes "list_all (\<lambda>c. paired es recent c \<or> single es recent c) (fst st)" and "i < length es"
  shows "list_all (\<lambda>c. paired es recent c \<or> single es recent c) (fst (candidate_step es recent st i))"
proof (cases "en_call_id (es ! i) = []")
  case True
  have "single es recent (single_candidate es i)" if "\<not> pinned recent i" "tool_entry (es ! i)"
    using True that assms(2) by (auto simp: single_def single_candidate_def)
  then show ?thesis using assms(1) True by (auto simp: candidate_step_def Let_def split: prod.splits)
next
  case False
  let ?c = "pair_candidate es i"
  have c: "cd_call ?c = call_map es (en_call_id (es ! i))" "cd_result ?c = result_map es (en_call_id (es ! i))"
    by (simp_all add: pair_candidate_def Let_def)
  have "paired es recent ?c" if "\<not> pinned_part recent (cd_call ?c)" "\<not> pinned_part recent (cd_result ?c)"
    unfolding paired_def using False that c by blast
  moreover have "cd_call ?c \<noteq> None \<or> cd_result ?c \<noteq> None" using id_in_maps [OF assms(2) False] c by simp
  ultimately show ?thesis using assms(1) False by (auto simp: candidate_step_def Let_def split: prod.splits)
qed

lemma candidates_ok: "list_all (\<lambda>c. paired es recent c \<or> single es recent c) (candidates es recent)"
proof -
  have "list_all (\<lambda>c. paired es recent c \<or> single es recent c) (fst (foldl (candidate_step es recent) ([], []) is))"
    if "set is \<subseteq> {..<length es}" for "is"
    using that by (induction "is" rule: rev_induct) (auto intro: candidate_step_ok)
  then show ?thesis unfolding candidates_def by (metis atLeastLessThan_iff lessThan_iff set_upt subsetI)
qed

text \<open>An entry compaction may drop or shorten.\<close>

definition touchable :: "entry list \<Rightarrow> int \<Rightarrow> nat \<Rightarrow> bool" where
  "touchable es recent i \<longleftrightarrow> i < length es \<and> \<not> pinned recent i \<and> (en_call_id (es ! i) \<noteq> [] \<or> tool_entry (es ! i))"

lemma parts_touchable:
  assumes "c \<in> set (candidates es recent)" and "i \<in> set (parts c)"
  shows "touchable es recent i"
proof -
  from assms(1) candidates_ok have "paired es recent c \<or> single es recent c" by (force simp: list_all_iff)
  then show ?thesis
  proof
    assume "single es recent c"
    with assms(2) show ?thesis by (auto simp: single_def touchable_def parts_def)
  next
    assume "paired es recent c"
    then obtain k where k: "cd_call c = call_map es k" "cd_result c = result_map es k" "k \<noteq> []"
      "\<not> pinned_part recent (cd_call c)" "\<not> pinned_part recent (cd_result c)" by (auto simp: paired_def)
    with assms(2) show ?thesis
      by (auto simp: touchable_def parts_def pinned_part_def call_map_def result_map_def
          dest!: last_at_Some split: option.splits)
  qed
qed

lemma numbered_member: "(k, c) \<in> set (numbered cs) \<Longrightarrow> c \<in> set cs"
  by (auto simp: numbered_def dest: set_zip_rightD)

lemma excised_touchable: "i \<in> set (excised d (candidates es recent)) \<Longrightarrow> touchable es recent i"
proof -
  assume "i \<in> set (excised d (candidates es recent))"
  then obtain k c where "(k, c) \<in> set (numbered (candidates es recent))" "i \<in> set (parts c)"
    by (auto simp: excised_def split: if_splits)
  then show ?thesis by (intro parts_touchable [OF numbered_member])
qed

lemma truncated_touchable: "i \<in> set (truncated d (candidates es recent)) \<Longrightarrow> touchable es recent i"
proof -
  assume "i \<in> set (truncated d (candidates es recent))"
  then obtain x where x: "x \<in> set (numbered (candidates es recent))"
      "i \<in> set (case x of (k, c) \<Rightarrow> if d k = (True, False) then (case cd_result c of Some i \<Rightarrow> [i] | None \<Rightarrow> []) else [])"
    unfolding truncated_def set_concat set_map by blast
  obtain k c where "x = (k, c)" by (cases x)
  with x have c: "(k, c) \<in> set (numbered (candidates es recent))"
      "i \<in> set (if d k = (True, False) then (case cd_result c of Some i \<Rightarrow> [i] | None \<Rightarrow> []) else [])"
    by (simp_all only: prod.case)
  have "cd_result c = Some i"
  proof (cases "d k = (True, False)")
    case True
    with c(2) show ?thesis by (cases "cd_result c") simp_all
  next
    case False
    with c(2) show ?thesis by (simp only: if_False list.set empty_iff)
  qed
  then have "i \<in> set (parts c)" by (simp add: parts_def)
  with c(1) show ?thesis by (intro parts_touchable [OF numbered_member])
qed

section \<open>The compacted transcript\<close>

lemma filter_filter_sub: "(\<And>i. Q i \<Longrightarrow> P i) \<Longrightarrow> filter Q (filter P xs) = filter Q xs"
  by (induction xs) auto

lemma subseq_filter_map:
  assumes "\<And>i. i \<in> set xs \<Longrightarrow> Q i \<Longrightarrow> P i \<and> f i = g i"
  shows "subseq (map g (filter Q xs)) (map f (filter P xs))"
proof -
  have "map g (filter Q xs) = map f (filter Q (filter P xs))"
    using assms by (induction xs) auto
  moreover have "subseq (filter Q (filter P xs)) (filter P xs)" by (rule subseq_filter_left)
  ultimately show ?thesis by (simp add: subseq_map)
qed

lemma decisions_fail: "decisions t None = (\<lambda>k. (True, True))"
  by (simp add: decisions_def fun_eq_iff)

lemma rebuild_all: "rebuild limit [] [] es = es"
  by (simp add: rebuild_def shortens_def map_nth)

lemma rebuild_kept:
  "\<exists>kept. subseq kept es \<and> list_all2 (\<lambda>e e'. e' = e \<or> e' = truncate_entry limit e) kept (rebuild limit xs ts es)"
proof -
  let ?is = "filter (\<lambda>i. i \<notin> set xs) [0..<length es]"
  have "subseq (map ((!) es) ?is) (map ((!) es) [0..<length es])" by (intro subseq_map subseq_filter_left)
  then have "subseq (map ((!) es) ?is) es" by (simp add: map_nth)
  moreover have "list_all2 (\<lambda>e e'. e' = e \<or> e' = truncate_entry limit e) (map ((!) es) ?is) (rebuild limit xs ts es)"
    unfolding rebuild_def by (auto simp: list.rel_map intro!: list.rel_refl_strong)
  ultimately show ?thesis by blast
qed

text \<open>C20. Compaction only shortens old tool interactions. The first entry, the recent ones, and every entry that is no tool
  call and no tool result are in the output verbatim and in order; every other entry of the output is an entry of the
  input, untouched or with its result truncated; and when the decision model fails nothing changes at all.\<close>

theorem compact_protects:
  "let out = fst (CompactTranscript show encoded bytes backend es o0); o' = normal_options o0 in
     subseq (map ((!) es) (filter (\<lambda>i. \<not> touchable es (recent_from es o') i) [0..<length es])) out
     \<and> (\<exists>kept. subseq kept es
          \<and> list_all2 (\<lambda>e e'. e' = e \<or> e' = truncate_entry (nat (truncate_length o')) e) kept out)
     \<and> (if \<forall>st qs. backend st qs = None then out = es else True)"
proof -
  define o' where "o' = normal_options o0"
  obtain cs d where plan: "compaction_plan show encoded backend es o' = (cs, d)"
    by (cases "compaction_plan show encoded backend es o'")
  then have cs: "cs = candidates es (recent_from es o')" by (auto simp: compaction_plan_def Let_def)
  let ?limit = "nat (truncate_length o')"
  let ?out = "rebuild ?limit (excised d cs) (truncated d cs) es"
  have out: "fst (CompactTranscript show encoded bytes backend es o0) = ?out"
    using plan by (simp add: CompactTranscript_def Let_def o'_def)
  have "subseq (map ((!) es) (filter (\<lambda>i. \<not> touchable es (recent_from es o') i) [0..<length es])) ?out"
    unfolding rebuild_def
    by (rule subseq_filter_map) (auto simp: cs shortens_def dest: excised_touchable truncated_touchable)
  moreover have "?out = es" if "\<forall>st qs. backend st qs = None"
  proof -
    have "d = (\<lambda>k. (True, True))"
      using plan that by (auto simp: compaction_plan_def Let_def decisions_fail split: if_splits prod.splits)
    then have "excised d cs = []" "truncated d cs = []" by (simp_all add: excised_def truncated_def)
    then show ?thesis by (simp add: rebuild_all)
  qed
  ultimately show ?thesis
    unfolding Let_def out o'_def [symmetric] using rebuild_kept by (simp split: if_split)
qed

text \<open>A transcript whose entries know their place, as the parser numbers them, and whose IDs name one call and one
  result each.\<close>

definition well_numbered :: "entry list \<Rightarrow> bool" where
  "well_numbered es \<longleftrightarrow> map en_index es = [0..<length es]"

definition distinct_ids :: "entry list \<Rightarrow> bool" where
  "distinct_ids es \<longleftrightarrow>
     distinct (map en_call_id (filter (\<lambda>e. en_call_id e \<noteq> [] \<and> \<not> result_like e) es))
     \<and> distinct (map en_call_id (filter (\<lambda>e. en_call_id e \<noteq> [] \<and> result_like e) es))"

lemma distinct_filter_index:
  assumes "distinct (map f (filter P xs))" and "i < length xs" "j < length xs" "P (xs ! i)" "P (xs ! j)" "f (xs ! i) = f (xs ! j)"
  shows "i = j"
  using assms
proof (induction xs arbitrary: i j)
  case (Cons x xs)
  have no: "f (xs ! k) \<noteq> f x" if "k < length xs" "P (xs ! k)" "P x" for k
  proof
    assume "f (xs ! k) = f x"
    moreover have "xs ! k \<in> set (filter P xs)" using that(1,2) by simp
    ultimately have "f x \<in> set (map f (filter P xs))" by (metis image_eqI set_map)
    with Cons.prems(1) that(3) show False by simp
  qed
  show ?case
  proof (cases i)
    case 0
    then show ?thesis using Cons.prems no by (cases j) auto
  next
    case i: (Suc i')
    show ?thesis
    proof (cases j)
      case 0
      then show ?thesis using Cons.prems i no [of i'] by auto
    next
      case (Suc j')
      then show ?thesis using Cons.prems i Cons.IH [of i' j'] by (simp split: if_splits)
    qed
  qed
qed simp

lemma same_id:
  assumes "distinct (map en_call_id (filter P es))" and "i < length es" "j < length es" "P (es ! i)" "P (es ! j)"
    and "en_call_id (es ! i) = en_call_id (es ! j)"
  shows "i = j"
  using assms by (rule distinct_filter_index)

lemma truncate_index [simp]: "en_index (truncate_entry limit e) = en_index e"
  by (simp add: truncate_entry_def Let_def)

lemma rebuild_indices:
  assumes "well_numbered es"
  shows "map en_index (rebuild limit xs ts es) = filter (\<lambda>i. i \<notin> set xs) [0..<length es]"
proof -
  have n: "en_index (es ! i) = i" if "i < length es" for i
    using assms that nth_map [of i es en_index] by (simp add: well_numbered_def)
  then have f: "en_index (if shortens limit ts es i then truncate_entry limit (es ! i) else es ! i) = i" if "i < length es" for i
    using that by simp
  have "map (\<lambda>i. en_index (if shortens limit ts es i then truncate_entry limit (es ! i) else es ! i)) is = is"
    if "set is \<subseteq> {..<length es}" for "is"
    using that by (intro map_idI f) auto
  then show ?thesis unfolding rebuild_def map_map comp_def by (simp add: subset_iff)
qed

lemma nested_index [simp]: "en_index (nested_call raw e) = en_index e"
  by (simp add: nested_call_def with_function_def Let_def split: option.split)

lemma parse_well_numbered: "parse_lines decode n k ls = Inr es \<Longrightarrow> map en_index es = [k..<k + length es]"
proof (induction decode n k ls arbitrary: es rule: parse_lines.induct)
  case (2 decode num idx l ls)
  have idx: "en_index (parse_entry i raw) = i" for i raw
    by (simp add: parse_entry_def Let_def)
  show ?case
  proof (cases "trim_space l = []")
    case True
    with 2 show ?thesis by (simp add: Let_def)
  next
    case False
    with 2(3) obtain raw es' where r: "decode (trim_space l) = Some raw" "parse_lines decode (num + 1) (idx + 1) ls = Inr es'"
        "es = parse_entry idx raw # es'"
      by (auto simp: Let_def map_inr_def split: option.splits sum.splits)
    from 2(2) [OF refl False r(1,2)] r(3) idx show ?thesis
      by (simp add: upt_conv_Cons del: upt_Suc)
  qed
qed simp

lemma pair_members:
  assumes "distinct_ids es" and "c < length es" "r < length es" and "en_call_id (es ! c) = i" "en_call_id (es ! r) = i" "i \<noteq> []"
    and "\<not> result_like (es ! c)" "result_like (es ! r)"
  shows "call_map es i = Some c" and "result_map es i = Some r"
proof -
  note d = assms(1) [unfolded distinct_ids_def]
  show "call_map es i = Some c"
    unfolding call_map_def
  proof (rule last_at_unique)
    fix j assume j: "j < length es" "en_call_id (es ! j) = i \<and> i \<noteq> [] \<and> \<not> result_like (es ! j)"
    show "j = c" by (rule same_id [OF d [THEN conjunct1] j(1) assms(2)]) (use j assms in auto)
  qed (use assms in auto)
  show "result_map es i = Some r"
    unfolding result_map_def
  proof (rule last_at_unique)
    fix j assume j: "j < length es" "en_call_id (es ! j) = i \<and> i \<noteq> [] \<and> result_like (es ! j)"
    show "j = r" by (rule same_id [OF d [THEN conjunct2] j(1) assms(3)]) (use j assms in auto)
  qed (use assms in auto)
qed

lemma candidate_has_both:
  assumes "k \<in> set (candidates es recent)" and "call_map es i = Some c" "result_map es i = Some r" and "i \<noteq> []"
  shows "c \<in> set (parts k) \<longleftrightarrow> r \<in> set (parts k)"
proof -
  have c: "en_call_id (es ! c) = i" "\<not> result_like (es ! c)" "en_call_id (es ! r) = i" "result_like (es ! r)"
    using assms(2,3) by (auto simp: call_map_def result_map_def dest: last_at_Some)
  from assms(1) candidates_ok have "paired es recent k \<or> single es recent k" by (force simp: list_all_iff)
  then show ?thesis
  proof
    assume "single es recent k"
    with c assms(4) show ?thesis by (auto simp: single_def parts_def)
  next
    assume "paired es recent k"
    then obtain j where j: "cd_call k = call_map es j" "cd_result k = result_map es j" by (auto simp: paired_def)
    have of_j: "en_call_id (es ! x) = j" if "call_map es j = Some x \<or> result_map es j = Some x" for x
      using that by (auto simp: call_map_def result_map_def dest: last_at_Some)
    have "x \<in> set (parts k) \<longleftrightarrow> call_map es j = Some x \<or> result_map es j = Some x" for x
      using j by (auto simp: parts_def split: option.splits)
    with of_j [of c] of_j [of r] c assms(2,3) show ?thesis by auto
  qed
qed

lemma excised_both:
  assumes "call_map es i = Some c" "result_map es i = Some r" and "i \<noteq> []"
  shows "c \<in> set (excised d (candidates es recent)) \<longleftrightarrow> r \<in> set (excised d (candidates es recent))"
proof -
  have m: "x \<in> set (excised d cs) \<longleftrightarrow> (\<exists>k q. (k, q) \<in> set (numbered cs) \<and> x \<in> set (if d k = (False, False) then parts q else []))" for x cs
    unfolding excised_def set_concat set_map by auto
  have "c \<in> set (if d k = (False, False) then parts q else []) \<longleftrightarrow> r \<in> set (if d k = (False, False) then parts q else [])"
    if "(k, q) \<in> set (numbered (candidates es recent))" for k q
    using candidate_has_both [OF numbered_member [OF that] assms] by simp
  then show ?thesis unfolding m by blast
qed


section \<open>Bounds\<close>

text \<open>The state sent to the decision model respects the byte limit, however long the transcript: what is sent encodes to at
  most the limit, or it is the empty object.\<close>

theorem state_bounded:
  assumes "\<forall>v. encoded v \<noteq> None"
  shows "let state = fst (fitCompactionState show encoded es cs limit) in
    int (the (encoded state)) \<le> (if limit \<le> 0 then 100 * 1024 else limit) \<or> state = json_object []"
proof -
  let ?l = "if limit \<le> 0 then 100 * 1024 else limit"
  have enc: "fits encoded l v \<longleftrightarrow> int (the (encoded v)) \<le> l" "too_big encoded l v \<longleftrightarrow> \<not> fits encoded l v" for l v
    using assms [rule_format, of v] by (auto simp: fits_def too_big_def)
  have min: "fits encoded l (minimal_fit encoded l vs) \<or> minimal_fit encoded l vs = json_object []" for l vs
    by (induction vs) (simp_all add: enc)
  have "fits encoded ?l (fst (fitCompactionState show encoded es cs limit))
      \<or> fst (fitCompactionState show encoded es cs limit) = json_object []"
    unfolding fitCompactionState_def Let_def fst_conv
    using min by (auto simp: find_Some_iff split: option.split)
  then show ?thesis unfolding Let_def enc(1) .
qed

lemma ascii_rune: "byte c < 0x80 \<Longrightarrow> valid_rune [c]"
  by (simp add: valid_rune_def)

lemma rune_list_ascii: "list_all (\<lambda>c. byte c < 0x80) s \<Longrightarrow> rune_list s = map (\<lambda>c. [c]) s"
  using rune_list_concat [of "map (\<lambda>c. [c]) s"] by (simp add: list_all_iff ascii_rune)

lemma rune_list_first:
  assumes "list_all (\<lambda>c. byte c < 0x80) m"
  shows "rune_list (first_runes k s @ m) = take k (rune_list s) @ map (\<lambda>c. [c]) m"
proof -
  have "list_all valid_rune (take k (rune_list s) @ map (\<lambda>c. [c]) m)"
    using assms by (auto simp: list_all_iff ascii_rune rune_list_valid dest: in_set_takeD)
  from rune_list_concat [OF this] show ?thesis by (simp add: first_runes_def)
qed

lemma digit_ascii: "is_digit c \<Longrightarrow> byte c < 0x80"
  by (simp add: is_digit_def byte_def)

lemma nat_dec_ascii: "list_all (\<lambda>c. byte c < 0x80) (nat_dec n)"
  using nat_dec_digits [of n] digit_ascii by (auto simp: all_digits_def list_all_iff)

lemma nat_dec_mono: "m \<le> n \<Longrightarrow> length (nat_dec m) \<le> length (nat_dec n)"
proof (induction n arbitrary: m rule: nat_dec.induct)
  case (1 n)
  have one: "1 \<le> length (nat_dec k)" for k using nat_dec_not_Nil [of k] by (cases "nat_dec k") auto
  show ?case
  proof (cases "m < 10")
    case True
    then show ?thesis using one [of n] by (simp add: nat_dec.simps [of m])
  next
    case False
    with 1(2) have "\<not> n < 10" by simp
    with False 1(1) [OF this, of "m div 10"] 1(2) show ?thesis
      by (simp add: nat_dec.simps [of m] nat_dec.simps [of n] div_le_mono)
  qed
qed

lemma marker_ascii:
  "list_all (\<lambda>c. byte c < 0x80) (long_marker n)" "list_all (\<lambda>c. byte c < 0x80) (short_marker n)"
  using nat_dec_ascii [of n] by (simp_all add: long_marker_def short_marker_def byte_def)

lemma marker_mono:
  "m \<le> n \<Longrightarrow> length (long_marker m) \<le> length (long_marker n)" "m \<le> n \<Longrightarrow> length (short_marker m) \<le> length (short_marker n)"
  using nat_dec_mono [of m n] by (simp_all add: long_marker_def short_marker_def)

text \<open>A truncated result is never longer than the configured length, it is the beginning of the result, and the marker behind
  it names exactly the number of characters left out.\<close>

theorem truncation_bounded:
  assumes "limit < length (rune_list s)"
  shows "length (rune_list (truncate_text limit s)) \<le> limit
    \<and> (\<exists>k\<le>limit. truncate_text limit s \<in> {first_runes k s @ long_marker (length (rune_list s) - k),
          first_runes k s @ short_marker (length (rune_list s) - k), first_runes k s})"
proof -
  let ?n = "length (rune_list s)"
  let ?long = "length (rune_list (long_marker ?n))" and ?short = "length (rune_list (short_marker ?n))"
  have len: "length (rune_list (long_marker m)) = length (long_marker m)"
      "length (rune_list (short_marker m)) = length (short_marker m)" for m
    by (simp_all add: rune_list_ascii marker_ascii)
  have long: "length (rune_list (first_runes (limit - ?long) s @ long_marker (?n - (limit - ?long)))) \<le> limit" if "?long < limit"
  proof -
    have "length (long_marker (?n - (limit - ?long))) \<le> length (long_marker ?n)" by (rule marker_mono) simp
    with that len show ?thesis by (simp add: rune_list_first marker_ascii)
  qed
  have short: "length (rune_list (first_runes (limit - ?short) s @ short_marker (?n - (limit - ?short)))) \<le> limit" if "?short < limit"
  proof -
    have "length (short_marker (?n - (limit - ?short))) \<le> length (short_marker ?n)" by (rule marker_mono) simp
    with that len show ?thesis by (simp add: rune_list_first marker_ascii)
  qed
  have plain: "length (rune_list (first_runes limit s)) \<le> limit" by (simp add: first_runes_def rune_list_take)
  consider "?long < limit" | "limit \<le> ?long" "?short < limit" | "limit \<le> ?long" "limit \<le> ?short" by linarith
  then show ?thesis
  proof cases
    case 1
    then have "truncate_text limit s = first_runes (limit - ?long) s @ long_marker (?n - (limit - ?long))"
      using long by (simp add: truncate_text_def Let_def)
    then show ?thesis using long 1 by (intro conjI exI [of _ "limit - ?long"]) simp_all
  next
    case 2
    then have "truncate_text limit s = first_runes (limit - ?short) s @ short_marker (?n - (limit - ?short))"
      using short by (simp add: truncate_text_def Let_def)
    then show ?thesis using short 2 by (intro conjI exI [of _ "limit - ?short"]) simp_all
  next
    case 3
    then have "truncate_text limit s = first_runes limit s" using plain by (simp add: truncate_text_def Let_def)
    then show ?thesis using plain by (intro conjI exI [of _ limit]) simp_all
  qed
qed

section \<open>What goes wrong\<close>

definition raw_call :: obj where
  "raw_call = fmap_of_list [(''role'', JStr ''assistant''), (''tool_calls'', JArr
     [JObj (fmap_of_list [(''id'', JStr ''A'')]), JObj (fmap_of_list [(''id'', JStr ''B'')])])]"

definition raw_result :: "string \<Rightarrow> obj" where
  "raw_result i = fmap_of_list [(''role'', JStr ''tool''), (''tool_call_id'', JStr i), (''content'', JStr ''out'')]"

definition raw_text :: obj where
  "raw_text = fmap_of_list [(''role'', JStr ''user''), (''content'', JStr ''hi'')]"

definition parallel_transcript :: "entry list" where
  "parallel_transcript = map (\<lambda>(i, r). parse_entry i r)
     (numbered [raw_text, raw_call, raw_result ''A'', raw_result ''B'', raw_text])"

definition sample_options :: compact_options where
  "sample_options = \<lparr>pin_recent = 1, threshold = 1 / 2, truncate_length = 200, max_state_bytes = 0\<rparr>"

text \<open>The model judges the first interaction as noise and wants to keep the second one.\<close>

definition noise_answers :: "string \<Rightarrow> rat option" where
  "noise_answers key = (if has_prefix key ''cand_0_'' then Some 0 else Some 1)"

definition noise_backend :: backend where
  "noise_backend st qs = Some noise_answers"

definition no_show :: "json \<Rightarrow> string" where
  "no_show v = []"

definition one_byte :: "json \<Rightarrow> nat option" where
  "one_byte v = Some 1"

text \<open>An assistant message with two tool calls counts as the call of the first one only. Dropping that interaction drops the
  message with both calls, while the result of the second one stays: a result without its call.\<close>

lemma parallel_call_orphans_result:
  "map en_index (fst (CompactTranscript no_show one_byte (\<lambda>e. 0) noise_backend parallel_transcript sample_options)) = [0, 3, 4]
    \<and> en_call_id (parallel_transcript ! 3) = ''B'' \<and> result_like (parallel_transcript ! 3)"
  by code_simp

text \<open>An entry that has both a text and a tool output loses its text when the output is truncated.\<close>

lemma truncation_overwrites_text:
  assumes "en_tool_output e \<noteq> []" and "en_content e \<noteq> []"
  shows "en_content (truncate_entry limit e) = truncate_text limit (en_tool_output e)"
  using assms by (simp add: truncate_entry_def shown_output_def Let_def)

section \<open>Witnesses\<close>


lemma state_bounded_witness:
  "int (the (one_byte (fst (fitCompactionState no_show one_byte parallel_transcript [] 10)))) \<le> 10
    \<or> fst (fitCompactionState no_show one_byte parallel_transcript [] 10) = json_object []"
  using state_bounded [of one_byte no_show parallel_transcript "[]" 10] by (simp add: one_byte_def Let_def)

lemma truncation_bounded_witness:
  "truncate_text 30 ''0123456789012345678901234567890123456789'' = ''01234'' @ short_marker 35
    \<and> length (rune_list (truncate_text 30 ''0123456789012345678901234567890123456789'')) \<le> 30"
proof
  show "truncate_text 30 ''0123456789012345678901234567890123456789'' = ''01234'' @ short_marker 35" by code_simp
  have "30 < length (rune_list ''0123456789012345678901234567890123456789'')" by code_simp
  from truncation_bounded [OF this]
  show "length (rune_list (truncate_text 30 ''0123456789012345678901234567890123456789'')) \<le> 30" by blast
qed

end
