(* ===== verification/Tickets.thy ===== *)
theory Tickets
  imports GoBase "HOL-Library.Char_ord" "HOL-Library.List_Lexorder"
begin

text \<open>
  Ticket files (\<open>internal/issues\<close>): ids and their order (\<open>id.go\<close>), the parsers and rewriters of a
  ticket's header, status line and body (\<open>issues.go\<close>), and the status categories of the embedded
  lifecycle specification (\<open>status_spec.go\<close>, \<open>spec/issues.yaml\<close>).

  The regular expressions of the source are written as the deterministic scanners they denote over
  bytes, the greedy choices and the backtracking included: a scanner returns what the capture group
  holds, and the case-insensitive ones also accept the long s (U+017F), which Go folds to \<open>s\<close>. A
  captured status value always runs to the end of its line. \<open>bufio.Scanner\<close> stops at the first line
  of 65536 bytes or more. Byte strings are compared with the lexicographic order of the library,
  which is the order of \<open>sort.Strings\<close>.
\<close>

section \<open>Ids\<close>

definition remote_id :: "string \<Rightarrow> bool" where
  "remote_id s \<longleftrightarrow>
     (case s of
        a # b # c # ds \<Rightarrow> [a, b] = ''GH'' \<and> is_digit c \<and> c \<noteq> CHR ''0'' \<and> list_all is_digit ds
      | _ \<Rightarrow> False)"

definition pad3 :: "nat \<Rightarrow> string" where
  "pad3 n = (let ds = nat_dec n in replicate (3 - length ds) CHR ''0'' @ ds)"

definition NormalizeID :: "string \<Rightarrow> string option" where
  "NormalizeID s0 =
     (let s = to_upper (trim_space s0)
      in if remote_id s then Some s
         else if all_digits s
         then (case atoi s of Some n \<Rightarrow> Some (pad3 (nat n)) | None \<Rightarrow> None)
         else None)"

definition LessID :: "string \<Rightarrow> string \<Rightarrow> bool" where
  "LessID a b =
     (let ar = has_prefix a ''GH''; br = has_prefix b ''GH''
      in if ar \<noteq> br then \<not> ar
         else let an = trim_left (trim_prefix a ''GH'') ''0'';
                  bn = trim_left (trim_prefix b ''GH'') ''0''
              in if length an \<noteq> length bn then length an < length bn
                 else if an \<noteq> bn then an < bn
                 else a < b)"

section \<open>Scanners\<close>

text \<open>The class \<open>\s\<close> of Go's regular expressions (no vertical tab), and the byte form of the dashes.\<close>

definition re_space :: "char \<Rightarrow> bool" where
  "re_space c \<longleftrightarrow> c \<in> {CHR 0x09, CHR 0x0A, CHR 0x0C, CHR 0x0D, CHR 0x20}"

abbreviation skip_re :: "string \<Rightarrow> string" where
  "skip_re \<equiv> dropWhile re_space"

definition em_dash :: string where "em_dash = [CHR 0xE2, CHR 0x80, CHR 0x94]"
definition en_dash :: string where "en_dash = [CHR 0xE2, CHR 0x80, CHR 0x93]"

text \<open>One folded letter, and a folded word: the rest of the text, or no match.\<close>

definition fold_letter :: "char \<Rightarrow> string \<Rightarrow> string option" where
  "fold_letter l s =
     (case s of
        [] \<Rightarrow> None
      | c # cs \<Rightarrow>
          if to_lower_char c = l then Some cs
          else if l = CHR ''s'' \<and> c = CHR 0xC5 \<and> has_prefix cs [CHR 0xBF] then Some (tl cs)
          else None)"

fun fold_word :: "string \<Rightarrow> string \<Rightarrow> string option" where
  "fold_word [] s = Some s"
| "fold_word (l # ls) s = (case fold_letter l s of None \<Rightarrow> None | Some r \<Rightarrow> fold_word ls r)"

definition opt_colon :: "string \<Rightarrow> string" where
  "opt_colon s = trim_prefix s '':''"

text \<open>\<open>\*\*label:?\*\*\<close>, the bold label.\<close>

definition bold_label :: "string \<Rightarrow> string \<Rightarrow> string option" where
  "bold_label w s =
     (if has_prefix s ''**''
      then (case fold_word w (drop 2 s) of
              None \<Rightarrow> None
            | Some r \<Rightarrow> if has_prefix (opt_colon r) ''**'' then Some (drop 2 (opt_colon r)) else None)
      else None)"

definition status_label :: "string \<Rightarrow> string option" where
  "status_label s = (case bold_label ''status'' s of Some r \<Rightarrow> Some r | None \<Rightarrow> fold_word ''status'' s)"

text \<open>\<open>:?\s*(.+)$\<close> after the label: the greedy reading first, then the two shorter ones.\<close>

definition status_tail :: "string \<Rightarrow> string option" where
  "status_tail t =
     (let u = opt_colon t; v = skip_re u
      in if v \<noteq> [] then Some v
         else if u \<noteq> [] then Some [last u]
         else if t \<noteq> [] then Some t
         else None)"

definition label_tail :: "string \<Rightarrow> string option" where
  "label_tail s = (case status_label s of None \<Rightarrow> None | Some t \<Rightarrow> status_tail t)"

definition is_bullet :: "string \<Rightarrow> bool" where
  "is_bullet s \<longleftrightarrow> has_prefix s ''-'' \<or> has_prefix s ''*''"

text \<open>\<open>statusLineRegex\<close>: the captured value.\<close>

definition status_value :: "string \<Rightarrow> string option" where
  "status_value line =
     (let s = skip_re line
      in case (if is_bullet s then label_tail (skip_re (tl s)) else None) of
           Some v \<Rightarrow> Some v
         | None \<Rightarrow> label_tail s)"

text \<open>\<open>priorityLineRegex\<close>: the captured code.\<close>

definition priority_code :: "string \<Rightarrow> string option" where
  "priority_code s =
     (case bold_label ''priority'' s of
        None \<Rightarrow> None
      | Some r \<Rightarrow>
          (case skip_re (opt_colon r) of
             p # d # rest \<Rightarrow>
               if to_lower_char p = CHR ''p'' \<and> d \<in> set ''0123''
                 \<and> (rest = [] \<or> re_space (hd rest) \<or> has_prefix rest ''-''
                     \<or> has_prefix rest em_dash \<or> has_prefix rest en_dash)
               then Some [p, d] else None
           | _ \<Rightarrow> None))"

definition priority_value :: "string \<Rightarrow> string option" where
  "priority_value line =
     (let s = skip_re line
      in case (if is_bullet s then priority_code (skip_re (tl s)) else None) of
           Some v \<Rightarrow> Some v
         | None \<Rightarrow> priority_code s)"

text \<open>\<open>closedByLineRegex\<close>.\<close>

definition closed_by_line :: "string \<Rightarrow> bool" where
  "closed_by_line line \<longleftrightarrow> has_prefix (skip_re line) ''**Closed-By**:''"

text \<open>The number at the head of a text, \<open>GH[1-9]\d*|\d+\<close>, and what follows it.\<close>

definition scan_number :: "string \<Rightarrow> (string \<times> string) option" where
  "scan_number s =
     (let gh = has_prefix s ''GH''; t = (if gh then drop 2 s else s);
          ds = takeWhile is_digit t
      in if ds = [] \<or> gh \<and> hd ds = CHR ''0'' then None
         else Some ((if gh then ''GH'' else []) @ ds, drop (length ds) t))"

text \<open>\<open>headerLineRegex\<close>: the text before the number, the number, and the rest.\<close>

definition starts_dash :: "string \<Rightarrow> bool" where
  "starts_dash s \<longleftrightarrow> has_prefix s em_dash \<or> has_prefix s en_dash \<or> has_prefix s '':'' \<or> has_prefix s ''-''"

definition header_match :: "string \<Rightarrow> (string \<times> string \<times> string) option" where
  "header_match line =
     (let s = skip_re line
      in if has_prefix s ''#''
         then let t = skip_re (tl s)
              in (case scan_number t of
                    None \<Rightarrow> None
                  | Some (num, rest) \<Rightarrow>
                      if skip_re rest = [] \<or> starts_dash (skip_re rest)
                      then Some (take (length line - length t) line, num, rest) else None)
         else None)"

text \<open>\<open>thematicBreakRegex\<close>: three or more of one mark, with blanks between them.\<close>

definition thematic_break :: "string \<Rightarrow> bool" where
  "thematic_break s \<longleftrightarrow>
     (case s of
        [] \<Rightarrow> False
      | c # _ \<Rightarrow> c \<in> set ''-*_'' \<and> list_all (\<lambda>d. d = c \<or> d = CHR '' '' \<or> d = CHR 0x09) s
          \<and> 3 \<le> length (filter (\<lambda>d. d = c) s))"

text \<open>\<open>issueFileRegex\<close>: the number of a ticket file's base name.\<close>

definition ticket_number :: "string \<Rightarrow> string option" where
  "ticket_number base =
     (case scan_number base of
        None \<Rightarrow> None
      | Some (num, rest) \<Rightarrow>
          if (has_prefix num ''GH'' \<or> 3 \<le> length num) \<and> has_prefix rest ''-''
            \<and> has_suffix (tl rest) ''.md'' \<and> nl \<notin> set base
          then Some num else None)"

section \<open>Lines\<close>

text \<open>\<open>bufio.Scanner\<close> with its default buffer: the final empty piece is no line, a carriage return
  before the line break is dropped, and a line that does not fit the buffer ends the scan.\<close>

definition max_token :: nat where "max_token = 65536"

definition drop_cr :: "string \<Rightarrow> string" where
  "drop_cr l = trim_suffix l [CHR 0x0D]"

definition scan_lines :: "string \<Rightarrow> string list" where
  "scan_lines content =
     (let ls = split_on nl content; ks = (if last ls = [] then butlast ls else ls)
      in map drop_cr (takeWhile (\<lambda>l. length l < max_token) ks))"

section \<open>Parsing\<close>

record ticket_head =
  head_title :: string
  head_status :: string
  head_priority :: string
  has_status :: bool

definition parse_line :: "ticket_head \<Rightarrow> string \<Rightarrow> ticket_head" where
  "parse_line h line =
     (let t = trim_space line;
          h = (if head_title h = [] \<and> has_prefix t ''# ''
               then h\<lparr>head_title := trim_space (trim_prefix t ''# '')\<rparr> else h);
          h = (if has_status h then h
               else case status_value t of
                      None \<Rightarrow> h
                    | Some v \<Rightarrow> h\<lparr>has_status := True, head_status := trim_space v\<rparr>)
      in if head_priority h = []
         then (case priority_value t of
                 None \<Rightarrow> h | Some p \<Rightarrow> h\<lparr>head_priority := to_upper p\<rparr>)
         else h)"

definition empty_head :: ticket_head where
  "empty_head = \<lparr>head_title = [], head_status = [], head_priority = [], has_status = False\<rparr>"

definition ParseIssueFileWithPriority :: "string \<Rightarrow> ticket_head" where
  "ParseIssueFileWithPriority content = foldl parse_line empty_head (scan_lines content)"

definition ParseIssueFile :: "string \<Rightarrow> string \<times> string \<times> bool" where
  "ParseIssueFile content =
     (let h = ParseIssueFileWithPriority content in (head_title h, head_status h, has_status h))"

fun first_header :: "string list \<Rightarrow> string" where
  "first_header [] = []"
| "first_header (l # ls) =
     (case header_match l of Some (_, num, _) \<Rightarrow> num | None \<Rightarrow> first_header ls)"

definition ParseHeaderNumber :: "string \<Rightarrow> string" where
  "ParseHeaderNumber content = first_header (scan_lines content)"

text \<open>The tiers of \<open>ParseBody\<close>: past the title, the first thematic break wins over the first
  second-level heading seen before it, and the rest of the document is the fallback.\<close>

fun body_from :: "string list \<Rightarrow> string list option \<Rightarrow> string list \<Rightarrow> string list" where
  "body_from rest heading [] = (case heading of Some b \<Rightarrow> b | None \<Rightarrow> rest)"
| "body_from rest heading (l # ls) =
     (let t = trim_space l
      in if thematic_break t then ls
         else if heading = None \<and> has_prefix t ''## '' then body_from rest (Some ls) ls
         else body_from rest heading ls)"

fun body_lines :: "string list \<Rightarrow> string list" where
  "body_lines [] = []"
| "body_lines (l # ls) =
     (if has_prefix (trim_space l) ''# '' then body_from ls None ls else body_lines ls)"

definition ParseBody :: "string \<Rightarrow> string" where
  "ParseBody content = join [nl] (body_lines (split_on nl content))"

section \<open>Rewriting\<close>

datatype rewrite_err = NoStatusLine | NoHeaderLine

text \<open>The line that holds the status, and the line with its value replaced.\<close>

definition set_value :: "string \<Rightarrow> string \<Rightarrow> string \<Rightarrow> string" where
  "set_value line v new = take (length line - length v) line @ new"

fun rewrite_status_lines :: "string \<Rightarrow> string list \<Rightarrow> (string list \<times> bool) option" where
  "rewrite_status_lines new [] = None"
| "rewrite_status_lines new (l # ls) =
     (case status_value l of
        Some v \<Rightarrow> Some (set_value l v new # ls, set_value l v new \<noteq> l)
      | None \<Rightarrow> map_option (\<lambda>(ks, ch). (l # ks, ch)) (rewrite_status_lines new ls))"

definition RewriteStatus :: "string \<Rightarrow> string \<Rightarrow> rewrite_err + string \<times> bool" where
  "RewriteStatus content new =
     (case rewrite_status_lines new (split_on nl content) of
        None \<Rightarrow> Inl NoStatusLine
      | Some (ls, ch) \<Rightarrow> Inr (if ch then join [nl] ls else content, ch))"

definition closed_by_text :: "string \<Rightarrow> string \<Rightarrow> string" where
  "closed_by_text model session =
     (if model = [] \<and> session = [] then []
      else ''**Closed-By**: '' @ join '', ''
        ((if model = [] then [] else [model])
         @ (if session = [] then [] else [''session '' @ session])))"

fun rewrite_closed_lines :: "string \<Rightarrow> string list \<Rightarrow> (string list \<times> bool) option" where
  "rewrite_closed_lines line [] = None"
| "rewrite_closed_lines line (l # ls) =
     (if status_value l = None
      then map_option (\<lambda>(ks, ch). (l # ks, ch)) (rewrite_closed_lines line ls)
      else if ls \<noteq> [] \<and> closed_by_line (hd ls)
      then (if line = [] then Some (l # tl ls, True)
            else Some (l # line # tl ls, hd ls \<noteq> line))
      else if line = [] then Some (l # ls, False)
      else Some (l # line # ls, True))"

definition RewriteClosedBy :: "string \<Rightarrow> string \<Rightarrow> string \<Rightarrow> rewrite_err + string \<times> bool" where
  "RewriteClosedBy content model session =
     (case rewrite_closed_lines (closed_by_text model session) (split_on nl content) of
        None \<Rightarrow> Inl NoStatusLine
      | Some (ls, ch) \<Rightarrow> Inr (if ch then join [nl] ls else content, ch))"

fun rewrite_header_lines :: "string \<Rightarrow> string list \<Rightarrow> string list option" where
  "rewrite_header_lines new [] = None"
| "rewrite_header_lines new (l # ls) =
     (case header_match l of
        Some (pre, _, rest) \<Rightarrow> Some ((pre @ new @ rest) # ls)
      | None \<Rightarrow> map_option (\<lambda>ks. l # ks) (rewrite_header_lines new ls))"

definition RewriteHeaderNumber :: "string \<Rightarrow> string \<Rightarrow> rewrite_err + string" where
  "RewriteHeaderNumber content new =
     (case rewrite_header_lines new (split_on nl content) of
        None \<Rightarrow> Inl NoHeaderLine
      | Some ls \<Rightarrow> Inr (join [nl] ls))"

section \<open>The order of ids\<close>

definition ticket_id :: "string \<Rightarrow> bool" where
  "ticket_id s \<longleftrightarrow> remote_id s \<or> all_digits s"

definition id_remote :: "string \<Rightarrow> bool" where
  "id_remote s \<longleftrightarrow> has_prefix s ''GH''"

definition id_num :: "string \<Rightarrow> nat" where
  "id_num s = dec_nat (trim_prefix s ''GH'')"

lemma dec_nat_Cons: "dec_nat (c # s) = digit_val c * 10 ^ length s + dec_nat s"
proof (induction s rule: rev_induct)
  case (snoc d s)
  have "dec_nat (c # s @ [d]) = 10 * dec_nat (c # s) + digit_val d"
    using dec_nat_snoc [of "c # s" d] by simp
  with snoc show ?case by (simp add: dec_nat_snoc algebra_simps)
qed (simp add: dec_nat_def)

lemma digit_val_less: "is_digit c \<Longrightarrow> digit_val c < 10"
  unfolding is_digit_def digit_val_def by linarith

lemma digit_val_mono: "is_digit c \<Longrightarrow> is_digit d \<Longrightarrow> c < d \<longleftrightarrow> digit_val c < digit_val d"
  by (auto simp: is_digit_def digit_val_def less_char_def)

lemma digit_val_zero: "is_digit c \<Longrightarrow> digit_val c = 0 \<longleftrightarrow> c = CHR ''0''"
proof
  assume "is_digit c" and "digit_val c = 0"
  then have "(of_char c :: nat) = of_char (CHR ''0'')" by (simp add: is_digit_def digit_val_def)
  then show "c = CHR ''0''" by (simp only: of_char_eq_iff)
qed (simp add: digit_val_def)

lemma dec_nat_bound: "list_all is_digit s \<Longrightarrow> dec_nat s < 10 ^ length s"
proof (induction s)
  case (Cons c s)
  then have "digit_val c \<le> 9" and "dec_nat s < 10 ^ length s"
    using digit_val_less [of c] by auto
  then have "digit_val c * 10 ^ length s + dec_nat s < 9 * 10 ^ length s + 10 ^ length s"
    by (intro add_le_less_mono mult_le_mono1) auto
  then show ?case by (simp add: dec_nat_Cons)
qed (simp add: dec_nat_def)

lemma dec_nat_trim_zeros: "dec_nat (trim_left s ''0'') = dec_nat s"
  unfolding trim_left_def
  by (induction s) (auto simp: dec_nat_Cons digit_val_def)

lemma trim_zeros_digits: "list_all is_digit s \<Longrightarrow> list_all is_digit (trim_left s ''0'')"
  unfolding trim_left_def by (auto simp: list_all_iff dest: set_dropWhileD)

lemma trim_zeros_hd: "trim_left s ''0'' \<noteq> [] \<Longrightarrow> hd (trim_left s ''0'') \<noteq> CHR ''0''"
  using hd_dropWhile [of "\<lambda>c. c \<in> set ''0''" s] by (simp add: trim_left_def)

lemma dec_nat_shorter:
  assumes "list_all is_digit a" and "list_all is_digit b" and "length a < length b"
    and "hd b \<noteq> CHR ''0''"
  shows "dec_nat a < dec_nat b"
proof -
  from assms(3) obtain c t where b: "b = c # t" by (cases b) auto
  with assms digit_val_zero [of c] have "1 \<le> digit_val c" by (simp add: Suc_le_eq)
  then have "10 ^ length t \<le> dec_nat b" unfolding b dec_nat_Cons by (simp add: trans_le_add1)
  moreover have "dec_nat a < 10 ^ length a" using assms(1) by (rule dec_nat_bound)
  moreover have "(10::nat) ^ length a \<le> 10 ^ length t"
    using assms(3) b by (intro power_increasing) auto
  ultimately show ?thesis by linarith
qed

lemma dec_nat_lex:
  "length a = length b \<Longrightarrow> list_all is_digit a \<Longrightarrow> list_all is_digit b \<Longrightarrow>
    a < b \<longleftrightarrow> dec_nat a < dec_nat b"
proof (induction a b rule: list_induct2)
  case (Cons x xs y ys)
  have dx: "is_digit x" and dy: "is_digit y" using Cons.prems by simp_all
  have bx: "dec_nat xs < 10 ^ length ys" and by': "dec_nat ys < 10 ^ length ys"
    using Cons.prems Cons.hyps dec_nat_bound [of xs] dec_nat_bound [of ys] by simp_all
  have less: "dec_nat (u # us) < dec_nat (v # vs)"
    if "digit_val u < digit_val v" and "dec_nat us < 10 ^ length ys"
      and "length us = length ys" and "length vs = length ys" for u v us vs
  proof -
    have "digit_val u * 10 ^ length ys + 10 ^ length ys \<le> digit_val v * 10 ^ length ys"
      using that(1) by (metis Suc_leI add.commute mult_Suc mult_le_mono1)
    with that show ?thesis by (simp add: dec_nat_Cons)
  qed
  consider "x = y" | "digit_val x < digit_val y" | "digit_val y < digit_val x"
    using dx dy digit_val_mono [of x y] digit_val_mono [of y x] by (metis linorder_less_linear)
  then show ?case
  proof cases
    case 1
    with Cons show ?thesis by (simp add: dec_nat_Cons)
  next
    case 2
    then have "x < y" using dx dy digit_val_mono by blast
    with less [OF 2 bx] Cons.hyps show ?thesis by simp
  next
    case 3
    then have "y < x" using dx dy digit_val_mono by blast
    then have "\<not> x < y" and "x \<noteq> y" by auto
    moreover have "dec_nat (y # ys) < dec_nat (x # xs)" using less [OF 3 by'] Cons.hyps by simp
    ultimately show ?thesis by simp
  qed
qed simp

lemma dec_nat_eq_trimmed:
  assumes "list_all is_digit a" and "list_all is_digit b"
    and "a = [] \<or> hd a \<noteq> CHR ''0''" and "b = [] \<or> hd b \<noteq> CHR ''0''"
  shows "dec_nat a = dec_nat b \<longleftrightarrow> a = b"
proof
  assume eq: "dec_nat a = dec_nat b"
  have "\<not> length a < length b"
  proof
    assume l: "length a < length b"
    then have "hd b \<noteq> CHR ''0''" using assms(4) by auto
    from dec_nat_shorter [OF assms(1,2) l this] eq show False by simp
  qed
  moreover have "\<not> length b < length a"
  proof
    assume l: "length b < length a"
    then have "hd a \<noteq> CHR ''0''" using assms(3) by auto
    from dec_nat_shorter [OF assms(2,1) l this] eq show False by simp
  qed
  ultimately have "length a = length b" by simp
  then show "a = b"
    using eq assms dec_nat_lex [of a b] dec_nat_lex [of b a] by (metis linorder_less_linear less_irrefl)
qed simp

lemma ticket_id_digits: "ticket_id s \<Longrightarrow> list_all is_digit (trim_prefix s ''GH'')"
  by (auto simp: ticket_id_def remote_id_def all_digits_def trim_prefix_def is_digit_def
      split: list.splits)

lemma less_id_iff:
  assumes "ticket_id a" and "ticket_id b"
  shows "LessID a b \<longleftrightarrow>
    (if id_remote a = id_remote b
     then (if id_num a = id_num b then a < b else id_num a < id_num b)
     else id_remote b)"
proof -
  let ?a = "trim_left (trim_prefix a ''GH'') ''0''" and ?b = "trim_left (trim_prefix b ''GH'') ''0''"
  have d: "list_all is_digit ?a" "list_all is_digit ?b"
    using assms ticket_id_digits trim_zeros_digits by blast+
  have h: "?a = [] \<or> hd ?a \<noteq> CHR ''0''" "?b = [] \<or> hd ?b \<noteq> CHR ''0''"
    using trim_zeros_hd by blast+
  have n: "id_num a = dec_nat ?a" "id_num b = dec_nat ?b"
    by (simp_all add: id_num_def dec_nat_trim_zeros)
  have eq: "id_num a = id_num b \<longleftrightarrow> ?a = ?b"
    using dec_nat_eq_trimmed [OF d h] n by simp
  have shorter: "id_num a < id_num b" if "length ?a < length ?b"
    using dec_nat_shorter [OF d that] h that n by fastforce
  have longer: "id_num b < id_num a" if "length ?b < length ?a"
    using dec_nat_shorter [OF d(2,1) that] h that n by fastforce
  have lex: "?a < ?b \<longleftrightarrow> id_num a < id_num b" if "length ?a = length ?b"
    using dec_nat_lex [OF that d] n by simp
  show ?thesis
  proof (cases "id_remote a = id_remote b")
    case False
    then show ?thesis by (auto simp: LessID_def Let_def id_remote_def)
  next
    case True
    then have ld: "LessID a b =
        (if length ?a \<noteq> length ?b then length ?a < length ?b
         else if ?a \<noteq> ?b then ?a < ?b else a < b)"
      unfolding LessID_def Let_def id_remote_def by simp
    consider "length ?a < length ?b" | "length ?b < length ?a" | "length ?a = length ?b" by linarith
    then show ?thesis
    proof cases
      case 1
      with shorter ld True show ?thesis by auto
    next
      case 2
      with longer ld True show ?thesis by auto
    next
      case 3
      with lex eq ld True show ?thesis by auto
    qed
  qed
qed

text \<open>The order of ticket ids is the numeric one: comparing digit counts and then bytes, which
  avoids overflow on long ids, puts local tickets before GitHub ones and otherwise orders two ids by
  the value of their number, and spellings of the same number by their bytes.\<close>

theorem less_id_numeric:
  assumes "ticket_id a" and "ticket_id b"
  shows "LessID a b \<longleftrightarrow>
    (if id_remote a = id_remote b
     then (if id_num a = id_num b then a < b else id_num a < id_num b)
     else id_remote b)"
  using assms by (rule less_id_iff)

lemma less_id_numeric_witness:
  "LessID ''099'' ''100'' \<and> LessID ''9999'' ''GH7'' \<and> \<not> LessID ''GH10'' ''GH9''"
  using less_id_numeric [of "''099''" "''100''"] less_id_numeric [of "''9999''" "''GH7''"]
    less_id_numeric [of "''GH10''" "''GH9''"]
  by (simp add: ticket_id_def remote_id_def all_digits_def is_digit_def id_remote_def id_num_def
      trim_prefix_def has_prefix_def dec_nat_def digit_val_def)

section \<open>Matched status lines\<close>

definition specials :: string where
  "specials = white @ ''*-#:''"

lemma to_lower_special: "c \<in> set specials \<Longrightarrow> to_lower_char c = c"
  by (auto simp: specials_def white_def to_lower_char_def)

lemma re_space_white: "re_space c \<Longrightarrow> c \<in> set white"
  by (auto simp: re_space_def white_def)

lemma white_re_space: "c \<in> set white \<Longrightarrow> c \<noteq> CHR 0x0B \<Longrightarrow> re_space c"
  by (auto simp: re_space_def white_def)

lemma fold_letter_split:
  assumes "fold_letter l s = Some r" and "l \<notin> set specials"
  shows "\<exists>p. s = p @ r \<and> p \<noteq> [] \<and> list_all (\<lambda>c. c \<notin> set specials) p \<and>
    (\<forall>x. fold_letter l (p @ x) = Some x)"
proof -
  from assms(1) obtain c cs where s: "s = c # cs" by (cases s) (auto simp: fold_letter_def)
  show ?thesis
  proof (cases "to_lower_char c = l")
    case True
    with assms(2) have "c \<notin> set specials" using to_lower_special by auto
    with True assms(1) s show ?thesis by (intro exI [of _ "[c]"]) (auto simp: fold_letter_def)
  next
    case False
    with assms(1) s have "l = CHR ''s''" and "c = CHR 0xC5" and "cs = CHR 0xBF # r"
      by (auto simp: fold_letter_def has_prefix_iff split: if_splits)
    with s False show ?thesis
      by (intro exI [of _ "[CHR 0xC5, CHR 0xBF]"])
        (auto simp: fold_letter_def specials_def white_def)
  qed
qed

lemma fold_word_split:
  "fold_word ls s = Some r \<Longrightarrow> list_all (\<lambda>l. l \<notin> set specials) ls \<Longrightarrow>
    \<exists>p. s = p @ r \<and> (p = [] \<longleftrightarrow> ls = []) \<and> list_all (\<lambda>c. c \<notin> set specials) p \<and>
      (\<forall>x. fold_word ls (p @ x) = Some x)"
proof (induction ls arbitrary: s)
  case (Cons l ls)
  from Cons.prems obtain s' where s': "fold_letter l s = Some s'" and r: "fold_word ls s' = Some r"
    by (auto split: option.splits)
  from s' Cons.prems(2) obtain p where p: "s = p @ s'" "p \<noteq> []"
    "list_all (\<lambda>c. c \<notin> set specials) p" "\<forall>x. fold_letter l (p @ x) = Some x"
    using fold_letter_split [of l s s'] by auto
  from Cons.IH [OF r] Cons.prems(2) obtain q where q: "s' = q @ r"
    "list_all (\<lambda>c. c \<notin> set specials) q" "\<forall>x. fold_word ls (q @ x) = Some x"
    by auto
  from p q show ?case by (intro exI [of _ "p @ q"]) auto
qed simp

lemma opt_colon_colon [simp]: "opt_colon (CHR '':'' # s) = s"
  by (simp add: opt_colon_def trim_prefix_def)

lemma opt_colon_other [simp]: "c \<noteq> CHR '':'' \<Longrightarrow> opt_colon (c # s) = c # s"
  by (simp add: opt_colon_def trim_prefix_def)

lemma opt_colon_Nil [simp]: "opt_colon [] = []"
  by (simp add: opt_colon_def trim_prefix_def)

lemma opt_colon_split: "\<exists>p. s = p @ opt_colon s \<and> p \<in> {[], '':''}"
  by (cases s) (auto simp: opt_colon_def trim_prefix_def)

lemma bold_label_split:
  assumes "bold_label w s = Some r" and "list_all (\<lambda>l. l \<notin> set specials) w" and "w \<noteq> []"
  shows "\<exists>p c q. s = p @ r \<and> p = ''**'' @ c # q @ ''**'' \<and> c \<notin> set specials \<and>
    (\<forall>x. bold_label w (p @ x) = Some x)"
proof -
  from assms(1) obtain t where s: "s = ''**'' @ t"
    by (auto simp: bold_label_def has_prefix_iff split: if_splits)
  from assms(1) s obtain u where u: "fold_word w t = Some u" and b: "has_prefix (opt_colon u) ''**''"
    and r: "r = drop 2 (opt_colon u)"
    by (auto simp: bold_label_def split: option.splits if_splits)
  from u assms(2,3) obtain c q0 where q: "t = (c # q0) @ u" "c \<notin> set specials"
    "\<forall>x. fold_word w ((c # q0) @ x) = Some x"
    using fold_word_split [of w t u] by (metis list.pred_inject(2) neq_Nil_conv)
  from b r have ou: "opt_colon u = ''**'' @ r" by (auto simp: has_prefix_iff)
  obtain d where d: "u = d @ opt_colon u" "d \<in> {[], '':''}" using opt_colon_split by blast
  define p where "p = ''**'' @ c # (q0 @ d) @ ''**''"
  have "bold_label w (p @ x) = Some x" for x
  proof -
    have "fold_word w (c # q0 @ d @ ''**'' @ x) = Some (d @ ''**'' @ x)"
      using q(3) by (metis append_Cons)
    moreover have "opt_colon (d @ ''**'' @ x) = ''**'' @ x" using d(2) by auto
    ultimately show ?thesis by (simp add: bold_label_def p_def)
  qed
  moreover have "s = p @ r" using s q(1) d(1) ou by (simp add: p_def)
  ultimately show ?thesis using q(2) p_def by blast
qed

lemma bold_label_None: "\<not> has_prefix s ''**'' \<Longrightarrow> bold_label w s = None"
  by (simp add: bold_label_def)

lemma fold_word_special:
  assumes "c \<in> set specials" and "l \<notin> set specials"
  shows "fold_word (l # ls) (c # s) = None"
proof -
  have "to_lower_char c \<noteq> l" using assms to_lower_special by auto
  moreover have "c \<noteq> CHR 0xC5" using assms(1) by (auto simp: specials_def white_def)
  ultimately show ?thesis by (simp add: fold_letter_def)
qed

lemma status_letters: "list_all (\<lambda>l. l \<notin> set specials) ''status''"
  by (simp add: specials_def white_def)

lemma status_tail_None_iff: "status_tail t = None \<longleftrightarrow> t = []"
  by (auto simp: status_tail_def Let_def)

text \<open>What a matched label looks like: either bold or plain, it starts and ends outside white space,
  and what follows it does not influence the match.\<close>

definition label_text :: "string \<Rightarrow> bool" where
  "label_text p \<longleftrightarrow>
     (\<exists>c q. p = ''**'' @ c # q @ ''**'' \<and> c \<notin> set specials) \<or>
     (p \<noteq> [] \<and> list_all (\<lambda>c. c \<notin> set specials) p)"

lemma status_label_split:
  assumes "status_label s = Some r"
  shows "\<exists>p. s = p @ r \<and> label_text p \<and> (\<forall>x. status_label (p @ x) = Some x)"
proof (cases "bold_label ''status'' s")
  case (Some r')
  with assms have "bold_label ''status'' s = Some r" by (simp add: status_label_def)
  from bold_label_split [OF this status_letters] obtain p c q where
    "s = p @ r" "p = ''**'' @ c # q @ ''**''" "c \<notin> set specials"
    "\<forall>x. bold_label ''status'' (p @ x) = Some x" by blast
  then show ?thesis unfolding label_text_def status_label_def
    by (intro exI [of _ p]) auto
next
  case None
  with assms have "fold_word ''status'' s = Some r" by (simp add: status_label_def)
  from fold_word_split [OF this status_letters] obtain p where p: "s = p @ r" "p \<noteq> []"
    "list_all (\<lambda>c. c \<notin> set specials) p" "\<forall>x. fold_word ''status'' (p @ x) = Some x" by auto
  from p(2,3) obtain c q where "p = c # q" "c \<notin> set specials" by (cases p) auto
  then have "\<not> has_prefix (p @ x) ''**''" for x by (auto simp: specials_def)
  with p show ?thesis unfolding label_text_def status_label_def
    by (intro exI [of _ p]) (auto simp: bold_label_None)
qed

lemma status_not_priority:
  assumes "status_label s = Some r"
  shows "bold_label ''priority'' s = None"
proof (cases "has_prefix s ''**''")
  case True
  then obtain t where t: "s = ''**'' @ t" by (auto simp: has_prefix_iff)
  have "fold_word ''status'' s = None"
    using fold_word_special [of "CHR ''*''" "CHR ''s''"] t by (simp add: specials_def white_def)
  with assms t obtain u where "fold_word ''status'' t = Some u"
    by (auto simp: status_label_def bold_label_def split: option.splits)
  then obtain t' where "fold_letter CHR ''s'' t = Some t'" by (auto split: option.splits)
  then have "fold_letter CHR ''p'' t = None"
    by (cases t) (auto simp: fold_letter_def to_lower_char_def split: if_splits)
  with t show ?thesis by (simp add: bold_label_def)
qed (simp add: bold_label_None)

lemma label_text_edges:
  assumes "label_text p"
  shows "p \<noteq> []" and "hd p \<notin> set white" and "last p \<notin> set white" and "hd p \<noteq> CHR ''#''"
    and "hd p \<noteq> CHR ''-''"
  using assms unfolding label_text_def
  by (auto simp: specials_def white_def list_all_iff dest: hd_in_set last_in_set)

lemma re_skip: "list_all re_space ws \<Longrightarrow> s = [] \<or> \<not> re_space (hd s) \<Longrightarrow> skip_re (ws @ s) = s"
  by (induction ws) (auto simp: neq_Nil_conv dropWhile_eq_self_iff)

lemma label_skip: "label_text p \<Longrightarrow> list_all re_space ws \<Longrightarrow> skip_re (ws @ p @ x) = p @ x"
  using re_skip [of ws "p @ x"] label_text_edges re_space_white by (metis append_is_Nil_conv hd_append2)

lemma label_after_star:
  assumes "label_text p" and "hd p = CHR ''*''"
  shows "skip_re (tl (p @ x)) = tl (p @ x)" and "\<not> has_prefix (tl (p @ x)) ''**''"
    and "hd (tl (p @ x)) = CHR ''*''" and "tl (p @ x) \<noteq> []"
  using assms unfolding label_text_def
  by (auto simp: specials_def white_def re_space_def neq_Nil_conv)

lemma label_star_shape:
  "label_text p \<Longrightarrow> hd p = CHR ''*'' \<Longrightarrow> \<exists>q. p = CHR ''*'' # CHR ''*'' # q"
  unfolding label_text_def by (auto simp: specials_def neq_Nil_conv)

lemma fold_status_special: "c \<in> set specials \<Longrightarrow> fold_word ''status'' (c # s) = None"
  by (rule fold_word_special) (simp_all add: specials_def white_def)

lemma star_no_label:
  assumes "s \<noteq> []" and "hd s = CHR ''*''" and "\<not> has_prefix s ''**''"
  shows "status_label s = None" and "bold_label w s = None"
  using assms fold_status_special [of "CHR ''*''" "tl s"]
  by (auto simp: status_label_def bold_label_None specials_def neq_Nil_conv)

text \<open>The shape of a label inside its line: with or without a list bullet.\<close>

definition good_label :: "string \<Rightarrow> bool" where
  "good_label lab \<longleftrightarrow>
     lab \<noteq> [] \<and> hd lab \<notin> set white \<and> last lab \<notin> set white \<and> hd lab \<noteq> CHR ''#'' \<and>
     (\<forall>ws x. list_all re_space ws \<longrightarrow>
        status_value (ws @ lab @ x) = status_tail x \<and> priority_value (ws @ lab @ x) = None)"

lemma plain_good_label:
  assumes p: "label_text p" and m: "\<forall>x. status_label (p @ x) = Some x"
  shows "good_label p"
proof -
  have "status_value (ws @ p @ x) = status_tail x \<and> priority_value (ws @ p @ x) = None"
    if ws: "list_all re_space ws" for ws x
  proof -
    have skip: "skip_re (ws @ p @ x) = p @ x" using label_skip [OF p ws] .
    have pr: "priority_code (p @ x) = None"
      using m status_not_priority by (simp add: priority_code_def)
    show ?thesis
    proof (cases "hd p = CHR ''*''")
      case True
      note st = label_after_star [OF p True, of x]
      have "label_tail (skip_re (tl (p @ x))) = None" "priority_code (skip_re (tl (p @ x))) = None"
        using star_no_label [OF st(4,3,2)] st(1) by (simp_all add: label_tail_def priority_code_def)
      with skip pr m show ?thesis
        unfolding status_value_def priority_value_def Let_def
        by (simp add: label_tail_def [of "p @ x"])
    next
      case False
      with label_text_edges [OF p] have "\<not> is_bullet (p @ x)"
        by (cases p) (auto simp: is_bullet_def)
      with skip pr m show ?thesis
        by (simp add: status_value_def priority_value_def label_tail_def)
    qed
  qed
  with label_text_edges [OF p] show ?thesis by (simp add: good_label_def)
qed

lemma bullet_good_label:
  assumes p: "label_text p" and m: "\<forall>x. status_label (p @ x) = Some x"
    and b: "b \<in> set ''-*''" and ws2: "list_all re_space ws2"
  shows "good_label (b # ws2 @ p)"
proof -
  have bs: "\<not> re_space b" "b \<in> set specials" using b by (auto simp: re_space_def specials_def)
  have "status_value (ws @ b # ws2 @ p @ x) = status_tail x
      \<and> priority_value (ws @ b # ws2 @ p @ x) = None"
    if ws: "list_all re_space ws" for ws x
  proof -
    let ?s = "b # ws2 @ p @ x"
    have skip: "skip_re (ws @ ?s) = ?s" using re_skip [OF ws, of ?s] bs by simp
    have bul: "is_bullet ?s" using b by (auto simp: is_bullet_def)
    have skip2: "skip_re (tl ?s) = p @ x" using label_skip [OF p ws2] by simp
    have pr: "priority_code (p @ x) = None"
      using m status_not_priority by (simp add: priority_code_def)
    have two: "status_label ?s = None \<and> bold_label ''priority'' ?s = None"
    proof (cases "has_prefix ?s ''**''")
      case True
      then have "ws2 = []" and "hd p = CHR ''*''"
        using ws2 label_text_edges [OF p] by (cases ws2; cases p; auto simp: re_space_def)+
      with label_star_shape [OF p] True obtain u
        where "?s = CHR ''*'' # CHR ''*'' # CHR ''*'' # u"
        by auto
      then show ?thesis
        using fold_status_special [of "CHR ''*''"] fold_word_special [of "CHR ''*''" "CHR ''p''"]
        by (simp add: status_label_def bold_label_def specials_def white_def)
    next
      case False
      with bs(2) show ?thesis
        using fold_status_special [of b] by (simp add: status_label_def bold_label_None)
    qed
    show ?thesis
    proof (cases "status_tail x")
      case None
      with skip skip2 bul pr two m show ?thesis
        by (simp add: status_value_def priority_value_def label_tail_def priority_code_def)
    next
      case (Some v)
      with skip skip2 bul pr two m show ?thesis
        by (simp add: status_value_def priority_value_def label_tail_def priority_code_def)
    qed
  qed
  moreover have "b \<notin> set white" "b \<noteq> CHR ''#''" using b by (auto simp: white_def)
  ultimately show ?thesis using label_text_edges [OF p] by (simp add: good_label_def)
qed

lemma label_tail_split:
  assumes "label_tail s = Some v"
  shows "\<exists>p t. s = p @ t \<and> label_text p \<and> (\<forall>x. status_label (p @ x) = Some x)
    \<and> status_tail t = Some v"
  using assms status_label_split [of s] by (auto simp: label_tail_def split: option.splits)

lemma skip_re_split: "\<exists>ws. s = ws @ skip_re s \<and> list_all re_space ws"
  by (intro exI [of _ "takeWhile re_space s"]) (auto simp: list_all_iff dest: set_takeWhileD)

lemma status_value_split:
  assumes "status_value line = Some v"
  shows "\<exists>ws lab t. line = ws @ lab @ t \<and> list_all re_space ws \<and> good_label lab
    \<and> status_tail t = Some v"
proof -
  obtain ws where ws: "line = ws @ skip_re line" "list_all re_space ws"
    using skip_re_split by blast
  let ?s = "skip_re line"
  show ?thesis
  proof (cases "is_bullet ?s \<and> label_tail (skip_re (tl ?s)) \<noteq> None")
    case True
    with assms have lt: "label_tail (skip_re (tl ?s)) = Some v"
      by (auto simp: status_value_def Let_def)
    from True obtain b s' where bs: "?s = b # s'" "b \<in> set ''-*''"
      by (auto simp: is_bullet_def has_prefix_iff)
    obtain ws2 where ws2: "s' = ws2 @ skip_re s'" "list_all re_space ws2"
      using skip_re_split by blast
    from label_tail_split [OF lt] bs(1) obtain p t where pt: "skip_re s' = p @ t" "label_text p"
      "\<forall>x. status_label (p @ x) = Some x" "status_tail t = Some v" by auto
    have "good_label (b # ws2 @ p)" by (rule bullet_good_label [OF pt(2,3) bs(2) ws2(2)])
    moreover have "line = ws @ (b # ws2 @ p) @ t" using ws(1) bs(1) ws2(1) pt(1) by simp
    ultimately show ?thesis using ws(2) pt(4) by blast
  next
    case False
    with assms have "label_tail ?s = Some v"
      by (auto simp: status_value_def Let_def split: option.splits if_splits)
    from label_tail_split [OF this] obtain p t where pt: "?s = p @ t" "label_text p"
      "\<forall>x. status_label (p @ x) = Some x" "status_tail t = Some v" by auto
    have "line = ws @ p @ t" using ws(1) pt(1) by simp
    with plain_good_label [OF pt(2,3)] ws(2) pt(4) show ?thesis by blast
  qed
qed

section \<open>Rewriting and parsing agree\<close>

text \<open>A status that can be written and read back: not empty, on one line, without white space at
  its ends, and not starting with the colon the label may swallow.\<close>

definition writable_status :: "string \<Rightarrow> bool" where
  "writable_status w \<longleftrightarrow> w \<noteq> [] \<and> nl \<notin> set w \<and> hd w \<notin> set white \<and> hd w \<noteq> CHR '':'' \<and> last w \<notin> set white"

text \<open>A document whose lines fit the scanner's buffer with \<open>k\<close> bytes to spare, and in which Go's two
  notions of white space agree.\<close>

definition plain_ticket :: "nat \<Rightarrow> string \<Rightarrow> bool" where
  "plain_ticket k content \<longleftrightarrow>
     CHR 0x0B \<notin> set content \<and> list_all (\<lambda>l. length l + k < max_token) (split_on nl content)"

lemma clean_skip: "writable_status w \<Longrightarrow> list_all re_space ws \<Longrightarrow> skip_re (ws @ w) = w"
  using re_skip [of ws w] re_space_white by (auto simp: writable_status_def)

lemma clean_tail:
  assumes "writable_status w" and "list_all re_space ws" and "d \<in> {[], '':''}"
  shows "status_tail (d @ ws @ w) = Some w"
proof -
  have "opt_colon (ws @ w) = ws @ w"
    using assms by (cases ws; cases w) (auto simp: writable_status_def re_space_def)
  then have "opt_colon (d @ ws @ w) = ws @ w" using assms(3) by auto
  moreover have "w \<noteq> []" using assms(1) by (simp add: writable_status_def)
  ultimately show ?thesis
    unfolding status_tail_def Let_def using clean_skip [OF assms(1,2)] by metis
qed

lemma status_tail_split:
  assumes "status_tail t = Some v"
  shows "\<exists>d ws. t = d @ ws @ v \<and> d \<in> {[], '':''} \<and> list_all re_space ws"
proof -
  obtain d where d: "t = d @ opt_colon t" "d \<in> {[], '':''}" using opt_colon_split by blast
  obtain ws where ws: "opt_colon t = ws @ skip_re (opt_colon t)" "list_all re_space ws"
    using skip_re_split by blast
  consider "v = skip_re (opt_colon t)"
    | "skip_re (opt_colon t) = []" "opt_colon t \<noteq> []" "v = [last (opt_colon t)]"
    | "opt_colon t = []" "v = t"
    using assms by (auto simp: status_tail_def Let_def split: if_splits)
  then show ?thesis
  proof cases
    case 1
    with d ws show ?thesis by metis
  next
    case 2
    then have "opt_colon t = ws" using ws(1) by (metis append_Nil2)
    then have "opt_colon t = butlast ws @ v" and "list_all re_space (butlast ws)"
      using 2 ws(2) by (auto simp: list_all_iff dest: in_set_butlastD)
    with d show ?thesis by metis
  next
    case 3
    then show ?thesis by (intro exI [of _ "[]"]) simp
  qed
qed

lemma trim_right_keep: "s \<noteq> [] \<Longrightarrow> last s \<notin> set cs \<Longrightarrow> trim_right s cs = s"
  by (cases s rule: rev_cases) (simp_all add: trim_right_snoc)

lemma trim_left_skip: "set ws \<subseteq> set cs \<Longrightarrow> trim_left (ws @ s) cs = trim_left s cs"
  unfolding trim_left_def by (induction ws) auto

lemma trim_left_keep: "s = [] \<or> hd s \<notin> set cs \<Longrightarrow> trim_left s cs = s"
  unfolding trim_left_def by (cases s) auto

lemma trim_right_prefix:
  "s \<noteq> [] \<Longrightarrow> last s \<notin> set cs \<Longrightarrow> trim_right (s @ t) cs = s @ trim_right t cs"
proof (induction t rule: rev_induct)
  case (snoc c t)
  then show ?case by (simp add: trim_right_snoc flip: append_assoc)
qed (simp add: trim_right_keep)

lemma re_spaces_white: "list_all re_space ws \<Longrightarrow> set ws \<subseteq> set white"
  by (auto simp: list_all_iff dest: re_space_white)

lemma trim_labelled:
  assumes "list_all re_space ws" and "good_label lab"
  shows "trim_space (ws @ lab @ t) = lab @ trim_right t white"
proof -
  have "trim_left (ws @ lab @ t) white = lab @ t"
    using assms re_spaces_white
    by (simp add: trim_left_skip) (rule trim_left_keep, simp add: good_label_def)
  with assms(2) show ?thesis by (simp add: trim_space_def good_label_def trim_right_prefix)
qed

lemma trim_space_drop_cr [simp]: "trim_space (drop_cr l) = trim_space l"
proof (cases "has_suffix l [CHR 0x0D]")
  case True
  then obtain k where k: "l = k @ [CHR 0x0D]" by (auto simp: has_suffix_iff)
  then have d: "drop_cr l = k" by (simp add: drop_cr_def)
  show ?thesis
  proof (cases "trim_left k white = []")
    case True
    then have "set k \<subseteq> set white" by (auto simp: trim_left_def dropWhile_eq_Nil_conv)
    then have "set l \<subseteq> set white" using k by (simp add: white_def)
    then have "trim_left l white = []" by (auto simp: trim_left_def dropWhile_eq_Nil_conv)
    then show ?thesis using d True by (simp add: trim_space_def)
  next
    case False
    then obtain x where "x \<in> set k" and "x \<notin> set white"
      by (auto simp: trim_left_def dropWhile_eq_Nil_conv)
    then have "trim_left l white = trim_left k white @ [CHR 0x0D]"
      unfolding k trim_left_def by (simp add: dropWhile_append1)
    then show ?thesis using d by (simp add: trim_space_def trim_right_snoc white_def)
  qed
qed (simp add: drop_cr_def trim_suffix_def)

lemma parse_drop_cr: "parse_line h (drop_cr l) = parse_line h l"
  by (simp add: parse_line_def)

lemma parse_blank: "parse_line h [] = h"
proof -
  have "trim_space [] = []" by (simp add: trim_space_def trim_left_def)
  moreover have "status_value [] = None" "priority_value [] = None"
    by (simp_all add: status_value_def priority_value_def label_tail_def status_label_def
        bold_label_def priority_code_def fold_letter_def is_bullet_def)
  ultimately show ?thesis by (simp add: parse_line_def Let_def)
qed

lemma parse_all_lines:
  assumes "list_all (\<lambda>l. length l < max_token) (split_on nl content)"
  shows "ParseIssueFileWithPriority content = foldl parse_line empty_head (split_on nl content)"
proof -
  let ?ls = "split_on nl content" and ?ks = "if last (split_on nl content) = []
    then butlast (split_on nl content) else split_on nl content"
  have drop: "foldl parse_line h (map drop_cr xs) = foldl parse_line h xs" for h xs
    by (induction xs arbitrary: h) (simp_all add: parse_drop_cr)
  have "list_all (\<lambda>l. length l < max_token) ?ks"
    using assms by (auto simp: list_all_iff dest: in_set_butlastD)
  then have tk: "takeWhile (\<lambda>l. length l < max_token) ?ks = ?ks"
    by (simp only: takeWhile_eq_all_conv list_all_iff)
  moreover have "foldl parse_line empty_head ?ks = foldl parse_line empty_head ?ls"
  proof (cases "last ?ls = []")
    case True
    then have "?ls = butlast ?ls @ [[]]"
      using append_butlast_last_id [OF split_on_not_Nil [of nl content]] by simp
    then have "foldl parse_line empty_head ?ls
        = parse_line (foldl parse_line empty_head (butlast ?ls)) []"
      by (metis foldl_Cons foldl_Nil foldl_append)
    with True show ?thesis by (simp add: parse_blank)
  qed simp
  ultimately show ?thesis
    unfolding ParseIssueFileWithPriority_def scan_lines_def Let_def drop by (simp only:)
qed

text \<open>No earlier line is taken for the status line after trimming, and the line itself parses to
  what was written.\<close>

lemma no_status_trimmed:
  assumes "status_value l = None" and "CHR 0x0B \<notin> set l"
  shows "status_value (trim_space l) = None"
proof (rule ccontr)
  assume "status_value (trim_space l) \<noteq> None"
  then obtain v where "status_value (trim_space l) = Some v" by blast
  from status_value_split [OF this] obtain ws lab t where w: "trim_space l = ws @ lab @ t"
    "list_all re_space ws" "good_label lab" "status_tail t = Some v" by blast
  obtain pre where l: "pre @ trim_left l white = l" and pre: "set pre \<subseteq> set white"
    by (metis set_takeWhileD subsetI takeWhile_dropWhile_id trim_left_def)
  then have pre_vt: "CHR 0x0B \<notin> set pre" using assms(2) by (metis UnCI set_append)
  obtain post where post: "trim_left l white = trim_space l @ post"
    using trim_right_split [of "trim_left l white" white] by (auto simp: trim_space_def)
  have "list_all re_space pre"
    unfolding list_all_iff using pre pre_vt white_re_space by blast
  then have "list_all re_space (pre @ ws)" using w(2) by simp
  with w(3) have st: "status_value ((pre @ ws) @ lab @ (t @ post)) = status_tail (t @ post)"
    unfolding good_label_def by blast
  have "trim_left l white = (ws @ lab @ t) @ post" using post w(1) by simp
  then have eq: "(pre @ ws) @ lab @ (t @ post) = l"
    by (metis append_assoc l)
  from st have "status_value l = status_tail (t @ post)" by (simp only: eq)
  then have "t @ post = []" using assms(1) status_tail_None_iff [of "t @ post"] by simp
  then have "status_tail t = None" using status_tail_None_iff [of t] by simp
  with w(4) show False by simp
qed

text \<open>The line that is rewritten: its frame, and what the parser makes of it.\<close>

lemma set_value_line:
  assumes "status_value l = Some v" and "writable_status w"
  shows "\<exists>ws lab d sp. list_all re_space ws \<and> good_label lab \<and> d \<in> {[], '':''} \<and> list_all re_space sp
    \<and> l = ws @ lab @ d @ sp @ v \<and> set_value l v w = ws @ lab @ d @ sp @ w"
proof -
  from status_value_split [OF assms(1)] obtain ws lab t where l: "l = ws @ lab @ t"
    "list_all re_space ws" "good_label lab" "status_tail t = Some v" by blast
  from status_tail_split [OF l(4)] obtain d sp where t: "t = d @ sp @ v" "d \<in> {[], '':''}"
    "list_all re_space sp" by blast
  have "l = (ws @ lab @ d @ sp) @ v" using l(1) t(1) by simp
  then have "set_value l v w = ws @ lab @ d @ sp @ w" by (simp add: set_value_def)
  with l t show ?thesis by auto
qed

lemma parse_labelled:
  assumes "list_all re_space ws" and "good_label lab"
  shows "parse_line h (ws @ lab @ t) =
    (if has_status h then h
     else case status_tail (trim_right t white) of
            None \<Rightarrow> h | Some v \<Rightarrow> h\<lparr>has_status := True, head_status := trim_space v\<rparr>)"
proof -
  let ?t = "trim_right t white"
  have tr: "trim_space (ws @ lab @ t) = lab @ ?t" by (rule trim_labelled [OF assms(1,2)])
  have "status_value (lab @ ?t) = status_tail ?t" "priority_value (lab @ ?t) = None"
    using assms(2) unfolding good_label_def by (metis append_Nil list.pred_inject(1))+
  moreover have "\<not> has_prefix (lab @ ?t) ''# ''"
    using assms(2) by (cases lab) (auto simp: good_label_def)
  ultimately show ?thesis using tr by (simp add: parse_line_def Let_def split: option.split)
qed

lemma parse_no_status:
  "status_value l = None \<Longrightarrow> CHR 0x0B \<notin> set l \<Longrightarrow> has_status (parse_line h l) = has_status h"
  by (auto simp: parse_line_def Let_def no_status_trimmed split: option.split)

lemma parse_has_status:
  "has_status h \<Longrightarrow> has_status (parse_line h l) \<and> head_status (parse_line h l) = head_status h"
  by (auto simp: parse_line_def Let_def split: option.split)

text \<open>The title and the priority do not depend on the status found so far.\<close>

lemma parse_override:
  "(parse_line (h\<lparr>has_status := b, head_status := x\<rparr>) l)\<lparr>has_status := True, head_status := w\<rparr>
    = (parse_line h l)\<lparr>has_status := True, head_status := w\<rparr>"
  by (cases "status_value (trim_space l)"; cases "priority_value (trim_space l)")
    (simp_all add: parse_line_def Let_def)

lemma fold_override:
  "(foldl parse_line (h\<lparr>has_status := b, head_status := x\<rparr>) ls)\<lparr>has_status := True, head_status := w\<rparr>
    = (foldl parse_line h ls)\<lparr>has_status := True, head_status := w\<rparr>"
proof (induction ls arbitrary: h b x)
  case (Cons l ls)
  let ?h' = "parse_line (h\<lparr>has_status := b, head_status := x\<rparr>) l"
  have "(foldl parse_line ?h' ls)\<lparr>has_status := True, head_status := w\<rparr>
      = (foldl parse_line (?h'\<lparr>has_status := True, head_status := w\<rparr>) ls)\<lparr>has_status := True, head_status := w\<rparr>"
    using Cons.IH [where h = ?h' and b = True and x = w] by simp
  also have "\<dots> = (foldl parse_line (parse_line h l) ls)\<lparr>has_status := True, head_status := w\<rparr>"
    unfolding parse_override by (rule Cons.IH)
  finally show ?case by simp
qed simp

lemma fold_status_set:
  "foldl parse_line (h\<lparr>has_status := True, head_status := w\<rparr>) ls
    = (foldl parse_line h ls)\<lparr>has_status := True, head_status := w\<rparr>"
proof -
  have "has_status k \<Longrightarrow> has_status (foldl parse_line k ls)
      \<and> head_status (foldl parse_line k ls) = head_status k" for k
    by (induction ls arbitrary: k) (simp_all add: parse_has_status)
  from this [of "h\<lparr>has_status := True, head_status := w\<rparr>"]
  have "foldl parse_line (h\<lparr>has_status := True, head_status := w\<rparr>) ls
      = (foldl parse_line (h\<lparr>has_status := True, head_status := w\<rparr>) ls)
        \<lparr>has_status := True, head_status := w\<rparr>"
    by (cases "foldl parse_line (h\<lparr>has_status := True, head_status := w\<rparr>) ls") simp
  then show ?thesis using fold_override [where h = h and b = True and x = w and ls = ls and w = w] by simp
qed

lemma clean_trim: "writable_status w \<Longrightarrow> trim_space w = w"
  by (simp add: trim_space_def writable_status_def trim_left_keep trim_right_keep)

lemma clean_right:
  assumes "writable_status w"
  shows "trim_right (u @ w) white = u @ w"
  using assms by (intro trim_right_keep) (auto simp: writable_status_def)

lemma rewrite_lines_parse:
  assumes "rewrite_status_lines w ls = Some (ks, ch)" and "writable_status w" and "\<not> has_status h"
    and "list_all (\<lambda>l. CHR 0x0B \<notin> set l) ls"
  shows "foldl parse_line h ks = (foldl parse_line h ls)\<lparr>has_status := True, head_status := w\<rparr>"
  using assms
proof (induction ls arbitrary: ks h)
  case (Cons l ls)
  show ?case
  proof (cases "status_value l")
    case None
    with Cons.prems obtain ks' where ks: "ks = l # ks'"
      and r: "rewrite_status_lines w ls = Some (ks', ch)" by auto
    have "\<not> has_status (parse_line h l)"
      using parse_no_status [OF None] Cons.prems(3,4) by simp
    from Cons.IH [OF r Cons.prems(2) this] Cons.prems(4) ks show ?thesis by simp
  next
    case (Some v)
    from set_value_line [OF Some Cons.prems(2)] obtain ws lab d sp where
      f: "list_all re_space ws" "good_label lab" "d \<in> {[], '':''}" "list_all re_space sp"
      and l: "l = ws @ lab @ d @ sp @ v" and k: "set_value l v w = ws @ lab @ d @ sp @ w" by blast
    have ks: "ks = (ws @ lab @ d @ sp @ w) # ls" using Cons.prems(1) Some k by auto
    have tr: "trim_right (d @ sp @ w) white = d @ sp @ w"
      using clean_right [OF Cons.prems(2), of "d @ sp"] by simp
    have new: "parse_line h (ws @ lab @ d @ sp @ w) = h\<lparr>has_status := True, head_status := w\<rparr>"
      using parse_labelled [OF f(1,2), of h "d @ sp @ w"] Cons.prems(3)
      by (simp add: tr clean_tail [OF Cons.prems(2) f(4,3)] clean_trim [OF Cons.prems(2)])
    obtain b x where "parse_line h l = h\<lparr>has_status := b, head_status := x\<rparr>"
    proof (cases "status_tail (trim_right (d @ sp @ v) white)")
      case None
      with that [where b = "has_status h" and x = "head_status h"] parse_labelled [OF f(1,2), of h "d @ sp @ v"] l
      show ?thesis by simp
    next
      case (Some y)
      with that [where b = True and x = "trim_space y"] parse_labelled [OF f(1,2), of h "d @ sp @ v"] l
        Cons.prems(3) show ?thesis by simp
    qed
    then have "(foldl parse_line h (l # ls))\<lparr>has_status := True, head_status := w\<rparr>
        = (foldl parse_line h ls)\<lparr>has_status := True, head_status := w\<rparr>"
      by (simp add: fold_override)
    then show ?thesis by (simp add: ks new fold_status_set)
  qed
qed simp

lemma rewrite_lines_frame:
  assumes "rewrite_status_lines w ls = Some (ks, ch)"
  shows "\<exists>i l v. i < length ls \<and> l = ls ! i \<and> status_value l = Some v
    \<and> ks = ls[i := set_value l v w] \<and> ch = (set_value l v w \<noteq> l)"
  using assms
proof (induction ls arbitrary: ks)
  case (Cons l ls)
  show ?case
  proof (cases "status_value l")
    case None
    with Cons.prems obtain ks' where ks: "ks = l # ks'"
      and r: "rewrite_status_lines w ls = Some (ks', ch)" by auto
    from Cons.IH [OF r] obtain i v where "i < length ls" "status_value (ls ! i) = Some v"
      "ks' = ls[i := set_value (ls ! i) v w]" "ch = (set_value (ls ! i) v w \<noteq> ls ! i)" by blast
    with ks show ?thesis by (intro exI [of _ "Suc i"]) auto
  next
    case (Some v)
    with Cons.prems show ?thesis by (intro exI [of _ 0]) auto
  qed
qed simp

lemma set_value_set: "set (set_value l v w) \<subseteq> set l \<union> set w"
  by (auto simp: set_value_def dest: in_set_takeD)

lemma status_value_length: "status_value l = Some v \<Longrightarrow> length v \<le> length l"
  using status_value_split [of l v] status_tail_split by fastforce

lemma set_value_length:
  "status_value l = Some v \<Longrightarrow> length (set_value l v w) \<le> length l + length w"
  using status_value_length [of l v] by (simp add: set_value_def)

text \<open>The lines of a rewritten document, whether or not it was written back.\<close>

lemma rewritten_lines:
  assumes "RewriteStatus content w = Inr (content', ch)" and "nl \<notin> set w"
  shows "rewrite_status_lines w (split_on nl content) = Some (split_on nl content', ch)"
proof -
  from assms(1) obtain ks where r: "rewrite_status_lines w (split_on nl content) = Some (ks, ch)"
    and c: "content' = (if ch then join [nl] ks else content)"
    by (auto simp: RewriteStatus_def split: option.splits)
  from rewrite_lines_frame [OF r] obtain i l v where f: "i < length (split_on nl content)"
    "l = split_on nl content ! i" "ks = (split_on nl content)[i := set_value l v w]"
    "ch = (set_value l v w \<noteq> l)" by blast
  have "nl \<notin> set l" using f(1,2) split_on_no_sep nth_mem by metis
  then have "nl \<notin> set (set_value l v w)" using set_value_set [of l v w] assms(2) by blast
  then have "list_all (\<lambda>k. nl \<notin> set k) ks"
    unfolding f(3) list_all_iff using set_update_subset_insert split_on_no_sep by fastforce
  moreover have "ks \<noteq> []" using f(1,3) by auto
  ultimately have "split_on nl (join [nl] ks) = ks" by (rule split_join_lines [rotated])
  moreover have "ks = split_on nl content" if "\<not> ch" using f that by simp
  ultimately show ?thesis using r c by (cases ch) auto
qed

text \<open>C23. Writing a status and reading it back: when \<open>RewriteStatus\<close> succeeds, parsing the result
  gives exactly the status that was written and the title and priority of the original; one line
  of the document is replaced and every other line is untouched. (The status must be one line that
  neither starts nor ends with white space; the lines must fit the scanner's buffer.)\<close>

theorem status_roundtrip:
  assumes "RewriteStatus content w = Inr (content', ch)" and "writable_status w"
    and "plain_ticket (length w) content"
  shows "ParseIssueFileWithPriority content' =
      (ParseIssueFileWithPriority content)\<lparr>has_status := True, head_status := w\<rparr>
    \<and> (\<exists>i x. split_on nl content' = (split_on nl content)[i := x])"
proof -
  let ?ls = "split_on nl content" and ?ks = "split_on nl content'"
  have r: "rewrite_status_lines w ?ls = Some (?ks, ch)"
    using rewritten_lines [OF assms(1)] assms(2) by (simp add: writable_status_def)
  from rewrite_lines_frame [OF r] obtain i l v where f: "i < length ?ls" "l = ?ls ! i"
    "status_value l = Some v" "?ks = ?ls[i := set_value l v w]" by blast
  then have frame: "\<exists>i x. ?ks = ?ls[i := x]" by blast
  have short: "list_all (\<lambda>l. length l + length w < max_token) ?ls"
    using assms(3) by (simp add: plain_ticket_def)
  then have "length l + length w < max_token" using f(1,2) by (simp add: list_all_length)
  then have "length (set_value l v w) < max_token"
    using set_value_length [OF f(3), of w] by linarith
  moreover have "list_all (\<lambda>l. length l < max_token) ?ls"
    using short by (auto simp: list_all_iff)
  ultimately have "list_all (\<lambda>l. length l < max_token) ?ks"
    unfolding f(4) list_all_iff using set_update_subset_insert by fastforce
  moreover have "list_all (\<lambda>l. CHR 0x0B \<notin> set l) ?ls"
    using assms(3) unfolding plain_ticket_def list_all_iff
    by (metis join_split_on set_join_mem)
  moreover have "\<not> has_status empty_head" by (simp add: empty_head_def)
  ultimately show ?thesis
    using frame rewrite_lines_parse [OF r assms(2)] \<open>list_all (\<lambda>l. length l < max_token) ?ls\<close>
    by (simp add: parse_all_lines)
qed

definition sample_ticket :: string where
  "sample_ticket = ''# 007 - Fix'' @ [nl, nl] @ ''* **STATUS**:  Open'' @ [nl] @ ''**Priority**: p1'' @ [nl]"

lemma status_roundtrip_witness:
  "ParseIssueFileWithPriority (''# 007 - Fix'' @ [nl, nl] @ ''* **STATUS**:  Closed - done'' @ [nl]
      @ ''**Priority**: p1'' @ [nl])
    = \<lparr>head_title = ''007 - Fix'', head_status = ''Closed - done'', head_priority = ''P1'',
        has_status = True\<rparr>"
proof -
  have r: "RewriteStatus sample_ticket ''Closed - done''
      = Inr (''# 007 - Fix'' @ [nl, nl] @ ''* **STATUS**:  Closed - done'' @ [nl]
          @ ''**Priority**: p1'' @ [nl], True)"
    by code_simp
  have c: "writable_status ''Closed - done''" by code_simp
  have p: "plain_ticket (length ''Closed - done'') sample_ticket"
    by (simp add: plain_ticket_def sample_ticket_def max_token_def)
  have h: "ParseIssueFileWithPriority sample_ticket
      = \<lparr>head_title = ''007 - Fix'', head_status = ''Open'', head_priority = ''P1'', has_status = True\<rparr>"
    by (subst parse_all_lines)
      (simp add: sample_ticket_def max_token_def, code_simp)
  show ?thesis using status_roundtrip [OF r c p] h by simp
qed

end
