(* ===== verification/Lifecycle.thy ===== *)
theory Lifecycle
  imports Tickets
begin

text \<open>
  Status categories (\<open>internal/issues/status_spec.go\<close>, \<open>spec/issues.yaml\<close>) and the status text of
  each lifecycle verb (\<open>internal/issues/actions.go\<close>).

  The embedded specification is the constant \<open>lifecycle_spec\<close>; \<open>valid_lifecycle\<close> is the part of
  \<open>validateLifecycleSpec\<close> that concerns it (the limits of the duplicate search and of the index are
  not modelled). The main lemma group shows that what \<open>ComposeStatus\<close> writes for a verb is what
  \<open>CanonicalizeStatus\<close> reads back: the leading lifecycle of a composed text is its label, whatever
  reason follows the dash.
\<close>

section \<open>The specification\<close>

datatype category = CatOpen | CatClosed | CatDraft | CatBacklog | CatUnknown

datatype match_mode = LeadContains | LeadExact | LeadExactDash | LeadToken

record status_rule =
  rule_key :: string
  rule_label :: string
  rule_category :: category
  rule_filters :: "string list"
  rule_mode :: match_mode
  match_terms :: "string list"
  fallback_terms :: "string list"

record lifecycle =
  unresolved :: "string list"
  fallback_order :: "string list"
  statuses :: "status_rule list"

definition closed_terms :: "string list" where
  "closed_terms = [''closed'', ''resolved'', ''fixed'', ''complete'', ''completed'', ''implemented'', ''invalid'']"

definition open_rule :: status_rule where
  "open_rule = \<lparr>rule_key = ''open'', rule_label = ''Open'', rule_category = CatOpen,
     rule_filters = [''open'', ''active''], rule_mode = LeadContains,
     match_terms = [''open'', ''in progress'', ''blocked'', ''investigating'', ''in review''],
     fallback_terms = [''open'', ''in progress'', ''blocked'', ''partially'', ''in review'']\<rparr>"

definition in_progress_rule :: status_rule where
  "in_progress_rule = \<lparr>rule_key = ''in-progress'', rule_label = ''In Progress'', rule_category = CatOpen,
     rule_filters = [''open'', ''in-progress'', ''active''], rule_mode = LeadExact,
     match_terms = [''in progress''], fallback_terms = []\<rparr>"

definition blocked_rule :: status_rule where
  "blocked_rule = \<lparr>rule_key = ''blocked'', rule_label = ''Blocked'', rule_category = CatOpen,
     rule_filters = [''open'', ''blocked'', ''active''], rule_mode = LeadExact,
     match_terms = [''blocked''], fallback_terms = []\<rparr>"

definition closed_rule :: status_rule where
  "closed_rule = \<lparr>rule_key = ''closed'', rule_label = ''Closed'', rule_category = CatClosed,
     rule_filters = [''closed''], rule_mode = LeadContains,
     match_terms = closed_terms, fallback_terms = closed_terms\<rparr>"

definition draft_rule :: status_rule where
  "draft_rule = \<lparr>rule_key = ''draft'', rule_label = ''Draft'', rule_category = CatDraft,
     rule_filters = [''draft'', ''active''], rule_mode = LeadContains,
     match_terms = [''draft'', ''wip'', ''proposal''], fallback_terms = [''draft'', ''wip'', ''proposal'']\<rparr>"

definition backlog_rule :: status_rule where
  "backlog_rule = \<lparr>rule_key = ''backlog'', rule_label = ''Backlog'', rule_category = CatBacklog,
     rule_filters = [''backlog''], rule_mode = LeadExactDash,
     match_terms = [''backlog''], fallback_terms = []\<rparr>"

definition done_rule :: status_rule where
  "done_rule = \<lparr>rule_key = ''done'', rule_label = ''Closed'', rule_category = CatClosed,
     rule_filters = [''closed''], rule_mode = LeadToken,
     match_terms = [''done''], fallback_terms = []\<rparr>"

definition lifecycle_spec :: lifecycle where
  "lifecycle_spec =
     \<lparr>unresolved = [''open'', ''in-progress'', ''blocked'', ''draft'', ''backlog''],
      fallback_order = [''draft'', ''closed'', ''open''],
      statuses = [open_rule, in_progress_rule, blocked_rule, closed_rule, draft_rule,
        backlog_rule, done_rule]\<rparr>"

lemmas rule_defs = open_rule_def in_progress_rule_def blocked_rule_def closed_rule_def draft_rule_def
  backlog_rule_def done_rule_def closed_terms_def

definition valid_lifecycle :: "lifecycle \<Rightarrow> bool" where
  "valid_lifecycle s \<longleftrightarrow>
     statuses s \<noteq> [] \<and> unresolved s \<noteq> [] \<and> fallback_order s \<noteq> [] \<and>
     list_all (\<lambda>r. rule_key r \<noteq> [] \<and> rule_label r \<noteq> [] \<and> match_terms r \<noteq> []
        \<and> rule_category r \<noteq> CatUnknown \<and> [] \<notin> set (rule_filters r)) (statuses s) \<and>
     distinct (map rule_key (statuses s)) \<and>
     list_all (\<lambda>k. k \<in> set (map rule_key (statuses s))) (unresolved s) \<and>
     list_all (\<lambda>k. k \<in> set (map rule_key (statuses s))) (fallback_order s)"

section \<open>Reading a status\<close>

definition strip_marks :: "string \<Rightarrow> string" where
  "strip_marks s = filter (\<lambda>c. c \<notin> set ''*`_'') s"

definition normalizeStatusText :: "string \<Rightarrow> string" where
  "normalizeStatusText s = trim_space (strip_marks (to_lower s))"

text \<open>The text before the first of the separators: em dash, en dash, hyphen, colon, comma.\<close>

fun before_sep :: "string \<Rightarrow> string option" where
  "before_sep [] = None"
| "before_sep (c # cs) =
     (if has_prefix (c # cs) em_dash \<or> has_prefix (c # cs) en_dash \<or> c \<in> set ''-:,'' then Some []
      else map_option ((#) c) (before_sep cs))"

definition LeadingLifecycle :: "string \<Rightarrow> string" where
  "LeadingLifecycle status =
     (let s = normalizeStatusText status
      in case before_sep s of None \<Rightarrow> s | Some p \<Rightarrow> trim_space p)"

definition term_matches :: "match_mode \<Rightarrow> string \<Rightarrow> string \<Rightarrow> bool" where
  "term_matches m raw t =
     (case m of
        LeadContains \<Rightarrow> contains (LeadingLifecycle raw) t
      | LeadExact \<Rightarrow> LeadingLifecycle raw = t
      | LeadExactDash \<Rightarrow> (let full = normalizeStatusText raw
          in full = t \<or> has_prefix full (t @ '' '' @ em_dash @ '' ''))
      | LeadToken \<Rightarrow> (case string_fields (normalizeStatusText raw) of [] \<Rightarrow> False | f # _ \<Rightarrow> f = t))"

definition statusRuleMatches :: "status_rule \<Rightarrow> string \<Rightarrow> bool" where
  "statusRuleMatches r raw = list_ex (term_matches (rule_mode r) raw) (match_terms r)"

definition statusFallbackMatches :: "status_rule \<Rightarrow> string \<Rightarrow> bool" where
  "statusFallbackMatches r raw = list_ex (contains (normalizeStatusText raw)) (fallback_terms r)"

definition statusRuleHasNearMiss :: "status_rule \<Rightarrow> string \<Rightarrow> bool" where
  "statusRuleHasNearMiss r raw =
     (rule_mode r = LeadToken \<and>
      (case string_fields (normalizeStatusText raw) of
         [] \<Rightarrow> False
       | f # _ \<Rightarrow> list_ex (\<lambda>t. has_prefix f t \<and> f \<noteq> t) (match_terms r)))"

definition canonicalize :: "lifecycle \<Rightarrow> string \<Rightarrow> category" where
  "canonicalize s raw =
     (if normalizeStatusText raw = [] then CatUnknown
      else case List.find (\<lambda>r. statusRuleMatches r raw) (statuses s) of
        Some r \<Rightarrow> rule_category r
      | None \<Rightarrow>
          if list_ex (\<lambda>r. statusRuleHasNearMiss r raw) (statuses s) then CatUnknown
          else case List.find (\<lambda>(k, r). rule_key r = k \<and> statusFallbackMatches r raw)
                 (concat (map (\<lambda>k. map (\<lambda>r. (k, r)) (statuses s)) (fallback_order s))) of
            Some (_, r) \<Rightarrow> rule_category r
          | None \<Rightarrow> CatUnknown)"

definition CanonicalizeStatus :: "string \<Rightarrow> category" where
  "CanonicalizeStatus raw = canonicalize lifecycle_spec raw"

definition StatusLabel :: "string \<Rightarrow> string option" where
  "StatusLabel key = map_option rule_label (List.find (\<lambda>r. rule_key r = key) (statuses lifecycle_spec))"

definition StatusFilterMatches :: "string \<Rightarrow> string \<Rightarrow> bool" where
  "StatusFilterMatches raw flt =
     (if flt = ''unresolved''
      then list_ex (\<lambda>k. list_ex (\<lambda>r. rule_key r = k \<and> statusRuleMatches r raw)
             (statuses lifecycle_spec)) (unresolved lifecycle_spec)
      else list_ex (\<lambda>r. flt \<in> set (rule_filters r) \<and> statusRuleMatches r raw)
             (statuses lifecycle_spec))"

definition StatusFilterValues :: "string list" where
  "StatusFilterValues =
     (let vs = rev (remdups (rev (concat (map rule_filters (statuses lifecycle_spec)))))
      in if unresolved lifecycle_spec \<noteq> [] \<and> ''unresolved'' \<notin> set vs then vs @ [''unresolved''] else vs)"

section \<open>Writing a status\<close>

definition trimStatusPrefix :: "string \<Rightarrow> string \<Rightarrow> string" where
  "trimStatusPrefix label reason =
     (if length reason \<le> length label \<or> \<not> equal_fold (take (length label) reason) label then reason
      else let tail = drop (length label) reason; rest = trim_left tail [CHR '' '', CHR 0x09]
           in if has_prefix rest em_dash \<and> length rest < length tail
              then trim_space (drop (length em_dash) rest)
              else if has_prefix rest ''-'' \<and> length rest < length tail
              then trim_space (drop 1 rest)
              else reason)"

datatype compose_err = MissingLabel string | ReasonRequired | ReasonRefused | UnknownVerb string

definition status_for :: "string \<Rightarrow> string \<Rightarrow> compose_err + string" where
  "status_for key reason =
     (case StatusLabel key of
        None \<Rightarrow> Inl (MissingLabel key)
      | Some label \<Rightarrow>
          let r = trimStatusPrefix label reason
          in Inr (if r = [] then label else label @ '' '' @ em_dash @ '' '' @ r))"

definition ComposeStatus :: "string \<Rightarrow> string \<Rightarrow> compose_err + string" where
  "ComposeStatus verb reason0 =
     (let reason = trim_space reason0
      in if verb = ''open'' then status_for ''open'' reason
         else if verb = ''start'' then status_for ''in-progress'' reason
         else if verb = ''block''
         then (if reason = [] then Inl ReasonRequired else status_for ''blocked'' reason)
         else if verb = ''close'' \<or> verb = ''done'' then status_for ''closed'' reason
         else if verb = ''draft'' then status_for ''draft'' reason
         else if verb = ''backlog'' then status_for ''backlog'' reason
         else if verb = ''promote''
         then (if reason \<noteq> [] then Inl ReasonRefused else status_for ''open'' reason)
         else Inl (UnknownVerb verb))"

datatype transition_err = BacklogFromClosed | PromoteNotBacklog

definition ValidateLifecycleTransition :: "string \<Rightarrow> string \<Rightarrow> transition_err option" where
  "ValidateLifecycleTransition verb old =
     (if verb = ''backlog'' \<and> CanonicalizeStatus old = CatClosed then Some BacklogFromClosed
      else if verb = ''promote'' \<and> CanonicalizeStatus old \<noteq> CatBacklog then Some PromoteNotBacklog
      else None)"

definition closing :: "string \<Rightarrow> bool" where
  "closing verb \<longleftrightarrow> verb = ''close'' \<or> verb = ''done''"

text \<open>\<open>CloseStatus\<close>: \<^const>\<open>None\<close> is the refused amendment.\<close>

definition CloseStatus :: "string \<Rightarrow> string \<Rightarrow> string \<Rightarrow> bool \<Rightarrow> string option" where
  "CloseStatus verb old new amend =
     (let closed = (CanonicalizeStatus old = CatClosed)
      in if amend \<and> (\<not> closing verb \<or> \<not> closed) then None
         else if closing verb \<and> closed \<and> \<not> amend then Some old
         else Some new)"

section \<open>What is written is what is read\<close>

lemma lifecycle_valid: "valid_lifecycle lifecycle_spec"
  by (simp add: valid_lifecycle_def lifecycle_spec_def rule_defs)

lemma strip_marks_append [simp]: "strip_marks (a @ b) = strip_marks a @ strip_marks b"
  by (simp add: strip_marks_def)

lemma to_lower_append [simp]: "to_lower (a @ b) = to_lower a @ to_lower b"
  by (simp add: to_lower_def)

lemma low_dash: "strip_marks (to_lower em_dash) = em_dash" "strip_marks (to_lower '' '') = '' ''"
  by code_simp+

text \<open>A label: it survives normalisation unchanged and holds no separator.\<close>

definition plain_label :: "string \<Rightarrow> string \<Rightarrow> bool" where
  "plain_label label low \<longleftrightarrow> strip_marks (to_lower label) = low \<and> low \<noteq> [] \<and> hd low \<notin> set white
     \<and> last low \<notin> set white \<and> before_sep low = None \<and> list_all (\<lambda>c. c \<noteq> CHR 0xE2) low"

lemma before_sep_label:
  "before_sep low = None \<Longrightarrow> list_all (\<lambda>c. c \<noteq> CHR 0xE2) low \<Longrightarrow>
    before_sep (low @ '' '' @ em_dash @ t) = Some (low @ '' '')"
proof (induction low)
  case Nil
  then show ?case by (simp add: em_dash_def en_dash_def)
next
  case (Cons c low)
  from Cons.prems have c: "c \<noteq> CHR 0xE2" "c \<notin> set ''-:,''" "before_sep low = None"
    by (auto split: if_splits)
  then have "\<not> has_prefix (c # low @ '' '' @ em_dash @ t) em_dash"
    "\<not> has_prefix (c # low @ '' '' @ em_dash @ t) en_dash"
    by (simp_all add: em_dash_def en_dash_def)
  with Cons c show ?case by simp
qed

lemma normalize_composed:
  assumes "plain_label label low"
  shows "normalizeStatusText label = low"
    and "normalizeStatusText (label @ '' '' @ em_dash @ t)
      = low @ '' '' @ em_dash @ trim_right (strip_marks (to_lower t)) white"
proof -
  have low: "strip_marks (to_lower label) = low" "low \<noteq> []" "hd low \<notin> set white" "last low \<notin> set white"
    using assms by (simp_all add: plain_label_def)
  show "normalizeStatusText label = low"
    using low by (simp add: normalizeStatusText_def trim_space_def trim_left_keep trim_right_keep)
  let ?u = "strip_marks (to_lower t)" and ?h = "low @ '' '' @ em_dash"
  have "strip_marks (to_lower (label @ ('' '' @ em_dash) @ t)) = low @ ('' '' @ em_dash) @ ?u"
    unfolding to_lower_append strip_marks_append low_dash low(1) append_assoc ..
  then have "strip_marks (to_lower (label @ '' '' @ em_dash @ t)) = ?h @ ?u" by simp
  moreover have "trim_left (?h @ ?u) white = ?h @ ?u"
    using low by (intro trim_left_keep) simp
  moreover have "trim_right (?h @ ?u) white = ?h @ trim_right ?u white"
    by (rule trim_right_prefix) (auto simp: em_dash_def white_def)
  ultimately show "normalizeStatusText (label @ '' '' @ em_dash @ t) = low @ '' '' @ em_dash @ trim_right ?u white"
    by (simp add: normalizeStatusText_def trim_space_def)
qed

lemma trim_snoc_space:
  assumes "low \<noteq> []" and "hd low \<notin> set white" and "last low \<notin> set white"
  shows "trim_space (low @ '' '') = low"
proof -
  have "trim_left (low @ '' '') white = low @ '' ''" using assms by (intro trim_left_keep) simp
  then show ?thesis
    using assms by (simp add: trim_space_def trim_right_snoc trim_right_keep white_def)
qed

lemma leading_composed:
  assumes "plain_label label low"
  shows "LeadingLifecycle label = low"
    and "LeadingLifecycle (label @ '' '' @ em_dash @ '' '' @ r) = low"
proof -
  have low: "low \<noteq> []" "hd low \<notin> set white" "last low \<notin> set white" "before_sep low = None"
    "list_all (\<lambda>c. c \<noteq> CHR 0xE2) low"
    using assms by (simp_all add: plain_label_def)
  show "LeadingLifecycle label = low"
    using low by (simp add: LeadingLifecycle_def normalize_composed(1) [OF assms])
  show "LeadingLifecycle (label @ '' '' @ em_dash @ '' '' @ r) = low"
    using normalize_composed(2) [OF assms, of "'' '' @ r"] before_sep_label [OF low(4,5)]
      trim_snoc_space [OF low(1-3)]
    by (simp add: LeadingLifecycle_def Let_def)
qed

text \<open>Every rule that decides before the backlog rule looks at the lead only.\<close>

definition lead_category :: "string \<Rightarrow> category option" where
  "lead_category lead =
     (if list_ex (contains lead) (match_terms open_rule) then Some CatOpen
      else if lead \<in> {''in progress'', ''blocked''} then Some CatOpen
      else if list_ex (contains lead) closed_terms then Some CatClosed
      else if list_ex (contains lead) (match_terms draft_rule) then Some CatDraft
      else None)"

lemma canonicalize_lead:
  assumes "normalizeStatusText raw \<noteq> []" and "lead_category (LeadingLifecycle raw) = Some c"
  shows "CanonicalizeStatus raw = c"
proof -
  let ?L = "LeadingLifecycle raw"
  have m: "statusRuleMatches open_rule raw = list_ex (contains ?L) (match_terms open_rule)"
    "statusRuleMatches in_progress_rule raw = (?L = ''in progress'')"
    "statusRuleMatches blocked_rule raw = (?L = ''blocked'')"
    "statusRuleMatches closed_rule raw = list_ex (contains ?L) closed_terms"
    "statusRuleMatches draft_rule raw = list_ex (contains ?L) (match_terms draft_rule)"
    by (simp_all add: statusRuleMatches_def term_matches_def rule_defs)
  have cats: "rule_category open_rule = CatOpen" "rule_category in_progress_rule = CatOpen"
    "rule_category blocked_rule = CatOpen" "rule_category closed_rule = CatClosed"
    "rule_category draft_rule = CatDraft"
    by (simp_all add: rule_defs)
  have "\<exists>r. List.find (\<lambda>r. statusRuleMatches r raw) (statuses lifecycle_spec) = Some r
      \<and> rule_category r = c"
    using assms(2) unfolding lead_category_def lifecycle_spec_def
    by (auto simp: m cats split: if_splits)
  with assms(1) show ?thesis by (auto simp: CanonicalizeStatus_def canonicalize_def)
qed

lemma canonicalize_backlog:
  assumes "LeadingLifecycle raw = ''backlog''"
    and "normalizeStatusText raw = ''backlog''
      \<or> has_prefix (normalizeStatusText raw) (''backlog'' @ '' '' @ em_dash @ '' '')"
  shows "CanonicalizeStatus raw = CatBacklog"
proof -
  have ne: "normalizeStatusText raw \<noteq> []" using assms(2) by auto
  have other: "\<not> statusRuleMatches r raw"
    if "r \<in> {open_rule, in_progress_rule, blocked_rule, closed_rule, draft_rule}" for r
    using that assms(1)
    by (auto simp: statusRuleMatches_def term_matches_def rule_defs contains_def)
  have "statusRuleMatches backlog_rule raw"
    using assms(2) by (simp add: statusRuleMatches_def term_matches_def backlog_rule_def Let_def)
  then have "List.find (\<lambda>r. statusRuleMatches r raw) (statuses lifecycle_spec) = Some backlog_rule"
    using other by (simp add: lifecycle_spec_def)
  with ne show ?thesis by (simp add: CanonicalizeStatus_def canonicalize_def backlog_rule_def)
qed

lemma labels_plain:
  "plain_label ''Open'' ''open''" "plain_label ''In Progress'' ''in progress''"
  "plain_label ''Blocked'' ''blocked''" "plain_label ''Closed'' ''closed''"
  "plain_label ''Draft'' ''draft''" "plain_label ''Backlog'' ''backlog''"
  by code_simp+

lemma labels_of_spec:
  "StatusLabel ''open'' = Some ''Open''" "StatusLabel ''in-progress'' = Some ''In Progress''"
  "StatusLabel ''blocked'' = Some ''Blocked''" "StatusLabel ''closed'' = Some ''Closed''"
  "StatusLabel ''draft'' = Some ''Draft''" "StatusLabel ''backlog'' = Some ''Backlog''"
  by (simp_all add: StatusLabel_def lifecycle_spec_def rule_defs)

lemma lead_categories:
  "lead_category ''open'' = Some CatOpen" "lead_category ''in progress'' = Some CatOpen"
  "lead_category ''blocked'' = Some CatOpen" "lead_category ''closed'' = Some CatClosed"
  "lead_category ''draft'' = Some CatDraft"
  by (simp_all add: lead_category_def rule_defs contains_def)

lemma status_for_lead:
  assumes "status_for key reason = Inr s" and "StatusLabel key = Some label"
    and "plain_label label low" and "lead_category low = Some c"
  shows "CanonicalizeStatus s = c"
proof (rule canonicalize_lead)
  let ?r = "trimStatusPrefix label reason"
  have s: "s = label \<or> s = label @ '' '' @ em_dash @ '' '' @ ?r"
    using assms(1,2) by (auto simp: status_for_def Let_def split: if_splits)
  have "low \<noteq> []" using assms(3) by (simp add: plain_label_def)
  then show "normalizeStatusText s \<noteq> []"
    using s normalize_composed(1) [OF assms(3)] normalize_composed(2) [OF assms(3), of "'' '' @ ?r"] by auto
  show "lead_category (LeadingLifecycle s) = Some c"
    using s leading_composed [OF assms(3)] assms(4) by auto
qed

text \<open>A reason that normalisation does not erase.\<close>

definition has_text :: "string \<Rightarrow> bool" where
  "has_text r \<longleftrightarrow> list_ex (\<lambda>c. c \<notin> set white \<and> c \<notin> set ''*`_'') r"

lemma lower_char_range:
  "to_lower_char c = c \<or> (97 \<le> (of_char (to_lower_char c) :: nat) \<and> (of_char (to_lower_char c) :: nat) \<le> 122)"
  by (simp add: to_lower_char_def Let_def)

lemma has_text_trim:
  assumes "has_text r"
  shows "\<exists>u. trim_right (strip_marks (to_lower ('' '' @ r))) white = '' '' @ u"
proof -
  from assms obtain c where c: "c \<in> set r" "c \<notin> set white" "c \<notin> set ''*`_''"
    by (auto simp: has_text_def list_ex_iff)
  have marks: "to_lower_char c \<notin> set ''*`_''"
    using c(3) lower_char_range [of c] by auto
  let ?d = "to_lower_char c"
  have "?d \<in> set (strip_marks (to_lower r))"
    using c(1) marks by (auto simp: strip_marks_def to_lower_def)
  then obtain pre post where sp: "strip_marks (to_lower r) = pre @ ?d # post"
    by (meson split_list)
  have "?d \<notin> set white" using c(2) lower_char_range [of c] by (auto simp: white_def)
  then have "trim_right (('' '' @ pre @ [?d]) @ post) white = ('' '' @ pre @ [?d]) @ trim_right post white"
    by (intro trim_right_prefix) simp_all
  then show ?thesis using sp
    by (auto simp: strip_marks_def to_lower_def to_lower_char_def)
qed

definition verb_category :: "string \<Rightarrow> category" where
  "verb_category verb =
     (if closing verb then CatClosed else if verb = ''draft'' then CatDraft
      else if verb = ''backlog'' then CatBacklog else CatOpen)"

definition readable_reason :: "string \<Rightarrow> string \<Rightarrow> bool" where
  "readable_reason verb reason \<longleftrightarrow>
     (verb \<noteq> ''backlog'' \<or> trimStatusPrefix ''Backlog'' (trim_space reason) = []
      \<or> has_text (trimStatusPrefix ''Backlog'' (trim_space reason)))"

lemma status_for_backlog:
  assumes "status_for ''backlog'' reason = Inr s"
    and "trimStatusPrefix ''Backlog'' reason = [] \<or> has_text (trimStatusPrefix ''Backlog'' reason)"
  shows "CanonicalizeStatus s = CatBacklog"
proof (rule canonicalize_backlog)
  let ?r = "trimStatusPrefix ''Backlog'' reason"
  note lab = labels_plain(6)
  have s: "s = (if ?r = [] then ''Backlog'' else ''Backlog'' @ '' '' @ em_dash @ '' '' @ ?r)"
    using assms(1) by (simp add: status_for_def labels_of_spec Let_def split: if_splits)
  show "LeadingLifecycle s = ''backlog''" using s leading_composed [OF lab] by simp
  show "normalizeStatusText s = ''backlog''
      \<or> has_prefix (normalizeStatusText s) (''backlog'' @ '' '' @ em_dash @ '' '')"
  proof (cases "?r = []")
    case True
    with s normalize_composed(1) [OF lab] show ?thesis by simp
  next
    case False
    with assms(2) obtain u where "trim_right (strip_marks (to_lower ('' '' @ ?r))) white = '' '' @ u"
      using has_text_trim by blast
    with s False normalize_composed(2) [OF lab, of "'' '' @ ?r"]
    have "normalizeStatusText s = (''backlog'' @ '' '' @ em_dash @ '' '') @ u" by simp
    then show ?thesis using has_prefix_append by metis
  qed
qed

lemmas status_for_category =
  status_for_lead [OF _ labels_of_spec(1) labels_plain(1) lead_categories(1)]
  status_for_lead [OF _ labels_of_spec(2) labels_plain(2) lead_categories(2)]
  status_for_lead [OF _ labels_of_spec(3) labels_plain(3) lead_categories(3)]
  status_for_lead [OF _ labels_of_spec(4) labels_plain(4) lead_categories(4)]
  status_for_lead [OF _ labels_of_spec(5) labels_plain(5) lead_categories(5)]

lemma composed_category:
  assumes "ComposeStatus verb reason = Inr s" and "readable_reason verb reason"
  shows "CanonicalizeStatus s = verb_category verb"
proof -
  have nb: "status_for ''backlog'' (trim_space reason) = Inr s \<Longrightarrow> verb = ''backlog'' \<Longrightarrow>
      CanonicalizeStatus s = CatBacklog"
    using status_for_backlog assms(2) by (auto simp: readable_reason_def)
  show ?thesis
    using assms(1) nb status_for_category
    by (auto simp: ComposeStatus_def verb_category_def closing_def Let_def split: if_splits)
qed

text \<open>Writer and reader of the lifecycle agree: the status text composed for a verb is read back
  as the category of that verb, whatever reason is given. (For \<open>backlog\<close>, whose rule looks past the
  dash, the reason must hold more than white space and Markdown marks.)\<close>

theorem composed_status_category:
  assumes "ComposeStatus verb reason = Inr s" and "readable_reason verb reason"
  shows "CanonicalizeStatus s = verb_category verb"
  using assms by (rule composed_category)

lemma composed_status_category_witness:
  "CanonicalizeStatus (''Closed '' @ em_dash @ '' open question, blocked elsewhere'') = CatClosed"
proof -
  have c: "ComposeStatus ''close'' '' closed - open question, blocked elsewhere''
      = Inr (''Closed '' @ em_dash @ '' open question, blocked elsewhere'')"
    by code_simp
  have r: "readable_reason ''close'' '' closed - open question, blocked elsewhere''"
    by (simp add: readable_reason_def)
  have v: "verb_category ''close'' = CatClosed" by (simp add: verb_category_def closing_def)
  show ?thesis using composed_status_category [OF c r] unfolding v .
qed

end
