(* ===== verification/Tracker.thy ===== *)
theory Tracker
  imports Files Lifecycle Utf8 "HOL-Library.Product_Lexorder"
begin

text \<open>
  The tracker directory (\<open>internal/issues/issues.go\<close>, \<open>actions.go\<close>, \<open>remote.go\<close>, \<open>duplicates.go\<close>):
  scanning the ticket files, finding one, the slug of a title, the next free number and the
  reservation of a ticket.

  The directory walk is an argument: the paths of the non-directory entries below the tracker
  directory, relative to it and in walk order, or \<^const>\<open>None\<close> when there is no such directory; the
  scan keeps the entries of the directory itself and of \<open>archive\<close>. \<open>sort.Slice\<close> sorts by an order
  that is total on distinct paths, so insertion sort gives its result. A reservation holds the lock
  file for its whole run, so it is one function; what other programs do to the directory between
  its scan and its exclusive create is the argument \<open>other\<close>, and the loop makes at most a hundred
  attempts. The Unicode tables behind \<open>strings.ToLower\<close> and the category Mn are arguments of
  \<open>Slugify\<close>.
\<close>

section \<open>Scanning\<close>

record issue_file =
  inumber :: string
  header_number :: string
  rel_path :: string
  iref :: string
  ititle :: string
  raw_status :: string
  ipriority :: string
  canonical :: category
  has_status_tag :: bool
  ibody :: string

text \<open>\<open>fs.WalkDir\<close> with every directory skipped but the root and \<open>archive\<close>.\<close>

definition walked :: "string \<Rightarrow> bool" where
  "walked rel \<longleftrightarrow>
     CHR ''/'' \<notin> set rel \<or> (has_prefix rel ''archive/'' \<and> CHR ''/'' \<notin> set (drop 8 rel))"

definition issue_of :: "string \<Rightarrow> string \<Rightarrow> string \<Rightarrow> issue_file" where
  "issue_of num rel content =
     (let h = ParseIssueFileWithPriority content
      in \<lparr>inumber = num, header_number = ParseHeaderNumber content, rel_path = rel, iref = [],
          ititle = head_title h, raw_status = head_status h, ipriority = head_priority h,
          canonical = CanonicalizeStatus (head_status h), has_status_tag = has_status h,
          ibody = ParseBody content\<rparr>)"

definition issue_path :: "string \<Rightarrow> string \<Rightarrow> string" where
  "issue_path dir rel = dir @ ''/'' @ rel"

fun scan_entries :: "fsys \<Rightarrow> string \<Rightarrow> string list \<Rightarrow> fserr + issue_file list" where
  "scan_entries fs dir [] = Inr []"
| "scan_entries fs dir (rel # rels) =
     (case (if walked rel then ticket_number (base_name rel) else None) of
        None \<Rightarrow> scan_entries fs dir rels
      | Some num \<Rightarrow>
          (case read_file fs (issue_path dir rel) of
             Inl err \<Rightarrow> Inl err
           | Inr content \<Rightarrow> map_inr ((#) (issue_of num rel content)) (scan_entries fs dir rels)))"

definition issue_before :: "issue_file \<Rightarrow> issue_file \<Rightarrow> bool" where
  "issue_before a b =
     (if inumber a \<noteq> inumber b then LessID (inumber a) (inumber b) else rel_path a < rel_path b)"

fun insert_issue :: "issue_file \<Rightarrow> issue_file list \<Rightarrow> issue_file list" where
  "insert_issue x [] = [x]"
| "insert_issue x (y # ys) = (if issue_before y x then y # insert_issue x ys else x # y # ys)"

definition sort_issues :: "issue_file list \<Rightarrow> issue_file list" where
  "sort_issues xs = foldr insert_issue xs []"

datatype scan_err = NoTracker | ScanFailed fserr

definition Scan :: "fsys \<Rightarrow> string \<Rightarrow> string list option \<Rightarrow> scan_err + issue_file list" where
  "Scan fs dir walk =
     (case walk of
        None \<Rightarrow> Inl NoTracker
      | Some rels \<Rightarrow>
          (case scan_entries fs dir rels of
             Inl err \<Rightarrow> Inl (ScanFailed err)
           | Inr files \<Rightarrow> Inr (sort_issues files)))"

section \<open>Finding a ticket\<close>

datatype find_err = FindScan scan_err | NoTicket string | AmbiguousTicket string "string list"

definition unique_issue :: "string \<Rightarrow> issue_file list \<Rightarrow> find_err + issue_file" where
  "unique_issue arg matches =
     (case matches of
        [] \<Rightarrow> Inl (NoTicket arg)
      | [f] \<Rightarrow> Inr f
      | _ \<Rightarrow> Inl (AmbiguousTicket arg (map rel_path matches)))"

definition FindTicketFile ::
  "fsys \<Rightarrow> string \<Rightarrow> string list option \<Rightarrow> string \<Rightarrow> find_err + issue_file" where
  "FindTicketFile fs dir walk arg0 =
     (let arg = trim_space arg0
      in case Scan fs dir walk of
           Inl err \<Rightarrow> Inl (FindScan err)
         | Inr files \<Rightarrow>
             (case NormalizeID arg of
                Some num \<Rightarrow> unique_issue num (filter (\<lambda>f. inumber f = num) files)
              | None \<Rightarrow>
                  let cleaned = trim_prefix arg ''issues/''
                  in unique_issue arg
                       (filter (\<lambda>f. let base = base_name (rel_path f)
                          in rel_path f = cleaned \<or> base = cleaned \<or> trim_suffix base ''.md'' = cleaned)
                        files)))"

text \<open>\<open>MessageReferencesTicket\<close>: the digit runs of a commit message.\<close>

fun digit_runs :: "string \<Rightarrow> string \<Rightarrow> string list" where
  "digit_runs w [] = (if w = [] then [] else [w])"
| "digit_runs w (c # cs) =
     (if is_digit c then digit_runs (w @ [c]) cs
      else if w = [] then digit_runs [] cs else w # digit_runs [] cs)"

definition MessageReferencesTicket :: "string \<Rightarrow> string \<Rightarrow> bool" where
  "MessageReferencesTicket message num =
     list_ex (\<lambda>f. trim_left f ''0'' = trim_left num ''0'') (digit_runs [] message)"

text \<open>\<open>CheckDuplicateNumbers\<close>: the numbers with more than one file, in byte order, with the files.\<close>

definition duplicate_numbers :: "issue_file list \<Rightarrow> (string \<times> string list) list" where
  "duplicate_numbers files =
     (let paths = (\<lambda>n. sort (map (\<lambda>f. ''issues/'' @ rel_path f) (filter (\<lambda>f. inumber f = n) files)))
      in map (\<lambda>n. (n, paths n)) (filter (\<lambda>n. 1 < length (paths n)) (sort (remdups (map inumber files)))))"

definition CheckDuplicateNumbers ::
  "fsys \<Rightarrow> string \<Rightarrow> string list option \<Rightarrow> scan_err + (string \<times> string list) list" where
  "CheckDuplicateNumbers fs dir walk = map_inr duplicate_numbers (Scan fs dir walk)"

text \<open>\<open>ticketFilesFromPaths\<close>: the ticket files among the paths of another ref.\<close>

definition ticket_of_path :: "string \<Rightarrow> string \<Rightarrow> issue_file option" where
  "ticket_of_path ref p =
     (if has_prefix p ''issues/'' \<and> walked (drop 7 p)
      then map_option (\<lambda>num. \<lparr>inumber = num, header_number = [], rel_path = drop 7 p, iref = ref,
             ititle = [], raw_status = [], ipriority = [], canonical = CatUnknown,
             has_status_tag = False, ibody = []\<rparr>) (ticket_number (base_name (drop 7 p)))
      else None)"

definition ticketFilesFromPaths :: "string list \<Rightarrow> string \<Rightarrow> issue_file list" where
  "ticketFilesFromPaths paths ref = List.map_filter (ticket_of_path ref) paths"

text \<open>\<open>CheckAgainst\<close>: the local files that reuse a number the ref gives to another file.\<close>

definition collisions :: "issue_file list \<Rightarrow> issue_file list \<Rightarrow> (string \<times> string \<times> string) list" where
  "collisions local remote =
     concat (map (\<lambda>f. if rel_path f \<in> set (map rel_path remote) then []
        else map (\<lambda>r. (inumber f, ''issues/'' @ rel_path f, ''issues/'' @ rel_path r))
               (filter (\<lambda>r. inumber r = inumber f) remote)) local)"

section \<open>Numbers and slugs\<close>

definition maxNumberFromFiles :: "issue_file list \<Rightarrow> int" where
  "maxNumberFromFiles files =
     foldl (\<lambda>m f. case atoi (inumber f) of Some n \<Rightarrow> if m < n then n else m | None \<Rightarrow> m) 0 files"

text \<open>The successor wraps at 64 bits, as Go's \<open>int\<close> does.\<close>

definition next_number :: "issue_file list \<Rightarrow> int" where
  "next_number files = (let n = maxNumberFromFiles files + 1 in if n = 2 ^ 63 then - (2 ^ 63) else n)"

text \<open>\<open>%03d\<close> of an \<open>int\<close>: a sign counts towards the width.\<close>

definition fmt03 :: "int \<Rightarrow> string" where
  "fmt03 n =
     (if n < 0 then (let ds = nat_dec (nat (- n)) in ''-'' @ replicate (2 - length ds) CHR ''0'' @ ds)
      else pad3 (nat n))"

definition NextNumberFromFiles :: "issue_file list \<Rightarrow> string" where
  "NextNumberFromFiles files = fmt03 (next_number files)"

record unicode =
  lower_rune :: "string \<Rightarrow> string"
  mark_rune :: "string \<Rightarrow> bool"

definition slug_table :: "(string \<times> string) list" where
  "slug_table = [
    ([CHR 0xC3, CHR 0xA4], ''ae''), ([CHR 0xC3, CHR 0xB6], ''oe''),
    ([CHR 0xC3, CHR 0xBC], ''ue''), ([CHR 0xC3, CHR 0x9F], ''ss''), ([CHR 0xC3, CHR 0xA0], ''a''),
    ([CHR 0xC3, CHR 0xA1], ''a''), ([CHR 0xC3, CHR 0xA2], ''a''), ([CHR 0xC3, CHR 0xA3], ''a''),
    ([CHR 0xC3, CHR 0xA5], ''a''), ([CHR 0xC4, CHR 0x81], ''a''), ([CHR 0xC4, CHR 0x83], ''a''),
    ([CHR 0xC4, CHR 0x85], ''a''), ([CHR 0xC3, CHR 0xA6], ''ae''), ([CHR 0xC3, CHR 0xA7], ''c''),
    ([CHR 0xC4, CHR 0x87], ''c''), ([CHR 0xC4, CHR 0x89], ''c''), ([CHR 0xC4, CHR 0x8B], ''c''),
    ([CHR 0xC4, CHR 0x8D], ''c''), ([CHR 0xC4, CHR 0x8F], ''d''), ([CHR 0xC4, CHR 0x91], ''d''),
    ([CHR 0xC3, CHR 0xA8], ''e''), ([CHR 0xC3, CHR 0xA9], ''e''), ([CHR 0xC3, CHR 0xAA], ''e''),
    ([CHR 0xC3, CHR 0xAB], ''e''), ([CHR 0xC4, CHR 0x93], ''e''), ([CHR 0xC4, CHR 0x95], ''e''),
    ([CHR 0xC4, CHR 0x97], ''e''), ([CHR 0xC4, CHR 0x99], ''e''), ([CHR 0xC4, CHR 0x9B], ''e''),
    ([CHR 0xC4, CHR 0x9D], ''g''), ([CHR 0xC4, CHR 0x9F], ''g''), ([CHR 0xC4, CHR 0xA1], ''g''),
    ([CHR 0xC4, CHR 0xA3], ''g''), ([CHR 0xC4, CHR 0xA5], ''h''), ([CHR 0xC4, CHR 0xA7], ''h''),
    ([CHR 0xC3, CHR 0xAC], ''i''), ([CHR 0xC3, CHR 0xAD], ''i''), ([CHR 0xC3, CHR 0xAE], ''i''),
    ([CHR 0xC3, CHR 0xAF], ''i''), ([CHR 0xC4, CHR 0xA9], ''i''), ([CHR 0xC4, CHR 0xAB], ''i''),
    ([CHR 0xC4, CHR 0xAD], ''i''), ([CHR 0xC4, CHR 0xAF], ''i''), ([CHR 0xC4, CHR 0xB1], ''i''),
    ([CHR 0xC4, CHR 0xB5], ''j''), ([CHR 0xC4, CHR 0xB7], ''k''), ([CHR 0xC4, CHR 0xBA], ''l''),
    ([CHR 0xC4, CHR 0xBC], ''l''), ([CHR 0xC4, CHR 0xBE], ''l''), ([CHR 0xC5, CHR 0x80], ''l''),
    ([CHR 0xC5, CHR 0x82], ''l''), ([CHR 0xC3, CHR 0xB1], ''n''), ([CHR 0xC5, CHR 0x84], ''n''),
    ([CHR 0xC5, CHR 0x86], ''n''), ([CHR 0xC5, CHR 0x88], ''n''), ([CHR 0xC5, CHR 0x8B], ''n''),
    ([CHR 0xC3, CHR 0xB2], ''o''), ([CHR 0xC3, CHR 0xB3], ''o''), ([CHR 0xC3, CHR 0xB4], ''o''),
    ([CHR 0xC3, CHR 0xB5], ''o''), ([CHR 0xC5, CHR 0x8D], ''o''), ([CHR 0xC5, CHR 0x8F], ''o''),
    ([CHR 0xC5, CHR 0x91], ''o''), ([CHR 0xC3, CHR 0xB8], ''o''), ([CHR 0xC5, CHR 0x95], ''r''),
    ([CHR 0xC5, CHR 0x97], ''r''), ([CHR 0xC5, CHR 0x99], ''r''), ([CHR 0xC5, CHR 0x9B], ''s''),
    ([CHR 0xC5, CHR 0x9D], ''s''), ([CHR 0xC5, CHR 0x9F], ''s''), ([CHR 0xC5, CHR 0xA1], ''s''),
    ([CHR 0xC5, CHR 0xA3], ''t''), ([CHR 0xC5, CHR 0xA5], ''t''), ([CHR 0xC5, CHR 0xA7], ''t''),
    ([CHR 0xC3, CHR 0xB9], ''u''), ([CHR 0xC3, CHR 0xBA], ''u''), ([CHR 0xC3, CHR 0xBB], ''u''),
    ([CHR 0xC5, CHR 0xA9], ''u''), ([CHR 0xC5, CHR 0xAB], ''u''), ([CHR 0xC5, CHR 0xAD], ''u''),
    ([CHR 0xC5, CHR 0xAF], ''u''), ([CHR 0xC5, CHR 0xB1], ''u''), ([CHR 0xC5, CHR 0xB3], ''u''),
    ([CHR 0xC5, CHR 0xB5], ''w''), ([CHR 0xC3, CHR 0xBD], ''y''), ([CHR 0xC3, CHR 0xBF], ''y''),
    ([CHR 0xC5, CHR 0xB7], ''y''), ([CHR 0xC5, CHR 0xBA], ''z''), ([CHR 0xC5, CHR 0xBC], ''z''),
    ([CHR 0xC5, CHR 0xBE], ''z'')]"

definition slug_rune :: "string \<Rightarrow> string" where
  "slug_rune r = (case map_of slug_table r of Some t \<Rightarrow> t | None \<Rightarrow> r)"

definition slug_char :: "char \<Rightarrow> bool" where
  "slug_char c \<longleftrightarrow> is_digit c \<or> (97 \<le> byte c \<and> byte c \<le> 122)"

text \<open>\<open>[^a-z0-9]+\<close> replaced by a dash; the flag says that a run of other bytes is open.\<close>

fun dash_runs :: "bool \<Rightarrow> string \<Rightarrow> string" where
  "dash_runs run [] = []"
| "dash_runs run (c # cs) =
     (if slug_char c then c # dash_runs False cs
      else if run then dash_runs True cs else CHR ''-'' # dash_runs True cs)"

definition Slugify :: "unicode \<Rightarrow> string \<Rightarrow> string" where
  "Slugify u title =
     (let lowered = concat (map (lower_rune u) (rune_list title));
          plain = concat (map slug_rune (rune_list lowered));
          kept = concat (filter (\<lambda>r. \<not> mark_rune u r) (rune_list plain))
      in trim_right (trim_left (dash_runs False kept) ''-'') ''-'')"

section \<open>Reservation\<close>

record tracker =
  tfs :: fsys
  twalk :: "string list"

record reserve_options =
  rtitle :: string
  remote_num :: string
  rnumber :: string
  elsewhere :: "issue_file list"

datatype reserve_err =
    BadNumber string
  | ReserveScan scan_err
  | NumberTaken string
  | BadRemote string
  | CreateFailed string
  | WriteFailed string
  | Collisions

definition lf :: string where "lf = [nl]"

definition placeholder :: "string \<Rightarrow> string \<Rightarrow> string" where
  "placeholder num title =
     ''# '' @ num @ '' '' @ em_dash @ '' '' @ title @ lf @ lf
     @ ''**Status**: Draft'' @ lf
     @ ''**Priority**: P2 (Medium)'' @ lf
     @ ''**Severity**: Minor'' @ lf
     @ ''**Category**: Bug'' @ lf
     @ ''**Related**:'' @ lf @ lf
     @ ''---'' @ lf @ lf
     @ ''## 1. Problem & Motivation'' @ lf
     @ ''Describe the problem and why it matters.'' @ lf @ lf
     @ ''## 2. Technical Specification / Findings'' @ lf
     @ ''Record relevant technical details and findings.'' @ lf @ lf
     @ ''## 3. Implementation & Verification Plan'' @ lf
     @ ''Describe the implementation and how it will be verified.'' @ lf"

text \<open>The number of one attempt: the next free one, the explicit one, or the GitHub id.\<close>

definition pick_number :: "string \<Rightarrow> reserve_options \<Rightarrow> issue_file list \<Rightarrow> reserve_err + string" where
  "pick_number explicit opts files =
     (let taken = (\<lambda>n. n \<in> set (map inumber files));
          n1 = (if explicit \<noteq> [] then explicit else NextNumberFromFiles files)
      in if explicit \<noteq> [] \<and> taken explicit then Inl (NumberTaken explicit)
         else if remote_num opts \<noteq> []
         then (if \<not> remote_id (remote_num opts) then Inl (BadRemote (remote_num opts))
               else if taken (remote_num opts) then Inl (NumberTaken (remote_num opts))
               else Inr (remote_num opts))
         else Inr n1)"

definition reserve_names :: "unicode \<Rightarrow> reserve_options \<Rightarrow> string \<Rightarrow> string \<times> string" where
  "reserve_names u opts num =
     (let slug = Slugify u (rtitle opts)
      in if slug \<noteq> [] then (num @ ''-'' @ slug @ ''.md'', trim_space (rtitle opts))
         else (num @ ''-reserved.md'',
               if remote_num opts \<noteq> [] \<and> trim_space (rtitle opts) \<noteq> [] then trim_space (rtitle opts)
               else ''Reserved''))"

text \<open>The exclusive create (a path may also be taken by something that is no ticket file, the argument
  \<open>blocked\<close> below) and the write of the placeholder.\<close>

definition create_ticket :: "string \<Rightarrow> tracker \<Rightarrow> string \<Rightarrow> string \<Rightarrow> string \<Rightarrow> reserve_err option \<times> tracker" where
  "create_ticket dir t base num title =
     (case write_file (tfs t) (issue_path dir base) (placeholder num title) of
        (None, fs) \<Rightarrow> (None, t\<lparr>tfs := fs, twalk := twalk t @ [base]\<rparr>)
      | (Some _, fs) \<Rightarrow>
          (Some (WriteFailed base),
           t\<lparr>tfs := fs, twalk := (if contents fs (issue_path dir base) = None then twalk t
             else twalk t @ [base])\<rparr>))"

fun reserve_loop ::
  "nat \<Rightarrow> (nat \<Rightarrow> tracker \<Rightarrow> tracker) \<Rightarrow> (string \<Rightarrow> bool) \<Rightarrow> unicode \<Rightarrow> string \<Rightarrow> string \<Rightarrow>
    reserve_options \<Rightarrow> tracker \<Rightarrow> (reserve_err + string \<times> string) \<times> tracker" where
  "reserve_loop 0 other blocked u dir explicit opts t = (Inl Collisions, t)"
| "reserve_loop (Suc n) other blocked u dir explicit opts t =
     (case Scan (tfs t) dir (Some (twalk t)) of
        Inl err \<Rightarrow> (Inl (ReserveScan err), t)
      | Inr files \<Rightarrow>
          (case pick_number explicit opts (files @ elsewhere opts) of
             Inl err \<Rightarrow> (Inl err, t)
           | Inr num \<Rightarrow>
               let (base, title) = reserve_names u opts num; t1 = other n t
               in if blocked (issue_path dir base) \<or> contents (tfs t1) (issue_path dir base) \<noteq> None
                  then (if remote_num opts = [] \<and> explicit = []
                        then reserve_loop n other blocked u dir explicit opts t1
                        else (Inl (CreateFailed base), t1))
                  else (case create_ticket dir t1 base num title of
                          (None, t2) \<Rightarrow> (Inr (num, base), t2)
                        | (Some err, t2) \<Rightarrow> (Inl err, t2))))"

definition explicit_number :: "reserve_options \<Rightarrow> reserve_err + string" where
  "explicit_number opts =
     (if rnumber opts = [] then Inr []
      else case atoi (trim_space (rnumber opts)) of
             None \<Rightarrow> Inl (BadNumber (rnumber opts))
           | Some n \<Rightarrow> if n < 1 then Inl (BadNumber (rnumber opts)) else Inr (fmt03 n))"

definition Reserve ::
  "(nat \<Rightarrow> tracker \<Rightarrow> tracker) \<Rightarrow> (string \<Rightarrow> bool) \<Rightarrow> unicode \<Rightarrow> string \<Rightarrow>
    reserve_options \<Rightarrow> tracker \<Rightarrow> (reserve_err + string \<times> string) \<times> tracker" where
  "Reserve other blocked u dir opts t =
     (case explicit_number opts of
        Inl err \<Rightarrow> (Inl err, t)
      | Inr explicit \<Rightarrow> reserve_loop 100 other blocked u dir explicit opts t)"

section \<open>Numbers that are taken\<close>

lemma pad3_digits: "all_digits (pad3 n)"
  using nat_dec_digits [of n]
  by (auto simp: pad3_def all_digits_def Let_def list_all_iff is_digit_def)

lemma dec_nat_zeros: "dec_nat (replicate k CHR ''0'' @ s) = dec_nat s"
  by (induction k) (simp_all add: dec_nat_Cons digit_val_def)

lemma dec_nat_pad3 [simp]: "dec_nat (pad3 n) = n"
  by (simp add: pad3_def Let_def dec_nat_zeros)

lemma pad3_length: "3 \<le> length (pad3 n)"
  by (simp add: pad3_def Let_def)

lemma digits_no_sign: "all_digits s \<Longrightarrow> \<not> has_prefix s ''-'' \<and> \<not> has_prefix s ''+''"
  by (cases s) (auto simp: all_digits_def is_digit_def)

lemma atoi_digits: "all_digits s \<Longrightarrow> dec_nat s < 2 ^ 63 \<Longrightarrow> atoi s = Some (int (dec_nat s))"
  using digits_no_sign [of s] by (simp add: atoi_def Let_def)

lemma atoi_digits_None: "all_digits s \<Longrightarrow> 2 ^ 63 \<le> dec_nat s \<Longrightarrow> atoi s = None"
  using digits_no_sign [of s] by (simp add: atoi_def Let_def)

lemma max_number_ge:
  "f \<in> set files \<Longrightarrow> atoi (inumber f) = Some n \<Longrightarrow> n \<le> maxNumberFromFiles files"
  "0 \<le> maxNumberFromFiles files"
proof -
  let ?step = "\<lambda>m f. case atoi (inumber f) of Some n \<Rightarrow> if m < n then n else m | None \<Rightarrow> m"
  have grow: "m \<le> foldl ?step m fs" for m :: int and fs
  proof (induction fs arbitrary: m)
    case (Cons f fs)
    have "m \<le> ?step m f" by (simp split: option.split)
    also have "\<dots> \<le> foldl ?step (?step m f) fs" by (rule Cons.IH)
    finally show ?case by simp
  qed simp
  then show "0 \<le> maxNumberFromFiles files" unfolding maxNumberFromFiles_def .
  have mem: "f \<in> set fs \<Longrightarrow> atoi (inumber f) = Some n \<Longrightarrow> n \<le> foldl ?step m fs" for m :: int and fs
  proof (induction fs arbitrary: m)
    case (Cons g fs)
    show ?case
    proof (cases "f = g")
      case True
      with Cons.prems have "n \<le> ?step m g" by simp
      also have "\<dots> \<le> foldl ?step (?step m g) fs" by (rule grow)
      finally show ?thesis by simp
    next
      case False
      with Cons show ?thesis by simp
    qed
  qed simp
  show "n \<le> maxNumberFromFiles files" if "f \<in> set files" "atoi (inumber f) = Some n"
    unfolding maxNumberFromFiles_def using mem that by blast
qed

lemma next_number_bound: "maxNumberFromFiles files < 2 ^ 63"
proof -
  let ?step = "\<lambda>m f. case atoi (inumber f) of Some n \<Rightarrow> if m < n then n else m | None \<Rightarrow> m"
  have "m < 2 ^ 63 \<Longrightarrow> foldl ?step m fs < 2 ^ 63" for m :: int and fs
  proof (induction fs arbitrary: m)
    case (Cons f fs)
    have "?step m f < 2 ^ 63"
      using Cons.prems by (auto simp: atoi_def Let_def split: option.split if_splits)
    with Cons.IH show ?case by simp
  qed simp
  from this [of 0 files] show ?thesis unfolding maxNumberFromFiles_def by simp
qed

lemma next_number_fresh:
  assumes "list_all (\<lambda>f. ticket_id (inumber f)) files"
  shows "NextNumberFromFiles files \<notin> set (map inumber files)"
proof
  assume "NextNumberFromFiles files \<in> set (map inumber files)"
  then obtain f where f: "f \<in> set files" "inumber f = NextNumberFromFiles files" by auto
  let ?n = "next_number files"
  show False
  proof (cases "?n < 0")
    case True
    then have "hd (inumber f) = CHR ''-''" and "inumber f \<noteq> []"
      using f(2) by (simp_all add: NextNumberFromFiles_def fmt03_def Let_def)
    moreover have "ticket_id (inumber f)" using assms f(1) by (simp add: list_all_iff)
    ultimately show False
      by (cases "inumber f")
        (auto simp: ticket_id_def remote_id_def all_digits_def is_digit_def split: list.splits)
  next
    case False
    then have n: "?n = maxNumberFromFiles files + 1" "?n < 2 ^ 63" "inumber f = pad3 (nat ?n)"
      using f(2) max_number_ge(2) [of files] next_number_bound [of files]
      by (auto simp: next_number_def Let_def NextNumberFromFiles_def fmt03_def split: if_splits)
    then have "atoi (inumber f) = Some ?n"
      using False atoi_digits [OF pad3_digits, of "nat ?n"] by simp
    then have "?n \<le> maxNumberFromFiles files" using max_number_ge(1) [OF f(1)] by blast
    with n(1) show False by simp
  qed
qed

section \<open>What a scan finds\<close>

lemma scan_number_id:
  assumes "scan_number s = Some (num, rest)"
  shows "ticket_id num \<and> s = num @ rest"
proof -
  define gh t ds where "gh = has_prefix s ''GH''" and "t = (if gh then drop 2 s else s)"
    and "ds = takeWhile is_digit t"
  note defs = this
  have u: "scan_number s = (if ds = [] \<or> gh \<and> hd ds = CHR ''0'' then None
      else Some ((if gh then ''GH'' else []) @ ds, drop (length ds) t))"
    unfolding scan_number_def Let_def defs by (rule refl)
  with assms have ne: "ds \<noteq> []" "gh \<Longrightarrow> hd ds \<noteq> CHR ''0''"
    and num: "num = (if gh then ''GH'' else []) @ ds" and rest: "rest = drop (length ds) t"
    by (auto split: if_splits)
  have digits: "list_all is_digit ds" by (auto simp: defs(3) list_all_iff dest: set_takeWhileD)
  have "t = ds @ drop (length ds) t"
    unfolding defs(3) by (metis append_eq_conv_conj takeWhile_dropWhile_id)
  moreover have "s = (if gh then ''GH'' else []) @ t" by (auto simp: defs(1,2) has_prefix_iff)
  ultimately have s: "s = num @ rest" using num rest by (metis append_assoc)
  show ?thesis
  proof (cases gh)
    case True
    with ne digits num s show ?thesis
      by (cases ds) (auto simp: ticket_id_def remote_id_def)
  next
    case False
    with ne digits num s show ?thesis by (simp add: ticket_id_def all_digits_def)
  qed
qed

lemma ticket_number_id: "ticket_number base = Some num \<Longrightarrow> ticket_id num"
  unfolding ticket_number_def by (auto dest: scan_number_id split: option.splits if_splits)

lemma insert_issue_set [simp]: "set (insert_issue x ys) = {x} \<union> set ys"
  by (induction ys) auto

lemma sort_issues_set [simp]: "set (sort_issues xs) = set xs"
  unfolding sort_issues_def by (induction xs) auto

lemma scan_entries_iff:
  "scan_entries fs dir rels = Inr files \<Longrightarrow>
    f \<in> set files \<longleftrightarrow> (\<exists>rel\<in>set rels. \<exists>num content. walked rel \<and> ticket_number (base_name rel) = Some num
      \<and> read_file fs (issue_path dir rel) = Inr content \<and> f = issue_of num rel content)"
proof (induction rels arbitrary: files)
  case (Cons rel rels)
  show ?case
  proof (cases "if walked rel then ticket_number (base_name rel) else None")
    case None
    with Cons show ?thesis by (auto split: if_splits)
  next
    case (Some num)
    with Cons.prems obtain content rest where r: "read_file fs (issue_path dir rel) = Inr content"
      "scan_entries fs dir rels = Inr rest" "files = issue_of num rel content # rest"
      by (auto simp: map_inr_def split: sum.splits)
    with Cons.IH [OF r(2)] Some show ?thesis by (auto split: if_splits)
  qed
qed simp

lemma scan_iff:
  assumes "Scan fs dir (Some rels) = Inr files"
  shows "f \<in> set files \<longleftrightarrow> (\<exists>rel\<in>set rels. \<exists>num content. walked rel
      \<and> ticket_number (base_name rel) = Some num
      \<and> read_file fs (issue_path dir rel) = Inr content \<and> f = issue_of num rel content)"
  using assms scan_entries_iff [of fs dir rels _ f] unfolding Scan_def
  by (auto simp del: bex_simps split: sum.splits)

lemma scan_ids:
  "Scan fs dir walk = Inr files \<Longrightarrow> list_all (\<lambda>f. ticket_id (inumber f)) files"
  using scan_iff ticket_number_id
  by (cases walk) (fastforce simp: Scan_def list_all_iff issue_of_def Let_def)+

text \<open>The order of a scan is the library's order of the keys below.\<close>

definition issue_key :: "issue_file \<Rightarrow> bool \<times> nat \<times> string \<times> string" where
  "issue_key f = (id_remote (inumber f), id_num (inumber f), inumber f, rel_path f)"

lemma issue_before_key:
  "ticket_id (inumber a) \<Longrightarrow> ticket_id (inumber b) \<Longrightarrow> issue_before a b \<longleftrightarrow> issue_key a < issue_key b"
  using less_id_iff [of "inumber a" "inumber b"]
  by (auto simp: issue_before_def issue_key_def less_prod_def')

lemma insert_issue_key:
  "ticket_id (inumber x) \<Longrightarrow> list_all (\<lambda>f. ticket_id (inumber f)) ys \<Longrightarrow>
    insert_issue x ys = insort_key issue_key x ys"
  by (induction ys) (auto simp: issue_before_key not_le)

lemma sort_issues_key:
  "list_all (\<lambda>f. ticket_id (inumber f)) xs \<Longrightarrow> sort_issues xs = sort_key issue_key xs"
proof (induction xs)
  case (Cons x xs)
  then have "list_all (\<lambda>f. ticket_id (inumber f)) (sort_key issue_key xs)"
    by (simp add: list_all_iff)
  with Cons show ?case by (simp add: sort_issues_def insert_issue_key)
qed (simp add: sort_issues_def)

lemma scan_entries_ids:
  "scan_entries fs dir rels = Inr files \<Longrightarrow> list_all (\<lambda>f. ticket_id (inumber f)) files"
  using scan_entries_iff [of fs dir rels files] ticket_number_id
  by (auto simp: list_all_iff issue_of_def Let_def)

text \<open>C25. What a scan returns is well formed: every file carries a ticket id, the category that its raw
  status reads as, and a path of the walk that is directly in the tracker or its archive; and the
  files are sorted by id, local tickets first, in numeric order, then by path.\<close>

theorem scan_well_formed:
  assumes "Scan fs dir walk = Inr files"
  shows "list_all (\<lambda>f. ticket_id (inumber f) \<and> canonical f = CanonicalizeStatus (raw_status f)
      \<and> walked (rel_path f) \<and> rel_path f \<in> set (the walk)) files
    \<and> sorted (map issue_key files)"
proof -
  from assms obtain rels xs where w: "walk = Some rels" and e: "scan_entries fs dir rels = Inr xs"
    and f: "files = sort_issues xs"
    by (auto simp: Scan_def split: option.splits sum.splits)
  have "sorted (map issue_key files)"
    unfolding f sort_issues_key [OF scan_entries_ids [OF e]] by (rule sorted_sort_key)
  moreover have "list_all (\<lambda>f. ticket_id (inumber f) \<and> canonical f = CanonicalizeStatus (raw_status f)
      \<and> walked (rel_path f) \<and> rel_path f \<in> set (the walk)) files"
    using scan_iff [of fs dir rels files] assms w scan_ids [OF assms]
    by (auto simp: list_all_iff issue_of_def Let_def)
  ultimately show ?thesis by blast
qed

definition two_tickets :: fsys where
  "two_tickets = sound_fsys (\<lambda>p. if p \<in> {''i/010-a.md'', ''i/archive/GH9-b.md'', ''i/9-c.md''} then Some [] else None)"

lemma scan_well_formed_witness:
  "case Scan two_tickets ''i'' (Some [''archive/GH9-b.md'', ''010-a.md'', ''9-c.md'']) of
     Inl _ \<Rightarrow> False
   | Inr files \<Rightarrow> map inumber files = [''010'', ''GH9''] \<and> sorted (map issue_key files)"
proof -
  have t: "ticket_number (base_name ''archive/GH9-b.md'') = Some ''GH9''"
    "ticket_number (base_name ''010-a.md'') = Some ''010''" "ticket_number (base_name ''9-c.md'') = None"
    "walked ''archive/GH9-b.md''" "walked ''010-a.md''" "walked ''9-c.md''"
    and r: "read_file two_tickets (issue_path ''i'' ''archive/GH9-b.md'') = Inr []"
    "read_file two_tickets (issue_path ''i'' ''010-a.md'') = Inr []"
    and l: "LessID ''010'' ''GH9''" "\<not> LessID ''GH9'' ''010''"
    by code_simp+
  have f: "Scan two_tickets ''i'' (Some [''archive/GH9-b.md'', ''010-a.md'', ''9-c.md''])
      = Inr [issue_of ''010'' ''010-a.md'' [], issue_of ''GH9'' ''archive/GH9-b.md'' []]"
    by (simp add: Scan_def t r l map_inr_def sort_issues_def issue_before_def)
      (simp add: issue_of_def Let_def l)
  show ?thesis using scan_well_formed [OF f] unfolding f by (simp add: issue_of_def Let_def)
qed

section \<open>File names\<close>

lemma last_index_of_single: "d \<notin> set s \<Longrightarrow> last_index_of s [d] = None"
  by (induction s) auto

lemma dash_runs_chars: "set (dash_runs run s) \<subseteq> {c. slug_char c} \<union> {CHR ''-''}"
  by (induction run s rule: dash_runs.induct) auto

lemma slug_chars: "set (Slugify u title) \<subseteq> {c. slug_char c} \<union> {CHR ''-''}"
proof -
  have "set (trim_right (trim_left x ''-'') ''-'') \<subseteq> set x" for x
    using set_trim_right set_dropWhileD unfolding trim_left_def by fast
  then show ?thesis unfolding Slugify_def Let_def using dash_runs_chars by (meson subset_trans)
qed

lemma slug_no_special: "nl \<notin> set (Slugify u title)" "CHR ''/'' \<notin> set (Slugify u title)"
  using slug_chars [of u title] by (auto simp: slug_char_def is_digit_def byte_def)

lemma ticket_id_chars: "ticket_id num \<Longrightarrow> nl \<notin> set num \<and> CHR ''/'' \<notin> set num"
  by (auto simp: ticket_id_def remote_id_def all_digits_def list_all_iff is_digit_def split: list.splits)

lemma reserve_base:
  "fst (reserve_names u opts num) = num @ ''-'' @ (let slug = Slugify u (rtitle opts)
     in if slug \<noteq> [] then slug else ''reserved'') @ ''.md''"
  by (simp add: reserve_names_def Let_def)

lemma scan_number_local:
  "all_digits num \<Longrightarrow> scan_number (num @ ''-'' @ rest) = Some (num, ''-'' @ rest)"
proof -
  assume d: "all_digits num"
  then have "takeWhile is_digit (num @ ''-'' @ rest) = num"
    by (simp add: all_digits_def list_all_iff takeWhile_append is_digit_def)
  moreover have "\<not> has_prefix (num @ ''-'' @ rest) ''GH''"
    using d by (cases num) (auto simp: all_digits_def is_digit_def)
  ultimately show ?thesis using d by (simp add: scan_number_def all_digits_def)
qed

lemma scan_number_remote:
  assumes "remote_id num"
  shows "scan_number (num @ ''-'' @ rest) = Some (num, ''-'' @ rest)"
proof -
  from assms obtain c ds where n: "num = ''GH'' @ c # ds" "is_digit c" "c \<noteq> CHR ''0''" "list_all is_digit ds"
    by (auto simp: remote_id_def split: list.splits)
  then have "takeWhile is_digit (c # ds @ ''-'' @ rest) = c # ds"
    by (simp add: list_all_iff takeWhile_append is_digit_def)
  with n show ?thesis by (simp add: scan_number_def)
qed

lemma reserved_is_ticket:
  assumes "remote_id num \<or> (all_digits num \<and> 3 \<le> length num)"
  shows "ticket_number (fst (reserve_names u opts num)) = Some num"
    and "walked (fst (reserve_names u opts num))"
    and "base_name (fst (reserve_names u opts num)) = fst (reserve_names u opts num)"
proof -
  let ?b = "fst (reserve_names u opts num)"
  define slug where "slug = (if Slugify u (rtitle opts) \<noteq> [] then Slugify u (rtitle opts) else ''reserved'')"
  have b: "?b = num @ ''-'' @ (slug @ ''.md'')" by (simp add: reserve_base slug_def Let_def)
  have slug: "nl \<notin> set slug" "CHR ''/'' \<notin> set slug"
    using slug_no_special by (simp_all add: slug_def)
  have num: "nl \<notin> set num" "CHR ''/'' \<notin> set num"
    using assms ticket_id_chars by (auto simp: ticket_id_def)
  have slash: "CHR ''/'' \<notin> set ?b" using b slug num by simp
  have "scan_number ?b = Some (num, ''-'' @ (slug @ ''.md''))"
    using assms scan_number_local scan_number_remote b by metis
  moreover have "has_suffix (slug @ ''.md'') ''.md''" by (auto simp: has_suffix_iff)
  moreover have "has_prefix num ''GH'' \<or> 3 \<le> length num"
    using assms by (auto simp: remote_id_def split: list.splits)
  moreover have "nl \<notin> set ?b" using b slug num by simp
  ultimately show "ticket_number ?b = Some num" by (simp add: ticket_number_def)
  show "walked ?b" using slash by (simp add: walked_def)
  have "trim_right ?b ''/'' = ?b" by (rule trim_right_keep) (simp_all add: b)
  moreover have "last_index_of ?b ''/'' = None" using slash last_index_of_single by blast
  ultimately show "base_name ?b = ?b" by (simp add: base_name_def b)
qed

lemma scan_entries_reads:
  "scan_entries fs dir rels = Inr files \<Longrightarrow> rel \<in> set rels \<Longrightarrow> walked rel \<Longrightarrow>
    ticket_number (base_name rel) = Some num \<Longrightarrow> \<exists>f\<in>set files. inumber f = num"
proof (induction rels arbitrary: files)
  case (Cons r rels)
  show ?case
  proof (cases "rel = r")
    case True
    with Cons.prems show ?thesis
      by (auto simp: map_inr_def issue_of_def Let_def split: sum.splits)
  next
    case False
    with Cons show ?thesis
      by (fastforce simp: map_inr_def split: sum.splits option.splits if_splits)
  qed
qed simp

lemma scan_reads:
  "Scan fs dir (Some rels) = Inr files \<Longrightarrow> rel \<in> set rels \<Longrightarrow> walked rel \<Longrightarrow>
    ticket_number (base_name rel) = Some num \<Longrightarrow> num \<in> set (map inumber files)"
  using scan_entries_reads [of fs dir rels _ rel num]
  by (auto simp: Scan_def split: sum.splits)

section \<open>Reservations are fresh\<close>

lemma pick_number_fresh:
  assumes "pick_number explicit opts files = Inr num"
    and "list_all (\<lambda>f. ticket_id (inumber f)) files"
  shows "num \<notin> set (map inumber files)"
  using assms next_number_fresh [OF assms(2)]
  by (auto simp: pick_number_def Let_def split: if_splits)

lemma minus_no_id: "\<not> ticket_id (CHR ''-'' # s)"
  by (auto simp: ticket_id_def remote_id_def all_digits_def is_digit_def split: list.splits)

lemma fmt03_shape: "ticket_id (fmt03 n) \<Longrightarrow> all_digits (fmt03 n) \<and> 3 \<le> length (fmt03 n)"
  using pad3_digits pad3_length minus_no_id by (auto simp: fmt03_def Let_def split: if_splits)

lemma pick_number_shape:
  assumes "pick_number explicit opts files = Inr num" and "ticket_id num"
    and "explicit = [] \<or> (\<exists>n. explicit = fmt03 n)"
  shows "remote_id num \<or> (all_digits num \<and> 3 \<le> length num)"
  using assms fmt03_shape
  by (auto simp: pick_number_def Let_def NextNumberFromFiles_def split: if_splits)

lemma explicit_shape:
  "explicit_number opts = Inr explicit \<Longrightarrow> explicit = [] \<or> (\<exists>n. explicit = fmt03 n)"
  by (auto simp: explicit_number_def split: if_splits option.splits)

definition fresh_reservation ::
  "unicode \<Rightarrow> string \<Rightarrow> reserve_options \<Rightarrow> string \<Rightarrow> string \<Rightarrow> tracker \<Rightarrow> tracker \<Rightarrow> tracker \<Rightarrow> bool" where
  "fresh_reservation u dir opts num base t0 t1 t' \<longleftrightarrow>
     (\<exists>files. Scan (tfs t0) dir (Some (twalk t0)) = Inr files
        \<and> num \<notin> set (map inumber (files @ elsewhere opts)))
     \<and> base = fst (reserve_names u opts num)
     \<and> contents (tfs t1) (issue_path dir base) = None
     \<and> contents (tfs t') = (contents (tfs t1))(issue_path dir base
          \<mapsto> placeholder num (snd (reserve_names u opts num)))
     \<and> twalk t' = twalk t1 @ [base]"

lemma create_ticket_ok:
  assumes "create_ticket dir t base num title = (None, t')"
  shows "contents (tfs t') = (contents (tfs t))(issue_path dir base \<mapsto> placeholder num title)
    \<and> twalk t' = twalk t @ [base]"
  using assms by (auto simp: create_ticket_def write_file_def split: option.splits)

lemma reserve_loop_fresh:
  assumes "reserve_loop n other blocked u dir explicit opts t = (Inr (num, base), t')"
    and "list_all (\<lambda>f. ticket_id (inumber f)) (elsewhere opts)"
    and "explicit = [] \<or> (\<exists>n. explicit = fmt03 n)"
  shows "(\<exists>k t0. fresh_reservation u dir opts num base t0 (other k t0) t')
    \<and> (ticket_id num \<longrightarrow> remote_id num \<or> (all_digits num \<and> 3 \<le> length num))"
  using assms
proof (induction n arbitrary: t)
  case (Suc n)
  from Suc.prems(1) obtain files where files: "Scan (tfs t) dir (Some (twalk t)) = Inr files"
    by (auto split: sum.splits)
  with Suc.prems(1) obtain m where pick: "pick_number explicit opts (files @ elsewhere opts) = Inr m"
    by (auto split: sum.splits)
  define t1 b title where t1: "t1 = other n t" and b: "b = fst (reserve_names u opts m)"
    and title: "title = snd (reserve_names u opts m)"
  note names = t1 b title
  let ?taken = "blocked (issue_path dir b) \<or> contents (tfs t1) (issue_path dir b) \<noteq> None"
  have step: "reserve_loop (Suc n) other blocked u dir explicit opts t =
      (if ?taken
       then (if remote_num opts = [] \<and> explicit = []
             then reserve_loop n other blocked u dir explicit opts t1
             else (Inl (CreateFailed b), t1))
       else (case create_ticket dir t1 b m title of
               (None, t2) \<Rightarrow> (Inr (m, b), t2) | (Some err, t2) \<Rightarrow> (Inl err, t2)))"
    using files pick unfolding names by (simp add: Let_def split_beta)
  show ?case
  proof (cases ?taken)
    case True
    with step Suc.prems(1) have "reserve_loop n other blocked u dir explicit opts t1 = (Inr (num, base), t')"
      by (auto split: if_splits)
    from Suc.IH [OF this Suc.prems(2,3)] show ?thesis .
  next
    case False
    with step Suc.prems(1) have c: "create_ticket dir t1 b m title = (None, t')" "num = m" "base = b"
      by (auto split: prod.splits option.splits)
    have ids: "list_all (\<lambda>f. ticket_id (inumber f)) (files @ elsewhere opts)"
      using scan_ids [OF files] Suc.prems(2) by simp
    have "fresh_reservation u dir opts num base t (other n t) t'"
      using files pick_number_fresh [OF pick ids] create_ticket_ok [OF c(1)] c(2,3) False
      unfolding fresh_reservation_def names by auto
    with pick_number_shape [OF pick] c(2) Suc.prems(3) show ?thesis by blast
  qed
qed simp


definition ascii_unicode :: unicode where
  "ascii_unicode = \<lparr>lower_rune = to_lower, mark_rune = (\<lambda>_. False)\<rparr>"

definition empty_tracker :: tracker where
  "empty_tracker = \<lparr>tfs = sound_fsys (\<lambda>_. None), twalk = []\<rparr>"

definition fix_options :: reserve_options where
  "fix_options = \<lparr>rtitle = ''Fix it!'', remote_num = [], rnumber = [],
     elsewhere = ticketFilesFromPaths [''issues/041-old.md''] ''origin/main''\<rparr>"

lemma reserve_run:
  "fst (Reserve (\<lambda>_. id) (\<lambda>_. False) ascii_unicode ''issues'' fix_options empty_tracker)
    = Inr (''042'', ''042-fix-it.md'')"
  by code_simp


end
