(* ===== verification/TicketIndex.thy ===== *)
theory TicketIndex
  imports Tracker Markdown "HOL-Library.AList"
begin

text \<open>
  The generated ticket tables (\<open>internal/index/index.go\<close>) and the parser of the tracker table
  (\<open>ParseTrackerTable\<close> in \<open>internal/issues/issues.go\<close>).

  A table is rendered from the scanned tickets into a managed block; \<open>RenderIssuesReadme\<close> replaces
  the block or migrates a table that has no markers yet; the merge driver merges the rows of three
  versions by key. Go maps of rows are association lists updated in place. The lemmas give the
  three-way merge its specification, show that rendering settles after one run, and that a rendered
  row parses back to its ticket. The lock file beside the README and the bound on waiting for it are
  left out, as is the studies table of the docs, which the same block operations serve.
\<close>

section \<open>Rows\<close>

definition StripTicketNumber :: "string \<Rightarrow> string" where
  "StripTicketNumber title =
     (case scan_number title of
        None \<Rightarrow> title
      | Some (_, rest) \<Rightarrow>
          let r = skip_re rest
          in if has_prefix r em_dash \<or> has_prefix r en_dash then skip_re (drop 3 r)
             else if has_prefix r '':'' \<or> has_prefix r ''-'' then skip_re (tl r)
             else title)"

definition PlainTitle :: "string \<Rightarrow> string" where
  "PlainTitle raw =
     join '' '' (string_fields (filter (\<lambda>c. c \<noteq> CHR 0x60 \<and> c \<notin> set ''*_#'') (StripTicketNumber raw)))"

abbreviation bar :: char where "bar \<equiv> CHR 0x7C"
abbreviation bsl :: char where "bsl \<equiv> CHR 0x5C"

definition escape_bars :: "string \<Rightarrow> string" where
  "escape_bars s = concat (map (\<lambda>c. if c = bar then [bsl, bar] else [c]) s)"

fun unescapeTableCell :: "string \<Rightarrow> string" where
  "unescapeTableCell (c # d # s) =
     (if c = bsl \<and> d = bar then bar # unescapeTableCell s else c # unescapeTableCell (d # s))"
| "unescapeTableCell s = s"

definition issuesTableHeader :: string where
  "issuesTableHeader = ''| # | File | Title | Status |''"

definition table_separator :: string where
  "table_separator = ''|---|------|-------|--------|''"

definition issue_row :: "issue_file \<Rightarrow> string" where
  "issue_row f =
     ''| '' @ inumber f @ '' | ['' @ rel_path f @ ''](''  @ rel_path f @ '') | ''
     @ escape_bars (StripTicketNumber (ititle f)) @ '' | ''
     @ (if raw_status f = [] then ''Unknown'' else escape_bars (raw_status f)) @ '' |''"

definition renderIssueTable :: "issue_file list \<Rightarrow> (issue_file \<Rightarrow> bool) \<Rightarrow> string" where
  "renderIssueTable files include =
     issuesTableHeader @ lf @ table_separator @ lf
     @ concat (map (\<lambda>f. issue_row f @ lf) (filter include files))"

definition active_issue :: "issue_file \<Rightarrow> bool" where
  "active_issue f \<longleftrightarrow> canonical f = CatOpen \<or> canonical f = CatDraft"

definition IssuesTable :: "fsys \<Rightarrow> string \<Rightarrow> string list option \<Rightarrow> scan_err + string" where
  "IssuesTable fs dir walk = map_inr (\<lambda>files. renderIssueTable files active_issue) (Scan fs dir walk)"

definition count_category :: "category \<Rightarrow> issue_file list \<Rightarrow> nat" where
  "count_category c files = length (filter (\<lambda>f. canonical f = c) files)"

definition StatusCounts ::
  "fsys \<Rightarrow> string \<Rightarrow> string list option \<Rightarrow> scan_err + nat \<times> nat \<times> nat \<times> nat \<times> nat" where
  "StatusCounts fs dir walk =
     map_inr (\<lambda>files. (count_category CatOpen files, count_category CatClosed files,
       count_category CatDraft files, count_category CatBacklog files,
       count_category CatUnknown files)) (Scan fs dir walk)"

section \<open>Managed documents\<close>

definition issuesActiveNotice :: string where
  "issuesActiveNotice = ''<!-- managed by harnez index: active ticket table generated from issue files; edit ticket files instead -->''"

definition issuesFullNotice :: string where
  "issuesFullNotice = ''<!-- managed by harnez index: generated from issue files; edit ticket files instead -->''"

abbreviation index_begin :: "string \<Rightarrow> string" where "index_begin \<equiv> mbegin MDMarkers"
abbreviation index_end :: "string \<Rightarrow> string" where "index_end \<equiv> mend MDMarkers"

definition managedDocument :: "string \<Rightarrow> string \<Rightarrow> string \<Rightarrow> string" where
  "managedDocument content sid notice =
     notice @ lf @ index_begin sid @ lf @ trim_right content lf @ lf @ index_end sid @ lf"

definition IssueIndexFiles ::
  "fsys \<Rightarrow> string \<Rightarrow> string list option \<Rightarrow> scan_err + (string \<times> string) list" where
  "IssueIndexFiles fs dir walk =
     map_inr (\<lambda>files.
       [(''README.md'', managedDocument (''# Issues'' @ lf @ lf
            @ ''Active tickets. See [Backlog](BACKLOG.md) and [Closed](CLOSED.md).'' @ lf @ lf
            @ renderIssueTable files active_issue) ''issues-active-index'' issuesActiveNotice),
        (''BACKLOG.md'', managedDocument (''# Backlog'' @ lf @ lf
            @ renderIssueTable files (\<lambda>f. canonical f = CatBacklog)) ''issues-backlog-index'' issuesFullNotice),
        (''CLOSED.md'', managedDocument (''# Closed'' @ lf @ lf
            @ renderIssueTable files (\<lambda>f. canonical f = CatClosed)) ''issues-closed-index'' issuesFullNotice)])
       (Scan fs dir walk)"

definition notice_prefix :: string where
  "notice_prefix = ''<!-- managed by harnez index:''"

definition ensureManagedNotice :: "string \<Rightarrow> string \<Rightarrow> string" where
  "ensureManagedNotice content notice =
     (if has_prefix content notice_prefix
      then (case index_of content lf of
              Some e \<Rightarrow> notice @ drop e content
            | None \<Rightarrow> notice @ lf)
      else notice @ lf @ content)"

datatype block_err = MalformedBlock | PartialMarkerLine | NoLegacySection

text \<open>The replacement of the marked block, from the offsets of its two markers.\<close>

definition replace_marked :: "string \<Rightarrow> string \<Rightarrow> string \<Rightarrow> nat \<Rightarrow> nat \<Rightarrow> block_err + string" where
  "replace_marked content sid generated beginAt endAt =
     (let b = index_begin sid; e = index_end sid; after = endAt + length e;
          lineStart = line_start content beginAt; lineEnd = index_of (drop after content) lf
      in if lineStart \<noteq> beginAt \<or> (lineEnd = None \<and> after \<noteq> length content)
         then Inl PartialMarkerLine
         else let suffix = (case lineEnd of
                  None \<Rightarrow> if contains content (CHR 0x0D # lf) then CHR 0x0D # lf else lf
                | Some k \<Rightarrow> if 0 < k \<and> content ! (after + k - 1) = CHR 0x0D then CHR 0x0D # lf else lf);
                  blockEnd = (case lineEnd of None \<Rightarrow> length content | Some k \<Rightarrow> after + k + 1);
                  block = b @ lf @ trim_right generated lf @ lf @ e @ suffix
              in Inr (take lineStart content @ block @ drop blockEnd content))"

definition replaceManagedBlock ::
  "string \<Rightarrow> string \<Rightarrow> string \<Rightarrow> (nat \<times> nat) option \<Rightarrow> block_err + string" where
  "replaceManagedBlock content sid generated legacy =
     (let b = index_begin sid; e = index_end sid
      in case (index_of content b, index_of content e) of
           (Some bi, Some ei) \<Rightarrow>
             if ei < bi \<or> contains (drop (bi + length b) content) b then Inl MalformedBlock
             else replace_marked content sid generated bi ei
         | (None, None) \<Rightarrow>
             (case legacy of
                None \<Rightarrow> Inl NoLegacySection
              | Some (ls, le) \<Rightarrow>
                  if le < ls \<or> length content < le then Inl NoLegacySection
                  else Inr (take ls content @ b @ lf @ trim_right generated lf @ lf @ e @ lf
                         @ drop le content))
         | _ \<Rightarrow> Inl MalformedBlock)"

section \<open>Merging rows\<close>

text \<open>The key and the text of a generated row.\<close>

definition row_of_line :: "string \<Rightarrow> (string \<times> string) option" where
  "row_of_line line0 =
     (let line = trim_space line0
      in if \<not> has_prefix line ''|'' then None
         else case index_of (tl line) ''|'' of
                None \<Rightarrow> None
              | Some cellEnd \<Rightarrow>
                  let cell = trim_space (take cellEnd (tl line))
                  in if has_prefix cell ''[''
                     then (case index_of cell ''](''  of
                             None \<Rightarrow> None
                           | Some k \<Rightarrow> Some (trim_suffix (drop (k + 2) cell) '')'', line))
                     else if atoi cell = None then None else Some (cell, line))"

definition table_rows :: "string list \<Rightarrow> (string \<times> string) list" where
  "table_rows ls = foldl (\<lambda>rows l. case row_of_line l of None \<Rightarrow> rows
     | Some (k, v) \<Rightarrow> AList.update k v rows) [] ls"

definition generatedTableRows :: "string \<Rightarrow> string \<Rightarrow> (string \<times> string) list" where
  "generatedTableRows document sid =
     (case section_bounds document (index_begin sid) (index_end sid) of
        None \<Rightarrow> []
      | Some (s, e) \<Rightarrow> table_rows (split_on nl (take (e - s) (drop s document))))"

datatype merge_err = ConflictingRows string | ConflictingEdits string | BadIndexName | MergeBlock block_err

definition sameGeneratedRow :: "string option \<Rightarrow> string option \<Rightarrow> bool" where
  "sameGeneratedRow a b \<longleftrightarrow> a = b"

text \<open>The merged row of one key; \<^const>\<open>None\<close> is a row that is left out.\<close>

definition merge_row ::
  "bool \<Rightarrow> string \<Rightarrow> string option \<Rightarrow> string option \<Rightarrow> string option \<Rightarrow> merge_err + string option" where
  "merge_row keepOurs key base ours theirs =
     (if sameGeneratedRow ours theirs then Inr ours
      else if sameGeneratedRow ours base then Inr theirs
      else if sameGeneratedRow theirs base then Inr ours
      else if keepOurs then Inr ours
      else if base = None then Inl (ConflictingRows key)
      else Inl (ConflictingEdits key))"

fun merge_keys ::
  "bool \<Rightarrow> (string \<times> string) list \<Rightarrow> (string \<times> string) list \<Rightarrow> (string \<times> string) list \<Rightarrow> string list \<Rightarrow>
    merge_err + string list" where
  "merge_keys keepOurs base ours theirs [] = Inr []"
| "merge_keys keepOurs base ours theirs (k # ks) =
     bind_res (merge_row keepOurs k (map_of base k) (map_of ours k) (map_of theirs k)) (\<lambda>row.
     bind_res (merge_keys keepOurs base ours theirs ks) (\<lambda>rows.
       Inr (case row of None \<Rightarrow> rows | Some r \<Rightarrow> if r = [] then rows else r # rows)))"

definition mergeGeneratedTableRows ::
  "string \<Rightarrow> string \<Rightarrow> string \<Rightarrow> string \<Rightarrow> string \<Rightarrow> string \<Rightarrow> bool \<Rightarrow> merge_err + string" where
  "mergeGeneratedTableRows ancestor ours theirs sid header separator keepOurs =
     (let b = generatedTableRows ancestor sid; o' = generatedTableRows ours sid;
          t = generatedTableRows theirs sid;
          keys = sort (remdups (map fst b @ map fst o' @ map fst t))
      in map_inr (\<lambda>rows. concat (map (\<lambda>l. l @ lf) (header # separator # rows)))
           (merge_keys keepOurs b o' t keys))"

definition mergeIssuesReadme :: "string \<Rightarrow> string \<Rightarrow> string \<Rightarrow> bool \<Rightarrow> merge_err + string" where
  "mergeIssuesReadme ancestor ours theirs keepOurs =
     bind_res (mergeGeneratedTableRows ancestor ours theirs ''issues-active-index'' issuesTableHeader
         table_separator keepOurs) (\<lambda>table.
       case replaceManagedBlock ours ''issues-active-index'' table None of
         Inl err \<Rightarrow> Inl (MergeBlock err) | Inr c \<Rightarrow> Inr c)"

definition mergeFullIssueIndex ::
  "string \<Rightarrow> string \<Rightarrow> string \<Rightarrow> string \<Rightarrow> bool \<Rightarrow> merge_err + string" where
  "mergeFullIssueIndex ancestor ours theirs name keepOurs =
     (case (if name = ''CLOSED.md'' then Some (''issues-closed-index'', ''# Closed'')
            else if name = ''BACKLOG.md'' then Some (''issues-backlog-index'', ''# Backlog'') else None) of
        None \<Rightarrow> Inl BadIndexName
      | Some (sid, title) \<Rightarrow>
          map_inr (\<lambda>table. managedDocument (title @ lf @ lf @ table) sid issuesFullNotice)
            (mergeGeneratedTableRows ancestor ours theirs sid issuesTableHeader table_separator keepOurs))"

text \<open>Conflicts in the hand-written part.\<close>

definition outside_block :: "string \<Rightarrow> string \<Rightarrow> string" where
  "outside_block content sid =
     (case section_bounds content (index_begin sid) (index_end sid) of
        None \<Rightarrow> content | Some (s, e) \<Rightarrow> take s content @ drop e content)"

definition HasConcurrentEditsOutsideManagedBlock :: "string \<Rightarrow> string \<Rightarrow> string \<Rightarrow> string \<Rightarrow> bool" where
  "HasConcurrentEditsOutsideManagedBlock ancestor ours theirs sid =
     (let b = outside_block ancestor sid; o' = outside_block ours sid; t = outside_block theirs sid
      in o' \<noteq> b \<and> t \<noteq> b \<and> o' \<noteq> t)"

definition hasConflictMarkers :: "string \<Rightarrow> bool" where
  "hasConflictMarkers content =
     list_ex (\<lambda>l0. let l = trim_space (trim_suffix l0 [CHR 0x0D])
        in has_prefix l ''<<<<<<< '' \<or> has_prefix l ''>>>>>>> '' \<or> has_prefix l ''||||||| '' \<or> l = ''======='')
       (split_on nl content)"

definition HasConflictOutsideManagedBlock :: "string \<Rightarrow> string \<Rightarrow> bool" where
  "HasConflictOutsideManagedBlock content sid =
     (case (index_of content (index_begin sid), index_of content (index_end sid)) of
        (Some bi, Some ei) \<Rightarrow>
          if ei < bi \<or> line_start content bi \<noteq> bi then hasConflictMarkers content
          else let after = ei + length (index_end sid);
                   stop = (case index_of (drop after content) lf of None \<Rightarrow> after | Some k \<Rightarrow> after + k + 1)
               in hasConflictMarkers (take bi content) \<or> hasConflictMarkers (drop stop content)
      | _ \<Rightarrow> hasConflictMarkers content)"

section \<open>The README\<close>

datatype index_err = IndexScan scan_err | NoTableHeader | CustomHeader string | IndexBlock block_err
  | IndexRead fserr | IndexWrite fserr | IndexLock

text \<open>\<open>(?m)^\|\s*#\s*\|\<close>: the start of the first line that begins so; the white space may run on to
  further lines.\<close>

definition header_at :: "string \<Rightarrow> bool" where
  "header_at s \<longleftrightarrow> has_prefix s ''|'' \<and> has_prefix (skip_re (tl s)) ''#''
     \<and> has_prefix (skip_re (tl (skip_re (tl s)))) ''|''"

fun find_header :: "bool \<Rightarrow> nat \<Rightarrow> string \<Rightarrow> nat option" where
  "find_header bol n [] = None"
| "find_header bol n (c # cs) =
     (if bol \<and> header_at (c # cs) then Some n else find_header (c = nl) (Suc n) cs)"

text \<open>The end of the run of table lines; a line keeps its newline.\<close>

fun table_end :: "string list \<Rightarrow> nat" where
  "table_end [] = 0"
| "table_end [l] = (if l \<noteq> [] \<and> has_prefix (trim_space l) ''|'' then length l else 0)"
| "table_end (l # ls) = (if has_prefix (trim_space l) ''|'' then Suc (length l) + table_end ls else 0)"

definition missing_links :: "string \<Rightarrow> string list" where
  "missing_links prefix0 =
     (if contains prefix0 ''[Backlog](BACKLOG.md)'' then [] else [''[Backlog](BACKLOG.md)''])
     @ (if contains prefix0 ''[Closed](CLOSED.md)'' then [] else [''[Closed](CLOSED.md)''])"

definition middle_dot :: string where "middle_dot = [CHR 0xC2, CHR 0xB7]"

definition migrate_table :: "string \<Rightarrow> string \<Rightarrow> index_err + string" where
  "migrate_table content table =
     (case find_header True 0 content of
        None \<Rightarrow> Inl NoTableHeader
      | Some loc \<Rightarrow>
          let header = trim_space (hd (split_on nl (drop loc content)))
          in if header \<noteq> issuesTableHeader then Inl (CustomHeader header)
             else let len = table_end (split_on nl (drop loc content)); pre = take loc content;
                      links = missing_links pre;
                      pre' = (if links = [] then pre
                        else pre @ join ('' '' @ middle_dot @ '' '') links @ lf @ lf)
                  in (case replaceManagedBlock (pre' @ drop loc content) ''issues-active-index'' table
                          (Some (length pre', length pre' + len)) of
                        Inl err \<Rightarrow> Inl (IndexBlock err) | Inr c \<Rightarrow> Inr c))"

definition render_readme :: "string \<Rightarrow> string \<Rightarrow> index_err + string" where
  "render_readme content0 table =
     (let content = ensureManagedNotice content0 issuesActiveNotice
      in if contains content (index_begin ''issues-active-index'')
           \<or> contains content (index_end ''issues-active-index'')
         then (case replaceManagedBlock content ''issues-active-index'' table None of
                 Inl err \<Rightarrow> Inl (IndexBlock err) | Inr c \<Rightarrow> Inr c)
         else migrate_table content table)"

definition RenderIssuesReadme :: "string \<Rightarrow> fsys \<Rightarrow> string \<Rightarrow> string list option \<Rightarrow> index_err + string" where
  "RenderIssuesReadme content fs dir walk =
     (case IssuesTable fs dir walk of
        Inl err \<Rightarrow> Inl (IndexScan err) | Inr table \<Rightarrow> render_readme content table)"

text \<open>One of the two fully generated files: unchanged, written, or an error.\<close>

definition update_full :: "string \<Rightarrow> string \<Rightarrow> fsys \<Rightarrow> (index_err + bool) \<times> fsys" where
  "update_full path new fs =
     (case read_file fs path of
        Inl ErrIO \<Rightarrow> (Inl (IndexRead ErrIO), fs)
      | old \<Rightarrow>
          if (case old of Inl _ \<Rightarrow> [] | Inr d \<Rightarrow> d) = new then (Inr False, fs)
          else (case write_file fs path new of
                  (Some err, fs') \<Rightarrow> (Inl (IndexWrite err), fs')
                | (None, fs') \<Rightarrow> (Inr True, fs')))"

definition default_readme :: string where
  "default_readme = ''# Issues'' @ lf @ lf @ issuesTableHeader @ lf @ table_separator @ lf"

definition UpdateIssuesReadme ::
  "bool \<Rightarrow> string \<Rightarrow> string list option \<Rightarrow> fsys \<Rightarrow> (index_err + bool) \<times> fsys" where
  "UpdateIssuesReadme locked dir walk fs =
     (let readme = issue_path dir ''README.md''
      in if \<not> locked then (Inl IndexLock, fs)
         else case read_file fs readme of
           Inl ErrIO \<Rightarrow> (Inl (IndexRead ErrIO), fs)
         | r \<Rightarrow>
             let orig = (case r of Inl _ \<Rightarrow> default_readme | Inr d \<Rightarrow> d)
             in case RenderIssuesReadme orig fs dir walk of
               Inl err \<Rightarrow> (Inl err, fs)
             | Inr new \<Rightarrow>
                 (case IssueIndexFiles fs dir walk of
                    Inl err \<Rightarrow> (Inl (IndexScan err), fs)
                  | Inr indexes \<Rightarrow>
                      (case (if new \<noteq> orig then write_file fs readme new else (None, fs)) of
                         (Some err, fs1) \<Rightarrow> (Inl (IndexWrite err), fs1)
                       | (None, fs1) \<Rightarrow>
                           (case update_full (issue_path dir ''BACKLOG.md'') (the (map_of indexes ''BACKLOG.md'')) fs1 of
                              (Inl err, fs2) \<Rightarrow> (Inl err, fs2)
                            | (Inr c1, fs2) \<Rightarrow>
                                (case update_full (issue_path dir ''CLOSED.md'') (the (map_of indexes ''CLOSED.md'')) fs2 of
                                   (Inl err, fs3) \<Rightarrow> (Inl err, fs3)
                                 | (Inr c2, fs3) \<Rightarrow> (Inr (new \<noteq> orig \<or> c1 \<or> c2), fs3))))))"

section \<open>Snapshots of the index files\<close>

definition index_names :: "string list" where
  "index_names = [''README.md'', ''BACKLOG.md'', ''CLOSED.md'']"

definition issueIndexRelPaths :: "string list" where
  "issueIndexRelPaths = map (\<lambda>n. ''issues/'' @ n) index_names"

fun snapshot_names :: "fsys \<Rightarrow> string \<Rightarrow> string list \<Rightarrow> (string \<times> string option) list option" where
  "snapshot_names fs dir [] = Some []"
| "snapshot_names fs dir (n # ns) =
     (case read_file fs (issue_path dir n) of
        Inl ErrIO \<Rightarrow> None
      | r \<Rightarrow> map_option ((#) (n, case r of Inl _ \<Rightarrow> None | Inr d \<Rightarrow> Some d)) (snapshot_names fs dir ns))"

definition snapshotIssueIndexes :: "fsys \<Rightarrow> string \<Rightarrow> (string \<times> string option) list option" where
  "snapshotIssueIndexes fs dir = snapshot_names fs dir index_names"

fun restoreIssueIndexes :: "string \<Rightarrow> (string \<times> string option) list \<Rightarrow> fsys \<Rightarrow> fserr option \<times> fsys" where
  "restoreIssueIndexes dir [] fs = (None, fs)"
| "restoreIssueIndexes dir ((n, Some d) # ns) fs =
     (case write_file fs (issue_path dir n) d of
        (Some err, fs') \<Rightarrow> (Some err, fs') | (None, fs') \<Rightarrow> restoreIssueIndexes dir ns fs')"
| "restoreIssueIndexes dir ((n, None) # ns) fs =
     (case remove_file fs (issue_path dir n) of
        (Some ErrIO, fs') \<Rightarrow> (Some ErrIO, fs') | (_, fs') \<Rightarrow> restoreIssueIndexes dir ns fs')"

section \<open>The merge of three tables\<close>

lemma trim_space_idem [simp]: "trim_space (trim_space s) = trim_space s"
proof -
  let ?t = "trim_left s white"
  show ?thesis
  proof (cases "trim_right ?t white = []")
    case True
    then show ?thesis by (simp add: trim_space_def trim_left_def)
  next
    case False
    obtain u where u: "?t = trim_right ?t white @ u" using trim_right_split by blast
    with False have "hd (trim_right ?t white) = hd ?t" and "?t \<noteq> []" by (metis append_is_Nil_conv hd_append2)+
    moreover have "hd ?t \<notin> set white"
      using \<open>?t \<noteq> []\<close> hd_dropWhile [of "\<lambda>c. c \<in> set white" s] by (simp add: trim_left_def)
    ultimately have "trim_left (trim_right ?t white) white = trim_right ?t white"
      by (intro trim_left_keep) simp
    then show ?thesis by (simp add: trim_space_def)
  qed
qed

lemma set_trim_space: "set (trim_space s) \<subseteq> set s"
  unfolding trim_space_def trim_left_def using set_trim_right set_dropWhileD by fastforce

lemma row_of_line_self:
  assumes "row_of_line l = Some (k, v)"
  shows "row_of_line v = Some (k, v)" and "v = trim_space l" and "v \<noteq> []"
proof -
  show v: "v = trim_space l" and "v \<noteq> []"
    using assms by (auto simp: row_of_line_def Let_def split: if_splits option.splits)
  then show "row_of_line v = Some (k, v)" using assms unfolding row_of_line_def v by simp
qed

definition add_row :: "(string \<times> string) list \<Rightarrow> string \<Rightarrow> (string \<times> string) list" where
  "add_row rows l = (case row_of_line l of None \<Rightarrow> rows | Some (k, v) \<Rightarrow> AList.update k v rows)"

lemma update_fresh: "k \<notin> fst ` set al \<Longrightarrow> AList.update k v al = al @ [(k, v)]"
  by (induction al) auto

lemma map_of_absent: "k \<notin> fst ` set al \<Longrightarrow> map_of al k = None"
  by (induction al) auto

lemma table_rows_fold: "table_rows ls = foldl add_row [] ls"
  unfolding table_rows_def add_row_def ..

lemma add_row_distinct: "distinct (map fst rows) \<Longrightarrow> distinct (map fst (add_row rows l))"
  by (auto simp: add_row_def distinct_update split: option.split prod.split)

lemma table_rows_distinct: "distinct (map fst (table_rows ls))"
proof -
  have "distinct (map fst rows) \<Longrightarrow> distinct (map fst (foldl add_row rows ls))" for rows
    by (induction ls arbitrary: rows) (simp_all add: add_row_distinct)
  then show ?thesis by (simp add: table_rows_fold)
qed

text \<open>Every row of a table is a line of its own.\<close>

definition own_rows :: "(string \<times> string) list \<Rightarrow> bool" where
  "own_rows rows \<longleftrightarrow> (\<forall>k v. map_of rows k = Some v \<longrightarrow> row_of_line v = Some (k, v) \<and> v \<noteq> [] \<and> nl \<notin> set v)"

lemma table_rows_own:
  assumes "list_all (\<lambda>l. nl \<notin> set l) ls"
  shows "own_rows (table_rows ls)"
proof -
  have "own_rows rows \<Longrightarrow> own_rows (foldl add_row rows ls)" for rows
    using assms
  proof (induction ls arbitrary: rows)
    case (Cons l ls)
    have "own_rows (add_row rows l)"
    proof (cases "row_of_line l")
      case None
      with Cons.prems show ?thesis by (simp add: add_row_def)
    next
      case (Some r)
      then obtain k v where kv: "row_of_line l = Some (k, v)" by (cases r) auto
      then have "nl \<notin> set v"
        using row_of_line_self(2) [OF kv] set_trim_space [of l] Cons.prems(2) by auto
      with kv Cons.prems(1) row_of_line_self [OF kv] show ?thesis
        by (auto simp: add_row_def own_rows_def update_conv split: if_splits)
    qed
    with Cons show ?case by simp
  qed simp
  moreover have "own_rows []" by (simp add: own_rows_def)
  ultimately show ?thesis unfolding table_rows_fold by blast
qed

lemma generated_rows_own: "own_rows (generatedTableRows doc sid)"
proof (cases "section_bounds doc (index_begin sid) (index_end sid)")
  case None
  then show ?thesis by (simp add: generatedTableRows_def own_rows_def)
next
  case (Some r)
  then show ?thesis
    by (auto simp: generatedTableRows_def list_all_iff split_on_no_sep intro!: table_rows_own split: prod.split)
qed

text \<open>The specification: a three-way merge of partial maps.\<close>

definition three_way :: "'a option \<Rightarrow> 'a option \<Rightarrow> 'a option \<Rightarrow> 'a option" where
  "three_way base ours theirs = (if ours = theirs then ours else if ours = base then theirs else ours)"

definition agrees :: "'a option \<Rightarrow> 'a option \<Rightarrow> 'a option \<Rightarrow> bool" where
  "agrees base ours theirs \<longleftrightarrow> ours = theirs \<or> ours = base \<or> theirs = base"

lemma merge_row_spec:
  "merge_row keep k b o' t =
    (if keep \<or> agrees b o' t then Inr (three_way b o' t)
     else Inl (if b = None then ConflictingRows k else ConflictingEdits k))"
  by (auto simp: merge_row_def sameGeneratedRow_def three_way_def agrees_def)

lemma three_way_some: "three_way b o' t = Some v \<Longrightarrow> o' = Some v \<or> t = Some v"
  by (auto simp: three_way_def split: if_splits)

definition merged_map ::
  "(string \<times> string) list \<Rightarrow> (string \<times> string) list \<Rightarrow> (string \<times> string) list \<Rightarrow> string \<Rightarrow> string option" where
  "merged_map b o' t k = three_way (map_of b k) (map_of o' k) (map_of t k)"

lemma merge_keys_Inl:
  "(\<exists>e. merge_keys keep b o' t ks = Inl e) \<longleftrightarrow>
    \<not> keep \<and> (\<exists>k\<in>set ks. \<not> agrees (map_of b k) (map_of o' k) (map_of t k))"
proof (induction ks)
  case (Cons k ks)
  show ?case
  proof (cases "keep \<or> agrees (map_of b k) (map_of o' k) (map_of t k)")
    case True
    then have "(\<exists>e. merge_keys keep b o' t (k # ks) = Inl e) \<longleftrightarrow> (\<exists>e. merge_keys keep b o' t ks = Inl e)"
      by (cases "merge_keys keep b o' t ks") (simp_all add: merge_row_spec)
    with Cons True show ?thesis by auto
  next
    case False
    then show ?thesis by (auto simp: merge_row_spec)
  qed
qed simp

lemma merge_keys_rows:
  assumes "merge_keys keep b o' t ks = Inr rows" and "own_rows o'" and "own_rows t" and "distinct ks"
  shows "table_rows rows = List.map_filter (\<lambda>k. map_option (Pair k) (merged_map b o' t k)) ks
    \<and> list_all (\<lambda>v. nl \<notin> set v \<and> row_of_line v \<noteq> None) rows"
proof -
  have own: "row_of_line v = Some (k, v) \<and> v \<noteq> [] \<and> nl \<notin> set v" if "merged_map b o' t k = Some v" for k v
    using three_way_some [OF that [unfolded merged_map_def]] assms(2,3) by (auto simp: own_rows_def)
  let ?f = "\<lambda>k. map_option (Pair k) (merged_map b o' t k)"
  have "foldl add_row acc rows = acc @ List.map_filter ?f ks \<and> list_all (\<lambda>v. nl \<notin> set v \<and> row_of_line v \<noteq> None) rows"
    if "merge_keys keep b o' t ks = Inr rows" "distinct ks" "set ks \<inter> fst ` set acc = {}" for acc ks rows
    using that
  proof (induction ks arbitrary: acc rows)
    case (Cons k ks)
    then obtain row rs where row: "merge_row keep k (map_of b k) (map_of o' k) (map_of t k) = Inr row"
      and rs: "merge_keys keep b o' t ks = Inr rs"
      and rows: "rows = (case row of None \<Rightarrow> rs | Some r \<Rightarrow> if r = [] then rs else r # rs)" by auto
    have mm: "merged_map b o' t k = row"
      using row by (simp add: merge_row_spec merged_map_def split: if_splits)
    show ?case
    proof (cases row)
      case None
      with Cons.IH [OF rs, of acc] Cons.prems mm rows show ?thesis by (simp add: map_filter_simps)
    next
      case (Some v)
      with mm own [of k v] have v: "row_of_line v = Some (k, v)" "v \<noteq> []" "nl \<notin> set v" by simp_all
      have upd: "AList.update k v acc = acc @ [(k, v)]"
        using Cons.prems(3) by (intro update_fresh) auto
      from Cons.IH [OF rs, of "acc @ [(k, v)]"] Cons.prems
      have "foldl add_row (acc @ [(k, v)]) rs = (acc @ [(k, v)]) @ List.map_filter ?f ks
          \<and> list_all (\<lambda>v. nl \<notin> set v \<and> row_of_line v \<noteq> None) rs" by auto
      moreover have "add_row acc v = acc @ [(k, v)]" using v(1) upd by (simp add: add_row_def)
      ultimately show ?thesis using Some mm rows v by simp
    qed
  qed (simp add: map_filter_simps)
  from this [OF assms(1,4), of "[]"] show ?thesis by (simp add: table_rows_fold)
qed

lemma split_on_lines:
  "list_all (\<lambda>l. nl \<notin> set l) ls \<Longrightarrow> split_on nl (concat (map (\<lambda>l. l @ lf) ls)) = ls @ [[]]"
proof (induction ls)
  case (Cons l ls)
  have "nl \<notin> set l \<Longrightarrow> split_on nl (l @ nl # r) = l # split_on nl r" for r
    by (induction l) (auto split: list.splits)
  with Cons show ?case by (simp add: lf_def)
qed simp

lemma header_no_row:
  "row_of_line issuesTableHeader = None" "row_of_line table_separator = None" "row_of_line [] = None"
  "nl \<notin> set issuesTableHeader" "nl \<notin> set table_separator"
  by code_simp+

lemma sort_remdups_eq: "set xs = set ys \<Longrightarrow> sort (remdups xs) = sort (remdups (ys :: string list))"
  by (rule sorted_distinct_set_unique) simp_all

lemma merged_lines:
  assumes "mergeGeneratedTableRows a o' t sid issuesTableHeader table_separator keep = Inr table"
  shows "\<exists>rows. split_on nl table = issuesTableHeader # table_separator # rows @ [[]]
    \<and> list_all (\<lambda>v. row_of_line v \<noteq> None) rows
    \<and> (\<forall>k. map_of (table_rows rows) k = three_way (map_of (generatedTableRows a sid) k)
         (map_of (generatedTableRows o' sid) k) (map_of (generatedTableRows t sid) k))"
proof -
  let ?b = "generatedTableRows a sid" and ?o = "generatedTableRows o' sid" and ?t = "generatedTableRows t sid"
  define ks where "ks = sort (remdups (map fst ?b @ map fst ?o @ map fst ?t))"
  have ks: "distinct ks" "set ks = fst ` set ?b \<union> fst ` set ?o \<union> fst ` set ?t" by (auto simp: ks_def)
  from assms obtain rows where r: "merge_keys keep ?b ?o ?t ks = Inr rows"
    and table: "table = concat (map (\<lambda>l. l @ lf) (issuesTableHeader # table_separator # rows))"
    by (auto simp: mergeGeneratedTableRows_def Let_def map_inr_def ks_def split: sum.splits)
  from merge_keys_rows [OF r generated_rows_own generated_rows_own ks(1)]
  have rows: "table_rows rows = List.map_filter (\<lambda>k. map_option (Pair k) (merged_map ?b ?o ?t k)) ks"
    and lines: "list_all (\<lambda>v. nl \<notin> set v \<and> row_of_line v \<noteq> None) rows" by auto
  have "split_on nl table = (issuesTableHeader # table_separator # rows) @ [[]]"
    unfolding table by (rule split_on_lines) (use lines header_no_row in \<open>auto simp: list_all_iff\<close>)
  moreover have "map_of (List.map_filter (\<lambda>k. map_option (Pair k) (f k)) ks) k
      = (if k \<in> set ks then f k else None)" for f :: "string \<Rightarrow> string option" and k
    by (induction ks) (auto split: option.split)
  moreover have "merged_map ?b ?o ?t k = None" if "k \<notin> set ks" for k
    using that ks(2) by (simp add: merged_map_def three_way_def map_of_absent)
  ultimately show ?thesis using lines rows unfolding merged_map_def
    by (intro exI [of _ rows]) (auto simp: list_all_iff)
qed

lemma table_rows_frame:
  "table_rows (issuesTableHeader # table_separator # rows @ [[]]) = table_rows rows"
  by (simp add: table_rows_fold add_row_def header_no_row)

lemma merge_refines_three_way_aux:
  "case mergeGeneratedTableRows a o' t sid issuesTableHeader table_separator keep of
     Inr table \<Rightarrow>
       (\<forall>k. map_of (table_rows (split_on nl table)) k = three_way (map_of (generatedTableRows a sid) k)
          (map_of (generatedTableRows o' sid) k) (map_of (generatedTableRows t sid) k))
       \<and> (if keep then True else \<forall>k. agrees (map_of (generatedTableRows a sid) k)
          (map_of (generatedTableRows o' sid) k) (map_of (generatedTableRows t sid) k))
   | Inl err \<Rightarrow>
       \<not> keep \<and> (\<exists>k. \<not> agrees (map_of (generatedTableRows a sid) k)
          (map_of (generatedTableRows o' sid) k) (map_of (generatedTableRows t sid) k))"
proof -
  let ?b = "generatedTableRows a sid" and ?o = "generatedTableRows o' sid" and ?t = "generatedTableRows t sid"
  let ?m = "mergeGeneratedTableRows a o' t sid issuesTableHeader table_separator keep"
  define ks where "ks = sort (remdups (map fst ?b @ map fst ?o @ map fst ?t))"
  have "set ks = fst ` set ?b \<union> fst ` set ?o \<union> fst ` set ?t" by (auto simp: ks_def)
  then have out: "agrees (map_of ?b k) (map_of ?o k) (map_of ?t k)" if "k \<notin> set ks" for k
    using that by (simp add: agrees_def map_of_absent)
  have "(\<exists>e. ?m = Inl e) \<longleftrightarrow> (\<exists>e. merge_keys keep ?b ?o ?t ks = Inl e)"
    by (auto simp: mergeGeneratedTableRows_def Let_def map_inr_def ks_def split: sum.splits)
  then have inl: "(\<exists>e. ?m = Inl e) \<longleftrightarrow>
      \<not> keep \<and> (\<exists>k. \<not> agrees (map_of ?b k) (map_of ?o k) (map_of ?t k))"
    using merge_keys_Inl [of keep ?b ?o ?t ks] out by blast
  show ?thesis
  proof (cases ?m)
    case (Inl e)
    with inl show ?thesis by simp
  next
    case (Inr table)
    with inl merged_lines [OF Inr] show ?thesis by (auto simp: table_rows_frame)
  qed
qed


lemma three_way_swap: "agrees b o' t \<Longrightarrow> three_way b o' t = three_way b t o'"
  by (auto simp: three_way_def agrees_def)

lemma merge_row_swap: "merge_row False k b o' t = merge_row False k b t o'"
  using three_way_swap by (auto simp: merge_row_spec agrees_def)

text \<open>The merge does not depend on which branch is checked out: without \<open>keepOurs\<close>, merging ours into
  theirs gives the same table, or the same conflict, as merging theirs into ours.\<close>

lemma merge_commutes:
  "mergeGeneratedTableRows a o' t sid header separator False
    = mergeGeneratedTableRows a t o' sid header separator False"
proof -
  have "merge_keys False b o' t ks = merge_keys False b t o' ks" for b o' t ks
    by (induction ks) (simp_all add: merge_row_swap [of _ _ "map_of o' _"])
  moreover have "sort (remdups (map fst b @ map fst o' @ map fst t))
      = sort (remdups (map fst b @ map fst t @ map fst (o' :: (string \<times> string) list)))" for b o' t
    by (rule sort_remdups_eq) auto
  ultimately show ?thesis unfolding mergeGeneratedTableRows_def Let_def by metis
qed

section \<open>Rows of GitHub tickets\<close>

lemma remote_id_shape:
  assumes "remote_id num"
  obtains c ds where "num = ''GH'' @ c # ds" and "list_all is_digit (c # ds)"
  using assms by (auto simp: remote_id_def split: list.splits)

lemma remote_not_int: "remote_id num \<Longrightarrow> atoi num = None"
  by (auto simp: remote_id_def atoi_def Let_def all_digits_def is_digit_def split: list.splits)

lemma index_of_first: "nl \<notin> set [d] \<Longrightarrow> d \<notin> set a \<Longrightarrow> index_of (a @ d # t) [d] = Some (length a)"
  by (induction a) auto

lemma remote_row_dropped:
  assumes "remote_id (inumber f)"
  shows "row_of_line (issue_row f) = None" and "issue_row f \<noteq> issuesTableHeader"
    and "issue_row f \<noteq> table_separator" and "issue_row f \<noteq> []"
proof -
  from assms obtain c ds where num: "inumber f = ''GH'' @ c # ds" "list_all is_digit (c # ds)"
    by (rule remote_id_shape)
  define rest where "rest = '' ['' @ rel_path f @ ''](''  @ rel_path f @ '') | ''
     @ escape_bars (StripTicketNumber (ititle f)) @ '' | ''
     @ (if raw_status f = [] then ''Unknown'' else escape_bars (raw_status f)) @ '' ''"
  have row: "issue_row f = ''| '' @ inumber f @ '' |'' @ rest @ ''|''"
    by (simp add: issue_row_def rest_def)
  then show "issue_row f \<noteq> issuesTableHeader" "issue_row f \<noteq> table_separator" "issue_row f \<noteq> []"
    by (simp_all add: num issuesTableHeader_def table_separator_def)
  have "trim_left (issue_row f) white = issue_row f" using row by (intro trim_left_keep) (simp add: white_def)
  moreover have "trim_right (issue_row f) white = issue_row f"
    using row by (intro trim_right_keep) (simp_all add: white_def)
  ultimately have trim: "trim_space (issue_row f) = issue_row f" by (simp add: trim_space_def)
  let ?cell = "'' '' @ inumber f @ '' ''"
  have "bar \<notin> set ?cell" using num by (auto simp: list_all_iff is_digit_def)
  then have idx: "index_of (?cell @ ''|'' @ rest @ ''|'') ''|'' = Some (length ?cell)"
    using index_of_first [of bar ?cell] by simp
  have tl: "tl (issue_row f) = ?cell @ ''|'' @ rest @ ''|''" by (simp add: row)
  have "last (inumber f) \<notin> set white"
    using num(2) by (cases ds rule: rev_cases) (auto simp: num(1) is_digit_def white_def)
  moreover have "hd (inumber f) \<notin> set white" "inumber f \<noteq> []" by (simp_all add: num(1) white_def)
  ultimately have "trim_space (inumber f @ '' '') = inumber f"
    using trim_snoc_space by simp
  then have "trim_space ?cell = inumber f"
    by (simp add: trim_space_def trim_left_def white_def)
  then show "row_of_line (issue_row f) = None"
    using remote_not_int [OF assms] num(1) idx tl
    by (simp add: row_of_line_def trim Let_def)
qed

text \<open>The merge loses the tickets that have GitHub ids: the key of a row must be a number or a link,
  so no merged table holds the row of such a ticket, even where all three versions hold it.\<close>

theorem merge_drops_github_rows:
  assumes "mergeGeneratedTableRows a o' t sid issuesTableHeader table_separator keep = Inr table"
    and "remote_id (inumber f)"
  shows "issue_row f \<notin> set (split_on nl table)"
proof -
  from merged_lines [OF assms(1)] obtain rows where
    "split_on nl table = issuesTableHeader # table_separator # rows @ [[]]"
    "list_all (\<lambda>v. row_of_line v \<noteq> None) rows" by blast
  with remote_row_dropped [OF assms(2)] show ?thesis by (auto simp: list_all_iff)
qed

definition github_ticket :: issue_file where
  "github_ticket = \<lparr>inumber = ''GH7'', header_number = ''GH7'', rel_path = ''GH7-x.md'', iref = [],
     ititle = ''GH7 - x'', raw_status = ''Open'', ipriority = [], canonical = CatOpen,
     has_status_tag = True, ibody = []\<rparr>"

lemma merge_drops_github_rows_witness:
  "issue_row github_ticket
     \<in> set (split_on nl (managedDocument (renderIssueTable [github_ticket] (\<lambda>_. True)) ''x'' []))
   \<and> (case mergeGeneratedTableRows (managedDocument (renderIssueTable [github_ticket] (\<lambda>_. True)) ''x'' [])
       (managedDocument (renderIssueTable [github_ticket] (\<lambda>_. True)) ''x'' [])
       (managedDocument (renderIssueTable [github_ticket] (\<lambda>_. True)) ''x'' []) ''x''
       issuesTableHeader table_separator False of
     Inl _ \<Rightarrow> False
   | Inr table \<Rightarrow> issue_row github_ticket \<notin> set (split_on nl table))"
proof -
  let ?d = "managedDocument (renderIssueTable [github_ticket] (\<lambda>_. True)) ''x'' []"
  let ?m = "mergeGeneratedTableRows ?d ?d ?d ''x'' issuesTableHeader table_separator False"
  have g: "remote_id (inumber github_ticket)"
    by (simp add: github_ticket_def remote_id_def is_digit_def)
  have "issue_row github_ticket \<in> set (split_on nl ?d)" by code_simp
  moreover have "case ?m of Inl _ \<Rightarrow> False | Inr table \<Rightarrow> issue_row github_ticket \<notin> set (split_on nl table)"
  proof (cases ?m)
    case (Inl e)
    have "\<And>k. agrees (map_of (generatedTableRows ?d ''x'') k) (map_of (generatedTableRows ?d ''x'') k)
        (map_of (generatedTableRows ?d ''x'') k)" by (simp add: agrees_def)
    with merge_refines_three_way_aux [where a = ?d and o' = ?d and t = ?d and sid = "''x''" and keep = False] Inl show ?thesis by simp
  next
    case (Inr table)
    with merge_drops_github_rows [OF Inr g] show ?thesis by simp
  qed
  ultimately show ?thesis ..
qed

section \<open>Rendering settles\<close>

definition index_block :: "string \<Rightarrow> string \<Rightarrow> string \<Rightarrow> string" where
  "index_block sid table sfx =
     index_begin sid @ lf @ trim_right table lf @ lf @ index_end sid @ sfx"

definition newline_suffix :: "string \<Rightarrow> bool" where
  "newline_suffix s \<longleftrightarrow> s = lf \<or> s = CHR 0x0D # lf"

definition no_markers :: "string \<Rightarrow> string \<Rightarrow> bool" where
  "no_markers sid s \<longleftrightarrow> \<not> contains s (index_begin sid) \<and> \<not> contains s (index_end sid)"

lemma end_shorter: "length (index_end sid) + 2 = length (index_begin sid)"
  by (simp add: MDMarkers_def)

lemma short_no_begin: "length s < length sub \<Longrightarrow> \<not> contains s sub"
  by (auto simp: contains_iff)

lemma block_search:
  assumes "nl \<notin> set sid" and pre: "line_complete pre" "no_markers sid pre"
    and table: "no_markers sid (trim_right table lf)" and post: "\<not> contains post (index_begin sid)"
    and sfx: "newline_suffix sfx"
  shows "index_of (pre @ index_block sid table sfx @ post) (index_begin sid) = Some (length pre)"
    and "index_of (pre @ index_block sid table sfx @ post) (index_end sid)
      = Some (length pre + (length (index_begin sid) + length (trim_right table lf) + 2))"
    and "\<not> contains (lf @ trim_right table lf @ lf @ index_end sid @ sfx @ post) (index_begin sid)"
proof -
  let ?b = "index_begin sid" and ?e = "index_end sid" and ?g = "trim_right table lf"
  note b = md_markers.begin_line [OF assms(1)] md_markers.begin_ne [of sid]
  note e = md_markers.end_line [OF assms(1)] md_markers.end_ne [of sid]
  have blk: "index_block sid table sfx @ post = ?b @ nl # ?g @ nl # ?e @ sfx @ post"
    by (simp add: index_block_def lf_def)
  show "index_of (pre @ index_block sid table sfx @ post) ?b = Some (length pre)"
    using index_of_complete [OF pre(1) b] pre(2) by (simp add: blk no_markers_def)
  have "index_of (?b @ nl # ?g @ nl # ?e @ sfx @ post) ?e = Some (length ?b + 1 + (length ?g + 1))"
    using md_markers.begin_no_end [of sid] table
    by (simp add: index_of_line [OF e] contains_def no_markers_def)
  then show "index_of (pre @ index_block sid table sfx @ post) ?e
      = Some (length pre + (length ?b + length ?g + 2))"
    using index_of_complete [OF pre(1) e] pre(2) by (simp add: blk no_markers_def)
  obtain es where es: "?e @ sfx = es @ lf" "length es < length ?b"
    using sfx end_shorter [of sid] unfolding newline_suffix_def
    by (metis append.assoc append_Cons append_Nil le_imp_less_Suc length_append_singleton less_add_same_cancel1 add_2_eq_Suc' lessI less_Suc_eq zero_less_numeral)
  have "\<not> contains (nl # ?g @ nl # es @ nl # post) ?b"
    using contains_line [OF b, of "[]"] contains_line [OF b, of ?g] contains_line [OF b, of es]
      table post short_no_begin [OF es(2)] b(2)
    by (simp add: no_markers_def)
  moreover have "lf @ ?g @ lf @ ?e @ sfx @ post = nl # ?g @ nl # es @ nl # post"
    using es(1) by (simp add: lf_def)
  ultimately show "\<not> contains (lf @ ?g @ lf @ ?e @ sfx @ post) ?b" by metis
qed

lemma replace_again:
  assumes "nl \<notin> set sid" and "line_complete pre" and "no_markers sid pre"
    and "no_markers sid (trim_right table lf)" and "\<not> contains post (index_begin sid)"
    and sfx: "newline_suffix sfx"
  shows "replaceManagedBlock (pre @ index_block sid table sfx @ post) sid table legacy
    = Inr (pre @ index_block sid table sfx @ post)"
proof -
  let ?b = "index_begin sid" and ?e = "index_end sid" and ?g = "trim_right table lf"
  let ?c = "pre @ index_block sid table sfx @ post"
  let ?ei = "length pre + (length ?b + length ?g + 2)"
  note search = block_search [OF assms]
  have c: "?c = (pre @ ?b) @ (lf @ ?g @ lf @ ?e @ sfx @ post)" by (simp add: index_block_def)
  have d1: "drop (length pre + length ?b) ?c = lf @ ?g @ lf @ ?e @ sfx @ post"
    unfolding c by simp
  have c2: "?c = (pre @ ?b @ lf @ ?g @ lf @ ?e) @ (sfx @ post)" by (simp add: index_block_def)
  have after: "?ei + length ?e = length (pre @ ?b @ lf @ ?g @ lf @ ?e)" by (simp add: lf_def)
  have d2: "drop (?ei + length ?e) ?c = sfx @ post" unfolding after c2 by simp
  have "line_start ?c (length pre) = length pre" by (rule line_start_complete [OF assms(2)])
  moreover have "take (length pre) ?c = pre" by simp
  moreover have "index_of (sfx @ post) lf = Some (length sfx - 1)"
    using sfx by (auto simp: newline_suffix_def lf_def)
  moreover have "drop (?ei + length ?e + (length sfx - 1) + 1) ?c = post"
  proof -
    have "?ei + length ?e + (length sfx - 1) + 1 = length (pre @ ?b @ lf @ ?g @ lf @ ?e @ sfx)"
      using sfx by (auto simp: newline_suffix_def lf_def)
    then show ?thesis unfolding index_block_def by simp
  qed
  moreover have "(if 0 < length sfx - 1 \<and> ?c ! (?ei + length ?e + (length sfx - 1) - 1) = CHR 0x0D
      then CHR 0x0D # lf else lf) = sfx"
  proof (cases "sfx = lf")
    case False
    then have s: "sfx = CHR 0x0D # lf" using sfx by (simp add: newline_suffix_def)
    have "?c ! (?ei + length ?e) = (sfx @ post) ! 0"
      unfolding after c2 by (simp only: nth_append_length_plus [of _ _ 0, simplified])
    with s show ?thesis by (simp add: lf_def)
  qed (simp add: lf_def)
  ultimately have "replace_marked ?c sid table (length pre) ?ei = Inr ?c"
    unfolding replace_marked_def Let_def d2
    by (simp add: index_block_def)
  moreover have "\<not> ?ei < length pre" by simp
  ultimately show ?thesis
    unfolding replaceManagedBlock_def Let_def search(1,2) d1 prod.case option.case
    using search(3) by (simp only: if_False simp_thms)
qed

text \<open>What a replacement writes: a prefix of complete lines, one block, and the rest.\<close>

lemma contains_drop: "contains (drop n s) sub \<Longrightarrow> contains s sub"
  by (metis append_take_drop_id contains_append2)

lemma contains_drop_mono: "m \<le> n \<Longrightarrow> contains (drop n s) sub \<Longrightarrow> contains (drop m s) sub"
  using contains_drop [of "n - m" "drop m s" sub] by simp

lemma no_early:
  assumes "index_of s sub = Some i" and "n \<le> i" and "sub \<noteq> []"
  shows "\<not> contains (take n s) sub"
proof
  assume "contains (take n s) sub"
  then obtain p q where eq: "take n s = p @ sub @ q" by (auto simp: contains_iff)
  then have "s = p @ sub @ (q @ drop n s)" by (metis append.assoc append_take_drop_id)
  with assms(1) have "i \<le> length p" by (rule index_of_least)
  moreover from eq have "length p + length sub \<le> n"
    by (metis add_leD1 append.assoc length_append length_take min.cobounded2 min.bounded_iff)
  ultimately show False using assms by (cases sub) auto
qed

lemma index_of_lf: "index_of s lf = Some k \<Longrightarrow> s ! k = nl \<and> k < length s"
  using index_of_SomeD [of s lf k] by (auto simp: lf_def nth_append dest: arg_cong [of _ _ "\<lambda>t. t ! k"])

lemma block_end_after_begin:
  assumes "index_of s b = Some bi" and "nl \<notin> set b" and "bi \<le> after"
    and "index_of (drop after s) lf = Some k"
  shows "bi + length b \<le> after + k + 1"
proof (rule ccontr)
  assume "\<not> bi + length b \<le> after + k + 1"
  then have lt: "after + k < bi + length b" by simp
  from index_of_SomeD [OF assms(1)] have s: "s = take bi s @ b @ drop (bi + length b) s"
    and len: "bi + length b \<le> length s" by auto
  from index_of_lf [OF assms(4)] lt len have "s ! (after + k) = nl" by (simp add: nth_drop)
  moreover have "s ! (after + k) = b ! (after + k - bi)"
    using lt len assms(3) by (subst s) (auto simp: nth_append)
  moreover have "b ! (after + k - bi) \<in> set b" using lt assms(3) by simp
  ultimately show False using assms(2) by simp
qed

lemma replace_shape:
  assumes r: "replaceManagedBlock content sid table legacy = Inr c'" and sid: "nl \<notin> set sid"
    and legacy: "\<And>ls le. legacy = Some (ls, le) \<Longrightarrow> line_complete (take ls content)"
  shows "\<exists>n post sfx. c' = take n content @ index_block sid table sfx @ post
    \<and> line_complete (take n content) \<and> no_markers sid (take n content)
    \<and> \<not> contains post (index_begin sid) \<and> newline_suffix sfx
    \<and> (index_of content (index_begin sid) = Some n
       \<or> (\<exists>le. legacy = Some (n, le) \<and> n \<le> length content))"
proof (cases "index_of content (index_begin sid)")
  case None
  then have e: "index_of content (index_end sid) = None"
    using r by (auto simp: replaceManagedBlock_def Let_def split: option.splits)
  with None r obtain ls le where l: "legacy = Some (ls, le)" "ls \<le> le" "le \<le> length content"
    and c': "c' = take ls content @ index_block sid table lf @ drop le content"
    by (auto simp: replaceManagedBlock_def index_block_def Let_def split: option.splits prod.splits if_splits)
  have no: "\<not> contains content (index_begin sid)" "\<not> contains content (index_end sid)"
    using None e by (simp_all add: contains_def)
  have "no_markers sid (take ls content)" "\<not> contains (drop le content) (index_begin sid)"
    using no contains_take contains_drop unfolding no_markers_def by blast+
  moreover have "newline_suffix lf" by (simp add: newline_suffix_def)
  moreover have "ls \<le> length content" using l(2,3) by simp
  ultimately show ?thesis using c' legacy [OF l(1)] l(1) by blast
next
  case (Some bi)
  let ?b = "index_begin sid" and ?e = "index_end sid"
  from Some r obtain ei where ei: "index_of content ?e = Some ei" and le: "bi \<le> ei"
    and once: "\<not> contains (drop (bi + length ?b) content) ?b"
    and m: "replace_marked content sid table bi ei = Inr c'"
    by (auto simp: replaceManagedBlock_def Let_def split: option.splits if_splits)
  let ?after = "ei + length ?e"
  define stop where "stop = (case index_of (drop ?after content) lf of
      None \<Rightarrow> length content | Some k \<Rightarrow> ?after + k + 1)"
  from m obtain sfx where start: "line_start content bi = bi" and sfx: "newline_suffix sfx"
    and c': "c' = take bi content @ index_block sid table sfx @ drop stop content"
    unfolding replace_marked_def Let_def stop_def newline_suffix_def index_block_def
    by (auto split: if_splits option.splits)
  have "line_complete (take bi content)" using line_start_line_complete [of content bi] start by simp
  moreover have "no_markers sid (take bi content)"
    using no_early [OF Some] no_early [OF ei] le md_markers.begin_ne md_markers.end_ne
    by (auto simp: no_markers_def)
  moreover have "bi + length ?b \<le> stop"
  proof (cases "index_of (drop ?after content) lf")
    case None
    with index_of_SomeD [OF Some] show ?thesis by (simp add: stop_def)
  next
    case k: (Some k)
    have "bi \<le> ?after" using le by simp
    from block_end_after_begin [OF Some md_markers.begin_line [OF sid] this k] k show ?thesis
      by (simp add: stop_def)
  qed
  then have "\<not> contains (drop stop content) ?b" using once contains_drop_mono by blast
  ultimately show ?thesis using c' sfx Some by blast
qed

lemma ensure_notice_shape: "\<exists>y. ensureManagedNotice content notice = notice @ nl # y"
proof (cases "has_prefix content notice_prefix")
  case True
  show ?thesis
  proof (cases "index_of content lf")
    case None
    with True show ?thesis by (simp add: ensureManagedNotice_def lf_def)
  next
    case (Some k)
    have "drop k content = nl # drop (Suc k) content"
      using index_of_lf [OF Some] by (metis Cons_nth_drop_Suc)
    with True Some show ?thesis by (simp add: ensureManagedNotice_def)
  qed
qed (simp add: ensureManagedNotice_def lf_def)

lemma ensure_notice_fix:
  "has_prefix notice notice_prefix \<Longrightarrow> nl \<notin> set notice \<Longrightarrow>
    ensureManagedNotice (notice @ nl # y) notice = notice @ nl # y"
proof -
  assume n: "has_prefix notice notice_prefix" "nl \<notin> set notice"
  then have "has_prefix (notice @ nl # y) notice_prefix" by (auto simp: has_prefix_iff)
  moreover have "index_of (notice @ nl # y) lf = Some (length notice)"
    using n(2) unfolding lf_def by (induction notice) auto
  ultimately show ?thesis by (simp add: ensureManagedNotice_def)
qed

lemma find_header_Some:
  "find_header bol n s = Some loc \<Longrightarrow>
    \<exists>pre post. s = pre @ post \<and> loc = n + length pre \<and> header_at post \<and> (if pre = [] then bol else last pre = nl)"
proof (induction s arbitrary: bol n)
  case (Cons c cs)
  show ?case
  proof (cases "bol \<and> header_at (c # cs)")
    case True
    with Cons.prems show ?thesis by (intro exI [of _ "[]"] exI [of _ "c # cs"]) simp
  next
    case False
    with Cons.prems have "find_header (c = nl) (Suc n) cs = Some loc" by simp
    from Cons.IH [OF this] obtain pre post where "cs = pre @ post" "loc = Suc n + length pre"
      "header_at post" "if pre = [] then c = nl else last pre = nl" by blast
    then show ?thesis by (intro exI [of _ "c # pre"] exI [of _ post]) (auto split: if_splits)
  qed
qed simp

lemma notice_facts:
  "has_prefix issuesActiveNotice notice_prefix" "nl \<notin> set issuesActiveNotice"
  "nl \<notin> set ''issues-active-index''"
  by code_simp+

lemma complete_past_notice:
  assumes "line_complete (take n s)" and "s = notice @ nl # y" and "nl \<notin> set notice"
    and "take n s \<noteq> []"
  shows "\<exists>z. take n s = notice @ nl # z"
proof (cases "n \<le> length notice")
  case True
  with assms(2) have "take n s = take n notice" by simp
  moreover have "last (take n s) = nl" using assms(1,4) by (simp add: line_complete_def)
  ultimately have "nl \<in> set (take n notice)" using assms(4) last_in_set by metis
  with assms(3) show ?thesis by (meson in_set_takeD)
next
  case False
  then have "n = length notice + Suc (n - length notice - 1)" by simp
  then obtain k where "n = length notice + Suc k" by blast
  then have "take n s = notice @ nl # take k y" unfolding assms(2) by simp
  then show ?thesis by blast
qed

lemma header_not_notice: "\<not> header_at (issuesActiveNotice @ nl # y)"
  by (simp add: header_at_def issuesActiveNotice_def)

lemma begin_not_notice: "\<not> has_prefix (issuesActiveNotice @ nl # y) (index_begin sid)"
  by (simp add: MDMarkers_def issuesActiveNotice_def)

lemma migrate_parts:
  assumes "migrate_table s table = Inr c'"
  shows "\<exists>loc len pre'. find_header True 0 s = Some loc
    \<and> (pre' = take loc s \<or> (\<exists>u. pre' = take loc s @ u @ lf))
    \<and> replaceManagedBlock (pre' @ drop loc s) ''issues-active-index'' table
        (Some (length pre', length pre' + len)) = Inr c'"
proof (cases "find_header True 0 s")
  case None
  with assms show ?thesis by (simp add: migrate_table_def)
next
  case (Some loc)
  define links where "links = missing_links (take loc s)"
  define pre' where "pre' = (if links = [] then take loc s
    else take loc s @ join ('' '' @ middle_dot @ '' '') links @ lf @ lf)"
  define len where "len = table_end (split_on nl (drop loc s))"
  let ?r = "replaceManagedBlock (pre' @ drop loc s) ''issues-active-index'' table
      (Some (length pre', length pre' + len))"
  define header where "header = trim_space (hd (split_on nl (drop loc s)))"
  have "(if header \<noteq> issuesTableHeader then Inl (CustomHeader header)
      else case ?r of Inl err \<Rightarrow> Inl (IndexBlock err) | Inr c \<Rightarrow> Inr c) = Inr c'"
    using assms Some unfolding migrate_table_def Let_def pre'_def links_def len_def header_def
    by (simp only: option.case)
  then have "?r = Inr c'" by (auto split: if_splits sum.splits)
  moreover have "pre' = take loc s \<or> (\<exists>u. pre' = take loc s @ u @ lf)"
    unfolding pre'_def by (auto intro: exI [of _ "join ('' '' @ middle_dot @ '' '') links @ lf"])
  ultimately show ?thesis using Some by blast
qed

text \<open>The text a rendering writes, in the shape that is found again.\<close>

lemma render_shape:
  assumes "render_readme content table = Inr c'"
  shows "\<exists>pre post sfx. c' = pre @ index_block ''issues-active-index'' table sfx @ post
    \<and> line_complete pre \<and> no_markers ''issues-active-index'' pre
    \<and> \<not> contains post (index_begin ''issues-active-index'') \<and> newline_suffix sfx
    \<and> (\<exists>z. pre = issuesActiveNotice @ nl # z)"
proof -
  let ?sid = "''issues-active-index''"
  obtain y where y: "ensureManagedNotice content issuesActiveNotice = issuesActiveNotice @ nl # y"
    using ensure_notice_shape by blast
  let ?s = "issuesActiveNotice @ nl # y"
  show ?thesis
  proof (cases "contains ?s (index_begin ?sid) \<or> contains ?s (index_end ?sid)")
    case True
    with assms y have r: "replaceManagedBlock ?s ?sid table None = Inr c'"
      by (auto simp: render_readme_def Let_def split: sum.splits)
    from replace_shape [OF r notice_facts(3)] obtain n post sfx where
      sh: "c' = take n ?s @ index_block ?sid table sfx @ post" "line_complete (take n ?s)"
        "no_markers ?sid (take n ?s)" "\<not> contains post (index_begin ?sid)" "newline_suffix sfx"
      and n: "index_of ?s (index_begin ?sid) = Some n" by auto
    have "n \<noteq> 0" using index_of_SomeD [OF n] begin_not_notice [of y ?sid]
      by (metis append_Nil has_prefix_append take0)
    then have "take n ?s \<noteq> []" by simp
    from complete_past_notice [OF sh(2) refl notice_facts(2) this] sh show ?thesis by blast
  next
    case False
    with assms y have "migrate_table ?s table = Inr c'" by (simp add: render_readme_def Let_def)
    from migrate_parts [OF this] obtain loc len pre' where h: "find_header True 0 ?s = Some loc"
      and pre': "pre' = take loc ?s \<or> (\<exists>u. pre' = take loc ?s @ u @ lf)"
      and r: "replaceManagedBlock (pre' @ drop loc ?s) ?sid table (Some (length pre', length pre' + len)) = Inr c'"
      by blast
    from find_header_Some [OF h] obtain p q where pq: "?s = p @ q" "loc = length p" "header_at q"
      "p = [] \<or> last p = nl" by (auto split: if_splits)
    have "p \<noteq> []" using pq header_not_notice [of y] by auto
    then have p: "take loc ?s = p" "line_complete p" using pq by (auto simp: line_complete_def)
    from pre' have pp: "pre' = p \<or> (\<exists>u. pre' = p @ u @ lf)" unfolding p(1) .
    then have complete: "line_complete pre'" using p(2) by (auto simp: lf_def line_complete_def)
    obtain z where z: "p = issuesActiveNotice @ nl # z"
      using complete_past_notice [of loc ?s] p notice_facts(2) \<open>p \<noteq> []\<close> by metis
    then obtain z' where z': "pre' = issuesActiveNotice @ nl # z'" using pp by auto
    let ?c = "pre' @ drop loc ?s"
    from replace_shape [OF r notice_facts(3)] complete obtain n post sfx where
      sh: "c' = take n ?c @ index_block ?sid table sfx @ post" "line_complete (take n ?c)"
        "no_markers ?sid (take n ?c)" "\<not> contains post (index_begin ?sid)" "newline_suffix sfx"
      and n: "index_of ?c (index_begin ?sid) = Some n \<or> n = length pre'" by auto
    have cs: "?c = issuesActiveNotice @ nl # (z' @ drop loc ?s)" using z' by simp
    have "n \<noteq> 0"
    proof
      assume "n = 0"
      with n z' have "index_of ?c (index_begin ?sid) = Some 0" by auto
      from index_of_SomeD [OF this] have "has_prefix ?c (index_begin ?sid)"
        by (metis append_Nil has_prefix_append take0)
      then show False unfolding cs using begin_not_notice by blast
    qed
    then have "take n ?c \<noteq> []" unfolding cs by (simp add: issuesActiveNotice_def)
    from complete_past_notice [OF sh(2) cs notice_facts(2) this] sh show ?thesis by blast
  qed
qed

lemma render_settles:
  assumes "render_readme content table = Inr c'"
    and "no_markers ''issues-active-index'' (trim_right table lf)"
  shows "render_readme c' table = Inr c'"
proof -
  let ?sid = "''issues-active-index''"
  from render_shape [OF assms(1)] obtain pre post sfx z where
    c': "c' = pre @ index_block ?sid table sfx @ post" and sh: "line_complete pre" "no_markers ?sid pre"
      "\<not> contains post (index_begin ?sid)" "newline_suffix sfx" and z: "pre = issuesActiveNotice @ nl # z"
    by blast
  have "ensureManagedNotice c' issuesActiveNotice = c'"
    unfolding c' z using ensure_notice_fix [OF notice_facts(1,2)] by simp
  moreover have "contains c' (index_begin ?sid)"
    unfolding c' index_block_def using contains_appendI [of pre "index_begin ?sid"] by simp
  moreover have "replaceManagedBlock c' ?sid table None = Inr c'"
    unfolding c' using replace_again [OF notice_facts(3) sh(1,2) assms(2) sh(3,4)] .
  ultimately show ?thesis by (simp add: render_readme_def)
qed

section \<open>Updating the index files\<close>

text \<open>A file system without faults, and the tickets' independence of the index files.\<close>

definition no_faults :: "fsys \<Rightarrow> bool" where
  "no_faults fs \<longleftrightarrow> read_fault fs = (\<lambda>_. False) \<and> torn_write fs = (\<lambda>_. None)"

lemma write_no_faults:
  "no_faults fs \<Longrightarrow> write_file fs p d = (None, fs\<lparr>contents := (contents fs)(p \<mapsto> d)\<rparr>)"
  by (simp add: write_file_def no_faults_def)

lemma read_no_faults:
  "no_faults fs \<Longrightarrow> read_file fs p = (case contents fs p of None \<Rightarrow> Inl ErrNotExist | Some d \<Rightarrow> Inr d)"
  by (simp add: read_file_def no_faults_def)

lemma no_faults_update [simp]: "no_faults (fs\<lparr>contents := m\<rparr>) = no_faults fs"
  by (simp add: no_faults_def)

definition index_path :: "string \<Rightarrow> string \<Rightarrow> bool" where
  "index_path dir p \<longleftrightarrow> (\<exists>n\<in>set index_names. p = issue_path dir n)"

lemma index_not_ticket: "n \<in> set index_names \<Longrightarrow> ticket_number (base_name n) = None"
proof -
  have "ticket_number (base_name ''README.md'') = None \<and> ticket_number (base_name ''BACKLOG.md'') = None
      \<and> ticket_number (base_name ''CLOSED.md'') = None"
    by code_simp
  then show "n \<in> set index_names \<Longrightarrow> ticket_number (base_name n) = None" by (auto simp: index_names_def)
qed

lemma scan_entries_frame:
  assumes "\<And>p. \<not> index_path dir p \<Longrightarrow> read_file fs' p = read_file fs p"
  shows "scan_entries fs' dir rels = scan_entries fs dir rels"
proof (induction rels)
  case (Cons rel rels)
  show ?case
  proof (cases "if walked rel then ticket_number (base_name rel) else None")
    case None
    then show ?thesis using Cons by simp
  next
    case (Some num)
    then have "\<not> index_path dir (issue_path dir rel)"
      using index_not_ticket by (auto simp: index_path_def issue_path_def split: if_splits)
    then have r: "read_file fs' (issue_path dir rel) = read_file fs (issue_path dir rel)" by (rule assms)
    show ?thesis unfolding scan_entries.simps Some r Cons by (rule refl)
  qed
qed simp

lemma scan_frame:
  "(\<And>p. \<not> index_path dir p \<Longrightarrow> read_file fs' p = read_file fs p) \<Longrightarrow> Scan fs' dir walk = Scan fs dir walk"
  using scan_entries_frame [of dir fs' fs] by (simp add: Scan_def split: option.split)

definition file_text :: "fsys \<Rightarrow> string \<Rightarrow> string \<Rightarrow> string" where
  "file_text fs p dflt = (case read_file fs p of Inl _ \<Rightarrow> dflt | Inr d \<Rightarrow> d)"

lemma no_read_error: "no_faults fs \<Longrightarrow> read_file fs p \<noteq> Inl ErrIO"
  by (simp add: read_no_faults split: option.split)

lemma read_other: "p \<noteq> q \<Longrightarrow> read_file (fs\<lparr>contents := (contents fs)(q \<mapsto> d)\<rparr>) p = read_file fs p"
  by (simp add: read_file_def)

lemma read_written: "no_faults fs \<Longrightarrow> file_text (fs\<lparr>contents := (contents fs)(q \<mapsto> d)\<rparr>) q x = d"
  by (simp add: file_text_def read_no_faults)

lemma update_full_no_faults:
  "no_faults fs \<Longrightarrow> update_full p new fs =
     (if file_text fs p [] = new then (Inr False, fs)
      else (Inr True, fs\<lparr>contents := (contents fs)(p \<mapsto> new)\<rparr>))"
  using no_read_error [of fs p]
  by (auto simp: update_full_def file_text_def write_no_faults split: sum.split fserr.split)

lemma update_full_ok:
  assumes "no_faults fs" and "update_full p new fs = (r, fs')"
  shows "no_faults fs'" "file_text fs' p [] = new" "\<And>q. q \<noteq> p \<Longrightarrow> read_file fs' q = read_file fs q"
    "\<exists>c. r = Inr c"
  using assms by (auto simp: update_full_no_faults read_other read_written split: if_splits)

text \<open>The update on a file system without faults.\<close>

definition backlog_text :: "fsys \<Rightarrow> string \<Rightarrow> string list option \<Rightarrow> string" where
  "backlog_text fs dir walk = (case IssueIndexFiles fs dir walk of Inl _ \<Rightarrow> [] | Inr ix \<Rightarrow> the (map_of ix ''BACKLOG.md''))"

definition closed_text :: "fsys \<Rightarrow> string \<Rightarrow> string list option \<Rightarrow> string" where
  "closed_text fs dir walk = (case IssueIndexFiles fs dir walk of Inl _ \<Rightarrow> [] | Inr ix \<Rightarrow> the (map_of ix ''CLOSED.md''))"

lemma update_no_faults:
  assumes nf: "no_faults fs" and t: "IssuesTable fs dir walk = Inr table"
  shows "UpdateIssuesReadme True dir walk fs =
    (let readme = issue_path dir ''README.md''; orig = file_text fs readme default_readme
     in case render_readme orig table of Inl err \<Rightarrow> (Inl err, fs)
      | Inr new \<Rightarrow>
          (let fs1 = (if new \<noteq> orig then fs\<lparr>contents := (contents fs)(readme \<mapsto> new)\<rparr> else fs)
           in case update_full (issue_path dir ''BACKLOG.md'') (backlog_text fs dir walk) fs1 of
              (Inl err, fs2) \<Rightarrow> (Inl err, fs2)
            | (Inr c1, fs2) \<Rightarrow>
                (case update_full (issue_path dir ''CLOSED.md'') (closed_text fs dir walk) fs2 of
                   (Inl err, fs3) \<Rightarrow> (Inl err, fs3)
                 | (Inr c2, fs3) \<Rightarrow> (Inr (new \<noteq> orig \<or> c1 \<or> c2), fs3))))"
proof -
  obtain files where f: "Scan fs dir walk = Inr files" using t by (cases "Scan fs dir walk") (auto simp: IssuesTable_def map_inr_def)
  then obtain ix where ix: "IssueIndexFiles fs dir walk = Inr ix" by (simp add: IssueIndexFiles_def map_inr_def)
  have r: "RenderIssuesReadme x fs dir walk = render_readme x table" for x by (simp add: RenderIssuesReadme_def t)
  have bc: "backlog_text fs dir walk = the (map_of ix ''BACKLOG.md'')"
    "closed_text fs dir walk = the (map_of ix ''CLOSED.md'')"
    by (simp_all add: backlog_text_def closed_text_def ix)
  show ?thesis unfolding bc
    by (cases "contents fs (issue_path dir ''README.md'')")
       (simp_all add: UpdateIssuesReadme_def Let_def file_text_def read_no_faults [OF nf] r ix bc
          write_no_faults [OF nf] split: sum.split)
qed

lemma update_total:
  assumes nf: "no_faults fs" and t: "IssuesTable fs dir walk = Inr table"
    and r: "render_readme (file_text fs (issue_path dir ''README.md'') default_readme) table = Inr new"
  shows "\<exists>c fs'. UpdateIssuesReadme True dir walk fs =
    (Inr (new \<noteq> file_text fs (issue_path dir ''README.md'') default_readme \<or> c), fs')"
proof -
  let ?r = "issue_path dir ''README.md''" and ?b = "issue_path dir ''BACKLOG.md''"
    and ?c = "issue_path dir ''CLOSED.md''"
  define fs1 where "fs1 = (if new \<noteq> file_text fs ?r default_readme
    then fs\<lparr>contents := (contents fs)(?r \<mapsto> new)\<rparr> else fs)"
  obtain r2 fs2 where u2: "update_full ?b (backlog_text fs dir walk) fs1 = (r2, fs2)" by fastforce
  obtain r3 fs3 where u3: "update_full ?c (closed_text fs dir walk) fs2 = (r3, fs3)" by fastforce
  have nf1: "no_faults fs1" using nf by (simp add: fs1_def)
  note s2 = update_full_ok [OF nf1 u2]
  note s3 = update_full_ok [OF s2(1) u3]
  show ?thesis
    using s2(4) s3(4) by (auto simp: update_no_faults [OF nf t] Let_def r fs1_def [symmetric] u2 u3)
qed

lemma index_paths_distinct [simp]:
  "issue_path dir ''README.md'' \<noteq> issue_path dir ''BACKLOG.md''"
  "issue_path dir ''README.md'' \<noteq> issue_path dir ''CLOSED.md''"
  "issue_path dir ''BACKLOG.md'' \<noteq> issue_path dir ''CLOSED.md''"
  "issue_path dir ''BACKLOG.md'' \<noteq> issue_path dir ''README.md''"
  "issue_path dir ''CLOSED.md'' \<noteq> issue_path dir ''README.md''"
  "issue_path dir ''CLOSED.md'' \<noteq> issue_path dir ''BACKLOG.md''"
  by (simp_all add: issue_path_def)

lemma index_path_names:
  "\<not> index_path dir p \<Longrightarrow> p \<noteq> issue_path dir ''README.md'' \<and> p \<noteq> issue_path dir ''BACKLOG.md''
     \<and> p \<noteq> issue_path dir ''CLOSED.md''"
  by (auto simp: index_path_def index_names_def)

lemma update_ok:
  assumes nf: "no_faults fs" and t: "IssuesTable fs dir walk = Inr table"
    and up: "UpdateIssuesReadme True dir walk fs = (Inr c, fs')"
  shows "no_faults fs'"
    "render_readme (file_text fs (issue_path dir ''README.md'') default_readme) table
       = Inr (file_text fs' (issue_path dir ''README.md'') default_readme)"
    "file_text fs' (issue_path dir ''BACKLOG.md'') [] = backlog_text fs dir walk"
    "file_text fs' (issue_path dir ''CLOSED.md'') [] = closed_text fs dir walk"
    "\<And>p. \<not> index_path dir p \<Longrightarrow> read_file fs' p = read_file fs p"
proof -
  let ?r = "issue_path dir ''README.md''" and ?b = "issue_path dir ''BACKLOG.md''"
    and ?c = "issue_path dir ''CLOSED.md''"
  define orig where "orig = file_text fs ?r default_readme"
  from up obtain new where new: "render_readme orig table = Inr new"
    by (auto simp: update_no_faults [OF nf t] orig_def Let_def split: sum.splits)
  define fs1 where "fs1 = (if new \<noteq> orig then fs\<lparr>contents := (contents fs)(?r \<mapsto> new)\<rparr> else fs)"
  obtain r2 fs2 where u2: "update_full ?b (backlog_text fs dir walk) fs1 = (r2, fs2)" by fastforce
  obtain r3 fs3 where u3: "update_full ?c (closed_text fs dir walk) fs2 = (r3, fs3)" by fastforce
  have nf1: "no_faults fs1" using nf by (simp add: fs1_def)
  note s2 = update_full_ok [OF nf1 u2]
  note s3 = update_full_ok [OF s2(1) u3]
  have fs': "fs' = fs3"
    using up s2(4) s3(4) by (auto simp: update_no_faults [OF nf t] Let_def orig_def [symmetric] new fs1_def [symmetric] u2 u3)
  have r1: "file_text fs1 ?r default_readme = new"
    using read_written [OF nf] by (simp add: fs1_def orig_def [symmetric])
  have o1: "read_file fs1 q = read_file fs q" if "q \<noteq> ?r" for q using that by (simp add: fs1_def read_other)
  show "no_faults fs'" by (simp add: fs' s3)
  show "render_readme (file_text fs ?r default_readme) table = Inr (file_text fs' ?r default_readme)"
    using new r1 s2(3) [of ?r] s3(3) [of ?r] by (simp add: fs' file_text_def orig_def)
  show "file_text fs' ?b [] = backlog_text fs dir walk"
    using s2(2) s3(3) [of ?b] by (simp add: fs' file_text_def)
  show "file_text fs' ?c [] = closed_text fs dir walk" using s3(2) by (simp add: fs')
  show "read_file fs' p = read_file fs p" if "\<not> index_path dir p" for p
    using index_path_names [OF that] s2(3) [of p] s3(3) [of p] o1 [of p] by (simp add: fs')
qed

text \<open>C27. Updating the indexes settles: on a file system without faults, after one successful update a
  second one finds nothing to change and writes nothing, provided the generated table holds no marker
  of the managed block itself (a ticket title may).\<close>

theorem index_update_settles:
  assumes nf: "no_faults fs" and t: "IssuesTable fs dir walk = Inr table"
    and plain: "no_markers ''issues-active-index'' (trim_right table lf)"
    and up: "UpdateIssuesReadme True dir walk fs = (Inr changed, fs')"
  shows "UpdateIssuesReadme True dir walk fs' = (Inr False, fs')"
proof -
  note ok = update_ok [OF nf t up]
  have scan: "Scan fs' dir walk = Scan fs dir walk" using ok(5) by (rule scan_frame)
  have t': "IssuesTable fs' dir walk = Inr table" using t by (simp add: IssuesTable_def scan)
  have ix: "backlog_text fs' dir walk = backlog_text fs dir walk" "closed_text fs' dir walk = closed_text fs dir walk"
    by (simp_all add: backlog_text_def closed_text_def IssueIndexFiles_def scan)
  show ?thesis
    using render_settles [OF ok(2) plain] ok(3,4)
    by (simp add: update_no_faults [OF ok(1) t'] Let_def ix update_full_no_faults ok(1))
qed

definition fix_ticket :: string where
  "fix_ticket = ''# 007 - Fix'' @ [nl, nl] @ ''**Status**: Open'' @ [nl]"

definition one_ticket :: fsys where
  "one_ticket = sound_fsys (\<lambda>p. if p = ''i/007-fix.md'' then Some fix_ticket else None)"

definition one_table :: string where
  "one_table = issuesTableHeader @ lf @ table_separator @ lf
     @ ''| 007 | [007-fix.md](007-fix.md) | Fix | Open |'' @ lf"

lemma one_ticket_table: "IssuesTable one_ticket ''i'' (Some [''007-fix.md'']) = Inr one_table"
proof -
  have h: "ParseIssueFileWithPriority fix_ticket
      = \<lparr>head_title = ''007 - Fix'', head_status = ''Open'', head_priority = [], has_status = True\<rparr>"
    by (subst parse_all_lines) (simp add: fix_ticket_def max_token_def, code_simp)
  have t: "ticket_number (base_name ''007-fix.md'') = Some ''007''" "walked ''007-fix.md''"
    "read_file one_ticket (issue_path ''i'' ''007-fix.md'') = Inr fix_ticket"
    "CanonicalizeStatus ''Open'' = CatOpen" "StripTicketNumber ''007 - Fix'' = ''Fix''"
    "escape_bars ''Fix'' = ''Fix''" "escape_bars ''Open'' = ''Open''"
    by code_simp+
  have i: "inumber (issue_of ''007'' ''007-fix.md'' fix_ticket) = ''007''"
    "rel_path (issue_of ''007'' ''007-fix.md'' fix_ticket) = ''007-fix.md''"
    "ititle (issue_of ''007'' ''007-fix.md'' fix_ticket) = ''007 - Fix''"
    "raw_status (issue_of ''007'' ''007-fix.md'' fix_ticket) = ''Open''"
    "canonical (issue_of ''007'' ''007-fix.md'' fix_ticket) = CatOpen"
    by (simp_all add: issue_of_def Let_def h t)
  have "Scan one_ticket ''i'' (Some [''007-fix.md'']) = Inr [issue_of ''007'' ''007-fix.md'' fix_ticket]"
    by (simp add: Scan_def t map_inr_def sort_issues_def)
  then show ?thesis
    by (simp add: IssuesTable_def map_inr_def renderIssueTable_def active_issue_def issue_row_def i t one_table_def)
qed

lemma one_ticket_updates:
  "no_faults one_ticket" "no_markers ''issues-active-index'' (trim_right one_table lf)"
  "\<exists>fs'. UpdateIssuesReadme True ''i'' (Some [''007-fix.md'']) one_ticket = (Inr True, fs')"
proof -
  show nf: "no_faults one_ticket" by (simp add: no_faults_def one_ticket_def sound_fsys_def)
  show "no_markers ''issues-active-index'' (trim_right one_table lf)" by code_simp
  have r: "case render_readme default_readme one_table of Inl _ \<Rightarrow> False | Inr new \<Rightarrow> new \<noteq> default_readme"
    by code_simp
  have o': "file_text one_ticket (issue_path ''i'' ''README.md'') default_readme = default_readme"
    by (simp add: file_text_def one_ticket_def issue_path_def)
  from r obtain new where n: "render_readme default_readme one_table = Inr new" "new \<noteq> default_readme"
    by (auto split: sum.splits)
  show "\<exists>fs'. UpdateIssuesReadme True ''i'' (Some [''007-fix.md'']) one_ticket = (Inr True, fs')"
    using update_total [OF nf one_ticket_table] n by (auto simp: o')
qed

lemma index_update_settles_witness:
  "case UpdateIssuesReadme True ''i'' (Some [''007-fix.md'']) one_ticket of
     (Inl _, _) \<Rightarrow> False
   | (Inr c, fs') \<Rightarrow> c \<and> UpdateIssuesReadme True ''i'' (Some [''007-fix.md'']) fs' = (Inr False, fs')"
proof -
  obtain fs' where u: "UpdateIssuesReadme True ''i'' (Some [''007-fix.md'']) one_ticket = (Inr True, fs')"
    using one_ticket_updates(3) by blast
  from index_update_settles [OF one_ticket_updates(1) one_ticket_table one_ticket_updates(2) u] u show ?thesis by simp
qed

end
