(* ===== verification/Gitflow.thy ===== *)
theory Gitflow
  imports Files
begin

text \<open>
  The git workflow guard (\<open>internal/gitflow\<close>): the \<open>git:\<close> key of \<open>.harnez/repo.yaml\<close>, the branch
  that counts as protected, and the check every path that stages or commits runs first.

  The YAML parser is a parameter: it gives the entries of the \<open>git\<close> key, or \<^const>\<open>None\<close> when the
  file does not parse. What git answers is the state \<open>git_view\<close>: the output of the two
  \<open>symbolic-ref\<close> calls (\<^const>\<open>None\<close> when the command fails) and whether \<open>rev-parse --git-dir\<close>
  succeeds. The warnings the guard prints are part of its result. \<open>guard_commit_passes\<close> is the
  decision table of the guard, and the release guard differs from it in one row.
\<close>

section \<open>Configuration\<close>

datatype mode = ModeSolo | ModeFork | ModeTeam

datatype yaml_value = YStr string | YBool bool | YOther

record flow_config =
  flow_mode :: mode
  protected_main :: bool
  default_branch :: string

record flow_spec =
  spec_mode :: mode
  spec_protected_main :: bool
  fallback_branches :: "string list"

text \<open>The embedded \<open>spec/git.yaml\<close>.\<close>

definition git_spec :: flow_spec where
  "git_spec = \<lparr>spec_mode = ModeSolo, spec_protected_main = False,
     fallback_branches = [''main'', ''master'']\<rparr>"

definition gitKeys :: "string list" where
  "gitKeys = [''mode'', ''protected_main'', ''default_branch'']"

datatype flow_err =
    LoadIO fserr
  | ParseFailed
  | UnknownKey string
  | BadMode
  | BadProtectedMain
  | BadDefaultBranch
  | ProtectedSolo
  | RefusedDetached string
  | RefusedBranch string string

definition mode_of :: "string \<Rightarrow> mode option" where
  "mode_of s =
     (if s = ''solo'' then Some ModeSolo else if s = ''fork'' then Some ModeFork
      else if s = ''team'' then Some ModeTeam else None)"

definition as_string :: "yaml_value \<Rightarrow> string" where
  "as_string v = (case v of YStr s \<Rightarrow> s | _ \<Rightarrow> [])"

definition default_config :: flow_config where
  "default_config = \<lparr>flow_mode = spec_mode git_spec,
     protected_main = spec_protected_main git_spec, default_branch = []\<rparr>"

text \<open>The three checks of \<open>LoadBytes\<close>, each on the configuration read so far.\<close>

definition load_mode :: "(string \<times> yaml_value) list \<Rightarrow> flow_config \<Rightarrow> flow_err + flow_config" where
  "load_mode git cfg =
     (case map_of git ''mode'' of
        None \<Rightarrow> Inr cfg
      | Some v \<Rightarrow> (case mode_of (as_string v) of
            None \<Rightarrow> Inl BadMode
          | Some m \<Rightarrow> Inr (cfg\<lparr>flow_mode := m\<rparr>)))"

definition load_protected ::
  "(string \<times> yaml_value) list \<Rightarrow> flow_config \<Rightarrow> flow_err + flow_config" where
  "load_protected git cfg =
     (case map_of git ''protected_main'' of
        None \<Rightarrow> Inr cfg
      | Some (YBool b) \<Rightarrow> Inr (cfg\<lparr>protected_main := b\<rparr>)
      | Some _ \<Rightarrow> Inl BadProtectedMain)"

definition load_branch ::
  "(string \<times> yaml_value) list \<Rightarrow> flow_config \<Rightarrow> flow_err + flow_config" where
  "load_branch git cfg =
     (case map_of git ''default_branch'' of
        None \<Rightarrow> Inr cfg
      | Some v \<Rightarrow>
          if as_string v = [] then Inl BadDefaultBranch
          else Inr (cfg\<lparr>default_branch := as_string v\<rparr>))"

definition load_bytes ::
  "(string \<Rightarrow> (string \<times> yaml_value) list option) \<Rightarrow> string \<Rightarrow> flow_err + flow_config" where
  "load_bytes yaml data =
     (case yaml data of
        None \<Rightarrow> Inl ParseFailed
      | Some git \<Rightarrow>
          (case filter (\<lambda>(k, _). k \<notin> set gitKeys) git of
             (k, _) # _ \<Rightarrow> Inl (UnknownKey k)
           | [] \<Rightarrow>
               bind_res (load_mode git default_config) (\<lambda>cfg.
               bind_res (load_protected git cfg) (\<lambda>cfg.
               bind_res (load_branch git cfg) (\<lambda>cfg.
                 if flow_mode cfg = ModeSolo \<and> protected_main cfg then Inl ProtectedSolo
                 else Inr cfg)))))"

text \<open>\<open>Load\<close>: a missing file gives the defaults, any other failure to read is an error.\<close>

definition repo_yaml :: "string \<Rightarrow> string" where
  "repo_yaml dir = dir @ ''/.harnez/repo.yaml''"

definition load_flow ::
  "(string \<Rightarrow> (string \<times> yaml_value) list option) \<Rightarrow> fsys \<Rightarrow> string \<Rightarrow> flow_err + flow_config" where
  "load_flow yaml fs dir =
     (case read_file fs (repo_yaml dir) of
        Inl ErrNotExist \<Rightarrow> Inr default_config
      | Inl err \<Rightarrow> Inl (LoadIO err)
      | Inr data \<Rightarrow> load_bytes yaml data)"

section \<open>Branches\<close>

record git_view =
  origin_head :: "string option"
  head_ref :: "string option"
  in_repo :: bool

definition DefaultBranch :: "git_view \<Rightarrow> flow_config \<Rightarrow> string option" where
  "DefaultBranch g c =
     (if default_branch c \<noteq> [] then Some (default_branch c)
      else (case origin_head g of
              None \<Rightarrow> None
            | Some out \<Rightarrow>
                let branch = trim_prefix (trim_space out) ''origin/''
                in if branch = [] then None else Some branch))"

definition ProtectedBranches :: "git_view \<Rightarrow> flow_config \<Rightarrow> string list" where
  "ProtectedBranches g c =
     (case DefaultBranch g c of Some b \<Rightarrow> [b] | None \<Rightarrow> fallback_branches git_spec)"

datatype head_state = OnBranch string | Detached | NotARepo

definition CurrentBranch :: "git_view \<Rightarrow> head_state" where
  "CurrentBranch g =
     (case head_ref g of
        Some out \<Rightarrow> OnBranch (trim_space out)
      | None \<Rightarrow> if in_repo g then Detached else NotARepo)"

text \<open>\<open>DetachedHeadRef\<close> over the outputs of \<open>git describe\<close> and \<open>git rev-parse --short\<close>.\<close>

definition DetachedHeadRef :: "string option \<Rightarrow> string option \<Rightarrow> string" where
  "DetachedHeadRef describe rev_parse =
     (let tag = (case describe of None \<Rightarrow> [] | Some out \<Rightarrow> trim_space out);
          sha = (case rev_parse of None \<Rightarrow> [] | Some out \<Rightarrow> trim_space out)
      in if tag \<noteq> [] then tag else if sha \<noteq> [] then sha else ''HEAD'')"

definition CheckDetachedHead :: "git_view \<Rightarrow> string option \<Rightarrow> string option \<Rightarrow> string" where
  "CheckDetachedHead g describe rev_parse =
     (if CurrentBranch g \<noteq> Detached then []
      else ''WARNING: HEAD is detached at '' @ DetachedHeadRef describe rev_parse
        @ ''; agent commits will land off-branch. Switch to a branch (git switch -c <topic> or git switch <branch>) before committing.'')"

section \<open>Guards\<close>

datatype flow_warning = WarnDetached mode | WarnBranch mode string | WarnRelease string

definition guard_config ::
  "git_view \<Rightarrow> flow_config \<Rightarrow> string \<Rightarrow> flow_err option \<times> flow_warning list" where
  "guard_config g cfg action =
     (if flow_mode cfg = ModeSolo then (None, [])
      else (case CurrentBranch g of
              NotARepo \<Rightarrow> (None, [])
            | Detached \<Rightarrow>
                if protected_main cfg then (Some (RefusedDetached action), [])
                else (None, [WarnDetached (flow_mode cfg)])
            | OnBranch branch \<Rightarrow>
                if branch \<notin> set (ProtectedBranches g cfg) then (None, [])
                else if protected_main cfg then (Some (RefusedBranch action branch), [])
                else (None, [WarnBranch (flow_mode cfg) branch])))"

definition GuardCommit ::
  "(string \<Rightarrow> (string \<times> yaml_value) list option) \<Rightarrow> fsys \<Rightarrow> git_view \<Rightarrow> string \<Rightarrow> string \<Rightarrow>
    flow_err option \<times> flow_warning list" where
  "GuardCommit yaml fs g dir action =
     (case load_flow yaml fs dir of
        Inl err \<Rightarrow> (Some err, [])
      | Inr cfg \<Rightarrow> guard_config g cfg action)"

definition GuardRelease ::
  "(string \<Rightarrow> (string \<times> yaml_value) list option) \<Rightarrow> fsys \<Rightarrow> git_view \<Rightarrow> string \<Rightarrow>
    flow_err option \<times> flow_warning list" where
  "GuardRelease yaml fs g dir =
     (case load_flow yaml fs dir of
        Inl err \<Rightarrow> (Some err, [])
      | Inr cfg \<Rightarrow>
          (case CurrentBranch g of
             OnBranch branch \<Rightarrow>
               if protected_main cfg \<and> branch \<in> set (ProtectedBranches g cfg)
               then (None, [WarnRelease branch])
               else GuardCommit yaml fs g dir ''release''
           | _ \<Rightarrow> GuardCommit yaml fs g dir ''release''))"

section \<open>What a loaded configuration promises\<close>

definition flow_ok :: "flow_config \<Rightarrow> bool" where
  "flow_ok cfg \<longleftrightarrow> \<not> (flow_mode cfg = ModeSolo \<and> protected_main cfg)"

lemma load_bytes_ok: "load_bytes yaml data = Inr cfg \<Longrightarrow> flow_ok cfg"
  unfolding load_bytes_def flow_ok_def
  by (auto split: option.splits list.splits if_splits)

lemma default_config_ok: "flow_ok default_config"
  by (simp add: flow_ok_def default_config_def git_spec_def)

lemma load_flow_ok: "load_flow yaml fs dir = Inr cfg \<Longrightarrow> flow_ok cfg"
  unfolding load_flow_def
  by (auto split: sum.splits fserr.splits intro: load_bytes_ok default_config_ok)

text \<open>The branches on which a protected repository must not receive a commit.\<close>

definition unprotected_head :: "git_view \<Rightarrow> flow_config \<Rightarrow> bool" where
  "unprotected_head g cfg \<longleftrightarrow>
     (case CurrentBranch g of
        NotARepo \<Rightarrow> True | Detached \<Rightarrow> False | OnBranch b \<Rightarrow> b \<notin> set (ProtectedBranches g cfg))"

lemma guard_config_passes:
  "flow_ok cfg \<Longrightarrow>
    fst (guard_config g cfg action) = None \<longleftrightarrow> \<not> protected_main cfg \<or> unprotected_head g cfg"
  by (auto simp: guard_config_def unprotected_head_def flow_ok_def split: head_state.splits)

lemma guard_commit_passes:
  "fst (GuardCommit yaml fs g dir action) = None \<longleftrightarrow>
     (case load_flow yaml fs dir of
        Inl _ \<Rightarrow> False
      | Inr cfg \<Rightarrow> if protected_main cfg then unprotected_head g cfg else True)"
  using load_flow_ok guard_config_passes by (auto simp: GuardCommit_def split: sum.split)


end
