(* ===== verification/TicketOps.thy ===== *)
theory TicketOps
  imports TicketIndex Gitflow
begin

text \<open>
  The status commands (\<open>internal/issues/status_action.go\<close>, \<open>cmd/harnez/issues.go\<close>): one ticket
  (\<open>ApplyStatus\<close>) or a batch (\<open>ApplyStatusBatch\<close>) is validated, rewritten, indexed and committed.

  The effects the issue core gets injected are a record \<open>status_ops\<close>, each field an option where the
  code tests for nil; \<open>issuesStatusDependencies\<close> is the record the command line builds from the index
  functions, the commit guard and git. Git itself is the record \<open>git_ops\<close> over a repository state
  \<open>'g\<close>: git reads the work tree and does not write it (hooks that edit files are outside the model).
  The warnings printed on the way are not modelled.
\<close>

section \<open>Git as the commands use it\<close>

record 'g git_ops =
  ls_files :: "string list \<Rightarrow> 'g \<Rightarrow> string option"
  git_add :: "string list \<Rightarrow> fsys \<Rightarrow> 'g \<Rightarrow> string option \<times> 'g"
  git_commit :: "string \<Rightarrow> string list \<Rightarrow> fsys \<Rightarrow> 'g \<Rightarrow> string option \<times> 'g"
  short_head :: "'g \<Rightarrow> string option"
  porcelain :: "string list \<Rightarrow> fsys \<Rightarrow> 'g \<Rightarrow> string option"
  log_all :: "'g \<Rightarrow> string option"
  diff_tree :: "bool \<Rightarrow> string \<Rightarrow> 'g \<Rightarrow> string option"
  resolve_commit :: "string \<Rightarrow> 'g \<Rightarrow> string option"

text \<open>The flow configuration and the branch a command runs on.\<close>

record flow_env =
  flow_yaml :: "string \<Rightarrow> (string \<times> yaml_value) list option"
  flow_view :: git_view

definition guard_commit :: "flow_env \<Rightarrow> fsys \<Rightarrow> string \<Rightarrow> string \<Rightarrow> flow_err option" where
  "guard_commit env fs dir action = fst (GuardCommit (flow_yaml env) fs (flow_view env) dir action)"

definition touches_code_path :: "string \<Rightarrow> bool" where
  "touches_code_path out =
     list_ex (\<lambda>l. let p = trim_space l in p \<noteq> [] \<and> \<not> has_prefix p ''issues/'') (split_on nl out)"

datatype git_err = NoCommit string | DiffTreeFailed string | LogFailed | StatusFailed

definition commitTouchesCode :: "'g git_ops \<Rightarrow> string \<Rightarrow> 'g \<Rightarrow> git_err + string \<times> bool" where
  "commitTouchesCode git revision g =
     (case resolve_commit git revision g of
        None \<Rightarrow> Inl (NoCommit revision)
      | Some out \<Rightarrow>
          let sha = trim_space out
          in case diff_tree git True sha g of
               None \<Rightarrow> Inl (DiffTreeFailed sha)
             | Some paths \<Rightarrow> Inr (sha, touches_code_path paths))"

definition log_entry :: "'g git_ops \<Rightarrow> string \<Rightarrow> 'g \<Rightarrow> string \<Rightarrow> bool" where
  "log_entry git number g commit =
     (let c = trim_space commit
      in case index_of c [CHR 0x09] of
           None \<Rightarrow> False
         | Some i \<Rightarrow> MessageReferencesTicket (drop (Suc i) c) number
             \<and> (case diff_tree git False (take i c) g of
                  None \<Rightarrow> False | Some paths \<Rightarrow> touches_code_path paths))"

definition hasImplementationCommit :: "'g git_ops \<Rightarrow> string \<Rightarrow> 'g \<Rightarrow> git_err + bool" where
  "hasImplementationCommit git number g =
     (case log_all git g of
        None \<Rightarrow> Inl LogFailed
      | Some out \<Rightarrow> Inr (list_ex (log_entry git number g) (split_on (CHR 0x00) out)))"

definition gitPathsChanged :: "'g git_ops \<Rightarrow> string list \<Rightarrow> fsys \<Rightarrow> 'g \<Rightarrow> git_err + bool" where
  "gitPathsChanged git paths fs g =
     (case porcelain git paths fs g of
        None \<Rightarrow> Inl StatusFailed | Some out \<Rightarrow> Inr (trim_space out \<noteq> []))"

datatype commit_err = CommitGuard flow_err | CommitLsFiles | CommitNothing | CommitAdd string
  | CommitFailed string | CommitHead

text \<open>The paths that are staged: each once, and only those that exist or that git tracks.\<close>

definition commit_paths :: "fsys \<Rightarrow> string \<Rightarrow> string list \<Rightarrow> string list \<Rightarrow> string list" where
  "commit_paths fs dir tracked paths =
     filter (\<lambda>p. contents fs (issue_path dir p) \<noteq> None \<or> p \<in> set tracked) (rev (remdups (rev paths)))"

definition gitAddAndCommit ::
  "flow_env \<Rightarrow> 'g git_ops \<Rightarrow> string \<Rightarrow> string list \<Rightarrow> string \<Rightarrow> fsys \<Rightarrow> 'g \<Rightarrow> (commit_err + string) \<times> 'g" where
  "gitAddAndCommit env git dir paths message fs g =
     (case guard_commit env fs dir ''commit'' of
        Some err \<Rightarrow> (Inl (CommitGuard err), g)
      | None \<Rightarrow>
     (case ls_files git paths g of
        None \<Rightarrow> (Inl CommitLsFiles, g)
      | Some out \<Rightarrow>
          let ps = commit_paths fs dir (filter (\<lambda>p. p \<noteq> []) (split_on nl (trim_space out))) paths
          in if ps = [] then (Inl CommitNothing, g)
             else (case git_add git ps fs g of
                     (Some err, g1) \<Rightarrow> (Inl (CommitAdd err), g1)
                   | (None, g1) \<Rightarrow>
                       (case git_commit git message ps fs g1 of
                          (Some err, g2) \<Rightarrow> (Inl (CommitFailed err), g2)
                        | (None, g2) \<Rightarrow>
                            (case short_head git g2 of
                               None \<Rightarrow> (Inl CommitHead, g2)
                             | Some sha \<Rightarrow> (Inr (trim_space sha), g2))))))"

definition defaultCommitMessage :: "string \<Rightarrow> string \<Rightarrow> string \<Rightarrow> string" where
  "defaultCommitMessage verb number reason =
     ''docs(issues): '' @ (if verb = ''done'' then ''close'' else verb) @ '' '' @ number
     @ (if reason = [] then [] else '', '' @ reason)"

section \<open>Options and operations\<close>

record status_opts =
  opt_dir :: string
  commit_msg :: string
  closed_by_model :: string
  closed_by_session :: string
  opt_check :: bool
  no_commit :: bool
  amend_reason :: bool
  no_code :: bool
  implemented_by :: string

record ('s, 'g) status_ops =
  update_indexes :: "(fsys \<Rightarrow> (index_err + bool) \<times> fsys) option"
  snapshot_indexes :: "(fsys \<Rightarrow> 's option) option"
  restore_indexes :: "('s \<Rightarrow> fsys \<Rightarrow> fserr option \<times> fsys) option"
  index_paths :: "string list"
  commit_files :: "(string list \<Rightarrow> string \<Rightarrow> fsys \<Rightarrow> 'g \<Rightarrow> (commit_err + string) \<times> 'g) option"
  paths_changed :: "(string list \<Rightarrow> fsys \<Rightarrow> 'g \<Rightarrow> git_err + bool) option"
  default_message :: "(string \<Rightarrow> string \<Rightarrow> string \<Rightarrow> string) option"
  has_implementation :: "(string \<Rightarrow> 'g \<Rightarrow> git_err + bool) option"
  touches_code :: "(string \<Rightarrow> 'g \<Rightarrow> git_err + string \<times> bool) option"

definition issues_dir :: "string \<Rightarrow> string" where
  "issues_dir dir = issue_path dir ''issues''"

text \<open>What the command line wires: the lock outcome and the directory listing are arguments.\<close>

definition issuesStatusDependencies ::
  "flow_env \<Rightarrow> 'g git_ops \<Rightarrow> string \<Rightarrow> bool \<Rightarrow> string list option \<Rightarrow> ((string \<times> string option) list, 'g) status_ops" where
  "issuesStatusDependencies env git dir locked walk =
     \<lparr>update_indexes = Some (UpdateIssuesReadme locked (issues_dir dir) walk),
      snapshot_indexes = Some (\<lambda>fs. snapshotIssueIndexes fs (issues_dir dir)),
      restore_indexes = Some (restoreIssueIndexes (issues_dir dir)),
      index_paths = issueIndexRelPaths,
      commit_files = Some (gitAddAndCommit env git dir),
      paths_changed = Some (gitPathsChanged git),
      default_message = Some defaultCommitMessage,
      has_implementation = Some (hasImplementationCommit git),
      touches_code = Some (commitTouchesCode git)\<rparr>"

record status_result =
  res_number :: string
  res_file :: string
  old_status :: string
  new_status :: string
  readme_updated :: bool
  committed :: bool
  commit_sha :: string
  noop :: bool

datatype status_err =
    Compose compose_err | Find find_err | ReadTicket fserr | NoStatus string | Transition transition_err
  | AmendRefused | CannotCheckCode string | CheckCode git_err | OnlyIssues string | NoImplementation string
  | Guarded flow_err | NotConfigured | UpdateFailed index_err | PathsFailed git_err | Rewriting rewrite_err
  | SnapshotFailed | WriteTicket fserr | RestoreTicket fserr | RestoreIndexes fserr | Commit commit_err

definition requireImplementationCommit ::
  "status_opts \<Rightarrow> ('s, 'g) status_ops \<Rightarrow> 'g \<Rightarrow> string \<Rightarrow> status_err option" where
  "requireImplementationCommit opts ops g number =
     (if implemented_by opts \<noteq> []
      then (case touches_code ops of
              None \<Rightarrow> Some (CannotCheckCode number)
            | Some f \<Rightarrow>
                (case f (implemented_by opts) g of
                   Inl err \<Rightarrow> Some (CheckCode err)
                 | Inr (_, touches) \<Rightarrow> if touches then None else Some (OnlyIssues number)))
      else if no_code opts then None
      else (case has_implementation ops of
              None \<Rightarrow> None
            | Some f \<Rightarrow>
                (case f number g of
                   Inl err \<Rightarrow> Some (CheckCode err)
                 | Inr found \<Rightarrow> if found then None else Some (NoImplementation number))))"

definition noCodeNote :: "status_opts \<Rightarrow> ('s, 'g) status_ops \<Rightarrow> 'g \<Rightarrow> string list \<Rightarrow> string" where
  "noCodeNote opts ops g numbers =
     (if commit_msg opts \<noteq> [] then []
      else case (if implemented_by opts \<noteq> [] then touches_code ops else None) of
        Some f \<Rightarrow>
          let sha = (case f (implemented_by opts) g of Inl _ \<Rightarrow> implemented_by opts | Inr (s, _) \<Rightarrow> s)
          in [nl, nl] @ ''Implemented by '' @ take 12 sha @ '': ticket(s) '' @ join '', '' numbers
             @ '' were done in a commit that does not name them (--implemented-by).''
      | None \<Rightarrow>
          if \<not> no_code opts then []
          else [nl, nl] @ ''No code change: ticket(s) '' @ join '', '' numbers
             @ '' needed no implementation commit (--no-code).'')"

section \<open>One ticket\<close>

text \<open>Reading a ticket and deciding its new status.\<close>

definition ticket_target ::
  "string \<Rightarrow> string \<Rightarrow> bool \<Rightarrow> fsys \<Rightarrow> string \<Rightarrow> issue_file \<Rightarrow> status_err + string \<times> string \<times> string" where
  "ticket_target verb new amend fs idir f =
     (case read_file fs (issue_path idir (rel_path f)) of
        Inl err \<Rightarrow> Inl (ReadTicket err)
      | Inr content \<Rightarrow>
          (case ParseIssueFile content of
             (_, old, has) \<Rightarrow>
               if \<not> has then Inl (NoStatus (rel_path f))
               else (case ValidateLifecycleTransition verb old of
                       Some err \<Rightarrow> Inl (Transition err)
                     | None \<Rightarrow>
                         (case CloseStatus verb old new amend of
                            None \<Rightarrow> Inl AmendRefused
                          | Some new' \<Rightarrow> Inr (content, old, new')))))"

definition rewritten_ticket :: "string \<Rightarrow> status_opts \<Rightarrow> string \<Rightarrow> string \<Rightarrow> status_err + string" where
  "rewritten_ticket verb opts content new =
     (case RewriteStatus content new of
        Inl err \<Rightarrow> Inl (Rewriting err)
      | Inr (c, _) \<Rightarrow>
          (case (if closing verb then RewriteClosedBy c (closed_by_model opts) (closed_by_session opts)
                 else RewriteClosedBy c [] []) of
             Inl err \<Rightarrow> Inl (Rewriting err)
           | Inr (c', _) \<Rightarrow> Inr c'))"

definition default_text :: "('s, 'g) status_ops \<Rightarrow> status_opts \<Rightarrow> string \<Rightarrow> string \<Rightarrow> string \<Rightarrow> string" where
  "default_text ops opts verb number reason =
     (if commit_msg opts = [] then (case default_message ops of None \<Rightarrow> [] | Some f \<Rightarrow> f verb number reason)
      else commit_msg opts)"

type_synonym 'g status_outcome = "(status_err + status_result \<times> bool) \<times> fsys \<times> 'g"

text \<open>The status is already the requested one: only a pending index or ticket change is committed.\<close>

definition same_status ::
  "string \<Rightarrow> string \<Rightarrow> status_opts \<Rightarrow> ('s, 'g) status_ops \<Rightarrow> status_result \<Rightarrow> fsys \<Rightarrow> 'g \<Rightarrow> 'g status_outcome" where
  "same_status verb reason opts ops res fs g =
     (if opt_check opts \<or> no_commit opts then (Inr (res\<lparr>noop := True\<rparr>, False), fs, g)
      else case (update_indexes ops, commit_files ops, paths_changed ops) of
        (Some upd, Some com, Some chg) \<Rightarrow>
          (case upd fs of
             (Inl err, fs1) \<Rightarrow> (Inl (UpdateFailed err), fs1, g)
           | (Inr readme, fs1) \<Rightarrow>
               let paths = res_file res # index_paths ops; res = res\<lparr>readme_updated := readme\<rparr>
               in (case chg paths fs1 g of
                     Inl err \<Rightarrow> (Inl (PathsFailed err), fs1, g)
                   | Inr changed \<Rightarrow>
                       if \<not> changed then (Inr (res\<lparr>noop := True\<rparr>, False), fs1, g)
                       else (case com paths (default_text ops opts verb (res_number res) reason) fs1 g of
                               (Inl err, g1) \<Rightarrow> (Inl (Commit err), fs1, g1)
                             | (Inr sha, g1) \<Rightarrow>
                                 (Inr (res\<lparr>committed := True, commit_sha := sha\<rparr>, False), fs1, g1))))
      | _ \<Rightarrow> (Inl NotConfigured, fs, g))"

text \<open>\<open>--check\<close>: write, index, and put everything back.\<close>

definition check_status ::
  "('s, 'g) status_ops \<Rightarrow> string \<Rightarrow> string \<Rightarrow> string \<Rightarrow> status_result \<Rightarrow> fsys \<Rightarrow> (status_err + status_result \<times> bool) \<times> fsys" where
  "check_status ops path content new res fs =
     (case (snapshot_indexes ops, restore_indexes ops, update_indexes ops) of
        (Some snap, Some rst, Some upd) \<Rightarrow>
          (case snap fs of
             None \<Rightarrow> (Inl SnapshotFailed, fs)
           | Some s \<Rightarrow>
          (case write_file fs path new of
             (Some err, fs1) \<Rightarrow> (Inl (WriteTicket err), fs1)
           | (None, fs1) \<Rightarrow>
          (case upd fs1 of
             (upd_result, fs2) \<Rightarrow>
          (case write_file fs2 path content of
             (Some err, fs3) \<Rightarrow> (Inl (RestoreTicket err), fs3)
           | (None, fs3) \<Rightarrow>
          (case rst s fs3 of
             (Some err, fs4) \<Rightarrow> (Inl (RestoreIndexes err), fs4)
           | (None, fs4) \<Rightarrow>
               (case upd_result of
                  Inl err \<Rightarrow> (Inl (UpdateFailed err), fs4)
                | Inr readme \<Rightarrow> (Inr (res\<lparr>readme_updated := readme\<rparr>, True), fs4)))))))
      | _ \<Rightarrow> (Inl NotConfigured, fs))"

definition write_status ::
  "string \<Rightarrow> string \<Rightarrow> status_opts \<Rightarrow> ('s, 'g) status_ops \<Rightarrow> string \<Rightarrow> string \<Rightarrow> status_result \<Rightarrow> fsys \<Rightarrow> 'g \<Rightarrow> 'g status_outcome" where
  "write_status verb reason opts ops path new res fs g =
     (case update_indexes ops of
        None \<Rightarrow> (Inl NotConfigured, fs, g)
      | Some upd \<Rightarrow>
     (case write_file fs path new of
        (Some err, fs1) \<Rightarrow> (Inl (WriteTicket err), fs1, g)
      | (None, fs1) \<Rightarrow>
     (case upd fs1 of
        (Inl err, fs2) \<Rightarrow> (Inl (UpdateFailed err), fs2, g)
      | (Inr readme, fs2) \<Rightarrow>
          let res = res\<lparr>readme_updated := readme\<rparr>
          in if no_commit opts then (Inr (res, False), fs2, g)
             else (case commit_files ops of
                     None \<Rightarrow> (Inl NotConfigured, fs2, g)
                   | Some com \<Rightarrow>
                       (case com (res_file res # index_paths ops)
                               (default_text ops opts verb (res_number res) reason
                                @ (if closing verb then noCodeNote opts ops g [res_number res] else [])) fs2 g of
                          (Inl err, g1) \<Rightarrow> (Inl (Commit err), fs2, g1)
                        | (Inr sha, g1) \<Rightarrow>
                            (Inr (res\<lparr>committed := True, commit_sha := sha\<rparr>, False), fs2, g1))))))"

definition new_result :: "issue_file \<Rightarrow> string \<Rightarrow> string \<Rightarrow> status_result" where
  "new_result f old new =
     \<lparr>res_number = inumber f, res_file = ''issues/'' @ rel_path f, old_status = old, new_status = new,
      readme_updated = False, committed = False, commit_sha = [], noop = False\<rparr>"

definition ApplyStatus ::
  "flow_env \<Rightarrow> string list option \<Rightarrow> string \<Rightarrow> string \<Rightarrow> string \<Rightarrow> status_opts \<Rightarrow> ('s, 'g) status_ops \<Rightarrow> fsys \<Rightarrow> 'g \<Rightarrow> 'g status_outcome" where
  "ApplyStatus env walk verb arg reason0 opts ops fs g =
     (let reason = trim_space reason0; idir = issues_dir (opt_dir opts)
      in case ComposeStatus verb reason of
           Inl err \<Rightarrow> (Inl (Compose err), fs, g)
         | Inr new0 \<Rightarrow>
      (case FindTicketFile fs idir walk arg of
         Inl err \<Rightarrow> (Inl (Find err), fs, g)
       | Inr f \<Rightarrow>
      (case ticket_target verb new0 (amend_reason opts) fs idir f of
         Inl err \<Rightarrow> (Inl err, fs, g)
       | Inr (content, old, new) \<Rightarrow>
      (let res = new_result f old new; path = issue_path idir (rel_path f)
       in if closing verb \<and> old = new then (Inr (res\<lparr>noop := True\<rparr>, False), fs, g)
          else case (if closing verb then requireImplementationCommit opts ops g (inumber f) else None) of
            Some err \<Rightarrow> (Inl err, fs, g)
          | None \<Rightarrow>
          (case (if opt_check opts \<or> no_commit opts then None
                 else guard_commit env fs (opt_dir opts) (verb @ '' ticket '' @ inumber f)) of
             Some err \<Rightarrow> (Inl (Guarded err), fs, g)
           | None \<Rightarrow>
               if old = new then same_status verb reason opts ops res fs g
               else (case rewritten_ticket verb opts content new of
                       Inl err \<Rightarrow> (Inl err, fs, g)
                     | Inr new_content \<Rightarrow>
                         if opt_check opts
                         then (case check_status ops path content new_content res fs of (r, fs1) \<Rightarrow> (r, fs1, g))
                         else write_status verb reason opts ops path new_content res fs g))))))"

section \<open>A batch\<close>

record batch_target =
  tgt_path :: string
  tgt_old :: string
  tgt_new :: string
  tgt_result :: status_result

definition changed_target :: "batch_target \<Rightarrow> bool" where
  "changed_target t \<longleftrightarrow> \<not> noop (tgt_result t)"

fun batch_targets ::
  "string \<Rightarrow> string \<Rightarrow> status_opts \<Rightarrow> fsys \<Rightarrow> string \<Rightarrow> string list option \<Rightarrow> string list \<Rightarrow> string list \<Rightarrow> status_err + batch_target list" where
  "batch_targets verb new0 opts fs idir walk seen [] = Inr []"
| "batch_targets verb new0 opts fs idir walk seen (arg # args) =
     (case FindTicketFile fs idir walk arg of
        Inl err \<Rightarrow> Inl (Find err)
      | Inr f \<Rightarrow>
          if inumber f \<in> set seen then batch_targets verb new0 opts fs idir walk seen args
          else (case ticket_target verb new0 (amend_reason opts) fs idir f of
                  Inl err \<Rightarrow> Inl err
                | Inr (content, old, new) \<Rightarrow>
                    (case rewritten_ticket verb opts content new of
                       Inl err \<Rightarrow> Inl err
                     | Inr updated \<Rightarrow>
                         map_inr ((#) \<lparr>tgt_path = issue_path idir (rel_path f), tgt_old = content, tgt_new = updated,
                             tgt_result = (new_result f old new)\<lparr>noop := (old = new)\<rparr>\<rparr>)
                           (batch_targets verb new0 opts fs idir walk (inumber f # seen) args))))"

fun first_error :: "('a \<Rightarrow> 'e option) \<Rightarrow> 'a list \<Rightarrow> 'e option" where
  "first_error f [] = None"
| "first_error f (x # xs) = (case f x of Some e \<Rightarrow> Some e | None \<Rightarrow> first_error f xs)"

fun write_targets :: "batch_target list \<Rightarrow> fsys \<Rightarrow> fserr option \<times> fsys" where
  "write_targets [] fs = (None, fs)"
| "write_targets (t # ts) fs =
     (case write_file fs (tgt_path t) (tgt_new t) of
        (Some err, fs') \<Rightarrow> (Some err, fs') | (None, fs') \<Rightarrow> write_targets ts fs')"

text \<open>The best-effort rollback: every write error is dropped.\<close>

definition restore_targets :: "('s \<Rightarrow> fsys \<Rightarrow> fserr option \<times> fsys) \<Rightarrow> 's \<Rightarrow> batch_target list \<Rightarrow> fsys \<Rightarrow> fsys" where
  "restore_targets rst s ts fs = snd (rst s (foldl (\<lambda>fs t. snd (write_file fs (tgt_path t) (tgt_old t))) fs ts))"

text \<open>The updated index is reported on the first changed ticket, the commit on every one.\<close>

fun mark_readme :: "bool \<Rightarrow> batch_target list \<Rightarrow> status_result list" where
  "mark_readme readme [] = []"
| "mark_readme readme (t # ts) =
     (if changed_target t then (tgt_result t)\<lparr>readme_updated := readme\<rparr> # map tgt_result ts
      else tgt_result t # mark_readme readme ts)"

definition mark_commit :: "string \<Rightarrow> status_result list \<Rightarrow> status_result list" where
  "mark_commit sha = map (\<lambda>r. if noop r then r else r\<lparr>committed := True, commit_sha := sha\<rparr>)"

definition batch_message ::
  "string \<Rightarrow> string \<Rightarrow> status_opts \<Rightarrow> ('s, 'g) status_ops \<Rightarrow> 'g \<Rightarrow> string list \<Rightarrow> string" where
  "batch_message verb reason opts ops g numbers =
     (if commit_msg opts \<noteq> [] then commit_msg opts
      else ''feat(issues): '' @ (if verb = ''done'' then ''close'' else verb) @ '' '' @ join '', '' numbers
        @ (if reason = [] then [] else '', '' @ reason))
     @ (if closing verb then noCodeNote opts ops g numbers else [])"

type_synonym 'g batch_outcome = "(status_err + status_result list \<times> bool) \<times> fsys \<times> 'g"

definition commit_batch ::
  "string \<Rightarrow> string \<Rightarrow> status_opts \<Rightarrow> ('s, 'g) status_ops \<Rightarrow> batch_target list \<Rightarrow> bool \<Rightarrow> fsys \<Rightarrow> 'g \<Rightarrow> 'g batch_outcome" where
  "commit_batch verb reason opts ops ts readme fs g =
     (let results = mark_readme readme ts; changed = map tgt_result (filter changed_target ts)
      in if no_commit opts then (Inr (results, False), fs, g)
         else case commit_files ops of
           None \<Rightarrow> (Inl NotConfigured, fs, g)
         | Some com \<Rightarrow>
             (case com (map res_file changed @ index_paths ops)
                     (batch_message verb reason opts ops g (map res_number changed)) fs g of
                (Inl err, g1) \<Rightarrow> (Inl (Commit err), fs, g1)
              | (Inr sha, g1) \<Rightarrow> (Inr (mark_commit sha results, False), fs, g1)))"

definition write_batch ::
  "string \<Rightarrow> string \<Rightarrow> status_opts \<Rightarrow> ('s, 'g) status_ops \<Rightarrow> batch_target list \<Rightarrow> fsys \<Rightarrow> 'g \<Rightarrow> 'g batch_outcome" where
  "write_batch verb reason opts ops ts fs g =
     (case (snapshot_indexes ops, restore_indexes ops, update_indexes ops) of
        (Some snap, Some rst, Some upd) \<Rightarrow>
          (case snap fs of
             None \<Rightarrow> (Inl SnapshotFailed, fs, g)
           | Some s \<Rightarrow>
          (let changed = filter changed_target ts
           in case write_targets changed fs of
                (Some err, fs1) \<Rightarrow> (Inl (WriteTicket err), restore_targets rst s changed fs1, g)
              | (None, fs1) \<Rightarrow>
          (case upd fs1 of
             (Inl err, fs2) \<Rightarrow> (Inl (UpdateFailed err), restore_targets rst s changed fs2, g)
           | (Inr readme, fs2) \<Rightarrow>
               if opt_check opts
               then (Inr (mark_readme readme ts, True), restore_targets rst s changed fs2, g)
               else commit_batch verb reason opts ops ts readme fs2 g)))
      | _ \<Rightarrow> (Inl NotConfigured, fs, g))"

definition ApplyStatusBatch ::
  "string list option \<Rightarrow> string \<Rightarrow> string list \<Rightarrow> string list \<Rightarrow> status_opts \<Rightarrow> ('s, 'g) status_ops \<Rightarrow> fsys \<Rightarrow> 'g \<Rightarrow> 'g batch_outcome" where
  "ApplyStatusBatch walk verb args reason_args opts ops fs g =
     (let reason = trim_space (join '' '' reason_args); idir = issues_dir (opt_dir opts)
      in case ComposeStatus verb reason of
           Inl err \<Rightarrow> (Inl (Compose err), fs, g)
         | Inr new0 \<Rightarrow>
      (case batch_targets verb new0 opts fs idir walk [] args of
         Inl err \<Rightarrow> (Inl err, fs, g)
       | Inr ts \<Rightarrow>
          let changed = filter changed_target ts
          in case (if closing verb
                   then first_error (\<lambda>t. requireImplementationCommit opts ops g (res_number (tgt_result t))) changed
                   else None) of
               Some err \<Rightarrow> (Inl err, fs, g)
             | None \<Rightarrow>
                 if changed = [] then (Inr (map tgt_result ts, False), fs, g)
                 else write_batch verb reason opts ops ts fs g))"

section \<open>The interface to the indexes\<close>

text \<open>What the status commands rely on: an update touches nothing but the index files, whatever its
  outcome, and restoring a snapshot undoes every change to them. File systems are without faults here.\<close>

text \<open>The targets of a batch are files outside the indexes, with the content that was read.\<close>

definition old_contents :: "(string \<Rightarrow> bool) \<Rightarrow> (string \<Rightarrow> string option) \<Rightarrow> batch_target list \<Rightarrow> bool" where
  "old_contents idx m ts \<longleftrightarrow> list_all (\<lambda>t. \<not> idx (tgt_path t) \<and> m (tgt_path t) = Some (tgt_old t)) ts"

locale index_store =
  fixes upd :: "fsys \<Rightarrow> (index_err + bool) \<times> fsys"
    and snap :: "fsys \<Rightarrow> 's option"
    and rst :: "'s \<Rightarrow> fsys \<Rightarrow> fserr option \<times> fsys"
    and idx :: "string \<Rightarrow> bool"
  assumes upd_frame: "upd (sound_fsys m) = (r, fs') \<Longrightarrow> \<exists>m'. fs' = sound_fsys m' \<and> (\<forall>p. \<not> idx p \<longrightarrow> m' p = m p)"
    and rst_back: "snap (sound_fsys m) = Some s \<Longrightarrow> (\<And>p. \<not> idx p \<Longrightarrow> m' p = m p) \<Longrightarrow>
      rst s (sound_fsys m') = (None, sound_fsys m)"
begin

lemma check_restores:
  assumes ops: "update_indexes ops = Some upd" "snapshot_indexes ops = Some snap" "restore_indexes ops = Some rst"
    and m: "m path = Some content" and idx: "\<not> idx path"
    and run: "check_status ops path content new res (sound_fsys m) = (r, fs')"
  shows "fs' = sound_fsys m"
proof (cases "snap (sound_fsys m)")
  case None
  with run ops show ?thesis by (simp add: check_status_def)
next
  case (Some s)
  obtain u fs2 where u: "upd (sound_fsys (m(path \<mapsto> new))) = (u, fs2)" by fastforce
  from upd_frame [OF this] obtain m' where fs2: "fs2 = sound_fsys m'"
    and fr: "\<And>p. \<not> idx p \<Longrightarrow> m' p = (m(path \<mapsto> new)) p" by blast
  have "rst s (sound_fsys (m'(path \<mapsto> content))) = (None, sound_fsys m)"
    using Some m idx fr by (intro rst_back) auto
  with run ops Some u fs2 show ?thesis by (auto simp: check_status_def split: sum.splits)
qed

lemma write_targets_sound:
  "\<exists>m'. write_targets ts (sound_fsys m) = (None, sound_fsys m')
     \<and> (\<forall>p. p \<notin> tgt_path ` set ts \<longrightarrow> m' p = m p)"
proof (induction ts arbitrary: m)
  case Nil
  show ?case by auto
next
  case (Cons t ts)
  from Cons.IH [of "m(tgt_path t \<mapsto> tgt_new t)"] obtain m' where
    "write_targets ts (sound_fsys (m(tgt_path t \<mapsto> tgt_new t))) = (None, sound_fsys m')"
    "\<And>p. p \<notin> tgt_path ` set ts \<Longrightarrow> m' p = (m(tgt_path t \<mapsto> tgt_new t)) p" by blast
  then show ?case by (intro exI [of _ m']) simp
qed

lemma restore_writes:
  assumes "old_contents idx m ts" and "\<And>p. \<not> idx p \<Longrightarrow> p \<notin> tgt_path ` set ts \<Longrightarrow> m' p = m p"
  shows "\<exists>m''. foldl (\<lambda>fs t. snd (write_file fs (tgt_path t) (tgt_old t))) (sound_fsys m') ts = sound_fsys m''
     \<and> (\<forall>p. \<not> idx p \<longrightarrow> m'' p = m p)"
  using assms
proof (induction ts arbitrary: m')
  case (Cons t ts)
  let ?m = "m'(tgt_path t \<mapsto> tgt_old t)"
  have "old_contents idx m ts" using Cons.prems(1) by (simp add: old_contents_def)
  moreover have "?m p = m p" if "\<not> idx p" "p \<notin> tgt_path ` set ts" for p
    using Cons.prems that by (auto simp: old_contents_def)
  ultimately show ?case using Cons.IH [of ?m] by (simp add: fun_upd_def)
qed auto

lemma restore_targets_back:
  assumes "snap (sound_fsys m) = Some s" and "old_contents idx m ts"
    and "\<And>p. \<not> idx p \<Longrightarrow> p \<notin> tgt_path ` set ts \<Longrightarrow> m' p = m p"
  shows "restore_targets rst s ts (sound_fsys m') = sound_fsys m"
proof -
  from restore_writes [OF assms(2,3)] obtain m'' where
    "foldl (\<lambda>fs t. snd (write_file fs (tgt_path t) (tgt_old t))) (sound_fsys m') ts = sound_fsys m''"
    "\<And>p. \<not> idx p \<Longrightarrow> m'' p = m p" by blast
  with rst_back [OF assms(1)] show ?thesis by (simp add: restore_targets_def)
qed

text \<open>A batch either reaches the commit (or ends without one) or leaves every file as it was.\<close>

lemma write_batch_cases:
  assumes ops: "update_indexes ops = Some upd" "snapshot_indexes ops = Some snap" "restore_indexes ops = Some rst"
    and old: "old_contents idx m (filter changed_target ts)"
    and run: "write_batch verb reason opts ops ts (sound_fsys m) g = (r, fs', g')"
  shows "fs' = sound_fsys m \<and> g' = g \<and> (\<forall>e. r \<noteq> Inl (Commit e))
    \<or> \<not> opt_check opts \<and> (\<exists>readme m' m''. write_targets (filter changed_target ts) (sound_fsys m) = (None, sound_fsys m')
        \<and> upd (sound_fsys m') = (Inr readme, sound_fsys m'')
        \<and> (\<forall>p. \<not> idx p \<longrightarrow> m'' p = m' p)
        \<and> (r, fs', g') = commit_batch verb reason opts ops ts readme (sound_fsys m'') g)"
proof (cases "snap (sound_fsys m)")
  case None
  with run ops show ?thesis by (auto simp: write_batch_def)
next
  case (Some s)
  let ?ts = "filter changed_target ts"
  from write_targets_sound [of ?ts m] obtain m' where
    w: "write_targets ?ts (sound_fsys m) = (None, sound_fsys m')"
    and fr: "\<And>p. p \<notin> tgt_path ` set ?ts \<Longrightarrow> m' p = m p" by blast
  obtain u fs2 where u: "upd (sound_fsys m') = (u, fs2)" by fastforce
  from upd_frame [OF this] obtain m'' where fs2: "fs2 = sound_fsys m''"
    and fr2: "\<And>p. \<not> idx p \<Longrightarrow> m'' p = m' p" by blast
  have undone: "restore_targets rst s ?ts (sound_fsys m'') = sound_fsys m"
    using restore_targets_back [OF Some old] fr fr2 by presburger
  have run': "(r, fs', g') = (case u of
      Inl err \<Rightarrow> (Inl (UpdateFailed err), sound_fsys m, g)
    | Inr readme \<Rightarrow> if opt_check opts then (Inr (mark_readme readme ts, True), sound_fsys m, g)
        else commit_batch verb reason opts ops ts readme (sound_fsys m'') g)"
    using run by (cases u; cases "opt_check opts") (simp_all add: write_batch_def ops Some w u fs2 undone Let_def)
  show ?thesis
  proof (cases u)
    case (Inl err)
    with run' show ?thesis by simp
  next
    case (Inr readme)
    show ?thesis
    proof (cases "opt_check opts")
      case True
      with run' Inr show ?thesis by simp
    next
      case False
      then have "(r, fs', g') = commit_batch verb reason opts ops ts readme (sound_fsys m'') g"
        using run' Inr by simp
      with False w u Inr fs2 fr2 show ?thesis by blast
    qed
  qed
qed

end

section \<open>The generated indexes are such a store\<close>

lemma update_full_frame:
  assumes "update_full p new (sound_fsys m) = (r, fs')"
  shows "\<exists>m'. fs' = sound_fsys m' \<and> (\<forall>q. q \<noteq> p \<longrightarrow> m' q = m q)"
proof -
  have "fs' = sound_fsys m \<or> fs' = sound_fsys (m(p \<mapsto> new))"
    using assms by (auto simp: update_full_def split: option.splits if_splits)
  then show ?thesis by (elim disjE) (auto intro: exI [of _ m] exI [of _ "m(p \<mapsto> new)"])
qed

lemma update_frame:
  assumes run: "UpdateIssuesReadme locked dir walk (sound_fsys m) = (r, fs')"
  shows "\<exists>m'. fs' = sound_fsys m' \<and> (\<forall>p. \<not> index_path dir p \<longrightarrow> m' p = m p)"
proof -
  let ?r = "issue_path dir ''README.md''" and ?b = "issue_path dir ''BACKLOG.md''"
    and ?c = "issue_path dir ''CLOSED.md''"
  have nf: "no_faults (sound_fsys m)" by (simp add: no_faults_def sound_fsys_def)
  consider "fs' = sound_fsys m"
    | new orig ix where "(r, fs') =
        (case update_full ?b (the (map_of ix ''BACKLOG.md'')) (sound_fsys (if new \<noteq> orig then m(?r \<mapsto> new) else m)) of
           (Inl err, fs2) \<Rightarrow> (Inl err, fs2)
         | (Inr c1, fs2) \<Rightarrow>
             (case update_full ?c (the (map_of ix ''CLOSED.md'')) fs2 of
                (Inl err, fs3) \<Rightarrow> (Inl err, fs3)
              | (Inr c2, fs3) \<Rightarrow> (Inr (new \<noteq> orig \<or> c1 \<or> c2), fs3)))"
  proof (cases "RenderIssuesReadme (case m ?r of None \<Rightarrow> default_readme | Some d \<Rightarrow> d) (sound_fsys m) dir walk")
    case (Inl err)
    with run have "fs' = sound_fsys m"
      by (simp add: UpdateIssuesReadme_def Let_def split: option.splits if_splits)
    then show ?thesis by (rule that(1))
  next
    case new: (Inr new)
    show ?thesis
    proof (cases "IssueIndexFiles (sound_fsys m) dir walk")
      case (Inl err)
      with run new have "fs' = sound_fsys m"
        by (simp add: UpdateIssuesReadme_def Let_def split: option.splits if_splits)
      then show ?thesis by (rule that(1))
    next
      case (Inr ix)
      show ?thesis
      proof (cases locked)
        case False
        with run have "fs' = sound_fsys m" by (simp add: UpdateIssuesReadme_def)
        then show ?thesis by (rule that(1))
      next
        case True
        show ?thesis
          using run new Inr True
          by (intro that(2) [where ix = ix and new = new
                and orig = "case m ?r of None \<Rightarrow> default_readme | Some d \<Rightarrow> d"])
             (simp add: UpdateIssuesReadme_def Let_def split: option.splits if_splits)
      qed
    qed
  qed
  then show ?thesis
  proof cases
    case 1
    then show ?thesis by blast
  next
    case (2 new orig ix)
    let ?m1 = "if new \<noteq> orig then m(?r \<mapsto> new) else m"
    obtain r2 fs2 where u2: "update_full ?b (the (map_of ix ''BACKLOG.md'')) (sound_fsys ?m1) = (r2, fs2)" by fastforce
    from update_full_frame [OF this] obtain m2 where m2: "fs2 = sound_fsys m2" "\<And>q. q \<noteq> ?b \<Longrightarrow> m2 q = ?m1 q" by blast
    obtain r3 fs3 where u3: "update_full ?c (the (map_of ix ''CLOSED.md'')) (sound_fsys m2) = (r3, fs3)" by fastforce
    from update_full_frame [OF this] obtain m3 where m3: "fs3 = sound_fsys m3" "\<And>q. q \<noteq> ?c \<Longrightarrow> m3 q = m2 q" by blast
    have "fs' = fs2 \<or> fs' = fs3"
      using 2 u2 u3 m2(1) by (auto split: sum.splits)
    moreover have "m2 p = m p \<and> m3 p = m p" if "\<not> index_path dir p" for p
      using index_path_names [OF that] m2(2) [of p] m3(2) [of p] by simp
    ultimately show ?thesis using m2(1) m3(1) by blast
  qed
qed

lemma restore_step:
  "restoreIssueIndexes dir ((n, v) # ns) (sound_fsys m) = restoreIssueIndexes dir ns (sound_fsys (m(issue_path dir n := v)))"
proof (cases v)
  case None
  show ?thesis
  proof (cases "m (issue_path dir n)")
    case absent: None
    then have "m(issue_path dir n := None) = m" by auto
    with absent None show ?thesis by (simp add: remove_file_def sound_fsys_def)
  next
    case (Some d)
    with None show ?thesis by simp
  qed
qed simp

lemma restore_snapshot:
  assumes "snapshotIssueIndexes (sound_fsys m) dir = Some s"
    and "\<And>p. \<not> index_path dir p \<Longrightarrow> m' p = m p"
  shows "restoreIssueIndexes dir s (sound_fsys m') = (None, sound_fsys m)"
proof -
  let ?p = "issue_path dir"
  have "s = map (\<lambda>n. (n, m (?p n))) index_names"
    using assms(1) by (auto simp: snapshotIssueIndexes_def index_names_def split: option.splits)
  then have "restoreIssueIndexes dir s (sound_fsys m') =
      (None, sound_fsys (m'(?p ''README.md'' := m (?p ''README.md''), ?p ''BACKLOG.md'' := m (?p ''BACKLOG.md''),
        ?p ''CLOSED.md'' := m (?p ''CLOSED.md''))))"
    by (simp add: index_names_def restore_step del: restoreIssueIndexes.simps(2,3))
  also have "m'(?p ''README.md'' := m (?p ''README.md''), ?p ''BACKLOG.md'' := m (?p ''BACKLOG.md''),
      ?p ''CLOSED.md'' := m (?p ''CLOSED.md'')) = m"
    using assms(2) by (auto simp: index_path_def index_names_def)
  finally show ?thesis .
qed

interpretation ix: index_store "UpdateIssuesReadme locked idir walk" "\<lambda>fs. snapshotIssueIndexes fs idir"
    "restoreIssueIndexes idir" "index_path idir" for locked idir walk
  by unfold_locales (auto intro: update_frame restore_snapshot)

lemma wired_ops [simp]:
  "update_indexes (issuesStatusDependencies env git dir locked walk) = Some (UpdateIssuesReadme locked (issues_dir dir) walk)"
  "snapshot_indexes (issuesStatusDependencies env git dir locked walk) = Some (\<lambda>fs. snapshotIssueIndexes fs (issues_dir dir))"
  "restore_indexes (issuesStatusDependencies env git dir locked walk) = Some (restoreIssueIndexes (issues_dir dir))"
  "commit_files (issuesStatusDependencies env git dir locked walk) = Some (gitAddAndCommit env git dir)"
  "index_paths (issuesStatusDependencies env git dir locked walk) = issueIndexRelPaths"
  by (simp_all add: issuesStatusDependencies_def)

section \<open>What a command does to the files\<close>

lemma read_sound_iff: "read_file (sound_fsys m) p = Inr d \<longleftrightarrow> m p = Some d"
  by (simp split: option.split)

lemma found_ticket:
  assumes "FindTicketFile fs idir walk arg = Inr f"
  shows "\<not> index_path idir (issue_path idir (rel_path f))"
proof -
  from assms obtain files where sc: "Scan fs idir walk = Inr files" and f: "f \<in> set files"
    by (auto simp: FindTicketFile_def unique_issue_def Let_def filter_eq_Cons_iff split: sum.splits option.splits list.splits)
  show ?thesis
  proof (cases walk)
    case None
    with sc show ?thesis by (simp add: Scan_def)
  next
    case (Some rels)
    with scan_iff [of fs idir rels files f] sc f obtain num where "ticket_number (base_name (rel_path f)) = Some num"
      by (auto simp: issue_of_def Let_def)
    then show ?thesis using index_not_ticket by (auto simp: index_path_def issue_path_def)
  qed
qed

lemma ticket_target_content:
  "ticket_target verb new amend (sound_fsys m) idir f = Inr (content, old, new') \<Longrightarrow>
     m (issue_path idir (rel_path f)) = Some content"
  by (auto simp: ticket_target_def split: sum.splits prod.splits if_splits option.splits)

lemma batch_targets_all:
  "batch_targets verb new0 opts fs idir walk seen args = Inr ts \<Longrightarrow> t \<in> set ts \<Longrightarrow>
     \<exists>arg f content old new updated. FindTicketFile fs idir walk arg = Inr f
       \<and> ticket_target verb new0 (amend_reason opts) fs idir f = Inr (content, old, new)
       \<and> rewritten_ticket verb opts content new = Inr updated
       \<and> t = \<lparr>tgt_path = issue_path idir (rel_path f), tgt_old = content, tgt_new = updated,
          tgt_result = (new_result f old new)\<lparr>noop := (old = new)\<rparr>\<rparr>"
proof (induction args arbitrary: seen ts)
  case (Cons arg args)
  then obtain f where f: "FindTicketFile fs idir walk arg = Inr f" by (auto split: sum.splits)
  show ?case
  proof (cases "inumber f \<in> set seen")
    case True
    with Cons.prems f have "batch_targets verb new0 opts fs idir walk seen args = Inr ts" by simp
    from Cons.IH [OF this Cons.prems(2)] show ?thesis .
  next
    case False
    with Cons.prems f obtain content old new updated rest where
      n: "ticket_target verb new0 (amend_reason opts) fs idir f = Inr (content, old, new)"
        "rewritten_ticket verb opts content new = Inr updated"
      and r: "batch_targets verb new0 opts fs idir walk (inumber f # seen) args = Inr rest"
      and ts: "ts = \<lparr>tgt_path = issue_path idir (rel_path f), tgt_old = content, tgt_new = updated,
          tgt_result = (new_result f old new)\<lparr>noop := (old = new)\<rparr>\<rparr> # rest"
      by (auto simp: map_inr_def split: sum.splits prod.splits)
    show ?thesis
    proof (cases "t \<in> set rest")
      case True
      from Cons.IH [OF r True] show ?thesis .
    next
      case False
      with Cons.prems(2) ts f n show ?thesis by auto
    qed
  qed
qed simp

lemma batch_targets_old:
  assumes "batch_targets verb new0 opts (sound_fsys m) idir walk seen args = Inr ts"
  shows "old_contents (index_path idir) m ts"
  unfolding old_contents_def list_all_iff
  using batch_targets_all [OF assms] found_ticket ticket_target_content by fastforce

lemma sound_inj: "sound_fsys m = sound_fsys m' \<longleftrightarrow> m = m'"
  by (simp add: sound_fsys_def)

lemma write_targets_last:
  "write_targets (ts @ [t]) (sound_fsys m) = (None, sound_fsys m') \<Longrightarrow> m' (tgt_path t) = Some (tgt_new t)"
  by (induction ts arbitrary: m) (auto simp: sound_inj)

lemma old_contents_filter: "old_contents idx m ts \<Longrightarrow> old_contents idx m (filter P ts)"
  by (auto simp: old_contents_def list_all_iff)

text \<open>How a batch can end.\<close>

lemma batch_cases:
  assumes "ApplyStatusBatch walk verb args reason_args opts
      (issuesStatusDependencies env git (opt_dir opts) locked walk) (sound_fsys m) g = (r, fs', g')"
  shows "fs' = sound_fsys m \<and> g' = g \<and> (\<forall>e. r \<noteq> Inl (Commit e))
    \<or> \<not> opt_check opts \<and> (\<exists>new0 ts readme m' m'' reason.
        batch_targets verb new0 opts (sound_fsys m) (issues_dir (opt_dir opts)) walk [] args = Inr ts
        \<and> filter changed_target ts \<noteq> []
        \<and> write_targets (filter changed_target ts) (sound_fsys m) = (None, sound_fsys m')
        \<and> (\<forall>p. \<not> index_path (issues_dir (opt_dir opts)) p \<longrightarrow> m'' p = m' p)
        \<and> (r, fs', g') = commit_batch verb reason opts (issuesStatusDependencies env git (opt_dir opts) locked walk)
            ts readme (sound_fsys m'') g)"
proof -
  let ?ops = "issuesStatusDependencies env git (opt_dir opts) locked walk"
  let ?reason = "trim_space (join '' '' reason_args)" and ?idir = "issues_dir (opt_dir opts)"
  have req: "requireImplementationCommit opts ?ops g n \<noteq> Some (Commit e)" for n e
    by (simp add: requireImplementationCommit_def split: option.split sum.split prod.split)
  have first: "first_error (\<lambda>t. requireImplementationCommit opts ?ops g (res_number (tgt_result t))) xs
      \<noteq> Some (Commit e)" for xs e
    using req by (induction xs) (auto split: option.split)
  have tgt: "ticket_target verb n a fs idir f \<noteq> Inl (Commit e)" for n a fs idir f e
    by (simp add: ticket_target_def split: sum.split prod.split option.split)
  have rew: "rewritten_ticket verb opts c n \<noteq> Inl (Commit e)" for c n e
    by (simp add: rewritten_ticket_def split: sum.split prod.split)
  have tgts: "batch_targets verb n opts fs idir walk seen as \<noteq> Inl (Commit e)" for n fs idir seen as e
  proof (induction as arbitrary: seen)
    case (Cons a as)
    then show ?case
      by (cases "FindTicketFile fs idir walk a") (auto simp: tgt rew map_inr_def split: sum.split prod.split)
  qed simp
  show ?thesis
  proof (cases "ComposeStatus verb ?reason")
    case (Inl err)
    with assms show ?thesis by (auto simp: ApplyStatusBatch_def Let_def)
  next
    case (Inr new0)
    note comp = this
    show ?thesis
    proof (cases "batch_targets verb new0 opts (sound_fsys m) ?idir walk [] args")
      case (Inl err)
      with assms comp tgts show ?thesis by (auto simp: ApplyStatusBatch_def Let_def)
    next
      case (Inr ts)
      let ?gate = "if closing verb
          then first_error (\<lambda>t. requireImplementationCommit opts ?ops g (res_number (tgt_result t)))
            (filter changed_target ts) else None"
      have eq: "(r, fs', g') = (case ?gate of Some err \<Rightarrow> (Inl err, sound_fsys m, g)
        | None \<Rightarrow> if filter changed_target ts = [] then (Inr (map tgt_result ts, False), sound_fsys m, g)
            else write_batch verb ?reason opts ?ops ts (sound_fsys m) g)"
        using assms comp Inr by (simp add: ApplyStatusBatch_def Let_def)
      show ?thesis
      proof (cases "?gate = None \<and> filter changed_target ts \<noteq> []")
        case False
        with eq first show ?thesis by (auto split: option.splits if_splits)
      next
        case True
        with eq have w: "write_batch verb ?reason opts ?ops ts (sound_fsys m) g = (r, fs', g')" by simp
        have "fs' = sound_fsys m \<and> g' = g \<and> (\<forall>e. r \<noteq> Inl (Commit e))
          \<or> \<not> opt_check opts \<and> (\<exists>readme m' m''. write_targets (filter changed_target ts) (sound_fsys m) = (None, sound_fsys m')
            \<and> UpdateIssuesReadme locked ?idir walk (sound_fsys m') = (Inr readme, sound_fsys m'')
            \<and> (\<forall>p. \<not> index_path ?idir p \<longrightarrow> m'' p = m' p)
            \<and> (r, fs', g') = commit_batch verb ?reason opts ?ops ts readme (sound_fsys m'') g)"
          by (rule ix.write_batch_cases [OF wired_ops(1-3) old_contents_filter [OF batch_targets_old [OF Inr]] w])
        then show ?thesis
        proof
          assume "\<not> opt_check opts \<and> (\<exists>readme m' m''. write_targets (filter changed_target ts) (sound_fsys m) = (None, sound_fsys m')
            \<and> UpdateIssuesReadme locked ?idir walk (sound_fsys m') = (Inr readme, sound_fsys m'')
            \<and> (\<forall>p. \<not> index_path ?idir p \<longrightarrow> m'' p = m' p)
            \<and> (r, fs', g') = commit_batch verb ?reason opts ?ops ts readme (sound_fsys m'') g)"
          with Inr True show ?thesis by blast
        qed simp
      qed
    qed
  qed
qed

lemma checked_ticket:
  "snd (ApplyStatus env walk verb arg reason (opts\<lparr>opt_check := True\<rparr>)
      (issuesStatusDependencies env git (opt_dir opts) locked walk) (sound_fsys m) g) = (sound_fsys m, g)"
proof -
  let ?opts = "opts\<lparr>opt_check := True\<rparr>" and ?idir = "issues_dir (opt_dir opts)"
  let ?ops = "issuesStatusDependencies env git (opt_dir opts) locked walk"
  have keep: "fst (snd (r, fs', g)) = sound_fsys m"
    if "FindTicketFile (sound_fsys m) ?idir walk arg = Inr f"
      "ticket_target verb new0 amend (sound_fsys m) ?idir f = Inr (content, old, new)"
      "check_status ?ops (issue_path ?idir (rel_path f)) content updated res (sound_fsys m) = (r, fs')"
    for f new0 amend content old new updated res r fs'
    using ix.check_restores [OF wired_ops(1-3) ticket_target_content [OF that(2)] found_ticket [OF that(1)] that(3)]
    by simp
  show ?thesis
    using keep
    by (simp add: ApplyStatus_def Let_def same_status_def split: sum.split prod.split option.split)
qed



text \<open>The single-ticket command checks first: outside check mode and \<open>--no-commit\<close>, when the guard
  refuses the branch, it changes neither a file nor the repository.\<close>

theorem refused_status_writes_nothing:
  assumes "guard_commit env fs (opt_dir opts) action \<noteq> None"
    and "\<not> opt_check opts" and "\<not> no_commit opts"
  shows "snd (ApplyStatus env walk verb arg reason opts ops fs g) = (fs, g)"
proof -
  have "\<exists>e. guard_commit env fs (opt_dir opts) a = Some e" for a
    using assms(1) guard_commit_passes [of "flow_yaml env" fs "flow_view env" "opt_dir opts"]
    by (simp add: guard_commit_def)
  then obtain e where e: "guard_commit env fs (opt_dir opts) a = Some (e a)" for a by metis
  show ?thesis
    using assms(2,3) by (simp add: ApplyStatus_def Let_def e split: sum.split prod.split option.split)
qed

section \<open>What a command leaves in the ticket\<close>

lemma status_lines_after:
  assumes "rewrite_status_lines w ls = Some (ks, ch)" and "writable_status w" and "\<not> has_status h"
    and "list_all (\<lambda>l. CHR 0x0B \<notin> set l) ls" and "rewrite_closed_lines line ks = Some (js, ch')"
  shows "has_status (foldl parse_line h js) \<and> head_status (foldl parse_line h js) = w"
  using assms
proof (induction ls arbitrary: ks js h)
  case (Cons l ls)
  show ?case
  proof (cases "status_value l")
    case None
    with Cons.prems(1) obtain ks' where ks: "ks = l # ks'"
      and r: "rewrite_status_lines w ls = Some (ks', ch)" by auto
    with Cons.prems(5) None obtain js' where js: "js = l # js'"
      and c: "rewrite_closed_lines line ks' = Some (js', ch')" by auto
    have "\<not> has_status (parse_line h l)"
      using parse_no_status [OF None] Cons.prems(3,4) by simp
    from Cons.IH [OF r Cons.prems(2) this _ c] Cons.prems(4) js show ?thesis by simp
  next
    case (Some v)
    from set_value_line [OF Some Cons.prems(2)] obtain ws lab d sp where
      f: "list_all re_space ws" "good_label lab" "d \<in> {[], '':''}" "list_all re_space sp"
      and k: "set_value l v w = ws @ lab @ d @ sp @ w" by blast
    have ks: "ks = (ws @ lab @ d @ sp @ w) # ls" using Cons.prems(1) Some k by auto
    have "status_value (ws @ lab @ d @ sp @ w) = Some w"
      using f(1,2) clean_tail [OF Cons.prems(2) f(4,3)] unfolding good_label_def by metis
    with Cons.prems(5) ks obtain js' where js: "js = (ws @ lab @ d @ sp @ w) # js'"
      by (auto split: if_splits)
    have tr: "trim_right (d @ sp @ w) white = d @ sp @ w"
      using clean_right [OF Cons.prems(2), of "d @ sp"] by simp
    have "parse_line h (ws @ lab @ d @ sp @ w) = h\<lparr>has_status := True, head_status := w\<rparr>"
      using parse_labelled [OF f(1,2), of h "d @ sp @ w"] Cons.prems(3)
      by (simp add: tr clean_tail [OF Cons.prems(2) f(4,3)] clean_trim [OF Cons.prems(2)])
    then show ?thesis by (simp add: js fold_status_set)
  qed
qed simp

lemma closed_lines_set:
  "rewrite_closed_lines line ls = Some (js, ch) \<Longrightarrow> set js \<subseteq> insert line (set ls) \<and> js \<noteq> [] \<and> (\<not> ch \<longrightarrow> js = ls)"
proof (induction ls arbitrary: js)
  case (Cons l ls)
  show ?case
  proof (cases "status_value l = None")
    case True
    with Cons.prems obtain js' where "js = l # js'" "rewrite_closed_lines line ls = Some (js', ch)" by auto
    with Cons.IH [of js'] show ?thesis by auto
  next
    case False
    with Cons.prems show ?thesis by (cases ls) (auto split: if_splits)
  qed
qed simp

lemma rewritten_status:
  assumes run: "rewritten_ticket verb opts content w = Inr updated" and w: "writable_status w"
    and plain: "plain_ticket (length w) content"
    and line: "nl \<notin> set (closed_by_text (closed_by_model opts) (closed_by_session opts))"
      "length (closed_by_text (closed_by_model opts) (closed_by_session opts)) < max_token"
  shows "has_status (ParseIssueFileWithPriority updated) \<and> head_status (ParseIssueFileWithPriority updated) = w"
proof -
  define cb where "cb = (if closing verb then closed_by_text (closed_by_model opts) (closed_by_session opts) else [])"
  have cb: "nl \<notin> set cb" "length cb < max_token" using line by (auto simp: cb_def max_token_def)
  have nil: "closed_by_text [] [] = []" by (simp add: closed_by_text_def)
  from run obtain c ch where c: "RewriteStatus content w = Inr (c, ch)"
    by (auto simp: rewritten_ticket_def split: sum.splits)
  from run c obtain js ch' where js: "rewrite_closed_lines cb (split_on nl c) = Some (js, ch')"
    and up: "updated = (if ch' then join [nl] js else c)"
    by (auto simp: rewritten_ticket_def RewriteClosedBy_def cb_def nil split: sum.splits option.splits if_splits)
  note ks = rewritten_lines [OF c]
  have nlw: "nl \<notin> set w" using w by (simp add: writable_status_def)
  from rewrite_lines_frame [OF ks [OF nlw]] obtain i l v where f: "l = split_on nl content ! i"
    "i < length (split_on nl content)" "status_value l = Some v"
    "split_on nl c = (split_on nl content)[i := set_value l v w]" by blast
  have short: "list_all (\<lambda>l. length l + length w < max_token) (split_on nl content)"
    using plain by (simp add: plain_ticket_def)
  then have "length l + length w < max_token" using f(1,2) by (simp add: list_all_length)
  then have "length (set_value l v w) < max_token"
    using set_value_length [OF f(3), of w] by linarith
  moreover have "\<forall>l\<in>set (split_on nl content). length l < max_token"
    using short by (auto simp: list_all_iff)
  ultimately have "\<forall>l\<in>set (split_on nl c). length l < max_token"
    unfolding f(4) using set_update_subset_insert by fastforce
  then have short': "list_all (\<lambda>l. length l < max_token) js"
    using closed_lines_set [OF js] cb(2) by (auto simp: list_all_iff)
  have "list_all (\<lambda>k. nl \<notin> set k) js"
    using closed_lines_set [OF js] cb(1) split_on_no_sep by (fastforce simp: list_all_iff)
  then have "split_on nl (join [nl] js) = js"
    using closed_lines_set [OF js] split_join_lines by blast
  then have lines: "split_on nl updated = js" using up closed_lines_set [OF js] by (cases ch') auto
  have vt: "list_all (\<lambda>l. CHR 0x0B \<notin> set l) (split_on nl content)"
    using plain unfolding plain_ticket_def list_all_iff by (metis join_split_on set_join_mem)
  have "\<not> has_status empty_head" by (simp add: empty_head_def)
  from status_lines_after [OF ks [OF nlw] w this vt js] show ?thesis
    using short' by (simp add: parse_all_lines lines)
qed

lemma same_status_lands:
  assumes run: "same_status verb reason opts (issuesStatusDependencies env git dir locked walk) res (sound_fsys m) g
      = (Inr (res', c), fs', g')"
    and "\<not> noop res'"
  shows "\<exists>m'. fs' = sound_fsys m' \<and> (\<forall>p. \<not> index_path (issues_dir dir) p \<longrightarrow> m' p = m p)
    \<and> new_status res' = new_status res \<and> res_file res' = res_file res"
proof -
  obtain u fs1 where u: "UpdateIssuesReadme locked (issues_dir dir) walk (sound_fsys m) = (u, fs1)" by fastforce
  have "fs' = fs1 \<and> new_status res' = new_status res \<and> res_file res' = res_file res"
    using assms
    by (auto simp: same_status_def u issuesStatusDependencies_def Let_def split: if_splits sum.splits prod.splits)
  with update_frame [OF u] show ?thesis by blast
qed

lemma write_status_lands:
  assumes run: "write_status verb reason opts (issuesStatusDependencies env git dir locked walk) path new res (sound_fsys m) g
      = (Inr (res', c), fs', g')"
  shows "\<exists>m'. fs' = sound_fsys m' \<and> (\<forall>p. \<not> index_path (issues_dir dir) p \<longrightarrow> m' p = (m(path \<mapsto> new)) p)
    \<and> new_status res' = new_status res \<and> res_file res' = res_file res"
proof -
  obtain u fs1 where u: "UpdateIssuesReadme locked (issues_dir dir) walk (sound_fsys (m(path \<mapsto> new))) = (u, fs1)" by fastforce
  have "fs' = fs1 \<and> new_status res' = new_status res \<and> res_file res' = res_file res"
    using assms by (auto simp: write_status_def u Let_def split: if_splits sum.splits prod.splits)
  with update_frame [OF u] show ?thesis by blast
qed

lemma checked_flag: "check_status ops path content new res fs = (Inr (res', c), fs') \<Longrightarrow> c"
  by (auto simp: check_status_def split: option.splits prod.splits sum.splits)

lemma target_status:
  assumes "ticket_target verb new0 amend fs idir f = Inr (content, old, new)"
  shows "has_status (ParseIssueFileWithPriority content)" "head_status (ParseIssueFileWithPriority content) = old"
    "new = new0 \<or> closing verb \<and> new = old"
  using assms
  by (auto simp: ticket_target_def ParseIssueFile_def CloseStatus_def Let_def split: sum.splits option.splits if_splits)

text \<open>C28. A status command that reports a change has made it: the ticket file then parses to a status
  line that reads exactly as reported, and the tracker files it under the category of the verb.\<close>

theorem status_change_lands:
  assumes run: "ApplyStatus env walk verb arg reason opts
      (issuesStatusDependencies env git (opt_dir opts) locked walk) (sound_fsys m) g = (Inr (res, False), fs', g')"
    and moved: "\<not> noop res"
    and reason: "readable_reason verb (trim_space reason)" and w: "writable_status (new_status res)"
    and before: "m (issue_path (opt_dir opts) (res_file res)) = Some content"
    and plain: "plain_ticket (length (new_status res)) content"
    and line: "nl \<notin> set (closed_by_text (closed_by_model opts) (closed_by_session opts))"
      "length (closed_by_text (closed_by_model opts) (closed_by_session opts)) < max_token"
  shows "\<exists>after. contents fs' (issue_path (opt_dir opts) (res_file res)) = Some after
    \<and> has_status (ParseIssueFileWithPriority after) \<and> head_status (ParseIssueFileWithPriority after) = new_status res
    \<and> CanonicalizeStatus (new_status res) = verb_category verb"
proof -
  let ?idir = "issues_dir (opt_dir opts)" and ?ops = "issuesStatusDependencies env git (opt_dir opts) locked walk"
  from run obtain new0 where comp: "ComposeStatus verb (trim_space reason) = Inr new0"
    by (auto simp: ApplyStatus_def Let_def split: sum.splits)
  with run obtain f where f: "FindTicketFile (sound_fsys m) ?idir walk arg = Inr f"
    by (auto simp: ApplyStatus_def Let_def split: sum.splits)
  with run comp obtain content' old new where
    t: "ticket_target verb new0 (amend_reason opts) (sound_fsys m) ?idir f = Inr (content', old, new)"
    by (auto simp: ApplyStatus_def Let_def split: sum.splits)
  let ?res = "new_result f old new" and ?path = "issue_path ?idir (rel_path f)"
  have stay: "\<not> (closing verb \<and> old = new)"
    using run moved by (auto simp: ApplyStatus_def Let_def comp f t)
  then have new: "new = new0" using target_status(3) [OF t] by auto
  have cat: "CanonicalizeStatus new = verb_category verb" using composed_category [OF comp reason] new by simp
  have end_cases: "(Inr (res, False), fs', g') = same_status verb (trim_space reason) opts ?ops ?res (sound_fsys m) g \<and> old = new
    \<or> (\<exists>updated. rewritten_ticket verb opts content' new = Inr updated
        \<and> (Inr (res, False), fs', g') = write_status verb (trim_space reason) opts ?ops ?path updated ?res (sound_fsys m) g)"
    using run stay
    by (auto simp: ApplyStatus_def Let_def comp f t dest: checked_flag
        split: option.splits if_splits sum.splits prod.splits)
  have path: "issue_path (opt_dir opts) (''issues/'' @ rel_path f) = ?path"
    by (simp add: issue_path_def issues_dir_def)
  have out: "\<not> index_path ?idir ?path" using found_ticket [OF f] .
  have mc: "m ?path = Some content'" using ticket_target_content [OF t] .
  from end_cases show ?thesis
  proof (elim disjE conjE exE)
    assume s: "(Inr (res, False), fs', g') = same_status verb (trim_space reason) opts ?ops ?res (sound_fsys m) g"
      and "old = new"
    from same_status_lands [OF s [symmetric] moved] obtain m' where m': "fs' = sound_fsys m'" "m' ?path = m ?path"
      and r: "new_status res = new" "res_file res = ''issues/'' @ rel_path f"
      using out by (auto simp: new_result_def)
    with mc target_status(1,2) [OF t] cat path \<open>old = new\<close> show ?thesis by (simp add: sound_fsys_def)
  next
    fix updated
    assume u: "rewritten_ticket verb opts content' new = Inr updated"
      and s: "(Inr (res, False), fs', g') = write_status verb (trim_space reason) opts ?ops ?path updated ?res (sound_fsys m) g"
    from write_status_lands [OF s [symmetric]] obtain m' where m': "fs' = sound_fsys m'" "m' ?path = Some updated"
      and r: "new_status res = new" "res_file res = ''issues/'' @ rel_path f"
      using out by (auto simp: new_result_def)
    have "content' = content" using before r(2) path mc by simp
    with rewritten_status [OF u _ _ line] w plain r(1)
    have "has_status (ParseIssueFileWithPriority updated) \<and> head_status (ParseIssueFileWithPriority updated) = new" by simp
    with m' r cat path show ?thesis by (simp add: sound_fsys_def)
  qed
qed

section \<open>A run\<close>

text \<open>One open ticket in a team repository whose default branch is protected and checked out.\<close>

definition start_path :: string where "start_path = ''r/issues/007-fix.md''"

definition start_map :: "string \<Rightarrow> string option" where
  "start_map = (\<lambda>p. if p = start_path then Some fix_ticket else if p = repo_yaml ''r'' then Some ''y'' else None)"

definition started :: string where
  "started = ''# 007 - Fix'' @ [nl, nl] @ ''**Status**: In Progress'' @ [nl]"

definition protected_env :: flow_env where
  "protected_env = \<lparr>flow_yaml = (\<lambda>_. Some [(''mode'', YStr ''team''), (''protected_main'', YBool True)]),
     flow_view = \<lparr>origin_head = None, head_ref = Some ''main'', in_repo = True\<rparr>\<rparr>"

definition idle_git :: "unit git_ops" where
  "idle_git = \<lparr>ls_files = (\<lambda>_ _. Some []), git_add = (\<lambda>_ _ g. (None, g)), git_commit = (\<lambda>_ _ _ g. (None, g)),
     short_head = (\<lambda>_. Some ''abc''), porcelain = (\<lambda>_ _ _. Some []), log_all = (\<lambda>_. Some []),
     diff_tree = (\<lambda>_ _ _. Some []), resolve_commit = (\<lambda>_ _. None)\<rparr>"

definition plain_opts :: "bool \<Rightarrow> status_opts" where
  "plain_opts skip = \<lparr>opt_dir = ''r'', commit_msg = [], closed_by_model = [], closed_by_session = [],
     opt_check = False, no_commit = skip, amend_reason = False, no_code = False, implemented_by = []\<rparr>"

definition start_ticket :: issue_file where
  "start_ticket = issue_of ''007'' ''007-fix.md'' fix_ticket"

lemma start_dir: "issues_dir ''r'' = ''r/issues''" "issue_path ''r/issues'' ''007-fix.md'' = start_path"
  by (simp_all add: issues_dir_def issue_path_def start_path_def)

lemma protected_refuses: "guard_commit protected_env (sound_fsys m) ''r'' action \<noteq> None" if "m (repo_yaml ''r'') = Some ''y''"
proof -
  have "load_bytes (flow_yaml protected_env) ''y'' = Inr \<lparr>flow_mode = ModeTeam, protected_main = True, default_branch = []\<rparr>"
    by code_simp
  moreover have "\<not> unprotected_head (flow_view protected_env) \<lparr>flow_mode = ModeTeam, protected_main = True, default_branch = []\<rparr>"
    by code_simp
  ultimately show ?thesis
    using guard_commit_passes [of "flow_yaml protected_env" "sound_fsys m" "flow_view protected_env" "''r''" action] that
    by (simp add: guard_commit_def load_flow_def)
qed

lemma ticket_heads:
  "ParseIssueFileWithPriority fix_ticket
    = \<lparr>head_title = ''007 - Fix'', head_status = ''Open'', head_priority = [], has_status = True\<rparr>"
  "ParseIssueFileWithPriority started
    = \<lparr>head_title = ''007 - Fix'', head_status = ''In Progress'', head_priority = [], has_status = True\<rparr>"
proof -
  show "ParseIssueFileWithPriority fix_ticket
      = \<lparr>head_title = ''007 - Fix'', head_status = ''Open'', head_priority = [], has_status = True\<rparr>"
    by (subst parse_all_lines) (simp add: fix_ticket_def max_token_def, code_simp)
  show "ParseIssueFileWithPriority started
      = \<lparr>head_title = ''007 - Fix'', head_status = ''In Progress'', head_priority = [], has_status = True\<rparr>"
    by (subst parse_all_lines) (simp add: started_def max_token_def, code_simp)
qed

lemma start_scan:
  assumes "m start_path = Some content"
  shows "Scan (sound_fsys m) ''r/issues'' (Some [''007-fix.md'']) = Inr [issue_of ''007'' ''007-fix.md'' content]"
proof -
  have t: "ticket_number (base_name ''007-fix.md'') = Some ''007''" "walked ''007-fix.md''" by code_simp+
  show ?thesis using assms by (simp add: Scan_def t start_dir map_inr_def sort_issues_def)
qed

lemma start_found:
  "FindTicketFile (sound_fsys start_map) ''r/issues'' (Some [''007-fix.md'']) ''7'' = Inr start_ticket"
proof -
  have n: "NormalizeID (trim_space ''7'') = Some ''007''" by code_simp
  have "start_map start_path = Some fix_ticket" by (simp add: start_map_def)
  with start_scan [where m = start_map and content = fix_ticket] show ?thesis
    by (simp add: FindTicketFile_def n unique_issue_def start_ticket_def issue_of_def Let_def)
qed

lemma start_target:
  "ticket_target ''start'' ''In Progress'' False (sound_fsys start_map) ''r/issues'' start_ticket
    = Inr (fix_ticket, ''Open'', ''In Progress'')"
proof -
  have r: "rel_path start_ticket = ''007-fix.md''" by (simp add: start_ticket_def issue_of_def Let_def)
  have v: "ValidateLifecycleTransition ''start'' ''Open'' = None"
    "CloseStatus ''start'' ''Open'' ''In Progress'' False = Some ''In Progress''" by code_simp+
  show ?thesis
    by (simp add: ticket_target_def r start_dir start_map_def ParseIssueFile_def ticket_heads v Let_def)
qed

lemma start_rewritten: "rewritten_ticket ''start'' (plain_opts b) fix_ticket ''In Progress'' = Inr started"
  by (cases b) code_simp+

lemma start_composed: "ComposeStatus ''start'' (trim_space []) = Inr ''In Progress''"
  "ComposeStatus ''start'' (trim_space (join '' '' [])) = Inr ''In Progress''"
  by code_simp+

definition started_table :: string where
  "started_table = issuesTableHeader @ lf @ table_separator @ lf
     @ ''| 007 | [007-fix.md](007-fix.md) | Fix | In Progress |'' @ lf"

lemma start_updates:
  "\<exists>m'. UpdateIssuesReadme True ''r/issues'' (Some [''007-fix.md'']) (sound_fsys (start_map(start_path \<mapsto> started)))
      = (Inr True, sound_fsys m') \<and> (\<forall>p. \<not> index_path ''r/issues'' p \<longrightarrow> m' p = (start_map(start_path \<mapsto> started)) p)"
proof -
  let ?m = "start_map(start_path \<mapsto> started)" and ?f = "issue_of ''007'' ''007-fix.md'' started"
  have nf: "no_faults (sound_fsys ?m)" by (simp add: no_faults_def sound_fsys_def)
  have c: "CanonicalizeStatus ''In Progress'' = CatOpen" "StripTicketNumber ''007 - Fix'' = ''Fix''"
    "escape_bars ''Fix'' = ''Fix''" "escape_bars ''In Progress'' = ''In Progress''"
    by code_simp+
  have i: "inumber ?f = ''007''" "rel_path ?f = ''007-fix.md''" "ititle ?f = ''007 - Fix''"
    "raw_status ?f = ''In Progress''" "canonical ?f = CatOpen"
    by (simp_all add: issue_of_def Let_def ticket_heads c)
  have "Scan (sound_fsys ?m) ''r/issues'' (Some [''007-fix.md'']) = Inr [?f]"
    by (rule start_scan) simp
  then have t: "IssuesTable (sound_fsys ?m) ''r/issues'' (Some [''007-fix.md'']) = Inr started_table"
    by (simp add: IssuesTable_def map_inr_def renderIssueTable_def active_issue_def issue_row_def i c started_table_def
        del: fun_upd_apply)
  have r: "case render_readme default_readme started_table of Inl _ \<Rightarrow> False | Inr new \<Rightarrow> new \<noteq> default_readme"
    by code_simp
  then obtain new where n: "render_readme default_readme started_table = Inr new" "new \<noteq> default_readme"
    by (auto split: sum.splits)
  have o': "file_text (sound_fsys ?m) (issue_path ''r/issues'' ''README.md'') default_readme = default_readme"
    by (simp add: file_text_def start_map_def issue_path_def start_path_def repo_yaml_def)
  obtain fs' where u: "UpdateIssuesReadme True ''r/issues'' (Some [''007-fix.md'']) (sound_fsys ?m) = (Inr True, fs')"
    using update_total [OF nf t] n by (auto simp: o')
  with update_frame [OF u] show ?thesis by blast
qed

text \<open>Started without a commit, the ticket is rewritten.\<close>

lemma start_run:
  "\<exists>m'. ApplyStatus protected_env (Some [''007-fix.md'']) ''start'' ''7'' [] (plain_opts True)
      (issuesStatusDependencies protected_env idle_git (opt_dir (plain_opts True)) True (Some [''007-fix.md'']))
      (sound_fsys start_map) ()
    = (Inr ((new_result start_ticket ''Open'' ''In Progress'')\<lparr>readme_updated := True\<rparr>, False), sound_fsys m', ())"
proof -
  have r: "rel_path start_ticket = ''007-fix.md''" by (simp add: start_ticket_def issue_of_def Let_def)
  have d: "opt_dir (plain_opts True) = ''r''" "opt_check (plain_opts True) = False" "no_commit (plain_opts True) = True"
    "amend_reason (plain_opts True) = False" "closing ''start'' = False"
    by (simp_all add: plain_opts_def closing_def)
  from start_updates obtain m' where u: "UpdateIssuesReadme True ''r/issues'' (Some [''007-fix.md''])
      (sound_fsys (start_map(start_path \<mapsto> started))) = (Inr True, sound_fsys m')" by blast
  show ?thesis
    by (intro exI [of _ m'])
      (simp add: ApplyStatus_def start_composed start_found start_target start_rewritten start_dir d r
        write_status_def u Let_def del: fun_upd_apply)
qed

lemma status_change_lands_witness:
  "case ApplyStatus protected_env (Some [''007-fix.md'']) ''start'' ''7'' [] (plain_opts True)
      (issuesStatusDependencies protected_env idle_git (opt_dir (plain_opts True)) True (Some [''007-fix.md'']))
      (sound_fsys start_map) () of
     (Inl _, _) \<Rightarrow> False
   | (Inr _, fs', _) \<Rightarrow> \<exists>after. contents fs' start_path = Some after
       \<and> head_status (ParseIssueFileWithPriority after) = ''In Progress'' \<and> CanonicalizeStatus ''In Progress'' = CatOpen"
proof -
  let ?res = "(new_result start_ticket ''Open'' ''In Progress'')\<lparr>readme_updated := True\<rparr>"
  from start_run obtain m' where run: "ApplyStatus protected_env (Some [''007-fix.md'']) ''start'' ''7'' [] (plain_opts True)
      (issuesStatusDependencies protected_env idle_git (opt_dir (plain_opts True)) True (Some [''007-fix.md'']))
      (sound_fsys start_map) () = (Inr (?res, False), sound_fsys m', ())" by blast
  have f: "noop ?res = False" "new_status ?res = ''In Progress''" "res_file ?res = ''issues/007-fix.md''"
    by (simp_all add: new_result_def start_ticket_def issue_of_def Let_def)
  have d: "opt_dir (plain_opts True) = ''r''" "closed_by_model (plain_opts True) = []" "closed_by_session (plain_opts True) = []"
    by (simp_all add: plain_opts_def)
  have p: "issue_path ''r'' ''issues/007-fix.md'' = start_path" by (simp add: issue_path_def start_path_def)
  have rr: "readable_reason ''start'' (trim_space [])" by (simp add: readable_reason_def)
  have w: "writable_status ''In Progress''" by code_simp
  have pl: "plain_ticket (length ''In Progress'') fix_ticket" by (simp add: plain_ticket_def fix_ticket_def max_token_def)
  have v: "verb_category ''start'' = CatOpen" by (simp add: verb_category_def closing_def)
  have m: "start_map start_path = Some fix_ticket" by (simp add: start_map_def)
  have "\<exists>after. contents (sound_fsys m') start_path = Some after \<and> has_status (ParseIssueFileWithPriority after)
      \<and> head_status (ParseIssueFileWithPriority after) = ''In Progress''
      \<and> CanonicalizeStatus ''In Progress'' = verb_category ''start''"
    using status_change_lands [OF run, unfolded f d p, OF _ rr w m pl]
    by (simp add: closed_by_text_def max_token_def)
  then show ?thesis unfolding run v by auto
qed

lemma refused_status_writes_nothing_witness:
  "snd (ApplyStatus protected_env (Some [''007-fix.md'']) ''start'' ''7'' [] (plain_opts False)
      (issuesStatusDependencies protected_env idle_git ''r'' True (Some [''007-fix.md''])) (sound_fsys start_map) ())
    = (sound_fsys start_map, ())"
proof -
  have "start_map (repo_yaml ''r'') = Some ''y''" by (simp add: start_map_def start_path_def repo_yaml_def)
  then have g: "guard_commit protected_env (sound_fsys start_map) (opt_dir (plain_opts False)) [] \<noteq> None"
    using protected_refuses by (simp add: plain_opts_def)
  show ?thesis by (rule refused_status_writes_nothing [OF g]) (simp_all add: plain_opts_def)
qed

text \<open>The same change as a batch meets the guard after the ticket is written.\<close>

lemma start_batch:
  "\<exists>e m'. ApplyStatusBatch (Some [''007-fix.md'']) ''start'' [''7''] [] (plain_opts False)
      (issuesStatusDependencies protected_env idle_git (opt_dir (plain_opts False)) True (Some [''007-fix.md'']))
      (sound_fsys start_map) () = (Inl (Commit e), sound_fsys m', ())"
proof -
  let ?ops = "issuesStatusDependencies protected_env idle_git ''r'' True (Some [''007-fix.md''])"
  have r: "rel_path start_ticket = ''007-fix.md''" by (simp add: start_ticket_def issue_of_def Let_def)
  have d: "opt_dir (plain_opts False) = ''r''" "opt_check (plain_opts False) = False" "no_commit (plain_opts False) = False"
    "amend_reason (plain_opts False) = False" "closing ''start'' = False"
    by (simp_all add: plain_opts_def closing_def)
  from start_updates obtain m' where u: "UpdateIssuesReadme True ''r/issues'' (Some [''007-fix.md''])
      (sound_fsys (start_map(start_path \<mapsto> started))) = (Inr True, sound_fsys m')"
    and fr: "\<And>p. \<not> index_path ''r/issues'' p \<Longrightarrow> m' p = (start_map(start_path \<mapsto> started)) p" by blast
  have "\<not> index_path ''r/issues'' (repo_yaml ''r'')"
    by (simp add: index_path_def index_names_def issue_path_def repo_yaml_def)
  from fr [OF this] have "m' (repo_yaml ''r'') = Some ''y''"
    by (simp add: start_map_def start_path_def repo_yaml_def)
  then obtain e where g: "guard_commit protected_env (sound_fsys m') ''r'' ''commit'' = Some e"
    using protected_refuses by blast
  have sn: "\<exists>s. snapshotIssueIndexes (sound_fsys m) idir = Some s" for m idir
    by (simp add: snapshotIssueIndexes_def index_names_def split: option.split)
  then obtain s where s: "snapshotIssueIndexes (sound_fsys start_map) ''r/issues'' = Some s" by blast
  let ?t = "\<lparr>tgt_path = start_path, tgt_old = fix_ticket, tgt_new = started,
      tgt_result = (new_result start_ticket ''Open'' ''In Progress'')\<lparr>noop := False\<rparr>\<rparr>"
  have ts: "batch_targets ''start'' ''In Progress'' (plain_opts False) (sound_fsys start_map) ''r/issues'' (Some [''007-fix.md'']) [] [''7'']
      = Inr [?t]"
    by (simp add: start_found start_target start_rewritten d r start_dir map_inr_def)
  have ch: "filter changed_target [?t] = [?t]" by (simp add: changed_target_def)
  have "write_batch ''start'' (trim_space (join '' '' [])) (plain_opts False) ?ops [?t] (sound_fsys start_map) ()
      = (Inl (Commit (CommitGuard e)), sound_fsys m', ())"
    by (simp add: write_batch_def start_dir s ch u d commit_batch_def gitAddAndCommit_def g Let_def del: fun_upd_apply filter.simps)
  then show ?thesis
    by (intro exI [of _ "CommitGuard e"] exI [of _ m'])
      (simp add: ApplyStatusBatch_def start_composed d start_dir ts ch Let_def del: filter.simps batch_targets.simps)
qed


end
