(* ===== verification/Renumber.thy ===== *)
theory Renumber
  imports TicketOps Utf8
begin

text \<open>
  Renumbering tickets whose numbers collide after a merge or a rebase: the references to a moved
  ticket (\<open>internal/issues/references.go\<close>), the plan of new numbers, the file transaction of
  \<open>internal/issues/maintenance/rebase.go\<close> and the whole of \<open>reconcile.go\<close>.

  The Unicode class of letters and numbers is a predicate on the bytes of a rune, used above ASCII. Git
  is a record of functions over a repository state \<open>'g\<close>. File modes are not modelled. The lint that runs
  after the commit is a verdict.
\<close>

section \<open>References\<close>

definition ref_byte :: "char \<Rightarrow> bool" where
  "ref_byte c \<longleftrightarrow> is_digit c \<or> (65 \<le> byte c \<and> byte c \<le> 90) \<or> (97 \<le> byte c \<and> byte c \<le> 122)
     \<or> c \<in> set ''_./-''"

text \<open>The rune at the front of a text belongs to the class \<open>[\pL\pN_./-]\<close>.\<close>

definition ref_rune :: "(string \<Rightarrow> bool) \<Rightarrow> string \<Rightarrow> bool" where
  "ref_rune letter s =
     (case s of [] \<Rightarrow> False
      | c # _ \<Rightarrow> if byte c < 0x80 then ref_byte c
                 else (case rune_size s of Some k \<Rightarrow> letter (take k s) | None \<Rightarrow> False))"

function replace_tokens :: "(string \<Rightarrow> bool) \<Rightarrow> (string \<Rightarrow> string) \<Rightarrow> string \<Rightarrow> string \<Rightarrow> string" where
  "replace_tokens letter f tok [] = (if tok = [] then [] else f tok)"
| "replace_tokens letter f tok (c # cs) =
     (let k = rune_width (c # cs)
      in if ref_rune letter (c # cs) then replace_tokens letter f (tok @ take k (c # cs)) (drop k (c # cs))
         else (if tok = [] then [] else f tok) @ take k (c # cs) @ replace_tokens letter f [] (drop k (c # cs)))"
  by pat_completeness auto

termination
proof (relation "measure (\<lambda>(_, _, _, s). length s)", goal_cases)
  case (2 letter f tok c cs k)
  then show ?case using rune_width_pos [of "c # cs"] by simp
next
  case (3 letter f tok c cs k)
  then show ?case using rune_width_pos [of "c # cs"] by simp
qed simp

fun strip_up :: "string \<Rightarrow> string" where
  "strip_up (a # b # c # s) = (if [a, b, c] = ''../'' then strip_up s else a # b # c # s)"
| "strip_up s = s"

definition rewrite_token :: "string \<Rightarrow> string \<Rightarrow> string \<Rightarrow> string" where
  "rewrite_token old new match =
     (let name = trim_right match ''.''; punctuation = trim_prefix match name
      in if name = base_name old then base_name new @ punctuation
         else if trim_prefix (strip_up name) ''./'' = old then trim_suffix name old @ new @ punctuation
         else match)"

definition RewriteReferences :: "(string \<Rightarrow> bool) \<Rightarrow> string \<Rightarrow> string \<Rightarrow> string \<Rightarrow> string" where
  "RewriteReferences letter content old new = replace_tokens letter (rewrite_token old new) [] content"

record ref_edit =
  edit_path :: string
  edit_before :: string
  edit_after :: string

function utf8_valid :: "string \<Rightarrow> bool" where
  "utf8_valid [] = True"
| "utf8_valid (c # cs) = (rune_size (c # cs) \<noteq> None \<and> utf8_valid (drop (rune_width (c # cs)) (c # cs)))"
  by pat_completeness auto

termination
proof (relation "measure length")
  fix c :: char and cs
  show "(drop (rune_width (c # cs)) (c # cs), c # cs) \<in> measure length"
    using rune_width_pos [of "c # cs"] by simp
qed simp

text \<open>The regular files below \<open>issues\<close> and \<open>docs\<close>, in walk order, as paths relative to the project; a
  missing directory has none.\<close>

fun plan_files :: "(string \<Rightarrow> bool) \<Rightarrow> fsys \<Rightarrow> string \<Rightarrow> string \<Rightarrow> string \<Rightarrow> string list \<Rightarrow> fserr + ref_edit list" where
  "plan_files letter fs dir old new [] = Inr []"
| "plan_files letter fs dir old new (p # ps) =
     (if p = old then plan_files letter fs dir old new ps
      else case read_file fs (issue_path dir p) of
             Inl err \<Rightarrow> Inl err
           | Inr before \<Rightarrow>
               let after = RewriteReferences letter before old new
               in if \<not> utf8_valid before \<or> CHR 0x00 \<in> set before \<or> after = before
                  then plan_files letter fs dir old new ps
                  else map_inr ((#) \<lparr>edit_path = p, edit_before = before, edit_after = after\<rparr>)
                         (plan_files letter fs dir old new ps))"

definition PlanReferences ::
  "(string \<Rightarrow> bool) \<Rightarrow> (fsys \<Rightarrow> string list) \<Rightarrow> fsys \<Rightarrow> string \<Rightarrow> string \<Rightarrow> string \<Rightarrow> fserr + ref_edit list" where
  "PlanReferences letter walk fs dir old new = plan_files letter fs dir old new (walk fs)"

fun WriteReferences :: "string \<Rightarrow> bool \<Rightarrow> ref_edit list \<Rightarrow> fsys \<Rightarrow> fserr option \<times> fsys" where
  "WriteReferences dir restore [] fs = (None, fs)"
| "WriteReferences dir restore (e # es) fs =
     (case write_file fs (issue_path dir (edit_path e)) (if restore then edit_before e else edit_after e) of
        (Some err, fs') \<Rightarrow> (Some err, fs')
      | (None, fs') \<Rightarrow> WriteReferences dir restore es fs')"

section \<open>A rewritten file has no reference left\<close>

function all_ref :: "(string \<Rightarrow> bool) \<Rightarrow> string \<Rightarrow> bool" where
  "all_ref letter [] = True"
| "all_ref letter (c # cs) =
     (ref_rune letter (c # cs) \<and> all_ref letter (drop (rune_width (c # cs)) (c # cs)))"
  by pat_completeness auto

termination
proof (relation "measure (\<lambda>(_, s). length s)")
  fix letter and c :: char and cs
  show "((letter, drop (rune_width (c # cs)) (c # cs)), letter, c # cs) \<in> measure (\<lambda>(_, s). length s)"
    using rune_width_pos [of "c # cs"] by simp
qed simp

lemma ref_rune_size:
  assumes "ref_rune letter s"
  shows "\<exists>k. rune_size s = Some k"
  using assms by (cases s) (auto simp: ref_rune_def split: if_splits option.splits)

lemma rune_front:
  assumes "rune_size s = Some k"
  shows "rune_width (take k s @ x) = k" and "ref_rune letter (take k s @ x) = ref_rune letter s"
    and "take k (take k s @ x) = take k s" "drop k (take k s @ x) = x"
proof -
  obtain c cs where s: "s = c # cs" using assms by (cases s) auto
  have k: "1 \<le> k" "k \<le> length s" using rune_size_range [OF assms] by simp_all
  have "rune_size (take k s @ x) = Some k" by (rule rune_size_append [OF rune_size_take [OF assms]])
  moreover obtain j where "k = Suc j" using k by (cases k) auto
  ultimately show "rune_width (take k s @ x) = k" "ref_rune letter (take k s @ x) = ref_rune letter s"
    using assms k by (auto simp: rune_width_def ref_rune_def s)
  show "take k (take k s @ x) = take k s" "drop k (take k s @ x) = x" using k by simp_all
qed

lemma replace_rune:
  assumes "rune_size s = Some k"
  shows "replace_tokens letter f tok (take k s @ x) =
    (if ref_rune letter s then replace_tokens letter f (tok @ take k s) x
     else (if tok = [] then [] else f tok) @ take k s @ replace_tokens letter f [] x)"
proof -
  obtain d ds where e: "take k s @ x = d # ds"
    using rune_size_range [OF assms] by (cases "take k s @ x") auto
  note r = rune_front [OF assms, where x = x, unfolded e]
  show ?thesis unfolding e by (simp add: Let_def r)
qed

lemma all_ref_rune:
  assumes "rune_size s = Some k"
  shows "all_ref letter (take k s @ x) \<longleftrightarrow> ref_rune letter s \<and> all_ref letter x"
proof -
  obtain d ds where e: "take k s @ x = d # ds"
    using rune_size_range [OF assms] by (cases "take k s @ x") auto
  note r = rune_front [OF assms, where x = x, unfolded e]
  show ?thesis unfolding e by (simp add: r)
qed

lemma width_size: "rune_size s = Some k \<Longrightarrow> rune_width s = k"
  by (simp add: rune_width_def)

lemma all_ref_append:
  assumes "all_ref letter a" and "all_ref letter b"
  shows "all_ref letter (a @ b)"
  using assms
proof (induction letter a rule: all_ref.induct)
  case (2 letter c cs)
  then obtain k where k: "rune_size (c # cs) = Some k" using ref_rune_size [of letter "c # cs"] by auto
  have "(c # cs) @ b = take k (c # cs) @ (drop k (c # cs) @ b)" by (metis append.assoc append_take_drop_id)
  moreover have "all_ref letter (take k (c # cs) @ (drop k (c # cs) @ b))"
    using 2 k by (simp only: all_ref_rune [OF k]) (simp add: width_size [OF k])
  ultimately show ?case by (simp only:)
qed simp

lemma replace_all_ref:
  assumes "all_ref letter t"
  shows "replace_tokens letter f tok (t @ x) = replace_tokens letter f (tok @ t) x"
  using assms
proof (induction letter t arbitrary: tok rule: all_ref.induct)
  case (2 letter c cs)
  then obtain k where k: "rune_size (c # cs) = Some k" using ref_rune_size [of letter "c # cs"] by auto
  let ?r = "take k (c # cs)" and ?d = "drop k (c # cs)"
  have e: "(c # cs) @ x = ?r @ (?d @ x)" by (metis append.assoc append_take_drop_id)
  have "replace_tokens letter f tok (?r @ (?d @ x)) = replace_tokens letter f (tok @ ?r) (?d @ x)"
    using 2 by (simp only: replace_rune [OF k]) simp
  also have "\<dots> = replace_tokens letter f ((tok @ ?r) @ ?d) x"
    using 2 by (simp only: width_size [OF k] all_ref.simps simp_thms)
  also have "(tok @ ?r) @ ?d = tok @ (c # cs)" by (simp only: append.assoc append_take_drop_id)
  finally show ?case by (simp only: e)
qed simp

lemma replace_tokens_step:
  assumes "rune_size s = Some k" and "s \<noteq> []"
  shows "replace_tokens letter f tok s =
    (if ref_rune letter s then replace_tokens letter f (tok @ take k s) (drop k s)
     else (if tok = [] then [] else f tok) @ take k s @ replace_tokens letter f [] (drop k s))"
  using replace_rune [OF assms(1), where x = "drop k s"] by simp

text \<open>Replacing the tokens of the result is replacing the tokens twice.\<close>

lemma replace_twice:
  assumes f: "\<And>t. all_ref letter t \<Longrightarrow> t \<noteq> [] \<Longrightarrow> all_ref letter (f t) \<and> f t \<noteq> []"
    and "all_ref letter tok" and "utf8_valid s"
  shows "replace_tokens letter g [] (replace_tokens letter f tok s) = replace_tokens letter (\<lambda>t. g (f t)) tok s"
  using assms(2,3)
proof (induction s arbitrary: tok rule: utf8_valid.induct)
  case 1
  then show ?case using f [of tok] replace_all_ref [of letter "f tok" g "[]" "[]"] by simp
next
  case (2 c cs)
  obtain k where k: "rune_size (c # cs) = Some k" using 2(3) by auto
  let ?r = "take k (c # cs)" and ?d = "drop k (c # cs)"
  have d: "utf8_valid ?d" using 2(3) k by (simp add: width_size)
  note ih = 2(1) [unfolded width_size [OF k], OF _ d]
  note step = replace_tokens_step [OF k list.distinct(2)]
  show ?case
  proof (cases "ref_rune letter (c # cs)")
    case True
    have "all_ref letter ?r" using True all_ref_rune [OF k, where x = "[]"] by simp
    then have "all_ref letter (tok @ ?r)" using 2(2) all_ref_append by blast
    with True ih show ?thesis by (simp add: step del: replace_tokens.simps)
  next
    case False
    have nil: "replace_tokens letter g [] (replace_tokens letter f [] ?d) = replace_tokens letter (\<lambda>t. g (f t)) [] ?d"
      by (rule ih) simp
    have r: "replace_tokens letter g u (?r @ x) = (if u = [] then [] else g u) @ ?r @ replace_tokens letter g [] x" for u x
      using False by (simp add: replace_rune [OF k] del: replace_tokens.simps)
    show ?thesis
    proof (cases "tok = []")
      case True
      with False nil r show ?thesis by (simp add: step del: replace_tokens.simps)
    next
      case ne: False
      note ft = f [OF 2(2) ne]
      have "replace_tokens letter g [] (f tok @ (?r @ replace_tokens letter f [] ?d))
          = replace_tokens letter g (f tok) (?r @ replace_tokens letter f [] ?d)"
        using replace_all_ref [of letter "f tok" g "[]"] ft by simp
      with ne ft False nil r show ?thesis by (simp add: step del: replace_tokens.simps)
    qed
  qed
qed

lemma replace_cong:
  assumes "\<And>t. all_ref letter t \<Longrightarrow> t \<noteq> [] \<Longrightarrow> f t = g t" and "all_ref letter tok" and "utf8_valid s"
  shows "replace_tokens letter f tok s = replace_tokens letter g tok s"
  using assms(2,3)
proof (induction s arbitrary: tok rule: utf8_valid.induct)
  case 1
  then show ?case using assms(1) [of tok] by simp
next
  case (2 c cs)
  obtain k where k: "rune_size (c # cs) = Some k" using 2(3) by auto
  let ?r = "take k (c # cs)" and ?d = "drop k (c # cs)"
  have d: "utf8_valid ?d" using 2(3) k by (simp add: width_size)
  note ih = 2(1) [unfolded width_size [OF k], OF _ d]
  note step = replace_tokens_step [OF k list.distinct(2)]
  have "ref_rune letter (c # cs) \<Longrightarrow> all_ref letter (tok @ ?r)"
    using all_ref_rune [OF k, where x = "[]"] 2(2) all_ref_append [of letter tok ?r] by simp
  then show ?case using ih [of "tok @ ?r"] ih [of "[]"] assms(1) [OF 2(2)]
    by (simp add: step del: replace_tokens.simps)
qed

text \<open>A path that renumbering writes: below \<open>issues\<close>, of the bytes of a slug, not ending in a period.\<close>

definition ref_target :: "string \<Rightarrow> bool" where
  "ref_target p \<longleftrightarrow> has_prefix p ''issues/'' \<and> list_all ref_byte p \<and> last p \<noteq> CHR ''.'' \<and> last p \<noteq> CHR ''/''"

lemma ref_byte_ascii: "ref_byte c \<Longrightarrow> byte c < 0x80"
  by (auto simp: ref_byte_def is_digit_def byte_def)

lemma all_ref_ascii: "list_all ref_byte s \<Longrightarrow> all_ref letter s"
proof (induction s)
  case (Cons c cs)
  then have b: "byte c < 0x80" "ref_byte c" using ref_byte_ascii by simp_all
  then have "rune_width (c # cs) = 1" by simp
  with b Cons show ?case by (simp add: ref_rune_def)
qed simp

lemma target_base:
  assumes "ref_target p"
  obtains d where "p = d @ CHR ''/'' # base_name p" "CHR ''/'' \<notin> set (base_name p)" "base_name p \<noteq> []"
    "last (base_name p) = last p" "list_all ref_byte (base_name p)"
proof -
  from assms obtain t where t: "p = ''issues/'' @ t" by (auto simp: ref_target_def has_prefix_iff)
  then have mem: "CHR ''/'' \<in> set p" and ne: "p \<noteq> []" by simp_all
  have lp: "last p \<noteq> CHR ''/''" using assms by (simp add: ref_target_def)
  have q: "trim_right p ''/'' = p" using ne lp trim_right_snoc [of "butlast p" "last p" "''/''"] by simp
  obtain k where k: "last_index_of p ''/'' = Some k" using mem last_index_of_None_char by fastforce
  have b: "base_name p = drop (k + 1) p" using ne q k by (simp add: base_name_def)
  have kk: "k < length p" "p ! k = CHR ''/''" using last_index_of_char_Some [OF k] by simp_all
  then have p: "p = take k p @ CHR ''/'' # base_name p" using b id_take_nth_drop [of k p] by simp
  have ns: "CHR ''/'' \<notin> set (base_name p)" using last_index_of_char_tail [OF k] b by simp
  have bn: "base_name p \<noteq> []"
  proof
    assume "base_name p = []"
    with p have "last p = CHR ''/''" by (metis last_snoc)
    with lp show False ..
  qed
  then have "last (base_name p) = last p" using p by (metis last_ConsR last_appendR list.distinct(1))
  moreover have "list_all ref_byte (base_name p)" using assms b by (auto simp: ref_target_def list_all_iff dest: in_set_dropD)
  ultimately show thesis using that p ns bn by blast
qed

lemma strip_up_split: "\<exists>n. s = concat (replicate n ''../'') @ strip_up s"
proof (induction s rule: strip_up.induct)
  case (1 a b c s)
  show ?case
  proof (cases "[a, b, c] = ''../''")
    case True
    then obtain n where "s = concat (replicate n ''../'') @ strip_up s" using 1 by blast
    with True have "a # b # c # s = concat (replicate (Suc n) ''../'') @ strip_up (a # b # c # s)" by simp
    then show ?thesis by blast
  qed (auto intro: exI [of _ 0])
qed (auto intro: exI [of _ 0])

lemma strip_up_ups: "strip_up (concat (replicate n ''../'') @ s) = strip_up s"
  by (induction n) simp_all

lemma strip_up_other: "\<not> has_prefix s ''../'' \<Longrightarrow> strip_up s = s"
  by (cases s rule: strip_up.cases) auto

lemma trim_dots:
  assumes "s \<noteq> []" and "last s \<noteq> CHR ''.''" and "set q \<subseteq> {CHR ''.''}"
  shows "trim_right (s @ q) ''.'' = s"
proof -
  have "trim_right s ''.'' = s" using assms(1,2) trim_right_snoc [of "butlast s" "last s" "''.''"] by simp
  with assms(3) show ?thesis by (simp add: trim_right_append_cutset)
qed

lemma rewrite_token_settles:
  assumes old: "ref_target old" and new: "ref_target new" and ne: "base_name old \<noteq> base_name new"
    and t: "all_ref letter t" "t \<noteq> []"
  shows "all_ref letter (rewrite_token old new t) \<and> rewrite_token old new t \<noteq> []
    \<and> rewrite_token old new (rewrite_token old new t) = rewrite_token old new t"
proof -
  obtain d where o': "old = d @ CHR ''/'' # base_name old" "CHR ''/'' \<notin> set (base_name old)" by (rule target_base [OF old])
  obtain e where n': "new = e @ CHR ''/'' # base_name new" "CHR ''/'' \<notin> set (base_name new)" "base_name new \<noteq> []"
    "last (base_name new) = last new" "list_all ref_byte (base_name new)" by (rule target_base [OF new])
  define name where "name = trim_right t ''.''"
  obtain q where q: "t = name @ q" "set q \<subseteq> {CHR ''.''}" using trim_right_split [of t "''.''"] by (auto simp: name_def)
  have pun: "trim_prefix t name = q" by (simp add: q)
  have dots: "list_all ref_byte q" using q(2) by (auto simp: list_all_iff ref_byte_def)
  have ln: "last new \<noteq> CHR ''.''" "new \<noteq> []" using new by (auto simp: ref_target_def)
  have f: "rewrite_token old new t =
      (if name = base_name old then base_name new @ q
       else if trim_prefix (strip_up name) ''./'' = old then trim_suffix name old @ new @ q else t)"
    by (simp only: rewrite_token_def name_def [symmetric] pun Let_def)
  consider (base) "name = base_name old" | (path) "name \<noteq> base_name old" "trim_prefix (strip_up name) ''./'' = old"
    | (other) "name \<noteq> base_name old" "trim_prefix (strip_up name) ''./'' \<noteq> old" by blast
  then show ?thesis
  proof cases
    case base
    have nm: "trim_right (base_name new @ q) ''.'' = base_name new" using n' ln q(2) by (intro trim_dots) simp_all
    have "strip_up (base_name new) = base_name new" using n'(2) by (intro strip_up_other) (auto simp: has_prefix_iff)
    moreover have "trim_prefix (base_name new) ''./'' = base_name new" using n'(2) by (auto simp: trim_prefix_def has_prefix_iff)
    moreover have "base_name new \<noteq> old" using o'(1) n'(2) by (metis in_set_conv_decomp)
    ultimately have "rewrite_token old new (base_name new @ q) = base_name new @ q"
      using ne by (simp add: rewrite_token_def nm Let_def)
    with base f n' dots show ?thesis by (simp add: all_ref_ascii)
  next
    case path
    obtain k where k: "name = concat (replicate k ''../'') @ strip_up name" using strip_up_split by blast
    define u where "u = concat (replicate k ''../'')"
    define x where "x = (if has_prefix (strip_up name) ''./'' then ''./'' else [])"
    have "strip_up name = x @ old" using path(2) by (auto simp: x_def trim_prefix_def has_prefix_iff split: if_splits)
    with k have name: "name = u @ x @ old" by (simp add: u_def)
    have ft: "rewrite_token old new t = (u @ x @ new) @ q" using f path name trim_suffix_append [of "u @ x" old] by simp
    obtain i where i: "new = ''issues/'' @ i" using new by (auto simp: ref_target_def has_prefix_iff)
    have nm: "trim_right ((u @ x @ new) @ q) ''.'' = u @ x @ new" using ln q(2) by (intro trim_dots) simp_all
    have "strip_up (u @ x @ new) = strip_up (x @ new)" by (simp add: u_def strip_up_ups)
    also have "\<dots> = x @ new" by (rule strip_up_other) (auto simp: i x_def)
    finally have st: "trim_prefix (strip_up (u @ x @ new)) ''./'' = new" by (auto simp: i x_def trim_prefix_def)
    have "CHR ''/'' \<in> set (u @ x @ new)" by (simp add: i)
    then have nb: "u @ x @ new \<noteq> base_name old" using o'(2) by metis
    have no: "new \<noteq> old" using ne by blast
    have "rewrite_token old new ((u @ x @ new) @ q) = (u @ x @ new) @ q"
      using nb no by (simp only: rewrite_token_def nm Let_def st if_False)
    moreover have "list_all ref_byte ((u @ x @ new) @ q)"
      using new dots by (auto simp: ref_target_def u_def x_def list_all_iff ref_byte_def)
    ultimately show ?thesis unfolding ft using ln by (simp add: all_ref_ascii)
  next
    case other
    with f t show ?thesis by simp
  qed
qed

lemma refs_idem:
  assumes "ref_target old" and "ref_target new" and "base_name old \<noteq> base_name new" and "utf8_valid s"
  shows "RewriteReferences letter (RewriteReferences letter s old new) old new = RewriteReferences letter s old new"
proof -
  note f = rewrite_token_settles [OF assms(1-3)]
  have "replace_tokens letter (rewrite_token old new) [] (replace_tokens letter (rewrite_token old new) [] s)
      = replace_tokens letter (\<lambda>t. rewrite_token old new (rewrite_token old new t)) [] s"
    using f assms(4) by (intro replace_twice) auto
  also have "\<dots> = replace_tokens letter (rewrite_token old new) [] s"
    using f assms(4) by (intro replace_cong) auto
  finally show ?thesis by (simp add: RewriteReferences_def)
qed

lemma issue_path_inj [simp]: "issue_path dir p = issue_path dir q \<longleftrightarrow> p = q"
  by (simp add: issue_path_def)

lemma write_references_sound:
  "WriteReferences dir restore es (sound_fsys m) =
    (None, sound_fsys (foldl (\<lambda>m e. m(issue_path dir (edit_path e) \<mapsto> if restore then edit_before e else edit_after e)) m es))"
  by (induction es arbitrary: m) simp_all

lemma plan_files_all:
  assumes "plan_files letter (sound_fsys m) dir old new ps = Inr es"
  shows "list_all (\<lambda>e. edit_path e \<noteq> old \<and> m (issue_path dir (edit_path e)) = Some (edit_before e)
    \<and> edit_after e = RewriteReferences letter (edit_before e) old new \<and> utf8_valid (edit_before e)) es"
  using assms
  by (induction ps arbitrary: es)
    (auto simp: Let_def map_inr_def split: if_splits option.splits sum.splits)

lemma plan_files_edits:
  assumes "plan_files letter (sound_fsys m) dir old new ps = Inr es" and "e \<in> set es"
  shows "edit_path e \<noteq> old \<and> m (issue_path dir (edit_path e)) = Some (edit_before e)
    \<and> edit_after e = RewriteReferences letter (edit_before e) old new \<and> utf8_valid (edit_before e)"
  using plan_files_all [OF assms(1)] assms(2) by (simp add: list_all_iff)

lemma plan_files_missed:
  assumes "plan_files letter (sound_fsys m) dir old new ps = Inr es" and "p \<in> set ps" and "p \<noteq> old"
    and "m (issue_path dir p) = Some b" and "p \<notin> edit_path ` set es"
  shows "RewriteReferences letter b old new = b \<or> \<not> utf8_valid b \<or> CHR 0x00 \<in> set b"
  using assms
  by (induction ps arbitrary: es) (auto simp: Let_def map_inr_def split: if_splits option.splits sum.splits)

lemma plan_files_nothing:
  assumes "\<And>p. p \<in> set ps \<Longrightarrow> p \<noteq> old \<Longrightarrow> \<exists>b. m (issue_path dir p) = Some b
    \<and> (RewriteReferences letter b old new = b \<or> \<not> utf8_valid b \<or> CHR 0x00 \<in> set b)"
  shows "plan_files letter (sound_fsys m) dir old new ps = Inr []"
  using assms
proof (induction ps)
  case (Cons p ps)
  then have "plan_files letter (sound_fsys m) dir old new ps = Inr []" by simp
  with Cons.prems [of p] show ?case by (auto simp: Let_def)
qed simp

lemma plan_files_reads:
  assumes "plan_files letter (sound_fsys m) dir old new ps = Inr es" and "p \<in> set ps" and "p \<noteq> old"
  shows "m (issue_path dir p) \<noteq> None"
  using assms
  by (induction ps arbitrary: es) (auto simp: Let_def map_inr_def split: if_splits option.splits sum.splits)

lemma fold_writes:
  assumes "\<And>e. e \<in> set es \<Longrightarrow> f e = g (edit_path e)"
  shows "foldl (\<lambda>m e. m(issue_path dir (edit_path e) \<mapsto> f e)) m es (issue_path dir p)
    = (if p \<in> edit_path ` set es then Some (g p) else m (issue_path dir p))"
  using assms by (induction es arbitrary: m) auto

text \<open>C34. Rewriting the references to a moved ticket reaches all of them: once the planned edits are
  written, a second plan over the same files finds nothing to rewrite, so an interrupted renumbering can
  plan again.\<close>

theorem references_settle:
  assumes "ref_target old" and "ref_target new" and "base_name old \<noteq> base_name new"
    and "PlanReferences letter (\<lambda>fs. files) (sound_fsys m) dir old new = Inr es"
  shows "fst (WriteReferences dir False es (sound_fsys m)) = None
    \<and> PlanReferences letter (\<lambda>fs. files) (snd (WriteReferences dir False es (sound_fsys m))) dir old new = Inr []"
proof -
  let ?m = "foldl (\<lambda>m e. m(issue_path dir (edit_path e) \<mapsto> edit_after e)) m es"
  define after where "after p = RewriteReferences letter (the (m (issue_path dir p))) old new" for p
  note plan = assms(4) [unfolded PlanReferences_def]
  have ed: "edit_after e = after (edit_path e)" if "e \<in> set es" for e
    using plan_files_edits [OF plan that] by (simp add: after_def)
  have "plan_files letter (sound_fsys ?m) dir old new files = Inr []"
  proof (rule plan_files_nothing)
    fix p assume p: "p \<in> set files" "p \<noteq> old"
    obtain b where b: "m (issue_path dir p) = Some b" using plan_files_reads [OF plan p] by blast
    show "\<exists>b. ?m (issue_path dir p) = Some b
      \<and> (RewriteReferences letter b old new = b \<or> \<not> utf8_valid b \<or> CHR 0x00 \<in> set b)"
    proof (cases "p \<in> edit_path ` set es")
      case True
      then obtain e where e: "e \<in> set es" "edit_path e = p" by blast
      from plan_files_edits [OF plan e(1)] e(2) b have "utf8_valid b" by simp
      then have "RewriteReferences letter (after p) old new = after p"
        using refs_idem [OF assms(1-3)] b by (simp add: after_def)
      with True show ?thesis by (simp add: fold_writes [where f = edit_after and g = after, OF ed])
    next
      case False
      with plan_files_missed [OF plan p b] b show ?thesis by (simp add: fold_writes [where f = edit_after and g = after, OF ed])
    qed
  qed
  then show ?thesis by (simp add: write_references_sound PlanReferences_def)
qed

text \<open>A link to the moved ticket from its own directory or from the archive keeps the old name: only the
  bare file name and the path below the project root are rewritten.\<close>

lemma sibling_links_kept:
  "RewriteReferences (\<lambda>_. False) ''./007-fix.md'' ''issues/007-fix.md'' ''issues/009-fix.md'' = ''./007-fix.md''"
  "RewriteReferences (\<lambda>_. False) ''../007-fix.md'' ''issues/007-fix.md'' ''issues/009-fix.md'' = ''../007-fix.md''"
  by code_simp+

section \<open>Which tickets move, and where to\<close>

definition localTicketNumber :: "string \<Rightarrow> string option" where
  "localTicketNumber path =
     (let b = base_name path; ds = takeWhile is_digit b; rest = dropWhile is_digit b
      in if 3 \<le> length ds \<and> has_prefix rest ''-'' \<and> has_suffix (tl rest) ''.md'' \<and> nl \<notin> set b
         then Some ds else None)"

record owned_ticket =
  own_path :: string
  own_number :: string
  own_theirs :: string

text \<open>\<open>strconv.Atoi\<close> with its error ignored: a number out of range is the largest \<open>int\<close>, anything else
  that does not parse is zero.\<close>

definition atoi_value :: "string \<Rightarrow> int" where
  "atoi_value s = (case atoi s of Some n \<Rightarrow> n | None \<Rightarrow> if all_digits s then 2 ^ 63 - 1 else 0)"

fun split_arrow :: "string \<Rightarrow> string \<Rightarrow> string list" where
  "split_arrow acc [] = [acc]"
| "split_arrow acc (c # cs) =
     (if has_prefix (c # cs) '' -> '' then acc # split_arrow [] (drop 3 cs) else split_arrow (acc @ [c]) cs)"

definition tracker_path :: "string \<Rightarrow> bool" where
  "tracker_path p \<longleftrightarrow> p \<noteq> ''issues/README.md.lock''
     \<and> (p = ''.gitattributes'' \<or> p = ''issues'' \<or> has_prefix p ''issues/'')"

definition trackerDirty :: "string \<Rightarrow> bool" where
  "trackerDirty status =
     list_ex (\<lambda>line. 4 \<le> length line \<and> list_ex tracker_path (split_arrow [] (trim_space (drop 3 line))))
       (split_on nl status)"

text \<open>The local tickets are the files the commits between the upstream and the head add. Each git
  output is an argument: \<^const>\<open>None\<close> where the command fails.\<close>

record 'g rebase_git =
  rev_head :: "'g \<Rightarrow> string option"
  rev_list :: "string \<Rightarrow> 'g \<Rightarrow> string option"
  added_paths :: "string \<Rightarrow> 'g \<Rightarrow> string option"
  ls_tree :: "string \<Rightarrow> 'g \<Rightarrow> string option"
  status_porcelain :: "'g \<Rightarrow> fsys \<Rightarrow> string option"
  merged_parent :: "'g \<Rightarrow> bool"
  add_all :: "string list \<Rightarrow> fsys \<Rightarrow> 'g \<Rightarrow> bool \<times> 'g"
  reset_paths :: "string list \<Rightarrow> 'g \<Rightarrow> 'g"
  commit_only :: "string \<Rightarrow> string list \<Rightarrow> fsys \<Rightarrow> 'g \<Rightarrow> bool \<times> 'g"

fun own_paths :: "string list \<Rightarrow> string list \<Rightarrow> owned_ticket list" where
  "own_paths seen [] = []"
| "own_paths seen (p # ps) =
     (case localTicketNumber p of
        None \<Rightarrow> own_paths seen ps
      | Some n \<Rightarrow> if p \<in> set seen then own_paths seen ps
                 else \<lparr>own_path = p, own_number = n, own_theirs = []\<rparr> # own_paths (p # seen) ps)"

fun added_by :: "'g rebase_git \<Rightarrow> 'g \<Rightarrow> string list \<Rightarrow> string list option" where
  "added_by git g [] = Some []"
| "added_by git g (c # cs) =
     (case added_paths git c g of
        None \<Rightarrow> None
      | Some out \<Rightarrow> map_option (\<lambda>ps. string_fields out @ ps) (added_by git g cs))"

definition collectLocalTickets :: "'g rebase_git \<Rightarrow> string \<Rightarrow> 'g \<Rightarrow> (string \<times> owned_ticket list) option" where
  "collectLocalTickets git upstream g =
     (case rev_head git g of
        None \<Rightarrow> None
      | Some head \<Rightarrow>
          (case rev_list git upstream g of
             None \<Rightarrow> None
           | Some commits \<Rightarrow>
               map_option (\<lambda>ps. (head, own_paths [] ps)) (added_by git g (string_fields commits))))"

definition max_local :: "issue_file list \<Rightarrow> int" where
  "max_local files = foldl (\<lambda>m f. max m (atoi_value (inumber f))) 0 files"

definition max_remote :: "int \<Rightarrow> string list \<Rightarrow> int" where
  "max_remote m paths =
     foldl (\<lambda>m p. case localTicketNumber p of
                    None \<Rightarrow> m
                  | Some n \<Rightarrow> (case atoi n of Some k \<Rightarrow> max m k | None \<Rightarrow> m)) m paths"

text \<open>\<open>counts\<close> and \<open>theirs\<close>: the numbers of the scan and of the upstream paths that no local ticket
  has, and the last upstream path that holds a number.\<close>

definition foreign_paths :: "owned_ticket list \<Rightarrow> string list \<Rightarrow> string list" where
  "foreign_paths owned paths =
     filter (\<lambda>p. localTicketNumber p \<noteq> None \<and> p \<notin> set (map own_path owned)) paths"

definition number_count :: "issue_file list \<Rightarrow> string list \<Rightarrow> string \<Rightarrow> nat" where
  "number_count files foreign n =
     length (filter (\<lambda>f. inumber f = n) files) + length (filter (\<lambda>p. localTicketNumber p = Some n) foreign)"

definition theirs_of :: "string list \<Rightarrow> string \<Rightarrow> string" where
  "theirs_of foreign n =
     (case filter (\<lambda>p. localTicketNumber p = Some n) (rev foreign) of [] \<Rightarrow> [] | p # _ \<Rightarrow> p)"

datatype plan_err = PlanScan scan_err | PlanGit

definition plannedCollisions ::
  "'g rebase_git \<Rightarrow> fsys \<Rightarrow> string \<Rightarrow> string list option \<Rightarrow> string \<Rightarrow> owned_ticket list \<Rightarrow> 'g
    \<Rightarrow> plan_err + int \<times> owned_ticket list" where
  "plannedCollisions git fs dir walk upstream owned g =
     (case Scan fs (issues_dir dir) walk of
        Inl err \<Rightarrow> Inl (PlanScan err)
      | Inr files \<Rightarrow>
          (case ls_tree git upstream g of
             None \<Rightarrow> Inl PlanGit
           | Some remote \<Rightarrow>
               let paths = string_fields remote; foreign = foreign_paths owned paths
               in Inr (max_remote (max_local files) paths,
                       map (\<lambda>o'. o'\<lparr>own_theirs := theirs_of foreign (own_number o')\<rparr>)
                         (filter (\<lambda>o'. 1 < number_count files foreign (own_number o')) owned))))"

text \<open>\<open>max+i+1\<close> in 64 bits, and the path with the number replaced.\<close>

definition new_number :: "int \<Rightarrow> nat \<Rightarrow> string" where
  "new_number mx i = fmt03 (wrap64 (mx + int i + 1))"

definition dir_part :: "string \<Rightarrow> string" where
  "dir_part p = (case last_index_of p ''/'' of None \<Rightarrow> [] | Some i \<Rightarrow> take (Suc i) p)"

definition renumbered_path :: "owned_ticket \<Rightarrow> string \<Rightarrow> string" where
  "renumbered_path o' num = dir_part (own_path o') @ num @ trim_prefix (base_name (own_path o')) (own_number o')"

record repair =
  old_path :: string
  new_path :: string
  old_num :: string
  new_num :: string

definition plan_repairs :: "int \<Rightarrow> owned_ticket list \<Rightarrow> repair list" where
  "plan_repairs mx owned =
     map (\<lambda>(i, o'). \<lparr>old_path = own_path o', new_path = renumbered_path o' (new_number mx i),
            old_num = own_number o', new_num = new_number mx i\<rparr>) (zip [0..<length owned] owned)"

section \<open>The file transaction of a repair\<close>

text \<open>Every branch of the repair of one ticket reads first and then performs these operations in order.
  The first group fails where the system call fails; \<open>OpTryRemove\<close> is a removal whose error is ignored.\<close>

datatype file_op =
    OpCreate string
  | OpWrite string string
  | OpLink string string
  | OpRemove string
  | OpTryRemove string

type_synonym files = "string \<Rightarrow> string option"

fun do_op :: "file_op \<Rightarrow> files \<Rightarrow> files option" where
  "do_op (OpCreate p) m = (if m p = None then Some (m(p \<mapsto> [])) else None)"
| "do_op (OpWrite p d) m = Some (m(p \<mapsto> d))"
| "do_op (OpLink a b) m = (if m a = None \<or> m b \<noteq> None then None else Some (m(b := m a)))"
| "do_op (OpRemove p) m = (if m p = None then None else Some (m(p := None)))"
| "do_op (OpTryRemove p) m = Some (m(p := None))"

fun run_ops :: "file_op list \<Rightarrow> files \<Rightarrow> files option" where
  "run_ops [] m = Some m"
| "run_ops (x # xs) m = (case do_op x m of None \<Rightarrow> None | Some m' \<Rightarrow> run_ops xs m')"

datatype repair_err = BadDestination string | BothMissing string | NoTicketHeader string
  | DestinationClaimed string | BadTemp string

text \<open>The name of the transaction temp: the hash is a parameter. The scratch files a glob finds and the
  name \<open>os.CreateTemp\<close> makes are inputs of a run.\<close>

definition temp_path :: "(string \<Rightarrow> string) \<Rightarrow> string \<Rightarrow> string \<Rightarrow> repair \<Rightarrow> string" where
  "temp_path hash dir head r =
     issue_path dir (new_path r) @ ''.harnez-''
     @ hash (head @ [CHR 0x00] @ old_path r @ [CHR 0x00] @ new_path r) @ ''.tmp''"

definition scratch_prefix :: "string \<Rightarrow> string" where
  "scratch_prefix tmp = tmp @ ''.scratch-''"

definition moved_ticket :: "(string \<Rightarrow> bool) \<Rightarrow> repair \<Rightarrow> string \<Rightarrow> rewrite_err + string" where
  "moved_ticket letter r content =
     map_inr (\<lambda>c. RewriteReferences letter c (old_path r) (new_path r)) (RewriteHeaderNumber content (new_num r))"

definition publish_ops :: "string list \<Rightarrow> string \<Rightarrow> string \<Rightarrow> string \<Rightarrow> file_op list" where
  "publish_ops stale scratch tmp rw =
     map OpTryRemove stale @ [OpCreate scratch, OpWrite scratch rw, OpLink scratch tmp, OpTryRemove scratch]"

definition repair_ops ::
  "(string \<Rightarrow> bool) \<Rightarrow> (string \<Rightarrow> string) \<Rightarrow> string \<Rightarrow> string \<Rightarrow> string list \<Rightarrow> string \<Rightarrow> repair \<Rightarrow> files
    \<Rightarrow> repair_err + file_op list" where
  "repair_ops letter hash dir head stale scratch r m =
     (let old = issue_path dir (old_path r); new = issue_path dir (new_path r); tmp = temp_path hash dir head r
      in case (m old, m new) of
           (None, Some c) \<Rightarrow>
             if has_prefix c (''# '' @ new_num r @ '' '') then Inr [] else Inl (BadDestination (new_path r))
         | (None, None) \<Rightarrow> Inl (BothMissing (old_path r))
         | (Some c, existing) \<Rightarrow>
             (case moved_ticket letter r c of
                Inl _ \<Rightarrow> Inl (NoTicketHeader (old_path r))
              | Inr rw \<Rightarrow>
                  (case existing of
                     Some e \<Rightarrow> if e = rw then Inr [OpRemove old, OpTryRemove tmp]
                               else Inl (DestinationClaimed (new_path r))
                   | None \<Rightarrow>
                       (case m tmp of
                          Some t \<Rightarrow> if t = rw then Inr [OpLink tmp new, OpRemove tmp, OpRemove old]
                                    else Inl (BadTemp tmp)
                        | None \<Rightarrow> Inr (publish_ops stale scratch tmp rw @ [OpLink tmp new, OpRemove tmp, OpRemove old])))))"

text \<open>A run that is interrupted: it stops before any operation, or in the middle of a write, which
  leaves any bytes.\<close>

inductive interrupted :: "file_op list \<Rightarrow> files \<Rightarrow> files \<Rightarrow> bool" where
  stop: "interrupted xs m m"
| torn: "interrupted (OpWrite p d # xs) m (m(p \<mapsto> d'))"
| next_op: "do_op x m = Some m1 \<Longrightarrow> interrupted xs m1 m2 \<Longrightarrow> interrupted (x # xs) m m2"

inductive_cases interruptedE: "interrupted (x # xs) m m'"

text \<open>What the library promises of the names: a glob returns names with the prefix, a new scratch file
  has it too, and its name is free.\<close>

definition names_ok :: "string \<Rightarrow> string list \<Rightarrow> string \<Rightarrow> files \<Rightarrow> bool" where
  "names_ok tmp stale scratch m \<longleftrightarrow>
     list_all (\<lambda>q. has_prefix q (scratch_prefix tmp)) stale \<and> has_prefix scratch (scratch_prefix tmp) \<and> m scratch = None"

definition attempt :: "(string \<Rightarrow> bool) \<Rightarrow> (string \<Rightarrow> string) \<Rightarrow> string \<Rightarrow> string \<Rightarrow> repair \<Rightarrow> files \<Rightarrow> files \<Rightarrow> bool" where
  "attempt letter hash dir head r m m' \<longleftrightarrow>
     (\<exists>stale scratch. names_ok (temp_path hash dir head r) stale scratch m
        \<and> (case repair_ops letter hash dir head stale scratch r m of
             Inl _ \<Rightarrow> m' = m | Inr xs \<Rightarrow> interrupted xs m m'))"

section \<open>An interrupted repair is finished by the next one\<close>

text \<open>The states between the operations: the ticket still has its old name, or the new name is claimed
  with the complete content; the temp is absent or complete.\<close>

definition repair_state ::
  "string \<Rightarrow> string \<Rightarrow> string \<Rightarrow> string \<Rightarrow> string \<Rightarrow> files \<Rightarrow> files \<Rightarrow> bool" where
  "repair_state old new tmp c rw m0 m \<longleftrightarrow>
     (m old = Some c \<and> m new = None \<or> m old = Some c \<and> m new = Some rw \<or> m old = None \<and> m new = Some rw)
     \<and> m tmp \<in> {None, Some rw}
     \<and> (\<forall>p. p \<notin> {old, new, tmp} \<and> \<not> has_prefix p (scratch_prefix tmp) \<longrightarrow> m p = m0 p)"

lemma scratch_other:
  assumes "\<not> has_prefix old new" and "tmp = new @ ''.harnez-'' @ x" and "has_prefix q (scratch_prefix tmp)"
  shows "q \<noteq> old" "q \<noteq> new" "q \<noteq> tmp" "tmp \<noteq> old" "tmp \<noteq> new" "old \<noteq> new"
  using assms by (auto simp: scratch_prefix_def has_prefix_iff)

text \<open>A property of every state an interrupted run can leave.\<close>

fun always :: "(files \<Rightarrow> bool) \<Rightarrow> file_op list \<Rightarrow> files \<Rightarrow> bool" where
  "always Q [] m = Q m"
| "always Q (x # xs) m =
     (Q m \<and> (case x of OpWrite p d \<Rightarrow> (\<forall>d'. Q (m(p \<mapsto> d'))) | _ \<Rightarrow> True)
      \<and> (case do_op x m of None \<Rightarrow> True | Some m' \<Rightarrow> always Q xs m'))"

lemma interrupted_always: "interrupted xs m m' \<Longrightarrow> always Q xs m \<Longrightarrow> Q m'"
proof (induction rule: interrupted.induct)
  case (stop xs m)
  then show ?case by (cases xs) simp_all
qed simp_all

lemma try_step:
  "\<forall>p. m' p = (m(q := None)) p \<or> p \<in> set qs \<and> m' p = None
    \<Longrightarrow> \<forall>p. m' p = m p \<or> p \<in> set (q # qs) \<and> m' p = None"
  by (metis fun_upd_apply list.set_intros)

lemma always_try_removes:
  assumes "Q m" and "\<And>m q. q \<in> set qs \<Longrightarrow> Q m \<Longrightarrow> Q (m(q := None))"
    and "\<And>m'. Q m' \<Longrightarrow> (\<forall>p. m' p = m p \<or> p \<in> set qs \<and> m' p = None) \<Longrightarrow> always Q xs m'"
  shows "always Q (map OpTryRemove qs @ xs) m"
  using assms
proof (induction qs arbitrary: m)
  case (Cons q qs)
  have q: "Q (m(q := None))" by (rule Cons.prems(2) [OF _ Cons.prems(1)]) simp
  have "always Q (map OpTryRemove qs @ xs) (m(q := None))"
  proof (rule Cons.IH [OF q])
    show "Q (m'(r := None))" if "r \<in> set qs" "Q m'" for m' r
      by (rule Cons.prems(2) [OF _ that(2)]) (simp add: that(1))
    show "always Q xs m'" if "Q m'" "\<forall>p. m' p = (m(q := None)) p \<or> p \<in> set qs \<and> m' p = None" for m'
      by (rule Cons.prems(3) [OF that(1) try_step [OF that(2)]])
  qed
  with Cons.prems(1) show ?case by simp
qed simp

lemma run_try_removes:
  "\<exists>m'. run_ops (map OpTryRemove qs @ xs) m = run_ops xs m' \<and> (\<forall>p. m' p = m p \<or> p \<in> set qs \<and> m' p = None)"
proof (induction qs arbitrary: m)
  case (Cons q qs)
  from Cons.IH [of "m(q := None)"] obtain m' where
    "run_ops (map OpTryRemove qs @ xs) (m(q := None)) = run_ops xs m'"
    "\<forall>p. m' p = (m(q := None)) p \<or> p \<in> set qs \<and> m' p = None" by blast
  then show ?case by (intro exI [of _ m'] conjI try_step) simp_all
qed auto

lemma state_scratch:
  assumes "repair_state old new tmp c rw m0 m" and "has_prefix q (scratch_prefix tmp)"
    and "q \<noteq> old" "q \<noteq> new" "q \<noteq> tmp"
  shows "repair_state old new tmp c rw m0 (m(q := v))"
  using assms by (auto simp: repair_state_def)

lemma repair_keeps_state:
  assumes tn: "names_ok (temp_path hash dir head r) stale scratch m" and np: "\<not> has_prefix (issue_path dir (old_path r)) (issue_path dir (new_path r))"
    and mv: "moved_ticket letter r c = Inr rw"
    and st: "repair_state (issue_path dir (old_path r)) (issue_path dir (new_path r)) (temp_path hash dir head r) c rw m0 m"
    and ops: "repair_ops letter hash dir head stale scratch r m = Inr xs"
  shows "always (repair_state (issue_path dir (old_path r)) (issue_path dir (new_path r)) (temp_path hash dir head r) c rw m0) xs m"
proof -
  let ?old = "issue_path dir (old_path r)" and ?new = "issue_path dir (new_path r)" and ?tmp = "temp_path hash dir head r"
  let ?Q = "repair_state ?old ?new ?tmp c rw m0"
  define old new tmp where d: "old = ?old" "new = ?new" "tmp = ?tmp"
  have tmp: "tmp = new @ ''.harnez-'' @ (hash (head @ [CHR 0x00] @ old_path r @ [CHR 0x00] @ new_path r) @ ''.tmp'')"
    by (simp add: d temp_path_def)
  have np': "\<not> has_prefix old new" using np by (simp add: d)
  note sc = scratch_other [OF np' tmp]
  have ne: "tmp \<noteq> old" "tmp \<noteq> new" "old \<noteq> new" using sc [of "scratch_prefix tmp"] by (auto simp: has_prefix_iff)
  have tail: "always (repair_state old new tmp c rw m0) [OpLink tmp new, OpRemove tmp, OpRemove old] m'"
    if "repair_state old new tmp c rw m0 m'" "m' tmp = Some rw" for m'
    using that ne by (auto simp: repair_state_def)
  show ?thesis
  proof (cases "m old")
    case None
    with ops st show ?thesis by (auto simp: repair_ops_def d Let_def split: option.splits if_splits)
  next
    case (Some c')
    with st have c: "m old = Some c" by (auto simp: repair_state_def d)
    show ?thesis
    proof (cases "m new")
      case None
      show ?thesis
      proof (cases "m tmp")
        case (Some t)
        with st have "t = rw" by (auto simp: repair_state_def d)
        with Some None c ops mv tail [of m] st show ?thesis by (auto simp: repair_ops_def Let_def d)
      next
        case nt: None
        define q where "q = scratch"
        define gs where "gs = stale"
        have q: "has_prefix q (scratch_prefix tmp)" "m q = None"
          and gs: "\<forall>g \<in> set gs. has_prefix g (scratch_prefix tmp)"
          using tn by (auto simp: names_ok_def d list_all_iff q_def gs_def)
        have xs: "xs = map OpTryRemove gs @ [OpCreate q, OpWrite q rw, OpLink q tmp, OpTryRemove q]
            @ [OpLink tmp new, OpRemove tmp, OpRemove old]"
          using ops None nt c mv by (simp add: repair_ops_def publish_ops_def Let_def d q_def gs_def)
        have "always (repair_state old new tmp c rw m0) xs m"
          unfolding xs
        proof (rule always_try_removes, goal_cases)
          case 1
          then show ?case using st by (simp add: d)
        next
          case (2 m' g)
          then show ?case using state_scratch gs sc by blast
        next
          case (3 m')
          have "tmp \<notin> set gs" "old \<notin> set gs" "new \<notin> set gs" using gs sc by blast+
          then have m': "m' tmp = None" "m' old = Some c" "m' new = None" "m' q = None"
            using 3(2) nt c None q(2) by metis+
          note nq = sc [OF q(1)]
          have s: "repair_state old new tmp c rw m0 (m'(q := v))" for v
            using state_scratch [OF 3(1) q(1) nq(1-3)] .
          have t: "repair_state old new tmp c rw m0 (m'(q := v, tmp \<mapsto> rw))" for v
            using s [of v] nq m' by (auto simp: repair_state_def)
          have u: "always (repair_state old new tmp c rw m0) [OpLink tmp new, OpRemove tmp, OpRemove old]
              (m'(q := None, tmp \<mapsto> rw))"
            by (rule tail [OF t]) simp
          have e: "m'(q \<mapsto> rw, tmp \<mapsto> rw, q := None) = m'(q := None, tmp \<mapsto> rw)"
            using nq by (simp add: fun_upd_twist)
          show ?case using 3(1) s t u nq m' by (simp add: e)
        qed
        then show ?thesis by (simp add: d)
      qed
    next
      case (Some e)
      with st have "e = rw" by (auto simp: repair_state_def d)
      with Some c ops mv st ne show ?thesis by (auto simp: repair_ops_def Let_def d repair_state_def)
    qed
  qed
qed

lemma run_interrupted: "run_ops xs m = Some m' \<Longrightarrow> interrupted xs m m'"
proof (induction xs arbitrary: m)
  case (Cons x xs)
  then show ?case by (auto intro: next_op split: option.splits)
qed (auto intro: stop)

lemma attempts_keep_state:
  assumes "(attempt letter hash dir head r)\<^sup>*\<^sup>* m0' m"
    and "\<not> has_prefix (issue_path dir (old_path r)) (issue_path dir (new_path r))"
    and "moved_ticket letter r c = Inr rw"
    and "repair_state (issue_path dir (old_path r)) (issue_path dir (new_path r)) (temp_path hash dir head r) c rw m0 m0'"
  shows "repair_state (issue_path dir (old_path r)) (issue_path dir (new_path r)) (temp_path hash dir head r) c rw m0 m"
  using assms(1)
proof (induction rule: rtranclp_induct)
  case base
  then show ?case by (rule assms(4))
next
  case (step m1 m2)
  from step.hyps(2) obtain stale scratch where n: "names_ok (temp_path hash dir head r) stale scratch m1"
    and a: "case repair_ops letter hash dir head stale scratch r m1 of Inl _ \<Rightarrow> m2 = m1 | Inr xs \<Rightarrow> interrupted xs m1 m2"
    by (auto simp: attempt_def)
  show ?case
  proof (cases "repair_ops letter hash dir head stale scratch r m1")
    case (Inl err)
    with a step.IH show ?thesis by simp
  next
    case (Inr xs)
    with a interrupted_always [OF _ repair_keeps_state [OF n assms(2,3) step.IH Inr]] show ?thesis by simp
  qed
qed

lemma repair_runs:
  assumes tn: "names_ok (temp_path hash dir head r) stale scratch m" and np: "\<not> has_prefix (issue_path dir (old_path r)) (issue_path dir (new_path r))"
    and mv: "moved_ticket letter r c = Inr rw"
    and st: "repair_state (issue_path dir (old_path r)) (issue_path dir (new_path r)) (temp_path hash dir head r) c rw m0 m"
    and hd: "m (issue_path dir (old_path r)) = None \<Longrightarrow> has_prefix rw (''# '' @ new_num r @ '' '')"
  shows "\<exists>xs m'. repair_ops letter hash dir head stale scratch r m = Inr xs \<and> run_ops xs m = Some m'
    \<and> m' (issue_path dir (old_path r)) = None \<and> m' (issue_path dir (new_path r)) = Some rw"
proof -
  define old new tmp where d: "old = issue_path dir (old_path r)" "new = issue_path dir (new_path r)"
    "tmp = temp_path hash dir head r"
  have tmp: "tmp = new @ ''.harnez-'' @ (hash (head @ [CHR 0x00] @ old_path r @ [CHR 0x00] @ new_path r) @ ''.tmp'')"
    by (simp add: d temp_path_def)
  have np': "\<not> has_prefix old new" using np by (simp add: d)
  note sc = scratch_other [OF np' tmp]
  have ne: "tmp \<noteq> old" "tmp \<noteq> new" "old \<noteq> new" using sc [of "scratch_prefix tmp"] by (auto simp: has_prefix_iff)
  note st' = st [folded d]
  show ?thesis
  proof (cases "m old")
    case None
    with st' hd show ?thesis by (auto simp: repair_ops_def repair_state_def d [symmetric] Let_def)
  next
    case (Some c')
    with st' have c: "m old = Some c" by (auto simp: repair_state_def)
    show ?thesis
    proof (cases "m new")
      case (Some e)
      with st' have "e = rw" by (auto simp: repair_state_def)
      with Some c mv ne show ?thesis by (simp add: repair_ops_def d [symmetric] Let_def)
    next
      case nn: None
      show ?thesis
      proof (cases "m tmp")
        case (Some t)
        with st' have "t = rw" by (auto simp: repair_state_def)
        with Some nn c mv ne show ?thesis by (simp add: repair_ops_def publish_ops_def d [symmetric] Let_def)
      next
        case nt: None
        define q where "q = scratch"
        define gs where "gs = stale"
        have q: "has_prefix q (scratch_prefix tmp)" "m q = None"
          and gs: "\<forall>g \<in> set gs. has_prefix g (scratch_prefix tmp)"
          using tn by (auto simp: names_ok_def d list_all_iff q_def gs_def)
        let ?xs = "[OpCreate q, OpWrite q rw, OpLink q tmp, OpTryRemove q, OpLink tmp new, OpRemove tmp, OpRemove old]"
        obtain m1 where m1: "run_ops (map OpTryRemove gs @ ?xs) m = run_ops ?xs m1"
          "\<forall>p. m1 p = m p \<or> p \<in> set gs \<and> m1 p = None"
          using run_try_removes by blast
        have "tmp \<notin> set gs" "old \<notin> set gs" "new \<notin> set gs" using gs sc by blast+
        then have m1': "m1 tmp = None" "m1 old = Some c" "m1 new = None" "m1 q = None"
          using m1(2) nt c nn q(2) by metis+
        have "repair_ops letter hash dir head stale scratch r m = Inr (map OpTryRemove gs @ ?xs)"
          using nn nt c mv by (simp add: repair_ops_def publish_ops_def Let_def d [symmetric] q_def gs_def)
        moreover have "\<exists>m'. run_ops ?xs m1 = Some m' \<and> m' old = None \<and> m' new = Some rw"
          using m1' ne sc [OF q(1)] by simp
        ultimately show ?thesis using m1(1) by (auto simp: d)
      qed
    qed
  qed
qed


text \<open>C36. The check of a finished move is stricter than the rewriting: a ticket whose header the rewriting
  accepts but that does not read \<open># number\<close> and a space, such as \<open># 007: title\<close>, is moved by the first
  run and rejected as incomplete by every later one.\<close>

theorem finished_move_rejected:
  assumes "names_ok (temp_path hash dir head r) stale scratch m" and "\<not> has_prefix (issue_path dir (old_path r)) (issue_path dir (new_path r))"
    and "moved_ticket letter r c = Inr rw" and "\<not> has_prefix rw (''# '' @ new_num r @ '' '')"
    and "m (issue_path dir (old_path r)) = Some c" and "m (issue_path dir (new_path r)) = None"
    and "m (temp_path hash dir head r) = None"
  shows "\<exists>xs m'. repair_ops letter hash dir head stale scratch r m = Inr xs \<and> run_ops xs m = Some m'
    \<and> repair_ops letter hash dir head stale scratch r m' = Inl (BadDestination (new_path r))"
proof -
  have "repair_state (issue_path dir (old_path r)) (issue_path dir (new_path r)) (temp_path hash dir head r) c rw m m"
    using assms(5-7) by (simp add: repair_state_def)
  from repair_runs [OF assms(1-3) this] assms(4,5) show ?thesis by (fastforce simp: repair_ops_def Let_def)
qed

section \<open>Reconciling after a merge\<close>

text \<open>What a failed run undoes, most recent first; errors of the undo itself are ignored.\<close>

datatype undo =
    UndoMove string string string
  | UndoRefs "ref_edit list"
  | UndoIndexes "(string \<times> string option) list"

definition undo_step :: "string \<Rightarrow> undo \<Rightarrow> fsys \<Rightarrow> fsys" where
  "undo_step dir u fs =
     (case u of
        UndoMove old content new \<Rightarrow> snd (remove_file (snd (write_file fs old content)) new)
      | UndoRefs edits \<Rightarrow> snd (WriteReferences dir True edits fs)
      | UndoIndexes s \<Rightarrow> snd (restoreIssueIndexes (issues_dir dir) s fs))"

definition roll_back :: "string \<Rightarrow> undo list \<Rightarrow> fsys \<Rightarrow> fsys" where
  "roll_back dir us fs = foldl (\<lambda>fs u. undo_step dir u fs) fs us"

text \<open>\<open>O_CREATE|O_EXCL\<close>, then the write; a file that could not be written is removed again.\<close>

definition claim_write :: "fsys \<Rightarrow> string \<Rightarrow> string \<Rightarrow> fserr option \<times> fsys" where
  "claim_write fs p d =
     (if contents fs p \<noteq> None then (Some ErrIO, fs)
      else case write_file fs p d of
             (None, fs') \<Rightarrow> (None, fs')
           | (Some err, fs') \<Rightarrow> (Some err, snd (remove_file fs' p)))"

datatype move_err = ScanReferences fserr | ReadTicket fserr | MoveHeader rewrite_err | ClaimFailed
  | RemoveFailed fserr | WriteRefs fserr

type_synonym progress = "fsys \<times> undo list \<times> string list"

definition move_ticket ::
  "(string \<Rightarrow> bool) \<Rightarrow> (fsys \<Rightarrow> string list) \<Rightarrow> string \<Rightarrow> repair \<Rightarrow> progress \<Rightarrow> move_err option \<times> progress" where
  "move_ticket letter walk dir r p =
     (let (fs, us, stage) = p; old = issue_path dir (old_path r); new = issue_path dir (new_path r)
      in case PlanReferences letter walk fs dir (old_path r) (new_path r) of
           Inl err \<Rightarrow> (Some (ScanReferences err), p)
         | Inr edits \<Rightarrow>
             (case read_file fs old of
                Inl err \<Rightarrow> (Some (ReadTicket err), p)
              | Inr content \<Rightarrow>
                  (case moved_ticket letter r content of
                     Inl err \<Rightarrow> (Some (MoveHeader err), p)
                   | Inr rw \<Rightarrow>
                       (case claim_write fs new rw of
                          (Some _, fs1) \<Rightarrow> (Some ClaimFailed, fs1, us, stage)
                        | (None, fs1) \<Rightarrow>
                            (case remove_file fs1 old of
                               (Some err, fs2) \<Rightarrow> (Some (RemoveFailed err), snd (remove_file fs2 new), us, stage)
                             | (None, fs2) \<Rightarrow>
                                 let us2 = UndoRefs edits # UndoMove old content new # us
                                 in case WriteReferences dir False edits fs2 of
                                      (Some err, fs3) \<Rightarrow> (Some (WriteRefs err), fs3, us2, stage)
                                    | (None, fs3) \<Rightarrow>
                                        (None, fs3, us2, stage @ [old_path r, new_path r] @ map edit_path edits))))))"

fun move_tickets ::
  "(string \<Rightarrow> bool) \<Rightarrow> (fsys \<Rightarrow> string list) \<Rightarrow> string \<Rightarrow> repair list \<Rightarrow> progress \<Rightarrow> move_err option \<times> progress" where
  "move_tickets letter walk dir [] p = (None, p)"
| "move_tickets letter walk dir (r # rs) p =
     (case move_ticket letter walk dir r p of
        (Some err, p') \<Rightarrow> (Some err, p')
      | (None, p') \<Rightarrow> move_tickets letter walk dir rs p')"

text \<open>The dry run scans the references of every planned move and changes nothing.\<close>

fun dry_moves :: "(string \<Rightarrow> bool) \<Rightarrow> (fsys \<Rightarrow> string list) \<Rightarrow> string \<Rightarrow> repair list \<Rightarrow> fsys \<Rightarrow> move_err option" where
  "dry_moves letter walk dir [] fs = None"
| "dry_moves letter walk dir (r # rs) fs =
     (case PlanReferences letter walk fs dir (old_path r) (new_path r) of
        Inl err \<Rightarrow> Some (ScanReferences err) | Inr _ \<Rightarrow> dry_moves letter walk dir rs fs)"

datatype reconcile_err = StatusUnknown | TrackerDirty | NoLocalTickets | PlanError plan_err
  | ReconcileGuard flow_err | MoveError move_err | SnapshotError | IndexError index_err | AddError
  | CommitError | CommittedLintFails

datatype reconcile_done = NoCollisions | PlanPrinted | Reconciled

text \<open>What a run reads besides the files and git: the walks of \<open>issues\<close> and \<open>docs\<close>, the index lock, the
  flow configuration, and the verdict of the final lint.\<close>

record reconcile_env =
  ref_walk :: "fsys \<Rightarrow> string list"
  issue_walk :: "fsys \<Rightarrow> string list option"
  index_lock :: bool
  flow :: flow_env
  lint_ok :: "fsys \<Rightarrow> bool"

definition reconcile_ref :: "'g rebase_git \<Rightarrow> string \<Rightarrow> 'g \<Rightarrow> string" where
  "reconcile_ref git ref g = (if ref \<noteq> [] then ref else if merged_parent git g then ''HEAD^2'' else ''origin/main'')"

definition commit_moves ::
  "reconcile_env \<Rightarrow> 'g rebase_git \<Rightarrow> string \<Rightarrow> progress \<Rightarrow> 'g
    \<Rightarrow> (reconcile_err + reconcile_done) \<times> fsys \<times> 'g" where
  "commit_moves env git dir p g =
     (let (fs, us, stage) = p
      in case snapshotIssueIndexes fs (issues_dir dir) of
           None \<Rightarrow> (Inl SnapshotError, roll_back dir us fs, g)
         | Some s \<Rightarrow>
             (case UpdateIssuesReadme (index_lock env) (issues_dir dir) (issue_walk env fs) fs of
                (Inl err, fs1) \<Rightarrow> (Inl (IndexError err), roll_back dir (UndoIndexes s # us) fs1, g)
              | (Inr _, fs1) \<Rightarrow>
                  let paths = stage @ issueIndexRelPaths; undone = roll_back dir (UndoIndexes s # us) fs1
                  in case add_all git paths fs1 g of
                       (False, g1) \<Rightarrow> (Inl AddError, undone, reset_paths git paths g1)
                     | (True, g1) \<Rightarrow>
                         (case commit_only git ''docs(issues): reconcile ticket numbers after merge'' paths fs1 g1 of
                            (False, g2) \<Rightarrow> (Inl CommitError, undone, reset_paths git paths g2)
                          | (True, g2) \<Rightarrow>
                              (if lint_ok env fs1 then Inr Reconciled else Inl CommittedLintFails, fs1, g2))))"

definition RunIssuesReconcile ::
  "(string \<Rightarrow> bool) \<Rightarrow> reconcile_env \<Rightarrow> 'g rebase_git \<Rightarrow> string \<Rightarrow> string \<Rightarrow> bool \<Rightarrow> fsys \<Rightarrow> 'g
    \<Rightarrow> (reconcile_err + reconcile_done) \<times> fsys \<times> 'g" where
  "RunIssuesReconcile letter env git dir ref0 dry fs g =
     (let ref = reconcile_ref git ref0 g
      in case status_porcelain git g fs of
           None \<Rightarrow> (Inl StatusUnknown, fs, g)
         | Some status \<Rightarrow>
             if \<not> dry \<and> trackerDirty status then (Inl TrackerDirty, fs, g)
             else case collectLocalTickets git ref g of
                    None \<Rightarrow> (Inl NoLocalTickets, fs, g)
                  | Some (head, owned) \<Rightarrow>
                      let present = filter (\<lambda>o'. contents fs (issue_path dir (own_path o')) \<noteq> None) owned
                      in case plannedCollisions git fs dir (issue_walk env fs) ref present g of
                           Inl err \<Rightarrow> (Inl (PlanError err), fs, g)
                         | Inr (mx, moving) \<Rightarrow>
                             if moving = [] then (Inr NoCollisions, fs, g)
                             else if dry then
                               (case dry_moves letter (ref_walk env) dir (plan_repairs mx moving) fs of
                                  Some err \<Rightarrow> (Inl (MoveError err), fs, g) | None \<Rightarrow> (Inr PlanPrinted, fs, g))
                             else case guard_commit (flow env) fs dir ''reconcile tickets'' of
                                    Some err \<Rightarrow> (Inl (ReconcileGuard err), fs, g)
                                  | None \<Rightarrow>
                                      (case move_tickets letter (ref_walk env) dir (plan_repairs mx moving) (fs, [], []) of
                                         (Some err, fs1, us, _) \<Rightarrow> (Inl (MoveError err), roll_back dir us fs1, g)
                                       | (None, p) \<Rightarrow> commit_moves env git dir p g))"

section \<open>A failed reconcile leaves the files as they were\<close>

lemma roll_back_Cons: "roll_back dir (u # us) fs = roll_back dir us (undo_step dir u fs)"
  by (simp add: roll_back_def)

lemma fold_other:
  "q \<notin> (\<lambda>e. issue_path dir (edit_path e)) ` set es
    \<Longrightarrow> foldl (\<lambda>m e. m(issue_path dir (edit_path e) \<mapsto> f e)) m es q = m q"
  by (induction es arbitrary: m) auto

lemma fold_restore:
  assumes "\<And>e. e \<in> set es \<Longrightarrow> m (issue_path dir (edit_path e)) = Some (edit_before e)"
  shows "foldl (\<lambda>m e. m(issue_path dir (edit_path e) \<mapsto> edit_before e))
    (foldl (\<lambda>m e. m(issue_path dir (edit_path e) \<mapsto> f e)) m es) es = m"
proof
  fix q
  show "foldl (\<lambda>m e. m(issue_path dir (edit_path e) \<mapsto> edit_before e))
    (foldl (\<lambda>m e. m(issue_path dir (edit_path e) \<mapsto> f e)) m es) es q = m q"
  proof (cases "q \<in> (\<lambda>e. issue_path dir (edit_path e)) ` set es")
    case True
    then obtain e where e: "e \<in> set es" "q = issue_path dir (edit_path e)" by blast
    have "edit_before e = the (m (issue_path dir (edit_path e)))" if "e \<in> set es" for e
      using assms [OF that] by simp
    note f = fold_writes [where f = edit_before and g = "\<lambda>p. the (m (issue_path dir p))", OF this]
    show ?thesis using e assms [OF e(1)] by (simp add: f)
  next
    case False
    show ?thesis using fold_other [OF False, where f = edit_before] fold_other [OF False, where f = f and m = m]
      by (rule trans)
  qed
qed

lemma undo_move:
  assumes "move_ticket letter walk dir r (sound_fsys m, us, stage) = (res, fs', us', stage')"
  shows "\<exists>m'. fs' = sound_fsys m' \<and> roll_back dir us' fs' = roll_back dir us (sound_fsys m)"
proof -
  let ?old = "issue_path dir (old_path r)" and ?new = "issue_path dir (new_path r)"
  show ?thesis
  proof (cases "PlanReferences letter walk (sound_fsys m) dir (old_path r) (new_path r)")
    case (Inl err)
    with assms show ?thesis by (auto simp: move_ticket_def Let_def)
  next
    case edits: (Inr edits)
    show ?thesis
    proof (cases "m ?old")
      case None
      with assms edits show ?thesis by (auto simp: move_ticket_def Let_def)
    next
      case content: (Some content)
      show ?thesis
      proof (cases "moved_ticket letter r content")
        case (Inl err)
        with assms edits content show ?thesis by (auto simp: move_ticket_def Let_def)
      next
        case rw: (Inr rw)
        show ?thesis
        proof (cases "m ?new")
          case (Some d)
          then have "claim_write (sound_fsys m) ?new rw = (Some ErrIO, sound_fsys m)"
            by (simp add: claim_write_def) (simp add: sound_fsys_def)
          with assms edits content rw show ?thesis by (auto simp: move_ticket_def Let_def)
        next
          case new: None
          then have ne: "?old \<noteq> ?new" using content by auto
          let ?m1 = "m(?new \<mapsto> rw, ?old := None)"
          let ?m2 = "foldl (\<lambda>m e. m(issue_path dir (edit_path e) \<mapsto> edit_after e)) ?m1 edits"
          have claim: "claim_write (sound_fsys m) ?new rw = (None, sound_fsys (m(?new \<mapsto> rw)))"
            using new by (simp add: claim_write_def) (simp add: sound_fsys_def)
          have rm: "remove_file (sound_fsys (m(?new \<mapsto> rw))) ?old = (None, sound_fsys ?m1)"
            using content ne by simp
          have out: "fs' = sound_fsys ?m2" "us' = UndoRefs edits # UndoMove ?old content ?new # us"
            using assms edits content rw claim rm by (auto simp: move_ticket_def Let_def write_references_sound)
          have ed: "edit_path e \<noteq> old_path r \<and> m (issue_path dir (edit_path e)) = Some (edit_before e)
              \<and> edit_path e \<noteq> new_path r" if "e \<in> set edits" for e
            using plan_files_edits [OF edits [unfolded PlanReferences_def] that] new by auto
          have "foldl (\<lambda>m e. m(issue_path dir (edit_path e) \<mapsto> edit_before e)) ?m2 edits = ?m1"
            using ed by (intro fold_restore) auto
          then have "undo_step dir (UndoRefs edits) (sound_fsys ?m2) = sound_fsys ?m1"
            by (simp add: undo_step_def write_references_sound)
          moreover have "undo_step dir (UndoMove ?old content ?new) (sound_fsys ?m1) = sound_fsys m"
            using ne content new by (simp add: undo_step_def fun_upd_twist) (simp add: fun_upd_idem)
          ultimately have "roll_back dir us' fs' = roll_back dir us (sound_fsys m)" by (simp add: out roll_back_Cons)
          with out(1) show ?thesis by blast
        qed
      qed
    qed
  qed
qed

lemma undo_moves:
  assumes "move_tickets letter walk dir rs (sound_fsys m, us, stage) = (res, fs', us', stage')"
  shows "\<exists>m'. fs' = sound_fsys m' \<and> roll_back dir us' fs' = roll_back dir us (sound_fsys m)"
  using assms
proof (induction rs arbitrary: m us stage)
  case (Cons r rs)
  obtain res1 fs1 us1 stage1 where mv: "move_ticket letter walk dir r (sound_fsys m, us, stage) = (res1, fs1, us1, stage1)"
    by (metis prod_cases4)
  from undo_move [OF mv] obtain m1 where m1: "fs1 = sound_fsys m1"
    "roll_back dir us1 fs1 = roll_back dir us (sound_fsys m)" by blast
  show ?case
  proof (cases res1)
    case None
    with Cons.prems mv m1(1) have "move_tickets letter walk dir rs (sound_fsys m1, us1, stage1) = (res, fs', us', stage')" by simp
    from Cons.IH [OF this] m1 show ?thesis by simp
  next
    case (Some err)
    with Cons.prems mv m1 show ?thesis by auto
  qed
qed auto

lemma undo_commit:
  assumes "commit_moves env git dir (sound_fsys m, us, stage) g = (res, fs', g')"
    and "res \<noteq> Inr Reconciled" and "res \<noteq> Inl CommittedLintFails"
  shows "fs' = roll_back dir us (sound_fsys m)"
proof (cases "snapshotIssueIndexes (sound_fsys m) (issues_dir dir)")
  case None
  with assms show ?thesis by (auto simp: commit_moves_def)
next
  case (Some s)
  let ?u = "UpdateIssuesReadme (index_lock env) (issues_dir dir) (issue_walk env (sound_fsys m)) (sound_fsys m)"
  obtain r fs1 where u: "?u = (r, fs1)" by fastforce
  from update_frame [OF this] obtain m1 where m1: "fs1 = sound_fsys m1"
    "\<And>p. \<not> index_path (issues_dir dir) p \<Longrightarrow> m1 p = m p" by blast
  have "roll_back dir (UndoIndexes s # us) fs1 = roll_back dir us (sound_fsys m)"
    using restore_snapshot [OF Some m1(2)] by (simp add: roll_back_Cons undo_step_def m1(1))
  with Some u assms show ?thesis
    by (auto simp: commit_moves_def Let_def split: sum.splits prod.splits bool.splits if_splits)
qed


section \<open>The new numbers are free\<close>

lemma foldl_max_ge:
  fixes h :: "'a \<Rightarrow> int"
  shows "m \<le> foldl (\<lambda>m x. max m (h x)) m xs \<and> (\<forall>x \<in> set xs. h x \<le> foldl (\<lambda>m x. max m (h x)) m xs)"
proof (induction xs arbitrary: m)
  case (Cons x xs)
  from Cons [of "max m (h x)"] show ?case by auto
qed simp

lemma max_local_ge: "f \<in> set files \<Longrightarrow> atoi_value (inumber f) \<le> max_local files" "0 \<le> max_local files"
  using foldl_max_ge [where h = "\<lambda>f. atoi_value (inumber f)" and m = 0 and xs = files] by (auto simp: max_local_def)

definition remote_value :: "int \<Rightarrow> string \<Rightarrow> int" where
  "remote_value d p = (case localTicketNumber p of None \<Rightarrow> d
     | Some n \<Rightarrow> (case atoi n of Some k \<Rightarrow> k | None \<Rightarrow> d))"

lemma max_remote_ge:
  "m \<le> max_remote m paths"
  "p \<in> set paths \<Longrightarrow> localTicketNumber p = Some n \<Longrightarrow> atoi n = Some k \<Longrightarrow> k \<le> max_remote m paths"
proof -
  have step: "(case localTicketNumber p of None \<Rightarrow> m
      | Some n \<Rightarrow> (case atoi n of Some k \<Rightarrow> max m k | None \<Rightarrow> m)) = max m (remote_value m p)" for m p
    by (simp add: remote_value_def split: option.splits)
  have all: "m \<le> max_remote m paths
    \<and> (\<forall>p \<in> set paths. \<forall>n k. localTicketNumber p = Some n \<longrightarrow> atoi n = Some k \<longrightarrow> k \<le> max_remote m paths)"
  proof (induction paths arbitrary: m)
    case (Cons q paths)
    let ?m = "max m (remote_value m q)"
    have e: "max_remote m (q # paths) = max_remote ?m paths" by (simp add: max_remote_def step)
    from Cons [of ?m] show ?case unfolding e by (fastforce simp: remote_value_def)
  qed (simp add: max_remote_def)
  then show "m \<le> max_remote m paths" by blast
  from all show "p \<in> set paths \<Longrightarrow> localTicketNumber p = Some n \<Longrightarrow> atoi n = Some k \<Longrightarrow> k \<le> max_remote m paths" by blast
qed

lemma atoi_value_digits:
  "all_digits n \<Longrightarrow> atoi_value n = min (int (dec_nat n)) (2 ^ 63 - 1)"
  using atoi_digits [of n] atoi_digits_None [of n] by (cases "dec_nat n < 2 ^ 63") (auto simp: atoi_value_def)

lemma local_number_digits: "localTicketNumber p = Some n \<Longrightarrow> all_digits n \<and> 3 \<le> length n"
proof -
  assume "localTicketNumber p = Some n"
  then have n: "n = takeWhile is_digit (base_name p)" "3 \<le> length n"
    by (simp_all add: localTicketNumber_def Let_def split: if_splits)
  have "list_all is_digit n" using n(1) by (auto simp: list_all_iff dest: set_takeWhileD)
  with n(2) show ?thesis by (auto simp: all_digits_def)
qed

lemma new_number_value:
  assumes "0 \<le> mx" and "mx + int i + 1 < 2 ^ 63"
  shows "new_number mx i = pad3 (nat (mx + int i + 1))"
proof -
  have "wrap64 (mx + int i + 1) = mx + int i + 1"
    unfolding wrap64_def using assms by (subst mod_pos_pos_trivial) auto
  with assms show ?thesis by (simp add: new_number_def fmt03_def)
qed

lemma plan_numbers:
  assumes "0 \<le> mx" and "mx + int (length moving) < 2 ^ 63"
  shows "map new_num (plan_repairs mx moving) = map (\<lambda>i. pad3 (nat (mx + int i + 1))) [0..<length moving]"
proof (rule nth_equalityI)
  fix i assume "i < length (map new_num (plan_repairs mx moving))"
  then have "i < length moving" by (simp add: plan_repairs_def)
  with assms new_number_value [of mx i] show
    "map new_num (plan_repairs mx moving) ! i = map (\<lambda>i. pad3 (nat (mx + int i + 1))) [0..<length moving] ! i"
    by (simp add: plan_repairs_def)
qed (simp add: plan_repairs_def)

text \<open>C33. Renumbering gives out fresh numbers: the numbers of a plan are pairwise distinct, and no ticket of
  the work tree and no ticket file of the upstream has one of them, as long as the count stays in 64
  bits.\<close>

theorem new_numbers_fresh:
  assumes "plannedCollisions git fs dir walk upstream owned g = Inr (mx, moving)"
    and "Scan fs (issues_dir dir) walk = Inr files" and "ls_tree git upstream g = Some remote"
    and "mx + int (length moving) < 2 ^ 63"
  shows "distinct (map new_num (plan_repairs mx moving))
    \<and> set (map new_num (plan_repairs mx moving)) \<inter> set (map inumber files) = {}
    \<and> Some ` set (map new_num (plan_repairs mx moving)) \<inter> localTicketNumber ` set (string_fields remote) = {}"
proof -
  have mx: "mx = max_remote (max_local files) (string_fields remote)"
    using assms(1-3) by (simp add: plannedCollisions_def Let_def)
  have pos: "0 \<le> mx" "max_local files \<le> mx" using max_local_ge(2) max_remote_ge(1) order_trans unfolding mx by blast+
  note nums = plan_numbers [OF pos(1) assms(4)]
  have inj: "pad3 a = pad3 b \<longleftrightarrow> a = b" for a b by (metis dec_nat_pad3)
  have dist: "distinct (map new_num (plan_repairs mx moving))"
    unfolding nums distinct_map using pos by (auto simp: inj_on_def inj)
  have big: "all_digits n \<and> mx < int (dec_nat n) \<and> int (dec_nat n) < 2 ^ 63" if "n \<in> set (map new_num (plan_repairs mx moving))" for n
    using that pos assms(4) unfolding nums by (auto simp: pad3_digits)
  have loc: "n \<notin> set (map inumber files)" if n: "n \<in> set (map new_num (plan_repairs mx moving))" for n
  proof
    assume "n \<in> set (map inumber files)"
    then obtain f where "f \<in> set files" "inumber f = n" by auto
    with max_local_ge(1) [of f files] pos(2) atoi_value_digits [of n] big [OF n] show False by auto
  qed
  have rem: "localTicketNumber p \<noteq> Some n"
    if n: "n \<in> set (map new_num (plan_repairs mx moving))" and p: "p \<in> set (string_fields remote)" for n p
  proof
    assume "localTicketNumber p = Some n"
    with max_remote_ge(2) [OF p this, of "int (dec_nat n)" "max_local files"] atoi_digits [of n] big [OF n] mx show False by auto
  qed
  from dist loc rem show ?thesis by fastforce
qed

text \<open>A ticket whose number does not fit an \<open>int\<close> makes the first new number negative: the error of
  \<open>Atoi\<close> is ignored and its value is the largest \<open>int\<close>.\<close>

lemma overlong_number_wraps:
  assumes "f \<in> set files" and "all_digits (inumber f)" and "2 ^ 63 \<le> dec_nat (inumber f)"
  shows "new_number (max_local files) 0 = ''-9223372036854775808''"
proof -
  have le: "atoi_value n \<le> 2 ^ 63 - 1" for n
    using atoi_int_dec by (auto simp: atoi_value_def atoi_def Let_def split: option.splits if_splits)
  have "max_local files \<le> 2 ^ 63 - 1"
  proof -
    have "foldl (\<lambda>m f. max m (atoi_value (inumber f))) a files \<le> 2 ^ 63 - 1" if "a \<le> 2 ^ 63 - 1" for a
      using that le by (induction files arbitrary: a) auto
    from this [of 0] show ?thesis by (simp add: max_local_def)
  qed
  moreover have "2 ^ 63 - 1 \<le> max_local files"
    using max_local_ge(1) [OF assms(1)] atoi_value_digits [OF assms(2)] assms(3) by simp
  ultimately have "max_local files = 2 ^ 63 - 1" by simp
  moreover have "fmt03 (- (2 ^ 63)) = ''-9223372036854775808''"
    by (simp add: fmt03_def Let_def nat_dec.simps digit_char_def) code_simp
  ultimately show ?thesis by (simp add: new_number_def wrap64_def)
qed

section \<open>Witnesses\<close>

definition fix_repair :: repair where
  "fix_repair = \<lparr>old_path = ''issues/007-fix.md'', new_path = ''issues/009-fix.md'', old_num = ''007'', new_num = ''009''\<rparr>"

definition fix_old :: string where "fix_old = issue_path ''r'' (old_path fix_repair)"
definition fix_new :: string where "fix_new = issue_path ''r'' (new_path fix_repair)"

lemma fix_paths:
  "issue_path ''r'' (old_path fix_repair) = fix_old" "issue_path ''r'' (new_path fix_repair) = fix_new"
  "fix_old \<noteq> fix_new" "\<not> has_prefix fix_old fix_new"
  "temp_path (\<lambda>_. ''ab'') ''r'' ''h'' fix_repair \<noteq> fix_old" "temp_path (\<lambda>_. ''ab'') ''r'' ''h'' fix_repair \<noteq> fix_new"
  by (simp_all add: fix_old_def fix_new_def fix_repair_def issue_path_def temp_path_def)


lemma finished_move_rejected_witness:
  "\<exists>xs m'. repair_ops (\<lambda>_. False) (\<lambda>_. ''ab'') ''r'' ''h'' [] (scratch_prefix (temp_path (\<lambda>_. ''ab'') ''r'' ''h'' fix_repair))
      fix_repair [fix_old \<mapsto> ''# 007: Fix''] = Inr xs
    \<and> run_ops xs [fix_old \<mapsto> ''# 007: Fix''] = Some m'
    \<and> repair_ops (\<lambda>_. False) (\<lambda>_. ''ab'') ''r'' ''h'' [] (scratch_prefix (temp_path (\<lambda>_. ''ab'') ''r'' ''h'' fix_repair))
      fix_repair m' = Inl (BadDestination ''issues/009-fix.md'')"
proof -
  have mv: "moved_ticket (\<lambda>_. False) fix_repair ''# 007: Fix'' = Inr ''# 009: Fix''" by code_simp
  have "scratch_prefix (temp_path (\<lambda>_. ''ab'') ''r'' ''h'' fix_repair) \<noteq> fix_old"
    by (simp add: scratch_prefix_def temp_path_def fix_old_def fix_repair_def issue_path_def)
  then have n: "names_ok (temp_path (\<lambda>_. ''ab'') ''r'' ''h'' fix_repair) []
      (scratch_prefix (temp_path (\<lambda>_. ''ab'') ''r'' ''h'' fix_repair)) [fix_old \<mapsto> ''# 007: Fix'']"
    by (simp add: names_ok_def has_prefix_iff)
  have p: "\<not> has_prefix ''# 009: Fix'' (''# '' @ new_num fix_repair @ '' '')" "new_path fix_repair = ''issues/009-fix.md''"
    by (simp_all add: fix_repair_def)
  show ?thesis
    using finished_move_rejected [where dir = "''r''" and r = fix_repair and hash = "\<lambda>_. ''ab''" and head = "''h''"
        and m = "[fix_old \<mapsto> ''# 007: Fix'']", OF n _ mv p(1)] fix_paths p(2)
    by auto
qed

lemma references_settle_witness:
  "PlanReferences (\<lambda>_. False) (\<lambda>_. [''docs/a.md'']) (snd (WriteReferences ''r'' False
      [\<lparr>edit_path = ''docs/a.md'', edit_before = ''see ../issues/007-fix.md.'', edit_after = ''see ../issues/009-fix.md.''\<rparr>]
      (sound_fsys [''r/docs/a.md'' \<mapsto> ''see ../issues/007-fix.md.'']))) ''r'' ''issues/007-fix.md'' ''issues/009-fix.md'' = Inr []"
proof -
  have t: "ref_target ''issues/007-fix.md''" "ref_target ''issues/009-fix.md''"
    "base_name ''issues/007-fix.md'' \<noteq> base_name ''issues/009-fix.md''" by code_simp+
  have "PlanReferences (\<lambda>_. False) (\<lambda>_. [''docs/a.md'']) (sound_fsys [''r/docs/a.md'' \<mapsto> ''see ../issues/007-fix.md.''])
      ''r'' ''issues/007-fix.md'' ''issues/009-fix.md'' =
    Inr [\<lparr>edit_path = ''docs/a.md'', edit_before = ''see ../issues/007-fix.md.'', edit_after = ''see ../issues/009-fix.md.''\<rparr>]"
    by code_simp
  from references_settle [OF t this] show ?thesis by blast
qed

definition fix_git :: "unit rebase_git" where
  "fix_git = \<lparr>rev_head = (\<lambda>_. Some ''h''), rev_list = (\<lambda>_ _. Some ''c1''), added_paths = (\<lambda>_ _. Some ''issues/007-fix.md''),
     ls_tree = (\<lambda>_ _. Some ''issues/007-other.md issues/007-more.md''), status_porcelain = (\<lambda>_ _. Some []),
     merged_parent = (\<lambda>_. False), add_all = (\<lambda>_ _ g. (True, g)), reset_paths = (\<lambda>_ g. g), commit_only = (\<lambda>_ _ _ g. (False, g))\<rparr>"

definition fix_owned :: owned_ticket where
  "fix_owned = \<lparr>own_path = ''issues/007-fix.md'', own_number = ''007'', own_theirs = []\<rparr>"

lemma fix_plan:
  "plannedCollisions fix_git fs ''r'' (Some []) ''u'' [fix_owned] () =
    Inr (7, [fix_owned\<lparr>own_theirs := ''issues/007-more.md''\<rparr>])"
proof -
  have s: "Scan fs (issues_dir ''r'') (Some []) = Inr []" by (simp add: Scan_def sort_issues_def)
  have l: "ls_tree fix_git ''u'' () = Some ''issues/007-other.md issues/007-more.md''" by (simp add: fix_git_def)
  have f: "foreign_paths [fix_owned] (string_fields ''issues/007-other.md issues/007-more.md'')
      = [''issues/007-other.md'', ''issues/007-more.md'']" by code_simp
  have m: "max_remote (max_local []) (string_fields ''issues/007-other.md issues/007-more.md'') = 7" by code_simp
  have n: "number_count [] [''issues/007-other.md'', ''issues/007-more.md''] (own_number fix_owned) = 2"
    "theirs_of [''issues/007-other.md'', ''issues/007-more.md''] (own_number fix_owned) = ''issues/007-more.md''"
    by code_simp+
  show ?thesis by (simp add: plannedCollisions_def s l f m n Let_def)
qed

lemma new_numbers_fresh_witness:
  "map new_num (plan_repairs 7 [fix_owned\<lparr>own_theirs := ''issues/007-more.md''\<rparr>]) = [''008'']
    \<and> Some ''008'' \<notin> localTicketNumber ` set (string_fields ''issues/007-other.md issues/007-more.md'')"
proof -
  have s: "Scan (sound_fsys Map.empty) (issues_dir ''r'') (Some []) = Inr []" by (simp add: Scan_def sort_issues_def)
  have l: "ls_tree fix_git ''u'' () = Some ''issues/007-other.md issues/007-more.md''" by (simp add: fix_git_def)
  have n: "map new_num (plan_repairs 7 [fix_owned\<lparr>own_theirs := ''issues/007-more.md''\<rparr>]) = [''008'']" by code_simp
  from new_numbers_fresh [OF fix_plan s l] n show ?thesis by auto
qed

definition fix_env :: reconcile_env where
  "fix_env = \<lparr>ref_walk = (\<lambda>_. [''docs/a.md'', ''issues/007-fix.md'']), issue_walk = (\<lambda>_. Some []), index_lock = False,
     flow = \<lparr>flow_yaml = (\<lambda>_. None), flow_view = \<lparr>origin_head = None, head_ref = Some ''topic'', in_repo = True\<rparr>\<rparr>,
     lint_ok = (\<lambda>_. True)\<rparr>"

definition fix_map :: files where
  "fix_map = [''r/issues/007-fix.md'' \<mapsto> ''# 007 - Fix'', ''r/docs/a.md'' \<mapsto> ''see 007-fix.md'']"

lemma snapshot_sound: "\<exists>s. snapshotIssueIndexes (sound_fsys m) dir = Some s"
  by (simp add: snapshotIssueIndexes_def index_names_def split: option.split)

lemma fix_run:
  "fst (RunIssuesReconcile (\<lambda>_. False) fix_env fix_git ''r'' ''u'' False (sound_fsys fix_map) ()) = Inl (IndexError IndexLock)"
proof -
  let ?moves = "plan_repairs 7 [fix_owned\<lparr>own_theirs := ''issues/007-more.md''\<rparr>]"
  have st: "status_porcelain fix_git () (sound_fsys fix_map) = Some []" "\<not> trackerDirty []" by code_simp+
  have c: "collectLocalTickets fix_git ''u'' () = Some (''h'', [fix_owned])" by code_simp
  have pr: "contents (sound_fsys fix_map) (issue_path ''r'' (own_path fix_owned)) \<noteq> None"
    by (simp add: sound_fsys_def fix_map_def fix_owned_def issue_path_def)
  have gd: "guard_commit (flow fix_env) (sound_fsys fix_map) ''r'' ''reconcile tickets'' = None" by code_simp
  have rf: "reconcile_ref fix_git ''u'' () = ''u''" "issue_walk fix_env = (\<lambda>_. Some [])" "index_lock fix_env = False"
    by (simp_all add: reconcile_ref_def fix_env_def)
  have mv: "fst (move_tickets (\<lambda>_. False) (ref_walk fix_env) ''r'' ?moves (sound_fsys fix_map, [], [])) = None"
    by code_simp
  then obtain fs1 us stage where p:
    "move_tickets (\<lambda>_. False) (ref_walk fix_env) ''r'' ?moves (sound_fsys fix_map, [], []) = (None, fs1, us, stage)"
    by (metis prod.collapse)
  from undo_moves [OF p] obtain m1 where m1: "fs1 = sound_fsys m1" by blast
  obtain s where s: "snapshotIssueIndexes (sound_fsys m1) (issues_dir ''r'') = Some s" using snapshot_sound by blast
  have "fst (commit_moves fix_env fix_git ''r'' (fs1, us, stage) ()) = Inl (IndexError IndexLock)"
    by (simp add: commit_moves_def m1 s rf UpdateIssuesReadme_def Let_def)
  then show ?thesis
    using st c pr gd p fix_plan [of "sound_fsys fix_map"] by (simp add: RunIssuesReconcile_def Let_def rf)
qed



end
