(* ===== verification/DocsIndex.thy ===== *)
theory DocsIndex
  imports TicketIndex
begin

text \<open>
  The studies table of \<open>docs/README.md\<close> (\<open>internal/index/index.go\<close>): the topic of a study from its
  text, the table, its managed block in the README, and the merge of three versions. The regular
  expressions are written as the scanners they denote. The names in the studies directory are an
  argument.
\<close>

section \<open>Topics\<close>

text \<open>\<open>(.+?)\s*-->\<close> from the front of a text: the shortest capture.\<close>

fun lazy_close :: "string \<Rightarrow> string \<Rightarrow> string option" where
  "lazy_close acc s =
     (if acc \<noteq> [] \<and> has_prefix (skip_re s) ''-->'' then Some acc
      else case s of [] \<Rightarrow> None | c # cs \<Rightarrow> if c = nl then None else lazy_close (acc @ [c]) cs)"

text \<open>\<open>\s*\<close> before it gives back white space when the capture fails.\<close>

fun spaced_close :: "string \<Rightarrow> string \<Rightarrow> string option" where
  "spaced_close [] s = lazy_close [] s"
| "spaced_close (w # ws) s =
     (case lazy_close [] s of Some g \<Rightarrow> Some g | None \<Rightarrow> spaced_close ws (w # s))"

definition override_at :: "string \<Rightarrow> string option" where
  "override_at s =
     (if has_prefix s ''<!--''
      then let r = skip_re (drop 4 s)
           in if has_prefix r ''harnez:topic:''
              then let t = drop 13 r in spaced_close (rev (takeWhile re_space t)) (dropWhile re_space t)
              else None
      else None)"

fun topic_override :: "string \<Rightarrow> string option" where
  "topic_override [] = None"
| "topic_override (c # cs) =
     (case override_at (c # cs) of Some g \<Rightarrow> Some g | None \<Rightarrow> topic_override cs)"

text \<open>\<open>(?m)^#\s+(.+)$\<close>; a heading of white space only gives the empty topic either way.\<close>

fun h1_text :: "bool \<Rightarrow> string \<Rightarrow> string option" where
  "h1_text bol [] = None"
| "h1_text bol (c # cs) =
     (let t = skip_re cs
      in if bol \<and> c = CHR ''#'' \<and> length t < length cs \<and> t \<noteq> []
         then Some (takeWhile (\<lambda>d. d \<noteq> nl) t)
         else h1_text (c = nl) cs)"

definition strip_kind :: "string \<Rightarrow> string" where
  "strip_kind t =
     (if has_prefix t ''Case Study:'' then skip_re (drop 11 t)
      else if has_prefix t ''Study:'' then skip_re (drop 6 t)
      else if has_prefix t ''ADR:'' then skip_re (drop 4 t) else t)"

definition date_shape :: "string \<Rightarrow> bool" where
  "date_shape s \<longleftrightarrow> length s = 10
     \<and> list_all (\<lambda>i. if i \<in> {4, 7} then s ! i = CHR ''-'' else is_digit (s ! i)) [0..<10]"

definition strip_date :: "string \<Rightarrow> string" where
  "strip_date t =
     (let r = skip_re (drop 10 t)
      in if date_shape (take 10 t)
         then (if has_prefix r em_dash then skip_re (drop 3 r)
               else if has_prefix r ''-'' then skip_re (drop 1 r) else t)
         else t)"

definition scope_label :: string where "scope_label = ''**Scope**:''"

definition scope_parts :: "string list \<Rightarrow> string list" where
  "scope_parts ls = takeWhile (\<lambda>l. l \<noteq> [] \<and> \<not> has_prefix l ''**'') (map trim_space ls)"

fun extract_scope :: "string list \<Rightarrow> string" where
  "extract_scope [] = []"
| "extract_scope (l # ls) =
     (if has_prefix (trim_space l) scope_label
      then trim_space (join '' '' (trim_space (trim_prefix (trim_space l) scope_label) # scope_parts ls))
      else extract_scope ls)"

definition extractScope :: "string \<Rightarrow> string" where
  "extractScope content = extract_scope (split_on nl content)"

definition StudyTopic :: "string \<Rightarrow> string" where
  "StudyTopic content =
     (case topic_override content of
        Some g \<Rightarrow> trim_space g
      | None \<Rightarrow>
          if extractScope content \<noteq> [] then extractScope content
          else case h1_text True content of
                 None \<Rightarrow> []
               | Some m \<Rightarrow> trim_space (strip_date (strip_kind (trim_space m))))"

section \<open>The table\<close>

definition docsStudiesNotice :: string where
  "docsStudiesNotice = ''<!-- managed by harnez index: only the studies table is generated; evergreen documentation and other tables are hand-written -->''"

definition docsStudiesAnchor :: string where "docsStudiesAnchor = ''**`docs/studies/`**''"
definition docsStudiesTableHead :: string where "docsStudiesTableHead = ''| File | Topic |''"
definition studies_separator :: string where "studies_separator = ''|------|-------|''"

abbreviation studies_id :: string where "studies_id \<equiv> ''docs-studies-index''"

fun study_rows :: "fsys \<Rightarrow> string \<Rightarrow> string list \<Rightarrow> fserr + (string \<times> string) list" where
  "study_rows fs dir [] = Inr []"
| "study_rows fs dir (n # ns) =
     (if has_suffix n ''.md''
      then case read_file fs (dir @ ''/studies/'' @ n) of
             Inl err \<Rightarrow> Inl err
           | Inr data \<Rightarrow> map_inr ((#) (''studies/'' @ n, StudyTopic data)) (study_rows fs dir ns)
      else study_rows fs dir ns)"

definition study_line :: "string \<times> string \<Rightarrow> string" where
  "study_line r = ''| ['' @ fst r @ '']('' @ fst r @ '') | '' @ snd r @ '' |''"

definition StudiesTable :: "fsys \<Rightarrow> string \<Rightarrow> string list option \<Rightarrow> fserr + string" where
  "StudiesTable fs dir names =
     (case names of
        None \<Rightarrow> Inl ErrIO
      | Some ns \<Rightarrow>
          map_inr (\<lambda>rows. concat (map (\<lambda>l. l @ lf)
              (docsStudiesTableHead # studies_separator # map study_line (sort_key fst rows))))
            (study_rows fs dir ns))"

datatype docs_err = StudiesRead fserr | NoStudiesHeader | DocsBlock block_err | DocsMerge merge_err
  | DocsRead fserr | DocsWrite fserr

definition fill_newlines :: "string \<Rightarrow> string" where
  "fill_newlines s =
     (let p = (if has_suffix s lf then s else s @ lf) in if has_suffix p (lf @ lf) then p else p @ lf)"

definition block_result :: "block_err + string \<Rightarrow> docs_err + string" where
  "block_result r = (case r of Inl err \<Rightarrow> Inl (DocsBlock err) | Inr c \<Rightarrow> Inr c)"

definition render_docs :: "string \<Rightarrow> string \<Rightarrow> docs_err + string" where
  "render_docs content0 table =
     (let content = ensureManagedNotice content0 docsStudiesNotice
      in if contains content (index_begin studies_id) \<or> contains content (index_end studies_id)
         then block_result (replaceManagedBlock content studies_id table None)
         else case index_of content docsStudiesAnchor of
                None \<Rightarrow>
                  Inr (fill_newlines content @ docsStudiesAnchor @ '' '' @ em_dash @ '' case studies'' @ lf @ lf
                    @ index_begin studies_id @ lf @ trim_right table lf @ lf @ index_end studies_id @ lf)
              | Some a \<Rightarrow>
                  (case index_of (drop a content) docsStudiesTableHead of
                     None \<Rightarrow> Inl NoStudiesHeader
                   | Some h \<Rightarrow>
                       let head = a + h;
                           stop = (case index_of (drop head content) (lf @ lf) of
                                     None \<Rightarrow> length content | Some e \<Rightarrow> head + e)
                       in block_result (replaceManagedBlock content studies_id table (Some (head, stop)))))"

definition RenderDocsReadme :: "string \<Rightarrow> fsys \<Rightarrow> string \<Rightarrow> string list option \<Rightarrow> docs_err + string" where
  "RenderDocsReadme content fs dir names =
     (case StudiesTable fs dir names of Inl err \<Rightarrow> Inl (StudiesRead err) | Inr table \<Rightarrow> render_docs content table)"

definition UpdateDocsReadme ::
  "string \<Rightarrow> string \<Rightarrow> string list option \<Rightarrow> fsys \<Rightarrow> (docs_err + bool) \<times> fsys" where
  "UpdateDocsReadme readme dir names fs =
     (case mkdir_parent fs (dir @ ''/studies/x'') of
        Some err \<Rightarrow> (Inl (DocsWrite err), fs)
      | None \<Rightarrow>
     (case read_file fs readme of
        Inl err \<Rightarrow> (Inl (DocsRead err), fs)
      | Inr orig \<Rightarrow>
          (case RenderDocsReadme orig fs dir names of
             Inl err \<Rightarrow> (Inl err, fs)
           | Inr new \<Rightarrow>
               if new = orig then (Inr False, fs)
               else (case write_file fs readme new of
                       (Some err, fs') \<Rightarrow> (Inl (DocsWrite err), fs')
                     | (None, fs') \<Rightarrow> (Inr True, fs')))))"

definition MergeDocsReadme ::
  "string \<Rightarrow> string \<Rightarrow> string \<Rightarrow> fsys \<Rightarrow> string \<Rightarrow> string list option \<Rightarrow> docs_err + string" where
  "MergeDocsReadme ancestor ours theirs fs dir names =
     (case mergeGeneratedTableRows ancestor ours theirs studies_id docsStudiesTableHead studies_separator False of
        Inl err \<Rightarrow> Inl (DocsMerge err)
      | Inr table \<Rightarrow>
          (case RenderDocsReadme ours fs dir names of
             Inl err \<Rightarrow> Inl err
           | Inr rendered \<Rightarrow> block_result (replaceManagedBlock rendered studies_id table None)))"

section \<open>Rendering settles\<close>

lemma studies_facts:
  "has_prefix docsStudiesNotice notice_prefix" "nl \<notin> set docsStudiesNotice" "nl \<notin> set studies_id"
  by code_simp+

lemma begin_not_docs_notice: "\<not> has_prefix (docsStudiesNotice @ nl # y) (index_begin sid)"
  by (simp add: MDMarkers_def docsStudiesNotice_def)

lemma fill_newlines_shape:
  "line_complete (fill_newlines s)" "\<exists>u. fill_newlines s = s @ u \<and> set u \<subseteq> {nl}"
proof -
  show "\<exists>u. fill_newlines s = s @ u \<and> set u \<subseteq> {nl}"
    by (auto simp: fill_newlines_def Let_def lf_def)
  show "line_complete (fill_newlines s)"
    by (auto simp: fill_newlines_def Let_def lf_def has_suffix_iff line_complete_def)
qed

text \<open>The rendered README in the shape that is found again; the table in place of an unmarked one has to
  start a line.\<close>

lemma docs_shape:
  assumes r: "render_docs content table = Inr c'"
    and line: "\<And>a h. index_of (ensureManagedNotice content docsStudiesNotice) docsStudiesAnchor = Some a
      \<Longrightarrow> index_of (drop a (ensureManagedNotice content docsStudiesNotice)) docsStudiesTableHead = Some h
      \<Longrightarrow> line_complete (take (a + h) (ensureManagedNotice content docsStudiesNotice))"
  shows "\<exists>pre post sfx z. c' = pre @ index_block studies_id table sfx @ post
    \<and> line_complete pre \<and> no_markers studies_id pre
    \<and> \<not> contains post (index_begin studies_id) \<and> newline_suffix sfx \<and> pre = docsStudiesNotice @ nl # z"
proof -
  obtain y where y: "ensureManagedNotice content docsStudiesNotice = docsStudiesNotice @ nl # y"
    using ensure_notice_shape by blast
  define s where "s = docsStudiesNotice @ nl # y"
  have block: "\<exists>pre post sfx z. c' = pre @ index_block studies_id table sfx @ post
      \<and> line_complete pre \<and> no_markers studies_id pre
      \<and> \<not> contains post (index_begin studies_id) \<and> newline_suffix sfx \<and> pre = docsStudiesNotice @ nl # z"
    if rp: "replaceManagedBlock s studies_id table legacy = Inr c'"
      and lg: "\<And>ls le. legacy = Some (ls, le) \<Longrightarrow> line_complete (take ls s) \<and> ls \<noteq> 0" for legacy
  proof -
    from replace_shape [OF rp studies_facts(3)] lg obtain n post sfx where
      sh: "c' = take n s @ index_block studies_id table sfx @ post" "line_complete (take n s)"
        "no_markers studies_id (take n s)" "\<not> contains post (index_begin studies_id)" "newline_suffix sfx"
      and n: "index_of s (index_begin studies_id) = Some n \<or> (\<exists>le. legacy = Some (n, le))" by blast
    have "n \<noteq> 0"
    proof
      assume z: "n = 0"
      with n lg have "index_of s (index_begin studies_id) = Some 0" by blast
      from index_of_SomeD [OF this] have "has_prefix s (index_begin studies_id)"
        by (metis append_Nil has_prefix_append take0)
      then show False unfolding s_def using begin_not_docs_notice by blast
    qed
    then have "take n s \<noteq> []" by (simp add: s_def)
    from complete_past_notice [OF sh(2) s_def studies_facts(2) this] sh show ?thesis by blast
  qed
  show ?thesis
  proof (cases "contains s (index_begin studies_id) \<or> contains s (index_end studies_id)")
    case True
    with r have "replaceManagedBlock s studies_id table None = Inr c'"
      by (simp add: render_docs_def y s_def [symmetric] block_result_def split: sum.splits)
    then show ?thesis by (rule block) simp
  next
    case False
    then have nm: "no_markers studies_id s" by (simp add: no_markers_def)
    show ?thesis
    proof (cases "index_of s docsStudiesAnchor")
      case None
      let ?pre = "fill_newlines s @ docsStudiesAnchor @ '' '' @ em_dash @ '' case studies'' @ lf @ lf"
      have c': "c' = ?pre @ index_block studies_id table lf @ []"
        using r False None by (simp add: render_docs_def y s_def [symmetric] index_block_def)
      have fill: "fill_newlines s = s \<or> fill_newlines s = s @ nl # [] \<or> fill_newlines s = s @ nl # nl # []"
        by (auto simp: fill_newlines_def Let_def lf_def)
      have nls: "\<not> contains [nl] (index_begin studies_id)" "\<not> contains [nl] (index_end studies_id)" by code_simp+
      have nf: "no_markers studies_id (fill_newlines s)"
        using nm fill md_markers.begin_ne [of studies_id] md_markers.end_ne [of studies_id]
          contains_line [OF md_markers.begin_line [OF studies_facts(3)] md_markers.begin_ne]
          contains_line [OF md_markers.end_line [OF studies_facts(3)] md_markers.end_ne]
          nls unfolding no_markers_def by (elim disjE) simp_all
      have anchor: "no_markers studies_id (docsStudiesAnchor @ '' '' @ em_dash @ '' case studies'' @ lf @ lf)" by code_simp
      have "no_markers studies_id ?pre"
        using nf anchor contains_complete [OF fill_newlines_shape(1) md_markers.begin_line [OF studies_facts(3)] md_markers.begin_ne]
          contains_complete [OF fill_newlines_shape(1) md_markers.end_line [OF studies_facts(3)] md_markers.end_ne]
        unfolding no_markers_def by blast
      moreover have "line_complete ?pre" by (simp add: line_complete_def lf_def)
      moreover have "\<exists>z. ?pre = docsStudiesNotice @ nl # z"
        using fill_newlines_shape(2) [of s] by (auto simp: s_def)
      moreover have "\<not> contains [] (index_begin studies_id)" "newline_suffix lf"
        using md_markers.begin_ne by (simp_all add: newline_suffix_def)
      ultimately show ?thesis using c' by blast
    next
      case (Some a)
      with r False obtain h le where h: "index_of (drop a s) docsStudiesTableHead = Some h"
        "replaceManagedBlock s studies_id table (Some (a + h, le)) = Inr c'"
        by (auto simp: render_docs_def y s_def [symmetric] block_result_def Let_def split: option.splits sum.splits)
      have "a \<noteq> 0"
      proof
        assume "a = 0"
        with index_of_SomeD [OF Some] have "has_prefix s docsStudiesAnchor" by (metis append_Nil has_prefix_append take0)
        then show False by (simp add: s_def docsStudiesNotice_def docsStudiesAnchor_def)
      qed
      then have "a + h \<noteq> 0" by simp
      with h line [unfolded y s_def [symmetric], OF Some h(1)] show ?thesis by (intro block [OF h(2)]) auto
    qed
  qed
qed

text \<open>Rendering the studies table settles: rendering the rendered README again changes nothing, provided
  no topic holds a marker of the block and a table that has no block yet starts its line.\<close>

theorem docs_render_settles:
  assumes "RenderDocsReadme content fs dir names = Inr c'" and "StudiesTable fs dir names = Inr table"
    and "no_markers studies_id (trim_right table lf)"
    and "\<And>a h. index_of (ensureManagedNotice content docsStudiesNotice) docsStudiesAnchor = Some a
      \<Longrightarrow> index_of (drop a (ensureManagedNotice content docsStudiesNotice)) docsStudiesTableHead = Some h
      \<Longrightarrow> line_complete (take (a + h) (ensureManagedNotice content docsStudiesNotice))"
  shows "RenderDocsReadme c' fs dir names = Inr c'"
proof -
  have "render_docs content table = Inr c'" using assms(1,2) by (simp add: RenderDocsReadme_def)
  from docs_shape [OF this assms(4)] obtain pre post sfx z where
    c': "c' = pre @ index_block studies_id table sfx @ post" and sh: "line_complete pre" "no_markers studies_id pre"
      "\<not> contains post (index_begin studies_id)" "newline_suffix sfx" and z: "pre = docsStudiesNotice @ nl # z"
    by blast
  have "ensureManagedNotice c' docsStudiesNotice = c'"
    unfolding c' z using ensure_notice_fix [OF studies_facts(1,2)] by simp
  moreover have "contains c' (index_begin studies_id)"
    unfolding c' index_block_def using contains_appendI [of pre "index_begin studies_id"] by simp
  moreover have "replaceManagedBlock c' studies_id table None = Inr c'"
    unfolding c' using replace_again [OF studies_facts(3) sh(1,2) assms(3) sh(3,4)] .
  ultimately show ?thesis using assms(2) by (simp add: RenderDocsReadme_def render_docs_def block_result_def)
qed

definition sample_docs :: string where
  "sample_docs = ''# Docs'' @ lf @ lf @ docsStudiesAnchor @ lf @ lf @ docsStudiesTableHead @ lf @ studies_separator @ lf"

definition sample_studies :: fsys where
  "sample_studies = sound_fsys [''d/studies/a.md'' \<mapsto> ''# Case Study: 2026-01-02 - Locks'' @ lf]"

lemma sample_table:
  "StudiesTable sample_studies ''d'' (Some [''a.md'', ''x.txt'']) =
    Inr (docsStudiesTableHead @ lf @ studies_separator @ lf @ ''| [studies/a.md](studies/a.md) | Locks |'' @ lf)"
  by code_simp

lemma docs_render_settles_witness:
  "\<exists>c'. RenderDocsReadme sample_docs sample_studies ''d'' (Some [''a.md'', ''x.txt'']) = Inr c'
    \<and> RenderDocsReadme c' sample_studies ''d'' (Some [''a.md'', ''x.txt'']) = Inr c'"
proof -
  let ?s = "ensureManagedNotice sample_docs docsStudiesNotice"
  have "case RenderDocsReadme sample_docs sample_studies ''d'' (Some [''a.md'', ''x.txt'']) of Inl _ \<Rightarrow> False | Inr _ \<Rightarrow> True"
    by code_simp
  then obtain c' where c': "RenderDocsReadme sample_docs sample_studies ''d'' (Some [''a.md'', ''x.txt'']) = Inr c'"
    by (auto split: sum.splits)
  have m: "no_markers studies_id (trim_right (docsStudiesTableHead @ lf @ studies_separator @ lf
      @ ''| [studies/a.md](studies/a.md) | Locks |'' @ lf) lf)" by code_simp
  have "case index_of ?s docsStudiesAnchor of None \<Rightarrow> False | Some a \<Rightarrow>
      (case index_of (drop a ?s) docsStudiesTableHead of None \<Rightarrow> False | Some h \<Rightarrow> line_complete (take (a + h) ?s))"
    by code_simp
  then have l: "line_complete (take (a + h) ?s)" if "index_of ?s docsStudiesAnchor = Some a"
      "index_of (drop a ?s) docsStudiesTableHead = Some h" for a h using that by simp
  show ?thesis using docs_render_settles [OF c' sample_table m l] c' by blast
qed

text \<open>A studies anchor without a table takes the next table of the file, even one of another section with
  more columns, since its header only has to begin alike.\<close>

definition other_docs :: string where
  "other_docs = docsStudiesAnchor @ lf @ lf @ ''none yet'' @ lf @ lf @ ''Languages'' @ lf @ lf
     @ ''| File | Topic | Scope |'' @ lf @ ''| [go.md](go.md) | Go | all |'' @ lf"

lemma other_table_lost:
  "case RenderDocsReadme other_docs sample_studies ''d'' (Some []) of
     Inl _ \<Rightarrow> False | Inr c \<Rightarrow> contains other_docs ''go.md'' \<and> \<not> contains c ''go.md''"
  by code_simp

end
