(* ===== verification/Rebase.thy ===== *)
theory Rebase
  imports Renumber DocsIndex
begin

text \<open>
  The commands around renumbering (\<open>internal/issues/maintenance\<close>): the lint of the tracker, the merge
  driver of the generated indexes, the rebase with its recovery state, and the options of reconcile.

  The world of a command is the files, a repository state \<open>'g\<close> and the recovery state, which the code
  keeps as JSON beside the git directory and replaces atomically; migrating its old place is not
  modelled. What git answers is a record of functions; \<^const>\<open>None\<close> and \<open>False\<close> are failed commands. A
  rebase may change the files and the repository.
\<close>

section \<open>Linting the tracker\<close>

datatype lint_err = LintScan scan_err | UnknownTicketStatus string string | DuplicateNumber string string string
  | LintTicket fserr | HeaderMismatch string string | LintReadIndex fserr | LintRender index_err
  | StagedDrift "string list" | IndexDrift | FullIndexDrift string | LintDocs docs_err | DocsDrift | LintCap
  | LintMaterialize

fun lint_tickets :: "fsys \<Rightarrow> string \<Rightarrow> (string \<times> string) list \<Rightarrow> issue_file list \<Rightarrow> lint_err option" where
  "lint_tickets fs idir seen [] = None"
| "lint_tickets fs idir seen (f # files) =
     (if canonical f = CatUnknown then Some (UnknownTicketStatus (rel_path f) (raw_status f))
      else case map_of seen (inumber f) of
             Some prior \<Rightarrow> Some (DuplicateNumber (inumber f) prior (rel_path f))
           | None \<Rightarrow>
               (case read_file fs (issue_path idir (rel_path f)) of
                  Inl err \<Rightarrow> Some (LintTicket err)
                | Inr content \<Rightarrow>
                    let title = fst (ParseIssueFile content); fields = string_fields title
                    in if fields \<noteq> [] \<and> NormalizeID (hd fields) \<noteq> None \<and> hd fields \<noteq> inumber f
                       then Some (HeaderMismatch (rel_path f) title)
                       else lint_tickets fs idir ((inumber f, rel_path f) # seen) files))"

definition lint_full :: "fsys \<Rightarrow> string \<Rightarrow> (string \<times> string) list \<Rightarrow> string \<Rightarrow> lint_err option" where
  "lint_full fs idir indexes name =
     (case read_file fs (issue_path idir name) of
        Inl err \<Rightarrow> Some (LintReadIndex err)
      | Inr actual \<Rightarrow> if actual \<noteq> the (map_of indexes name) then Some (FullIndexDrift name) else None)"

text \<open>The issue indexes against what the tickets generate; the cached lint names the untracked tickets.\<close>

definition lint_indexes ::
  "fsys \<Rightarrow> string \<Rightarrow> string list option \<Rightarrow> string list option \<Rightarrow> lint_err option" where
  "lint_indexes fs idir walk cached =
     (case read_file fs (issue_path idir ''README.md'') of
        Inl err \<Rightarrow> Some (LintReadIndex err)
      | Inr orig \<Rightarrow>
          (case RenderIssuesReadme orig fs idir walk of
             Inl err \<Rightarrow> Some (LintRender err)
           | Inr generated \<Rightarrow>
               if generated \<noteq> orig
               then Some (case cached of None \<Rightarrow> IndexDrift | Some untracked \<Rightarrow> StagedDrift untracked)
               else (case IssueIndexFiles fs idir walk of
                       Inl err \<Rightarrow> Some (LintScan err)
                     | Inr indexes \<Rightarrow>
                         (case lint_full fs idir indexes ''BACKLOG.md'' of
                            Some err \<Rightarrow> Some err | None \<Rightarrow> lint_full fs idir indexes ''CLOSED.md''))))"

definition lint_docs :: "fsys \<Rightarrow> string \<Rightarrow> string list option \<Rightarrow> lint_err option" where
  "lint_docs fs dir names =
     (case read_file fs (issue_path dir ''docs/README.md'') of
        Inl ErrNotExist \<Rightarrow> None
      | Inl ErrIO \<Rightarrow> Some (LintDocs (DocsRead ErrIO))
      | Inr content \<Rightarrow>
          (case RenderDocsReadme content fs (issue_path dir ''docs'') names of
             Inl err \<Rightarrow> Some (LintDocs err)
           | Inr generated \<Rightarrow> if generated \<noteq> content then Some DocsDrift else None))"

text \<open>The walks of a directory tree, and whether the configured cap of active tickets can be read; the
  warning about it is not modelled.\<close>

record lint_env =
  tracker_walk :: "fsys \<Rightarrow> string list option"
  study_names :: "fsys \<Rightarrow> string list option"
  cap_known :: bool

definition runIssuesLintMode ::
  "lint_env \<Rightarrow> fsys \<Rightarrow> string \<Rightarrow> string list option \<Rightarrow> lint_err option" where
  "runIssuesLintMode env fs dir cached =
     (let idir = issues_dir dir; walk = tracker_walk env fs
      in if walk = None then None
         else case Scan fs idir walk of
                Inl err \<Rightarrow> Some (LintScan err)
              | Inr files \<Rightarrow>
                  (case lint_tickets fs idir [] files of
                     Some err \<Rightarrow> Some err
                   | None \<Rightarrow>
                       (case lint_indexes fs idir walk cached of
                          Some err \<Rightarrow> Some err
                        | None \<Rightarrow>
                            (case lint_docs fs dir (study_names env fs) of
                               Some err \<Rightarrow> Some err
                             | None \<Rightarrow> if cap_known env then None else Some LintCap))))"

definition runIssuesLint :: "lint_env \<Rightarrow> fsys \<Rightarrow> string \<Rightarrow> lint_err option" where
  "runIssuesLint env fs dir = runIssuesLintMode env fs dir None"

definition untracked_tickets :: "string \<Rightarrow> string list" where
  "untracked_tickets status =
     map (\<lambda>l. trim_space (drop 3 l))
       (filter (\<lambda>l. has_prefix l ''?? '' \<and> has_prefix (trim_space (drop 3 l)) ''issues/'') (split_on nl status))"

text \<open>The cached lint runs over the files of the index, checked out below a temporary directory.\<close>

definition runIssuesLintCached ::
  "lint_env \<Rightarrow> (fsys \<times> string) option \<Rightarrow> string \<Rightarrow> lint_err option" where
  "runIssuesLintCached env staged status =
     (case staged of
        None \<Rightarrow> Some LintMaterialize
      | Some (fs, tmp) \<Rightarrow> runIssuesLintMode env fs tmp (Some (untracked_tickets status)))"

section \<open>The merge driver\<close>

fun clean_comps :: "bool \<Rightarrow> string list \<Rightarrow> string list \<Rightarrow> string list" where
  "clean_comps rooted out [] = out"
| "clean_comps rooted out (c # cs) =
     (if c = [] \<or> c = ''.'' then clean_comps rooted out cs
      else if c = ''..''
      then (if out \<noteq> [] \<and> last out \<noteq> ''..'' then clean_comps rooted (butlast out) cs
            else if rooted then clean_comps rooted out cs else clean_comps rooted (out @ [c]) cs)
      else clean_comps rooted (out @ [c]) cs)"

definition path_clean :: "string \<Rightarrow> string" where
  "path_clean p =
     (let rooted = has_prefix p ''/''; out = clean_comps rooted [] (split_on (CHR ''/'') p)
      in if rooted then ''/'' @ join ''/'' out else if out = [] then ''.'' else join ''/'' out)"

datatype driver_err = NoCurrentPath | CurrentUnreadable fserr | NoWorktree | BadTarget | AncestorUnreadable fserr
  | OtherUnreadable fserr | ConflictOutside | ConcurrentEdits | MarkersNotWritten fserr | UnsupportedTarget
  | DriverMerge merge_err | DriverIndex index_err | DriverDocs docs_err | DriverWrite fserr

definition conflict_text :: "string \<Rightarrow> string \<Rightarrow> string" where
  "conflict_text ours theirs =
     ''<<<<<<< ours'' @ lf @ trim_right ours [CHR 0x0D, nl] @ lf @ ''======='' @ lf
     @ trim_right theirs [CHR 0x0D, nl] @ lf @ ''>>>>>>> theirs'' @ lf"

definition writeMergeConflictMarkers :: "string \<Rightarrow> string \<Rightarrow> string \<Rightarrow> fsys \<Rightarrow> fserr option \<times> fsys" where
  "writeMergeConflictMarkers path ours theirs fs = write_file fs path (conflict_text ours theirs)"

definition lift_merge :: "merge_err + string \<Rightarrow> driver_err + string" where
  "lift_merge r = (case r of Inl err \<Rightarrow> Inl (DriverMerge err) | Inr c \<Rightarrow> Inr c)"

text \<open>The three versions, when both other paths are given.\<close>

type_synonym versions = "(string \<times> string) option"

definition drive_readme ::
  "fsys \<Rightarrow> string \<Rightarrow> string list option \<Rightarrow> versions \<Rightarrow> bool \<Rightarrow> string \<Rightarrow> driver_err + string" where
  "drive_readme fs idir walk v replay orig =
     (if HasConflictOutsideManagedBlock orig ''issues-active-index'' then Inl ConflictOutside
      else case v of
             Some (ancestor, other) \<Rightarrow> lift_merge (mergeIssuesReadme ancestor orig other replay)
           | None \<Rightarrow>
               (case RenderIssuesReadme orig fs idir walk of
                  Inl err \<Rightarrow> Inl (DriverIndex err) | Inr c \<Rightarrow> Inr c))"

definition drive_full ::
  "fsys \<Rightarrow> string \<Rightarrow> string list option \<Rightarrow> versions \<Rightarrow> bool \<Rightarrow> string \<Rightarrow> string \<Rightarrow> driver_err + string" where
  "drive_full fs idir walk v replay name orig =
     (case v of
        Some (ancestor, other) \<Rightarrow> lift_merge (mergeFullIssueIndex ancestor orig other name replay)
      | None \<Rightarrow>
          (case IssueIndexFiles fs idir walk of
             Inl err \<Rightarrow> Inl (DriverIndex (IndexScan err)) | Inr ix \<Rightarrow> Inr (the (map_of ix name))))"

definition drive_docs ::
  "fsys \<Rightarrow> string \<Rightarrow> string list option \<Rightarrow> versions \<Rightarrow> string \<Rightarrow> string \<Rightarrow> (driver_err + string) \<times> fsys" where
  "drive_docs fs ddir names v path orig =
     (case v of
        Some (ancestor, other) \<Rightarrow>
          if HasConcurrentEditsOutsideManagedBlock ancestor orig other studies_id
          then (if HasConflictOutsideManagedBlock orig studies_id then (Inl ConcurrentEdits, fs)
                else case writeMergeConflictMarkers path orig other fs of
                       (Some err, fs') \<Rightarrow> (Inl (MarkersNotWritten err), fs')
                     | (None, fs') \<Rightarrow> (Inl ConcurrentEdits, fs'))
          else if HasConflictOutsideManagedBlock orig studies_id then (Inl ConflictOutside, fs)
          else (case MergeDocsReadme ancestor orig other fs ddir names of
                  Inl err \<Rightarrow> (Inl (DriverDocs err), fs) | Inr c \<Rightarrow> (Inr c, fs))
      | None \<Rightarrow>
          if HasConflictOutsideManagedBlock orig studies_id then (Inl ConflictOutside, fs)
          else (case RenderDocsReadme orig fs ddir names of
                  Inl err \<Rightarrow> (Inl (DriverDocs err), fs) | Inr c \<Rightarrow> (Inr c, fs)))"

text \<open>\<open>root\<close> is the work tree git names, \<open>replay\<close> says that a rebase of this tool is replaying.\<close>

record driver_call =
  ancestor_path :: string
  current_path :: string
  other_path :: string
  target_path :: string

definition read_versions :: "fsys \<Rightarrow> driver_call \<Rightarrow> driver_err + versions" where
  "read_versions fs call =
     (if ancestor_path call = [] \<or> other_path call = [] then Inr None
      else case read_file fs (ancestor_path call) of
             Inl err \<Rightarrow> Inl (AncestorUnreadable err)
           | Inr ancestor \<Rightarrow>
               (case read_file fs (other_path call) of
                  Inl err \<Rightarrow> Inl (OtherUnreadable err) | Inr other \<Rightarrow> Inr (Some (ancestor, other))))"

definition drive_target ::
  "lint_env \<Rightarrow> string \<Rightarrow> bool \<Rightarrow> string \<Rightarrow> string \<Rightarrow> versions \<Rightarrow> string \<Rightarrow> fsys \<Rightarrow> (driver_err + string) \<times> fsys" where
  "drive_target env root replay target path v orig fs =
     (let idir = issues_dir root; walk = tracker_walk env fs
      in if target = ''issues/README.md'' then (drive_readme fs idir walk v replay orig, fs)
         else if target = ''issues/BACKLOG.md'' \<or> target = ''issues/CLOSED.md''
         then (drive_full fs idir walk v replay (base_name target) orig, fs)
         else if target = ''docs/README.md''
         then drive_docs fs (issue_path root ''docs'') (study_names env fs) v path orig
         else (Inl UnsupportedTarget, fs))"

definition runIssuesMergeDriverVersions ::
  "lint_env \<Rightarrow> string option \<Rightarrow> bool \<Rightarrow> driver_call \<Rightarrow> fsys \<Rightarrow> driver_err option \<times> fsys" where
  "runIssuesMergeDriverVersions env root0 replay call fs =
     (if trim_space (current_path call) = [] then (Some NoCurrentPath, fs)
      else case read_file fs (current_path call) of
             Inl err \<Rightarrow> (Some (CurrentUnreadable err), fs)
           | Inr orig \<Rightarrow>
               (case root0 of
                  None \<Rightarrow> (Some NoWorktree, fs)
                | Some root \<Rightarrow>
                    let target = path_clean (target_path call)
                    in if has_prefix target ''/'' \<or> target = ''..'' \<or> has_prefix target ''../''
                       then (Some BadTarget, fs)
                       else case read_versions fs call of
                              Inl err \<Rightarrow> (Some err, fs)
                            | Inr v \<Rightarrow>
                                (case drive_target env root replay target (current_path call) v orig fs of
                                   (Inl err, fs1) \<Rightarrow> (Some err, fs1)
                                 | (Inr generated, fs1) \<Rightarrow>
                                     (case write_file fs1 (current_path call) generated of
                                        (Some err, fs2) \<Rightarrow> (Some (DriverWrite err), fs2)
                                      | (None, fs2) \<Rightarrow> (None, fs2)))))"

section \<open>The recovery state\<close>

record rebase_state =
  upstream :: string
  start_head :: string
  owned :: "owned_ticket list"
  phase :: string
  repairs :: "repair list"
  staged :: string
  ref_paths :: "string list"

record 'g rebase_world =
  files :: fsys
  repo :: 'g
  saved :: "rebase_state option"

text \<open>Git as the rebase uses it. \<open>rebase_onto\<close> is the replay itself, with or without the autostash.\<close>

record 'g repair_git =
  base_git :: "'g rebase_git"
  on_branch :: "'g \<Rightarrow> bool"
  merge_attr :: "'g \<Rightarrow> string option"
  driver_config :: "'g \<Rightarrow> string option"
  replay_open :: "'g \<Rightarrow> bool"
  staged_diff :: "'g \<Rightarrow> string option"
  subjects :: "string \<Rightarrow> 'g \<Rightarrow> string option"
  rebase_onto :: "bool \<Rightarrow> string \<Rightarrow> fsys \<times> 'g \<Rightarrow> bool \<times> fsys \<times> 'g"
  path_status :: "string list \<Rightarrow> fsys \<Rightarrow> 'g \<Rightarrow> string option"
  path_tracked :: "string \<Rightarrow> 'g \<Rightarrow> string option"
  add_paths :: "string list \<Rightarrow> fsys \<Rightarrow> 'g \<Rightarrow> bool \<times> 'g"
  apply_cached :: "string \<Rightarrow> 'g \<Rightarrow> bool \<times> 'g"

text \<open>What else a run depends on: the lint, the walks, the index lock, the flow configuration, the class
  of letters, the hash of a temp name, the names of scratch files, and whether the state file can be
  written.\<close>

record rebase_env =
  lint :: lint_env
  walk_refs :: "fsys \<Rightarrow> string list"
  lock_ok :: bool
  flow_cfg :: flow_env
  letters :: "string \<Rightarrow> bool"
  temp_hash :: "string \<Rightarrow> string"
  scratch_names :: "string \<Rightarrow> fsys \<Rightarrow> string list \<times> string"
  can_save :: "rebase_state \<Rightarrow> bool"

datatype rebase_err = DetachedHead | GitIntegrationOff | RebaseGuard flow_err | ReplayInProgress | HeadUnknown
  | StateNotSaved | RebaseStatus | RestoreFailed | RebaseLint lint_err | RepairFailed repair_err | RepairOp string
  | RepairRefs fserr | RepairGit | RepairIndex index_err | RebaseDirty | CollectTickets | StagedUnknown
  | RebasePlan plan_err | ScanRefs fserr | LogFailed | ReplayStopped

text \<open>\<open>rebaseReplayActive\<close>, as the merge driver asks it.\<close>

definition rebaseReplayActive :: "'g repair_git \<Rightarrow> 'g rebase_world \<Rightarrow> bool" where
  "rebaseReplayActive git w \<longleftrightarrow>
     replay_open git (repo w) \<and> (case saved w of None \<Rightarrow> False | Some st \<Rightarrow> phase st = ''replay'')"

definition save_state :: "rebase_env \<Rightarrow> rebase_state \<Rightarrow> 'g rebase_world \<Rightarrow> rebase_err option \<times> 'g rebase_world" where
  "save_state env st w = (if can_save env st then (None, w\<lparr>saved := Some st\<rparr>) else (Some StateNotSaved, w))"

section \<open>The repair after a replay\<close>

fun exec_ops :: "file_op list \<Rightarrow> files \<Rightarrow> bool \<times> files" where
  "exec_ops [] m = (True, m)"
| "exec_ops (x # xs) m = (case do_op x m of None \<Rightarrow> (False, m) | Some m' \<Rightarrow> exec_ops xs m')"

text \<open>All repairs in order: the paths to stage and whether any file changed.\<close>

fun repair_files ::
  "rebase_env \<Rightarrow> string \<Rightarrow> string \<Rightarrow> repair list \<Rightarrow> fsys \<times> string list \<times> bool
    \<Rightarrow> rebase_err option \<times> fsys \<times> string list \<times> bool" where
  "repair_files env dir head [] (fs, stage, mutated) = (None, fs, stage, mutated)"
| "repair_files env dir head (r # rs) (fs, stage, mutated) =
     (let (stale, scratch) = scratch_names env (temp_path (temp_hash env) dir head r) fs
      in case repair_ops (letters env) (temp_hash env) dir head stale scratch r (contents fs) of
           Inl err \<Rightarrow> (Some (RepairFailed err), fs, stage, mutated)
         | Inr xs \<Rightarrow>
             (case exec_ops xs (contents fs) of
                (False, m) \<Rightarrow> (Some (RepairOp (new_path r)), fs\<lparr>contents := m\<rparr>, stage, mutated)
              | (True, m) \<Rightarrow>
                  repair_files env dir head rs
                    (fs\<lparr>contents := m\<rparr>, stage @ [old_path r, new_path r], mutated \<or> xs \<noteq> [])))"

definition our_paths :: "rebase_state \<Rightarrow> string list" where
  "our_paths st = issueIndexRelPaths @ map new_path (repairs st) @ ref_paths st"

text \<open>The edits of one repair that may be written: files of the repair itself, and other files that are
  clean and tracked, which are recorded.\<close>

fun clean_edits ::
  "'g repair_git \<Rightarrow> fsys \<Rightarrow> 'g \<Rightarrow> string list \<Rightarrow> ref_edit list \<Rightarrow> (ref_edit list \<times> string list) option" where
  "clean_edits git fs g ours [] = Some ([], [])"
| "clean_edits git fs g ours (e # es) =
     (let p = edit_path e
      in if p \<in> set ours
         then map_option (\<lambda>(cs, new). (e # cs, new)) (clean_edits git fs g ours es)
         else case path_status git [p] fs g of
                None \<Rightarrow> None
              | Some st \<Rightarrow>
                  if trim_space st \<noteq> [] then clean_edits git fs g ours es
                  else case path_tracked git p g of
                         None \<Rightarrow> None
                       | Some t \<Rightarrow>
                           if trim_space t = [] then clean_edits git fs g ours es
                           else map_option (\<lambda>(cs, new). (e # cs, p # new)) (clean_edits git fs g (p # ours) es))"

fun rewrite_repairs ::
  "rebase_env \<Rightarrow> 'g repair_git \<Rightarrow> string \<Rightarrow> string list \<Rightarrow> repair list \<Rightarrow> rebase_state \<Rightarrow> 'g rebase_world
    \<Rightarrow> rebase_err option \<times> rebase_state \<times> 'g rebase_world" where
  "rewrite_repairs env git dir ours [] st w = (None, st, w)"
| "rewrite_repairs env git dir ours (r # rs) st w =
     (case PlanReferences (letters env) (walk_refs env) (files w) dir (old_path r) (new_path r) of
        Inl err \<Rightarrow> (Some (ScanRefs err), st, w)
      | Inr edits \<Rightarrow>
          (case clean_edits git (files w) (repo w) ours edits of
             None \<Rightarrow> (Some RepairGit, st, w)
           | Some (cs, new) \<Rightarrow>
               let st1 = st\<lparr>ref_paths := ref_paths st @ new\<rparr>
               in if cs = [] then rewrite_repairs env git dir (new @ ours) rs st1 w
                  else case save_state env st1 w of
                         (Some err, w1) \<Rightarrow> (Some err, st1, w1)
                       | (None, w1) \<Rightarrow>
                           (case WriteReferences dir False cs (files w1) of
                              (Some err, fs) \<Rightarrow> (Some (RepairRefs err), st1, w1\<lparr>files := fs\<rparr>)
                            | (None, fs) \<Rightarrow> rewrite_repairs env git dir (new @ ours) rs st1 (w1\<lparr>files := fs\<rparr>))))"

definition rewriteRepairReferences ::
  "rebase_env \<Rightarrow> 'g repair_git \<Rightarrow> string \<Rightarrow> rebase_state \<Rightarrow> 'g rebase_world \<Rightarrow> rebase_err option \<times> rebase_state \<times> 'g rebase_world" where
  "rewriteRepairReferences env git dir st w = rewrite_repairs env git dir (our_paths st) (repairs st) st w"

definition restoreStagedChanges :: "'g repair_git \<Rightarrow> rebase_state \<Rightarrow> 'g rebase_world \<Rightarrow> rebase_err option \<times> 'g rebase_world" where
  "restoreStagedChanges git st w =
     (case staged_diff git (repo w) of
        None \<Rightarrow> (Some RestoreFailed, w)
      | Some current \<Rightarrow>
          if current = staged st \<or> staged st = [] then (None, w)
          else if current \<noteq> [] then (Some RestoreFailed, w)
          else case apply_cached git (staged st) (repo w) of
                 (ok, g) \<Rightarrow> (if ok then None else Some RestoreFailed, w\<lparr>repo := g\<rparr>))"

definition lint_world :: "rebase_env \<Rightarrow> string \<Rightarrow> 'g rebase_world \<Rightarrow> rebase_err option \<times> 'g rebase_world" where
  "lint_world env dir w = (map_option RebaseLint (runIssuesLint (lint env) (files w) dir), w)"

definition addable :: "'g repair_git \<Rightarrow> string \<Rightarrow> fsys \<Rightarrow> 'g \<Rightarrow> string list \<Rightarrow> string list option" where
  "addable git dir fs g paths =
     (if list_ex (\<lambda>p. path_tracked git p g = None) paths then None
      else Some (filter (\<lambda>p. contents fs (issue_path dir p) \<noteq> None \<or> trim_space (the (path_tracked git p g)) \<noteq> []) paths))"

definition commit_repair ::
  "rebase_env \<Rightarrow> 'g repair_git \<Rightarrow> string \<Rightarrow> rebase_state \<Rightarrow> string list \<Rightarrow> 'g rebase_world \<Rightarrow> rebase_err option \<times> 'g rebase_world" where
  "commit_repair env git dir st stage w =
     (case addable git dir (files w) (repo w) stage of
        None \<Rightarrow> (Some RepairGit, w)
      | Some paths \<Rightarrow>
          (case add_paths git paths (files w) (repo w) of
             (False, g1) \<Rightarrow> (Some RepairGit, w\<lparr>repo := g1\<rparr>)
           | (True, g1) \<Rightarrow>
               (case commit_only (base_git git) ''docs(issues): repair ticket numbers after rebase'' stage (files w) g1 of
                  (False, g2) \<Rightarrow> (Some RepairGit, w\<lparr>repo := g2\<rparr>)
                | (True, g2) \<Rightarrow>
                    (case save_state env (st\<lparr>phase := ''restore''\<rparr>) (w\<lparr>repo := g2\<rparr>) of
                       (Some err, w1) \<Rightarrow> (Some err, w1)
                     | (None, w1) \<Rightarrow>
                         (case restoreStagedChanges git st w1 of
                            (Some err, w2) \<Rightarrow> (Some err, w2)
                          | (None, w2) \<Rightarrow> lint_world env dir w2)))))"

definition repairRebasedTickets ::
  "rebase_env \<Rightarrow> 'g repair_git \<Rightarrow> string \<Rightarrow> rebase_state \<Rightarrow> 'g rebase_world \<Rightarrow> rebase_err option \<times> 'g rebase_world" where
  "repairRebasedTickets env git dir st0 w0 =
     (case repair_files env dir (start_head st0) (repairs st0) (files w0, [], False) of
        (Some err, fs, _) \<Rightarrow> (Some err, w0\<lparr>files := fs\<rparr>)
      | (None, fs, stage0, mutated) \<Rightarrow>
          (case rewriteRepairReferences env git dir st0 (w0\<lparr>files := fs\<rparr>) of
             (Some err, _, w1) \<Rightarrow> (Some err, w1)
           | (None, st, w1) \<Rightarrow>
               (case UpdateIssuesReadme (lock_ok env) (issues_dir dir) (tracker_walk (lint env) (files w1)) (files w1) of
                  (Inl err, fs2) \<Rightarrow> (Some (RepairIndex err), w1\<lparr>files := fs2\<rparr>)
                | (Inr changed, fs2) \<Rightarrow>
                    let w2 = w1\<lparr>files := fs2\<rparr>; stage = stage0 @ ref_paths st @ issueIndexRelPaths
                    in if repairs st = [] \<and> \<not> changed then lint_world env dir w2
                       else if \<not> mutated \<and> \<not> changed
                       then (case path_status git stage (files w2) (repo w2) of
                               None \<Rightarrow> (Some RepairGit, w2)
                             | Some out \<Rightarrow> if trim_space out = [] then lint_world env dir w2
                                           else commit_repair env git dir st stage w2)
                       else commit_repair env git dir st stage w2)))"

section \<open>The rebase\<close>

definition integration_on :: "'g repair_git \<Rightarrow> 'g \<Rightarrow> bool" where
  "integration_on git g \<longleftrightarrow>
     (case merge_attr git g of
        None \<Rightarrow> False
      | Some a \<Rightarrow>
          let union' = has_suffix a '': union'' \<or> contains a ''merge: union'';
              custom = has_suffix a '': harnez-issues-index'' \<or> contains a ''merge: harnez-issues-index''
          in (union' \<or> custom)
             \<and> (custom \<longrightarrow> (case driver_config git g of None \<Rightarrow> False | Some d \<Rightarrow> trim_space d \<noteq> [])))"

definition word_byte :: "char \<Rightarrow> bool" where
  "word_byte c \<longleftrightarrow> is_digit c \<or> (65 \<le> byte c \<and> byte c \<le> 90) \<or> (97 \<le> byte c \<and> byte c \<le> 122) \<or> c = CHR ''_''"

text \<open>\<open>\bnumber\b\<close> in a subject.\<close>

fun has_word :: "bool \<Rightarrow> string \<Rightarrow> string \<Rightarrow> bool" where
  "has_word prev num [] = False"
| "has_word prev num (c # cs) =
     (\<not> prev \<and> has_prefix (c # cs) num
        \<and> (case drop (length num) (c # cs) of [] \<Rightarrow> True | d # _ \<Rightarrow> \<not> word_byte d)
      \<or> has_word (word_byte c) num cs)"

definition subject_of :: "string \<Rightarrow> string" where
  "subject_of line = (case index_of line '' '' of None \<Rightarrow> line | Some i \<Rightarrow> drop (Suc i) line)"

definition warnMovedNumbersInSubjects ::
  "'g repair_git \<Rightarrow> string \<Rightarrow> owned_ticket list \<Rightarrow> 'g \<Rightarrow> (string \<times> string) list option" where
  "warnMovedNumbersInSubjects git up moving g =
     (if moving = [] then Some []
      else map_option (\<lambda>log. concat (map (\<lambda>line. map (\<lambda>o'. (own_number o', line))
               (filter (\<lambda>o'. has_word False (own_number o') (subject_of line)) moving)) (split_on nl log)))
             (subjects git up g))"

text \<open>The state a run works with: a saved one whose head has moved is past its replay.\<close>

definition resume_state ::
  "rebase_env \<Rightarrow> 'g repair_git \<Rightarrow> 'g rebase_world \<Rightarrow> rebase_err option \<times> rebase_state option \<times> 'g rebase_world" where
  "resume_state env git w =
     (case saved w of
        None \<Rightarrow> (None, None, w)
      | Some st \<Rightarrow>
          if replay_open git (repo w) then (Some ReplayInProgress, None, w)
          else case rev_head (base_git git) (repo w) of
                 None \<Rightarrow> (Some HeadUnknown, None, w)
               | Some head \<Rightarrow>
                   if phase st = ''replay'' \<and> head \<noteq> start_head st
                   then (let st1 = st\<lparr>phase := ''repair''\<rparr>
                         in case save_state env st1 w of
                              (Some err, w1) \<Rightarrow> (Some err, None, w1) | (None, w1) \<Rightarrow> (None, Some st1, w1))
                   else (None, Some st, w))"

definition remove_state :: "'g rebase_world \<Rightarrow> 'g rebase_world" where
  "remove_state w = w\<lparr>saved := None\<rparr>"

definition finish_rebase :: "rebase_err option \<times> 'g rebase_world \<Rightarrow> rebase_err option \<times> 'g rebase_world" where
  "finish_rebase r = (case r of (Some err, w) \<Rightarrow> (Some err, w) | (None, w) \<Rightarrow> (None, remove_state w))"

definition fresh_state :: "'g repair_git \<Rightarrow> string \<Rightarrow> 'g \<Rightarrow> rebase_err + rebase_state" where
  "fresh_state git up g =
     (case collectLocalTickets (base_git git) up g of
        None \<Rightarrow> Inl CollectTickets
      | Some (head, own) \<Rightarrow>
          (case staged_diff git g of
             None \<Rightarrow> Inl StagedUnknown
           | Some d \<Rightarrow> Inr \<lparr>upstream = up, start_head = head, owned = own, phase = [], repairs = [],
               staged = d, ref_paths = []\<rparr>))"

definition start_replay ::
  "rebase_env \<Rightarrow> 'g repair_git \<Rightarrow> string \<Rightarrow> string \<Rightarrow> string \<Rightarrow> rebase_state \<Rightarrow> 'g rebase_world \<Rightarrow> rebase_err option \<times> 'g rebase_world" where
  "start_replay env git dir up status st0 w0 =
     (let st = st0\<lparr>phase := ''replay''\<rparr>
      in case save_state env st w0 of
           (Some err, w) \<Rightarrow> (Some err, w)
         | (None, w) \<Rightarrow>
             (case rebase_onto git (status \<noteq> []) up (files w, repo w) of
                (False, fs, g) \<Rightarrow> (Some ReplayStopped, w\<lparr>files := fs, repo := g\<rparr>)
              | (True, fs, g) \<Rightarrow>
                  let st1 = st\<lparr>phase := ''repair''\<rparr>
                  in case save_state env st1 (w\<lparr>files := fs, repo := g\<rparr>) of
                       (Some err, w1) \<Rightarrow> (Some err, w1)
                     | (None, w1) \<Rightarrow> finish_rebase (repairRebasedTickets env git dir st1 w1)))"

definition plan_and_replay ::
  "rebase_env \<Rightarrow> 'g repair_git \<Rightarrow> string \<Rightarrow> bool \<Rightarrow> string \<Rightarrow> bool \<Rightarrow> rebase_state \<Rightarrow> 'g rebase_world \<Rightarrow> rebase_err option \<times> 'g rebase_world" where
  "plan_and_replay env git dir dry status resume st w =
     (let up = upstream st
      in case plannedCollisions (base_git git) (files w) dir (tracker_walk (lint env) (files w)) up (owned st) (repo w) of
           Inl err \<Rightarrow> (Some (RebasePlan err), w)
         | Inr (mx, moving) \<Rightarrow>
             (case dry_moves (letters env) (walk_refs env) dir (plan_repairs mx moving) (files w) of
                Some (ScanReferences err) \<Rightarrow> (Some (ScanRefs err), w)
              | _ \<Rightarrow>
                  (case warnMovedNumbersInSubjects git up moving (repo w) of
                     None \<Rightarrow> (Some LogFailed, w)
                   | Some _ \<Rightarrow>
                       if dry then (None, w)
                       else start_replay env git dir up status
                              (if resume then st else st\<lparr>repairs := repairs st @ plan_repairs mx moving\<rparr>) w)))"

text \<open>From a saved state, or from nothing, with the status of the work tree.\<close>

definition continue_rebase ::
  "rebase_env \<Rightarrow> 'g repair_git \<Rightarrow> string \<Rightarrow> string \<Rightarrow> bool \<Rightarrow> string \<Rightarrow> rebase_state option \<Rightarrow> 'g rebase_world
    \<Rightarrow> rebase_err option \<times> 'g rebase_world" where
  "continue_rebase env git dir up dry status resumed w =
     (case resumed of
        Some st \<Rightarrow>
          if dry \<and> (phase st = ''restore'' \<or> phase st = ''repair'') then (None, w)
          else if phase st = ''restore''
          then (case restoreStagedChanges git st w of
                  (Some err, w1) \<Rightarrow> (Some err, w1)
                | (None, w1) \<Rightarrow> finish_rebase (lint_world env dir w1))
          else if phase st = ''repair'' then finish_rebase (repairRebasedTickets env git dir st w)
          else if trackerDirty status then (Some RebaseDirty, w)
          else plan_and_replay env git dir dry status True st w
      | None \<Rightarrow>
          if trackerDirty status then (Some RebaseDirty, w)
          else (case fresh_state git up (repo w) of
                  Inl err \<Rightarrow> (Some err, w)
                | Inr st \<Rightarrow> plan_and_replay env git dir dry status False st w))"

definition runIssuesRebase ::
  "rebase_env \<Rightarrow> 'g repair_git \<Rightarrow> string \<Rightarrow> string \<Rightarrow> bool \<Rightarrow> 'g rebase_world \<Rightarrow> rebase_err option \<times> 'g rebase_world" where
  "runIssuesRebase env git dir up dry w0 =
     (if \<not> on_branch git (repo w0) then (Some DetachedHead, w0)
      else if \<not> integration_on git (repo w0) then (Some GitIntegrationOff, w0)
      else case (if dry then None else guard_commit (flow_cfg env) (files w0) dir ''repair tickets'') of
             Some err \<Rightarrow> (Some (RebaseGuard err), w0)
           | None \<Rightarrow>
               (case resume_state env git w0 of
                  (Some err, _, w) \<Rightarrow> (Some err, w)
                | (None, resumed, w) \<Rightarrow>
                    (case status_porcelain (base_git git) (repo w) (files w) of
                       None \<Rightarrow> (Some RebaseStatus, w)
                     | Some status \<Rightarrow> continue_rebase env git dir up dry status resumed w)))"

section \<open>The merge driver writes one file\<close>

lemma drive_docs_cases:
  "snd (drive_docs (sound_fsys m) d n v p orig) = sound_fsys m
    \<or> (\<exists>theirs. drive_docs (sound_fsys m) d n v p orig
         = (Inl ConcurrentEdits, sound_fsys (m(p \<mapsto> conflict_text orig theirs))))"
proof (cases v)
  case None
  then show ?thesis
    by (cases "RenderDocsReadme orig (sound_fsys m) d n") (simp_all add: drive_docs_def)
next
  case (Some x)
  obtain a t where "x = (a, t)" by fastforce
  with Some show ?thesis
    by (cases "MergeDocsReadme a orig t (sound_fsys m) d n") (auto simp: drive_docs_def writeMergeConflictMarkers_def)
qed

lemma drive_target_cases:
  "snd (drive_target env dir replay t p v orig (sound_fsys m)) = sound_fsys m
    \<or> (\<exists>theirs. drive_target env dir replay t p v orig (sound_fsys m)
         = (Inl ConcurrentEdits, sound_fsys (m(p \<mapsto> conflict_text orig theirs))))"
  using drive_docs_cases [of m "issue_path dir ''docs''" "study_names env (sound_fsys m)" v p orig]
  by (simp add: drive_target_def Let_def)


section \<open>A regenerated index passes the lint\<close>

text \<open>What the index update writes is what the lint accepts: after a successful update on a file system
  without faults the lint finds no drift in the three issue indexes.\<close>

theorem updated_index_lints:
  assumes nf: "no_faults fs" and t: "IssuesTable fs dir walk = Inr table"
    and plain: "no_markers ''issues-active-index'' (trim_right table lf)"
    and up: "UpdateIssuesReadme True dir walk fs = (Inr changed, fs')"
  shows "lint_indexes fs' dir walk cached = None"
proof -
  note ok = update_ok [OF nf t up]
  have scan: "Scan fs' dir walk = Scan fs dir walk" using ok(5) by (rule scan_frame)
  have t': "IssuesTable fs' dir walk = Inr table" using t by (simp add: IssuesTable_def scan)
  obtain sfs where sfs: "Scan fs dir walk = Inr sfs" using t by (cases "Scan fs dir walk") (simp_all add: IssuesTable_def map_inr_def)
  let ?r = "issue_path dir ''README.md''"
  have md: "managedDocument c sid n \<noteq> []" for c sid n by (simp add: managedDocument_def lf_def)
  have rd: "read_file fs' ?r = Inr (file_text fs' ?r default_readme)"
  proof (cases "read_file fs' ?r")
    case (Inl err)
    then have "file_text fs' ?r default_readme = default_readme" by (simp add: file_text_def)
    with render_shape [OF ok(2)] have "has_prefix default_readme issuesActiveNotice" by (auto simp: has_prefix_iff)
    then show ?thesis by (simp add: default_readme_def issuesActiveNotice_def)
  qed (simp add: file_text_def)
  have ren: "RenderIssuesReadme (file_text fs' ?r default_readme) fs' dir walk = Inr (file_text fs' ?r default_readme)"
    using render_settles [OF ok(2) plain] by (simp add: RenderIssuesReadme_def t')
  have full: "read_file fs' (issue_path dir n) = Inr (file_text fs' (issue_path dir n) [])"
    if "file_text fs' (issue_path dir n) [] \<noteq> []" for n
    using that by (auto simp: file_text_def split: sum.splits)
  obtain ix where ix: "IssueIndexFiles fs' dir walk = Inr ix" "IssueIndexFiles fs dir walk = Inr ix"
    by (simp add: IssueIndexFiles_def scan sfs map_inr_def)
  have b: "the (map_of ix ''BACKLOG.md'') \<noteq> []" "the (map_of ix ''CLOSED.md'') \<noteq> []"
    using ix(2) sfs md by (auto simp: IssueIndexFiles_def map_inr_def)
  have f: "file_text fs' (issue_path dir ''BACKLOG.md'') [] = the (map_of ix ''BACKLOG.md'')"
    "file_text fs' (issue_path dir ''CLOSED.md'') [] = the (map_of ix ''CLOSED.md'')"
    using ok(3,4) ix(2) by (simp_all add: backlog_text_def closed_text_def)
  have "lint_full fs' dir ix ''BACKLOG.md'' = None" "lint_full fs' dir ix ''CLOSED.md'' = None"
    using full f b by (simp_all add: lint_full_def)
  then show ?thesis by (simp add: lint_indexes_def rd ren ix)
qed

section \<open>The recovery state of a rebase\<close>

definition phase_rank :: "rebase_state option \<Rightarrow> nat" where
  "phase_rank s =
     (case s of None \<Rightarrow> 0
      | Some st \<Rightarrow> if phase st = ''restore'' then 3 else if phase st = ''repair'' then 2 else 1)"

lemma save_state_saved:
  "save_state env st w = (r, w') \<Longrightarrow> saved w' = (if r = None then Some st else saved w)
    \<and> files w' = files w \<and> repo w' = repo w"
  by (auto simp: save_state_def split: if_splits)

lemma restore_saved: "restoreStagedChanges git st w = (r, w') \<Longrightarrow> saved w' = saved w \<and> files w' = files w"
  by (auto simp: restoreStagedChanges_def split: option.splits if_splits prod.splits)

lemma lint_saved: "lint_world env dir w = (r, w') \<Longrightarrow> w' = w"
  by (simp add: lint_world_def)

lemma rewrite_saved:
  "rewrite_repairs env git dir ours rs st w = (r, st', w') \<Longrightarrow>
    phase st' = phase st \<and> (saved w' = saved w \<or> (\<exists>s. saved w' = Some s \<and> phase s = phase st))"
proof (induction rs arbitrary: ours st w)
  case (Cons x rs)
  show ?case
  proof (cases "PlanReferences (letters env) (walk_refs env) (files w) dir (old_path x) (new_path x)")
    case (Inl err)
    with Cons.prems show ?thesis by simp
  next
    case (Inr edits)
    show ?thesis
    proof (cases "clean_edits git (files w) (repo w) ours edits")
      case None
      with Cons.prems Inr show ?thesis by simp
    next
      case (Some p)
      obtain cs new where p: "p = (cs, new)" by fastforce
      let ?st = "st\<lparr>ref_paths := ref_paths st @ new\<rparr>"
      obtain r1 w1 where s1: "save_state env ?st w = (r1, w1)" by fastforce
      note sv = save_state_saved [OF s1]
      show ?thesis
      proof (cases "cs = []")
        case True
        with Cons.prems Inr Some p have "rewrite_repairs env git dir (new @ ours) rs ?st w = (r, st', w')" by (simp add: Let_def)
        from Cons.IH [OF this] show ?thesis by simp
      next
        case False
        obtain r2 fs where w2: "WriteReferences dir False cs (files w1) = (r2, fs)" by fastforce
        show ?thesis
        proof (cases "r1 = None \<and> r2 = None")
          case True
          with Cons.prems Inr Some p False s1 w2
          have "rewrite_repairs env git dir (new @ ours) rs ?st (w1\<lparr>files := fs\<rparr>) = (r, st', w')" by (simp add: Let_def)
          from Cons.IH [OF this] sv True show ?thesis by auto
        next
          case ne: False
          with Cons.prems Inr Some p False s1 w2 sv show ?thesis by (cases r1; cases r2) (auto simp: Let_def)
        qed
      qed
    qed
  qed
qed simp

lemma commit_saved:
  assumes "commit_repair env git dir st stage w = (r, w')"
  shows "saved w' = saved w \<or> (\<exists>s. saved w' = Some s \<and> phase s = ''restore'')"
  using assms unfolding commit_repair_def
  by (auto split: option.splits prod.splits bool.splits dest!: save_state_saved restore_saved lint_saved)

definition far :: "'g rebase_world \<Rightarrow> bool" where
  "far w \<longleftrightarrow> (\<exists>s. saved w = Some s \<and> (phase s = ''repair'' \<or> phase s = ''restore''))"

lemma far_rank: "far w \<Longrightarrow> 2 \<le> phase_rank (saved w)"
  by (auto simp: far_def phase_rank_def)

lemma far_files [simp]: "far (w\<lparr>files := fs\<rparr>) = far w"
  by (simp add: far_def)

lemma commit_far: "commit_repair env git dir st stage w = (r, w') \<Longrightarrow> far w \<Longrightarrow> far w'"
  using commit_saved by (fastforce simp: far_def)

lemma lint_far: "lint_world env dir w = (r, w') \<Longrightarrow> far w \<Longrightarrow> far w'"
  by (simp add: lint_world_def)

lemma repair_far:
  assumes run: "repairRebasedTickets env git dir st w = (r, w')" and st: "phase st = ''repair''" and w: "far w"
  shows "far w'"
proof -
  obtain r1 fs stage0 mutated where rf: "repair_files env dir (start_head st) (repairs st) (files w, [], False) = (r1, fs, stage0, mutated)"
    by (metis prod_cases4)
  obtain r2 st2 w1 where rw: "rewriteRepairReferences env git dir st (w\<lparr>files := fs\<rparr>) = (r2, st2, w1)" by (metis prod_cases3)
  have w1: "far w1" using rewrite_saved [OF rw [unfolded rewriteRepairReferences_def]] w st by (auto simp: far_def)
  obtain u fs2 where up: "UpdateIssuesReadme (lock_ok env) (issues_dir dir) (tracker_walk (lint env) (files w1)) (files w1) = (u, fs2)"
    by fastforce
  show ?thesis
    using run w w1 unfolding repairRebasedTickets_def rf rw up prod.case Let_def
    by (auto split: option.splits sum.splits if_splits dest: commit_far lint_far)
qed

definition kept :: "nat \<Rightarrow> rebase_err option \<times> 'g rebase_world \<Rightarrow> bool" where
  "kept n p \<longleftrightarrow> (case fst p of None \<Rightarrow> saved (snd p) = None | Some _ \<Rightarrow> n \<le> phase_rank (saved (snd p)))"

lemma finish_kept: "far (snd p) \<Longrightarrow> n \<le> 2 \<Longrightarrow> kept n (finish_rebase p)"
  using far_rank [of "snd p"] by (cases p; cases "fst p") (auto simp: kept_def finish_rebase_def remove_state_def)

lemma repair_kept:
  "phase st = ''repair'' \<Longrightarrow> far w \<Longrightarrow> n \<le> 2 \<Longrightarrow> kept n (finish_rebase (repairRebasedTickets env git dir st w))"
  using repair_far [of env git dir st w] by (intro finish_kept) (cases "repairRebasedTickets env git dir st w", simp_all)

lemma start_kept:
  assumes "phase_rank (saved w) \<le> 1"
  shows "kept (phase_rank (saved w)) (start_replay env git dir up status st w)"
proof -
  obtain r1 w1 where s1: "save_state env (st\<lparr>phase := ''replay''\<rparr>) w = (r1, w1)" by fastforce
  note sv1 = save_state_saved [OF s1]
  show ?thesis
  proof (cases r1)
    case (Some err)
    then show ?thesis using s1 sv1 by (simp add: start_replay_def kept_def)
  next
    case None
    obtain ok fs g where rb: "rebase_onto git (status \<noteq> []) up (files w1, repo w1) = (ok, fs, g)" by (metis prod_cases3)
    let ?w = "w1\<lparr>files := fs, repo := g\<rparr>"
    have one: "phase_rank (saved ?w) = 1" using sv1 None by (simp add: phase_rank_def)
    show ?thesis
    proof (cases ok)
      case False
      then show ?thesis using s1 None rb one assms by (simp add: start_replay_def kept_def)
    next
      case True
      obtain r2 w2 where s2: "save_state env (st\<lparr>phase := ''repair''\<rparr>) ?w = (r2, w2)" by fastforce
      note sv2 = save_state_saved [OF s2]
      have e: "start_replay env git dir up status st w =
          (case r2 of Some err \<Rightarrow> (Some err, w2) | None \<Rightarrow> finish_rebase (repairRebasedTickets env git dir (st\<lparr>phase := ''repair''\<rparr>) w2))"
        using s1 None rb True s2 by (simp add: start_replay_def)
      show ?thesis
      proof (cases r2)
        case (Some err)
        then show ?thesis using e sv2 one assms by (simp add: kept_def)
      next
        case None
        then have "far w2" using sv2 by (simp add: far_def)
        with None e assms repair_kept [of "st\<lparr>phase := ''repair''\<rparr>" w2] show ?thesis by simp
      qed
    qed
  qed
qed

lemma plan_kept:
  assumes "phase_rank (saved w) \<le> 1"
  shows "kept (phase_rank (saved w)) (plan_and_replay env git dir False status resume st w)"
proof -
  have same: "kept (phase_rank (saved w)) (Some err, w)" for err by (simp add: kept_def)
  show ?thesis unfolding plan_and_replay_def Let_def
    using start_kept [OF assms] same by (auto split: sum.splits option.splits prod.splits move_err.splits)
qed

lemma plan_dry:
  "plan_and_replay env git dir True status resume st w = (r, w') \<Longrightarrow> w' = w"
  by (auto simp: plan_and_replay_def Let_def split: sum.splits option.splits prod.splits move_err.splits)

lemma resume_saved:
  assumes "resume_state env git w0 = (r, resumed, w)"
  shows "files w = files w0 \<and> repo w = repo w0
    \<and> (saved w = saved w0 \<or> saved w = map_option (\<lambda>st. st\<lparr>phase := ''repair''\<rparr>) (saved w0))
    \<and> phase_rank (saved w0) \<le> phase_rank (saved w)
    \<and> (r = None \<longrightarrow> resumed = saved w)"
proof (cases "saved w0")
  case None
  with assms show ?thesis by (auto simp: resume_state_def)
next
  case (Some st)
  obtain r1 w1 where s1: "save_state env (st\<lparr>phase := ''repair''\<rparr>) w0 = (r1, w1)" by fastforce
  note sv = save_state_saved [OF s1]
  show ?thesis
    using assms Some s1 sv
    by (cases r1; auto simp: resume_state_def Let_def phase_rank_def split: if_splits option.splits; metis)
qed

lemma continue_kept:
  assumes "resumed = saved w"
  shows "kept (phase_rank (saved w)) (continue_rebase env git dir up False status resumed w)"
proof -
  have same: "kept (phase_rank (saved w)) (Some err, w)" for err by (simp add: kept_def)
  show ?thesis
  proof (cases resumed)
    case None
    with assms have "phase_rank (saved w) \<le> 1" by (simp add: phase_rank_def)
    from plan_kept [OF this] same None show ?thesis by (auto simp: continue_rebase_def split: sum.splits)
  next
    case (Some st)
    then have sv: "saved w = Some st" using assms by simp
    consider "phase st = ''restore''" | "phase st = ''repair''" | "phase st \<noteq> ''restore''" "phase st \<noteq> ''repair''" by blast
    then show ?thesis
    proof cases
      case 1
      obtain r1 w1 where rs: "restoreStagedChanges git st w = (r1, w1)" by fastforce
      from restore_saved [OF rs] 1 rs Some show ?thesis
        by (cases r1; cases "runIssuesLint (lint env) (files w1) dir")
           (simp_all add: continue_rebase_def kept_def finish_rebase_def lint_world_def remove_state_def)
    next
      case 2
      then have "far w" "phase_rank (saved w) = 2" using sv by (simp_all add: far_def phase_rank_def)
      with 2 Some repair_kept [of st w 2] show ?thesis by (simp add: continue_rebase_def)
    next
      case 3
      with sv have "phase_rank (saved w) \<le> 1" by (simp add: phase_rank_def)
      from plan_kept [OF this] same 3 Some show ?thesis by (simp add: continue_rebase_def)
    qed
  qed
qed

lemma continue_dry: "continue_rebase env git dir up True status resumed w = (r, w') \<Longrightarrow> w' = w"
  by (cases resumed) (auto simp: continue_rebase_def split: if_splits sum.splits dest: plan_dry)

lemma rebase_after_resume:
  assumes "runIssuesRebase env git dir up dry w = (r, w')" and "w' \<noteq> w \<or> r = None"
  shows "\<exists>r1 resumed w1. resume_state env git w = (r1, resumed, w1)
    \<and> ((r \<noteq> None \<and> w' = w1) \<or> (r1 = None \<and> (\<exists>status. continue_rebase env git dir up dry status resumed w1 = (r, w'))))"
  using assms unfolding runIssuesRebase_def by (auto split: if_splits option.splits prod.splits)


text \<open>A dry run plans only: it changes no file and nothing in the repository. It does advance a saved
  state whose replay has ended.\<close>

theorem dry_rebase_plans:
  assumes "runIssuesRebase env git dir up True w = (r, w')"
  shows "files w' = files w \<and> repo w' = repo w
    \<and> (saved w' = saved w \<or> saved w' = map_option (\<lambda>st. st\<lparr>phase := ''repair''\<rparr>) (saved w))"
proof (cases "w' \<noteq> w \<or> r = None")
  case True
  obtain r1 resumed w1 where rs: "resume_state env git w = (r1, resumed, w1)"
    and out: "(r \<noteq> None \<and> w' = w1) \<or> (r1 = None \<and> (\<exists>status. continue_rebase env git dir up True status resumed w1 = (r, w')))"
    using rebase_after_resume [OF assms True] by blast
  note sv = resume_saved [OF rs]
  have "w' = w1" using out sv continue_dry by blast
  with sv show ?thesis by simp
qed simp

section \<open>Other work is spared\<close>

definition clean_tracked :: "'g repair_git \<Rightarrow> fsys \<Rightarrow> 'g \<Rightarrow> string \<Rightarrow> bool" where
  "clean_tracked git fs g p \<longleftrightarrow>
     (case path_status git [p] fs g of None \<Rightarrow> False | Some s \<Rightarrow> trim_space s = [])
     \<and> (case path_tracked git p g of None \<Rightarrow> False | Some t \<Rightarrow> trim_space t \<noteq> [])"

lemma clean_edits_paths:
  assumes "clean_edits git fs g ours es = Some (cs, new)"
  shows "list_all (clean_tracked git fs g) new \<and> list_all (\<lambda>e. edit_path e \<in> set ours \<union> set new) cs"
  using assms
proof (induction es arbitrary: ours cs new)
  case (Cons e es)
  show ?case
  proof (cases "edit_path e \<in> set ours")
    case True
    with Cons.prems obtain cs1 where "clean_edits git fs g ours es = Some (cs1, new)" "cs = e # cs1"
      by (auto simp: Let_def)
    with Cons.IH True show ?thesis by simp
  next
    case out: False
    show ?thesis
    proof (cases "clean_tracked git fs g (edit_path e)")
      case True
      with out Cons.prems obtain cs1 new1 where
        c: "clean_edits git fs g (edit_path e # ours) es = Some (cs1, new1)" "cs = e # cs1" "new = edit_path e # new1"
        by (auto simp: Let_def clean_tracked_def split: option.splits)
      from Cons.IH [OF c(1)] c(2,3) True show ?thesis by (auto simp: list_all_iff)
    next
      case False
      with out Cons.prems have "clean_edits git fs g ours es = Some (cs, new)"
        by (auto simp: Let_def clean_tracked_def split: option.splits if_splits)
      from Cons.IH [OF this] show ?thesis .
    qed
  qed
qed simp

lemma rewrite_spares:
  assumes "rewrite_repairs env git dir ours rs st w = (r, st', w')" and "files w = sound_fsys m"
  shows "\<exists>m'. files w' = sound_fsys m' \<and> repo w' = repo w
    \<and> (\<forall>p. m' (issue_path dir p) = m (issue_path dir p) \<or> p \<in> set ours
         \<or> (\<exists>m1. clean_tracked git (sound_fsys m1) (repo w) p \<and> m1 (issue_path dir p) = m (issue_path dir p)))"
  using assms
proof (induction rs arbitrary: ours st w m)
  case (Cons x rs)
  note fw = Cons.prems(2)
  show ?case
  proof (cases "PlanReferences (letters env) (walk_refs env) (files w) dir (old_path x) (new_path x)")
    case (Inl err)
    with Cons.prems show ?thesis by auto
  next
    case (Inr edits)
    show ?thesis
    proof (cases "clean_edits git (files w) (repo w) ours edits")
      case None
      with Cons.prems Inr show ?thesis by auto
    next
      case (Some q)
      obtain cs new where q: "q = (cs, new)" by fastforce
      note ce = clean_edits_paths [OF Some [unfolded q]]
      let ?st = "st\<lparr>ref_paths := ref_paths st @ new\<rparr>"
      obtain r1 w1 where s1: "save_state env ?st w = (r1, w1)" by fastforce
      note sv = save_state_saved [OF s1]
      let ?m = "foldl (\<lambda>m e. m(issue_path dir (edit_path e) \<mapsto> edit_after e)) m cs"
      have w2: "WriteReferences dir False cs (files w1) = (None, sound_fsys ?m)"
        using sv fw by (simp add: write_references_sound)
      have off: "?m (issue_path dir p) = m (issue_path dir p)" if "p \<notin> set ours" "p \<notin> set new" for p
        using that ce by (intro fold_other) (auto simp: list_all_iff)
      consider (skip) "cs = []" | (stop) "cs \<noteq> []" "r1 \<noteq> None" | (go) "cs \<noteq> []" "r1 = None" by blast
      then show ?thesis
      proof cases
        case skip
        with Cons.prems(1) Inr Some q have "rewrite_repairs env git dir (new @ ours) rs ?st w = (r, st', w')" by (simp add: Let_def)
        from Cons.IH [OF this fw] obtain m' where m': "files w' = sound_fsys m'" "repo w' = repo w"
          "\<And>p. m' (issue_path dir p) = m (issue_path dir p) \<or> p \<in> set (new @ ours)
             \<or> (\<exists>m1. clean_tracked git (sound_fsys m1) (repo w) p \<and> m1 (issue_path dir p) = m (issue_path dir p))" by blast
        have "p \<in> set new \<Longrightarrow> clean_tracked git (sound_fsys m) (repo w) p" for p
          using ce fw by (simp add: list_all_iff)
        with m' show ?thesis by (metis UnE set_append)
      next
        case stop
        with Cons.prems Inr Some q s1 sv show ?thesis by (auto simp: Let_def)
      next
        case go
        let ?w = "w1\<lparr>files := sound_fsys ?m\<rparr>"
        have "rewrite_repairs env git dir (new @ ours) rs ?st ?w = (r, st', w')"
          using Cons.prems(1) Inr Some q s1 go w2 by (simp add: Let_def)
        from Cons.IH [OF this] sv obtain m' where m': "files w' = sound_fsys m'" "repo w' = repo w"
          "\<And>p. m' (issue_path dir p) = ?m (issue_path dir p) \<or> p \<in> set (new @ ours)
             \<or> (\<exists>m1. clean_tracked git (sound_fsys m1) (repo w) p \<and> m1 (issue_path dir p) = ?m (issue_path dir p))" by auto
        have "p \<in> set new \<Longrightarrow> clean_tracked git (sound_fsys m) (repo w) p" for p
          using ce fw by (simp add: list_all_iff)
        then have "m' (issue_path dir p) = m (issue_path dir p) \<or> p \<in> set ours
            \<or> (\<exists>m1. clean_tracked git (sound_fsys m1) (repo w) p \<and> m1 (issue_path dir p) = m (issue_path dir p))" for p
        proof (cases "p \<in> set ours \<or> p \<in> set new")
          case False
          with off m'(3) [of p] show ?thesis by simp
        qed (use \<open>\<And>p. p \<in> set new \<Longrightarrow> clean_tracked git (sound_fsys m) (repo w) p\<close> in blast)
        with m'(1,2) show ?thesis by blast
      qed
    qed
  qed
qed auto

text \<open>C40. Repairing references spares other work: a file below the project that the repair changes is an
  index, a moved ticket or a file it already recorded, or git reported it, with the content it had, as
  tracked and without uncommitted changes.\<close>

theorem repair_spares_other_work:
  assumes "rewriteRepairReferences env git dir st w = (r, st', w')" and "files w = sound_fsys m"
  shows "\<exists>m'. files w' = sound_fsys m' \<and> repo w' = repo w
    \<and> (\<forall>p. m' (issue_path dir p) = m (issue_path dir p) \<or> p \<in> set (our_paths st)
         \<or> (\<exists>m1. clean_tracked git (sound_fsys m1) (repo w) p \<and> m1 (issue_path dir p) = m (issue_path dir p)))"
  using rewrite_spares assms unfolding rewriteRepairReferences_def by blast

section \<open>Reconciling with a fetch or a pull\<close>

record 'g pull_git =
  has_upstream :: "'g \<Rightarrow> bool"
  fetch :: "'g \<Rightarrow> bool \<times> 'g"
  tracked_changes :: "fsys \<Rightarrow> 'g \<Rightarrow> string option"
  merge_upstream :: "fsys \<times> 'g \<Rightarrow> bool \<times> fsys \<times> 'g"
  merge_head :: "'g \<Rightarrow> bool"

record reconcile_options =
  opt_ref :: string
  opt_dry :: bool
  opt_fetch :: bool
  opt_pull :: bool

datatype opts_err = FetchAndPull | RefAndUpstream | NoUpstream | FetchFailed | PullStatus | TrackedChanges
  | MergeConflicts | MergeFailed | ReconcileFailed reconcile_err

definition pull_upstream ::
  "'g pull_git \<Rightarrow> 'g rebase_git \<Rightarrow> fsys \<times> 'g \<Rightarrow> opts_err option \<times> fsys \<times> 'g" where
  "pull_upstream pull git p =
     (case tracked_changes pull (fst p) (snd p) of
        None \<Rightarrow> (Some PullStatus, p)
      | Some s \<Rightarrow>
          if trim_space s \<noteq> [] then (Some TrackedChanges, p)
          else (case merge_upstream pull p of
                  (True, p1) \<Rightarrow> (None, p1)
                | (False, p1) \<Rightarrow>
                    if merge_head pull (snd p1) then (Some MergeConflicts, p1)
                    else if merged_parent git (snd p1) then (None, p1) else (Some MergeFailed, p1)))"

definition RunIssuesReconcileOpts ::
  "(string \<Rightarrow> bool) \<Rightarrow> reconcile_env \<Rightarrow> 'g pull_git \<Rightarrow> 'g rebase_git \<Rightarrow> string \<Rightarrow> reconcile_options \<Rightarrow> fsys \<Rightarrow> 'g
    \<Rightarrow> (opts_err + reconcile_done) \<times> fsys \<times> 'g" where
  "RunIssuesReconcileOpts letter env pull git dir opts fs g =
     (let up = CHR ''@'' # ''{upstream}'';
          run = (\<lambda>ref dry fs g. case RunIssuesReconcile letter env git dir ref dry fs g of
             (Inl err, p) \<Rightarrow> (Inl (ReconcileFailed err), p) | (Inr d, p) \<Rightarrow> (Inr d, p))
      in if opt_fetch opts \<and> opt_pull opts then (Inl FetchAndPull, fs, g)
         else if \<not> opt_fetch opts \<and> \<not> opt_pull opts then run (opt_ref opts) (opt_dry opts) fs g
         else if opt_ref opts \<noteq> [] then (Inl RefAndUpstream, fs, g)
         else if \<not> has_upstream pull g then (Inl NoUpstream, fs, g)
         else case fetch pull g of
                (False, g1) \<Rightarrow> (Inl FetchFailed, fs, g1)
              | (True, g1) \<Rightarrow>
                  if opt_fetch opts then run up True fs g1
                  else (case pull_upstream pull git (fs, g1) of
                          (Some err, p) \<Rightarrow> (Inl err, p)
                        | (None, fs1, g2) \<Rightarrow> run up (opt_dry opts) fs1 g2))"

section \<open>Witnesses\<close>

definition no_lint :: lint_env where
  "no_lint = \<lparr>tracker_walk = (\<lambda>_. None), study_names = (\<lambda>_. Some []), cap_known = True\<rparr>"

definition docs_versions :: "string \<Rightarrow> string" where
  "docs_versions x = x @ lf"

definition docs_call :: driver_call where
  "docs_call = \<lparr>ancestor_path = ''a'', current_path = ''c'', other_path = ''o'', target_path = ''docs/./README.md''\<rparr>"

definition docs_map :: "string \<Rightarrow> string option" where
  "docs_map = [''a'' \<mapsto> ''base'', ''c'' \<mapsto> ''ours'', ''o'' \<mapsto> ''theirs'']"


definition quiet_git :: "unit repair_git" where
  "quiet_git = \<lparr>base_git = fix_git, on_branch = (\<lambda>_. True), merge_attr = (\<lambda>_. Some ''issues/README.md: merge: union''),
     driver_config = (\<lambda>_. None), replay_open = (\<lambda>_. False), staged_diff = (\<lambda>_. Some []), subjects = (\<lambda>_ _. Some []),
     rebase_onto = (\<lambda>_ _ p. (True, p)), path_status = (\<lambda>_ _ _. Some []), path_tracked = (\<lambda>p _. Some p),
     add_paths = (\<lambda>_ _ g. (True, g)), apply_cached = (\<lambda>_ g. (True, g))\<rparr>"

definition quiet_env :: rebase_env where
  "quiet_env = \<lparr>lint = no_lint, walk_refs = (\<lambda>_. [''docs/a.md'']), lock_ok = True, flow_cfg = flow fix_env, letters = (\<lambda>_. False),
     temp_hash = (\<lambda>_. ''ab''), scratch_names = (\<lambda>t _. ([], scratch_prefix t)), can_save = (\<lambda>_. True)\<rparr>"

definition saved_at :: "string \<Rightarrow> string \<Rightarrow> unit rebase_world" where
  "saved_at head ph = \<lparr>files = sound_fsys fix_map, repo = (),
     saved = Some \<lparr>upstream = ''u'', start_head = head, owned = [fix_owned], phase = ph, repairs = [fix_repair], staged = [],
       ref_paths = []\<rparr>\<rparr>"


lemma dry_rebase_plans_witness:
  "files (snd (runIssuesRebase quiet_env quiet_git ''r'' ''u'' True (saved_at ''g'' ''replay''))) = sound_fsys fix_map
   \<and> map_option phase (saved (snd (runIssuesRebase quiet_env quiet_git ''r'' ''u'' True (saved_at ''g'' ''replay'')))) = Some ''repair''"
proof -
  obtain r w' where run: "runIssuesRebase quiet_env quiet_git ''r'' ''u'' True (saved_at ''g'' ''replay'') = (r, w')"
    by fastforce
  have "map_option phase (saved (snd (runIssuesRebase quiet_env quiet_git ''r'' ''u'' True (saved_at ''g'' ''replay'')))) = Some ''repair''"
    by code_simp
  with dry_rebase_plans [OF run] run show ?thesis by (simp add: saved_at_def)
qed

lemma repair_spares_other_work_witness:
  "\<exists>m'. files (snd (snd (rewriteRepairReferences quiet_env quiet_git ''r'' (the (saved (saved_at ''h'' ''repair''))) (saved_at ''h'' ''repair''))))
    = sound_fsys m'"
proof -
  obtain r st' w' where run: "rewriteRepairReferences quiet_env quiet_git ''r'' (the (saved (saved_at ''h'' ''repair''))) (saved_at ''h'' ''repair'')
      = (r, st', w')" by (metis prod_cases3)
  have f: "files (saved_at ''h'' ''repair'') = sound_fsys fix_map" by (simp add: saved_at_def)
  from repair_spares_other_work [OF run f] run show ?thesis by auto
qed

lemma updated_index_lints_witness:
  "case UpdateIssuesReadme True ''i'' (Some [''007-fix.md'']) one_ticket of
     (Inl _, _) \<Rightarrow> False
   | (Inr c, fs') \<Rightarrow> lint_indexes fs' ''i'' (Some [''007-fix.md'']) None = None"
proof -
  obtain fs' where u: "UpdateIssuesReadme True ''i'' (Some [''007-fix.md'']) one_ticket = (Inr True, fs')"
    using one_ticket_updates(3) by blast
  from updated_index_lints [OF one_ticket_updates(1) one_ticket_table one_ticket_updates(2) u] u show ?thesis by simp
qed


end
