(* ===== verification/Prompt.thy ===== *)
theory Prompt
  imports GoBase
begin

text \<open>
  The prompt editor of the terminal user interface (\<open>internal/tui/prompt.go\<close>): the lines of the text,
  the cursor, the history, and the box it is drawn in.

  A rune is a natural number, a line a list of runes: the editor works on decoded text. The widths of
  \<open>go-runewidth\<close> and the letters and digits of the Unicode tables are arguments. The editor is compared
  with a gap buffer, the text before and the text after the cursor; every operation of the code is the
  obvious operation on that pair.
\<close>

section \<open>The buffer\<close>

type_synonym rune = nat

abbreviation newline :: rune where "newline \<equiv> 10"

text \<open>\<open>unicode.IsSpace\<close>.\<close>

definition rune_space :: "rune \<Rightarrow> bool" where
  "rune_space r \<longleftrightarrow> 9 \<le> r \<and> r \<le> 13 \<or> r \<in> {0x20, 0x85, 0xA0, 0x1680, 0x2028, 0x2029, 0x202F, 0x205F, 0x3000}
     \<or> 0x2000 \<le> r \<and> r \<le> 0x200A"

definition trim_runes :: "rune list \<Rightarrow> rune list" where
  "trim_runes s = rev (dropWhile rune_space (rev (dropWhile rune_space s)))"

record prompt =
  plines :: "rune list list"
  cursorRow :: nat
  cursorCol :: nat
  phistory :: "rune list list"
  histIdx :: int
  pdraft :: "rune list"
  histSize :: int
  minLines :: nat
  maxLines :: nat
  psymbol :: "rune list"

definition NewPromptBuffer :: "int \<Rightarrow> int \<Rightarrow> int \<Rightarrow> rune list \<Rightarrow> prompt" where
  "NewPromptBuffer mn mx hs symbol0 =
     (let mn = (if mn < 1 then 1 else mn); mx = (if mx < mn then mn else mx)
      in \<lparr>plines = [[]], cursorRow = 0, cursorCol = 0, phistory = [], histIdx = -1, pdraft = [],
          histSize = hs, minLines = nat mn, maxLines = nat mx,
          psymbol = (if symbol0 = [] then [62, 32] else symbol0)\<rparr>)"

fun join_lines :: "rune list list \<Rightarrow> rune list" where
  "join_lines [] = []"
| "join_lines [l] = l"
| "join_lines (l # ls) = l @ newline # join_lines ls"

fun split_lines :: "rune list \<Rightarrow> rune list list" where
  "split_lines [] = [[]]"
| "split_lines (r # s) =
     (if r = newline then [] # split_lines s
      else case split_lines s of [] \<Rightarrow> [[r]] | l # ls \<Rightarrow> (r # l) # ls)"

definition Text :: "prompt \<Rightarrow> rune list" where
  "Text pb = join_lines (plines pb)"

definition SetText :: "rune list \<Rightarrow> prompt \<Rightarrow> prompt" where
  "SetText s pb =
     (let ls = split_lines s
      in pb\<lparr>plines := ls, cursorRow := length ls - 1, cursorCol := length (ls ! (length ls - 1))\<rparr>)"

definition ClearPrompt :: "prompt \<Rightarrow> prompt" where
  "ClearPrompt pb = pb\<lparr>plines := [[]], cursorRow := 0, cursorCol := 0, histIdx := -1, pdraft := []\<rparr>"

definition Line :: "prompt \<Rightarrow> int \<Rightarrow> rune list" where
  "Line pb row = (if row < 0 \<or> int (length (plines pb)) \<le> row then [] else plines pb ! nat row)"

text \<open>\<open>Replace\<close>: a row that does not exist makes the code panic; \<^const>\<open>None\<close> is the panic.\<close>

definition Replace :: "int \<Rightarrow> int \<Rightarrow> int \<Rightarrow> rune list \<Rightarrow> prompt \<Rightarrow> prompt option" where
  "Replace row from to s pb =
     (let line = Line pb row;
          to = nat (min (max to 0) (int (length line)));
          from = nat (min (max from 0) (int to))
      in if row < 0 \<or> int (length (plines pb)) \<le> row then None
         else Some (pb\<lparr>plines := (plines pb)[nat row := take from line @ s @ drop to line],
                cursorRow := nat row, cursorCol := from + length s\<rparr>))"

section \<open>Editing\<close>

definition cur_line :: "prompt \<Rightarrow> rune list" where
  "cur_line pb = plines pb ! cursorRow pb"

definition set_line :: "prompt \<Rightarrow> rune list \<Rightarrow> nat \<Rightarrow> prompt" where
  "set_line pb l col = pb\<lparr>plines := (plines pb)[cursorRow pb := l], cursorCol := col\<rparr>"

definition InsertChar :: "rune \<Rightarrow> prompt \<Rightarrow> prompt" where
  "InsertChar r pb =
     (let line = cur_line pb; col = min (cursorCol pb) (length line)
      in set_line pb (take col line @ r # drop col line) (col + 1))"

definition InsertNewline :: "prompt \<Rightarrow> prompt" where
  "InsertNewline pb =
     (let line = cur_line pb; col = min (cursorCol pb) (length line); row = cursorRow pb
      in pb\<lparr>plines := take row (plines pb) @ [take col line, drop col line] @ drop (row + 1) (plines pb),
            cursorRow := row + 1, cursorCol := 0\<rparr>)"

definition Backspace :: "prompt \<Rightarrow> prompt" where
  "Backspace pb =
     (if 0 < cursorCol pb
      then (let line = cur_line pb; col = min (cursorCol pb) (length line)
            in set_line pb (take (col - 1) line @ drop col line) (col - 1))
      else if 0 < cursorRow pb
      then (let row = cursorRow pb; prev = plines pb ! (row - 1); cur = cur_line pb
            in pb\<lparr>plines := take (row - 1) (plines pb) @ [prev @ cur] @ drop (row + 1) (plines pb),
                  cursorRow := row - 1, cursorCol := length prev\<rparr>)
      else pb)"

definition HomeKey :: "prompt \<Rightarrow> prompt" where
  "HomeKey pb = pb\<lparr>cursorCol := 0\<rparr>"

definition EndKey :: "prompt \<Rightarrow> prompt" where
  "EndKey pb = pb\<lparr>cursorCol := length (cur_line pb)\<rparr>"

definition DeleteToStart :: "prompt \<Rightarrow> prompt" where
  "DeleteToStart pb =
     (let line = cur_line pb; col = min (cursorCol pb) (length line) in set_line pb (drop col line) 0)"

definition DeleteToEnd :: "prompt \<Rightarrow> prompt" where
  "DeleteToEnd pb =
     (let line = cur_line pb; col = min (cursorCol pb) (length line) in set_line pb (take col line) col)"

text \<open>The word moves; \<open>letter\<close> stands for \<open>unicode.IsLetter\<close> or \<open>unicode.IsNumber\<close>.\<close>

definition isWordRune :: "(rune \<Rightarrow> bool) \<Rightarrow> rune \<Rightarrow> bool" where
  "isWordRune letter r \<longleftrightarrow> r = 95 \<or> letter r"

fun skip_left :: "(rune \<Rightarrow> bool) \<Rightarrow> rune list \<Rightarrow> nat \<Rightarrow> nat" where
  "skip_left P line 0 = 0"
| "skip_left P line (Suc col) = (if P (line ! col) then skip_left P line col else Suc col)"

function skip_right :: "(rune \<Rightarrow> bool) \<Rightarrow> rune list \<Rightarrow> nat \<Rightarrow> nat" where
  "skip_right P line col =
     (if col < length line \<and> P (line ! col) then skip_right P line (Suc col) else col)"
  by pat_completeness auto
termination by (relation "measure (\<lambda>(P, line, col). length line - col)") auto

declare skip_right.simps [simp del]

definition wordLeft :: "(rune \<Rightarrow> bool) \<Rightarrow> rune list \<Rightarrow> nat \<Rightarrow> nat" where
  "wordLeft letter line col =
     skip_left (isWordRune letter) line
       (skip_left (\<lambda>r. \<not> isWordRune letter r) line (min col (length line)))"

definition wordRight :: "(rune \<Rightarrow> bool) \<Rightarrow> rune list \<Rightarrow> nat \<Rightarrow> nat" where
  "wordRight letter line col =
     skip_right (isWordRune letter) line (skip_right (\<lambda>r. \<not> isWordRune letter r) line col)"

definition WordLeft :: "(rune \<Rightarrow> bool) \<Rightarrow> prompt \<Rightarrow> prompt" where
  "WordLeft letter pb = pb\<lparr>cursorCol := wordLeft letter (cur_line pb) (cursorCol pb)\<rparr>"

definition WordRight :: "(rune \<Rightarrow> bool) \<Rightarrow> prompt \<Rightarrow> prompt" where
  "WordRight letter pb =
     pb\<lparr>cursorCol := wordRight letter (cur_line pb) (min (cursorCol pb) (length (cur_line pb)))\<rparr>"

definition DeleteWordBack :: "(rune \<Rightarrow> bool) \<Rightarrow> prompt \<Rightarrow> prompt" where
  "DeleteWordBack letter pb =
     (let line = cur_line pb; col = min (cursorCol pb) (length line); from = wordLeft letter line col
      in set_line pb (take from line @ drop col line) from)"

definition TrimContinuation :: "prompt \<Rightarrow> bool \<times> prompt" where
  "TrimContinuation pb =
     (let line = cur_line pb
      in if cursorRow pb \<noteq> length (plines pb) - 1 \<or> cursorCol pb \<noteq> length line \<or> cursorCol pb = 0
           \<or> line ! (cursorCol pb - 1) \<noteq> 92
         then (False, pb)
         else (True, set_line pb (take (cursorCol pb - 1) line) (cursorCol pb - 1)))"

definition MoveLeft :: "prompt \<Rightarrow> prompt" where
  "MoveLeft pb =
     (if 0 < cursorCol pb then pb\<lparr>cursorCol := cursorCol pb - 1\<rparr>
      else if 0 < cursorRow pb
      then pb\<lparr>cursorRow := cursorRow pb - 1, cursorCol := length (plines pb ! (cursorRow pb - 1))\<rparr>
      else pb)"

definition MoveRight :: "prompt \<Rightarrow> prompt" where
  "MoveRight pb =
     (if cursorCol pb < length (cur_line pb) then pb\<lparr>cursorCol := cursorCol pb + 1\<rparr>
      else if cursorRow pb < length (plines pb) - 1 then pb\<lparr>cursorRow := cursorRow pb + 1, cursorCol := 0\<rparr>
      else pb)"

section \<open>History\<close>

definition AddHistory :: "rune list \<Rightarrow> prompt \<Rightarrow> prompt" where
  "AddHistory text pb =
     (let t = trim_runes text
      in if t = [] \<or> phistory pb \<noteq> [] \<and> last (phistory pb) = t then pb
         else let h = phistory pb @ [t];
                  h = (if 0 < histSize pb \<and> histSize pb < int (length h)
                       then drop (length h - nat (histSize pb)) h else h)
              in pb\<lparr>phistory := h, histIdx := -1\<rparr>)"

definition HistoryPrev :: "prompt \<Rightarrow> bool \<times> prompt" where
  "HistoryPrev pb =
     (if phistory pb = [] then (False, pb)
      else if histIdx pb = -1
      then (let i = int (length (phistory pb)) - 1
            in (True, SetText (phistory pb ! nat i) (pb\<lparr>pdraft := Text pb, histIdx := i\<rparr>)))
      else if 0 < histIdx pb
      then (let i = histIdx pb - 1 in (True, SetText (phistory pb ! nat i) (pb\<lparr>histIdx := i\<rparr>)))
      else (False, pb))"

definition HistoryNext :: "prompt \<Rightarrow> bool \<times> prompt" where
  "HistoryNext pb =
     (if histIdx pb = -1 then (False, pb)
      else if histIdx pb < int (length (phistory pb)) - 1
      then (let i = histIdx pb + 1 in (True, SetText (phistory pb ! nat i) (pb\<lparr>histIdx := i\<rparr>)))
      else (True, SetText (pdraft pb) (pb\<lparr>histIdx := -1\<rparr>)))"

definition MoveUp :: "prompt \<Rightarrow> bool \<times> prompt" where
  "MoveUp pb =
     (if 0 < cursorRow pb
      then (let row = cursorRow pb - 1
            in (False, pb\<lparr>cursorRow := row, cursorCol := min (cursorCol pb) (length (plines pb ! row))\<rparr>))
      else HistoryPrev pb)"

definition MoveDown :: "prompt \<Rightarrow> bool \<times> prompt" where
  "MoveDown pb =
     (if cursorRow pb < length (plines pb) - 1
      then (let row = cursorRow pb + 1
            in (False, pb\<lparr>cursorRow := row, cursorCol := min (cursorCol pb) (length (plines pb ! row))\<rparr>))
      else HistoryNext pb)"

section \<open>The box\<close>

text \<open>The display widths of a rune and of a string are the library's.\<close>

record widths =
  rune_cells :: "rune \<Rightarrow> nat"
  string_cells :: "rune list \<Rightarrow> nat"

fun wrap_runes :: "(rune \<Rightarrow> nat) \<Rightarrow> nat \<Rightarrow> rune list \<Rightarrow> nat \<Rightarrow> rune list \<Rightarrow> rune list list" where
  "wrap_runes cells width cur w [] = (if cur = [] then [] else [cur])"
| "wrap_runes cells width cur w (r # s) =
     (if width < w + cells r then cur # wrap_runes cells width [r] (cells r) s
      else wrap_runes cells width (cur @ [r]) (w + cells r) s)"

definition wrapLine :: "widths \<Rightarrow> nat \<Rightarrow> rune list \<Rightarrow> rune list list" where
  "wrapLine ws width s =
     (if width = 0 \<or> string_cells ws s \<le> width then [s]
      else case wrap_runes (rune_cells ws) width [] 0 s of [] \<Rightarrow> [[]] | ls \<Rightarrow> ls)"

abbreviation block :: rune where "block \<equiv> 0x2588"

definition show_cursor :: "rune list \<Rightarrow> nat \<Rightarrow> rune list" where
  "show_cursor l col0 =
     (let col = min col0 (length l)
      in if col < length l then take col l @ block # drop (col + 1) l else l @ [block])"

text \<open>The wrapped lines, and the index of the one that shows the cursor: in the cursor's row the last
  piece that contains a block, or the last piece.\<close>

fun last_block :: "nat \<Rightarrow> nat \<Rightarrow> rune list list \<Rightarrow> nat" where
  "last_block dflt j [] = dflt"
| "last_block dflt j (w # ws) = last_block (if block \<in> set w then j else dflt) (Suc j) ws"

fun box_rows :: "widths \<Rightarrow> nat \<Rightarrow> prompt \<Rightarrow> rune list \<Rightarrow> nat \<Rightarrow> rune list list \<Rightarrow> rune list list \<times> nat \<Rightarrow> rune list list \<times> nat" where
  "box_rows ws width pb indent i [] (res, cur) = (res, cur)"
| "box_rows ws width pb indent i (l # ls) (res, cur) =
     (let pre = (if i = 0 then psymbol pb else indent);
          l = (if i = cursorRow pb then show_cursor l (cursorCol pb) else l);
          wrapped = wrapLine ws width (pre @ l);
          cur = (if i = cursorRow pb
                 then last_block (length res + length wrapped - 1) (length res) wrapped else cur)
      in box_rows ws width pb indent (Suc i) ls (res @ wrapped, cur))"

definition prompt_lines :: "widths \<Rightarrow> int \<Rightarrow> prompt \<Rightarrow> rune list list" where
  "prompt_lines ws width0 pb =
     (let width = nat (max width0 10);
          indent = replicate (string_cells ws (psymbol pb)) 32
      in case box_rows ws width pb indent 0 (plines pb) ([], 0) of
        (res, cur) \<Rightarrow>
          let res = res @ replicate (minLines pb - length res) indent
          in if maxLines pb < length res
             then let start = max 0 (min (int cur - int (maxLines pb) + 1) (int (length res) - int (maxLines pb)))
                  in take (maxLines pb) (drop (nat start) res)
             else res)"

section \<open>The editor as a gap buffer\<close>

definition prompt_ok :: "prompt \<Rightarrow> bool" where
  "prompt_ok pb \<longleftrightarrow> cursorRow pb < length (plines pb) \<and> cursorCol pb \<le> length (cur_line pb)
     \<and> list_all (\<lambda>l. newline \<notin> set l) (plines pb)
     \<and> -1 \<le> histIdx pb \<and> histIdx pb < int (length (phistory pb))"

definition text_before :: "rune list list \<Rightarrow> rune list \<Rightarrow> rune list" where
  "text_before us p = concat (map (\<lambda>l. l @ [newline]) us) @ p"

definition text_after :: "rune list \<Rightarrow> rune list list \<Rightarrow> rune list" where
  "text_after q vs = q @ concat (map ((#) newline) vs)"

definition gap :: "prompt \<Rightarrow> rune list \<times> rune list" where
  "gap pb =
     (text_before (take (cursorRow pb) (plines pb)) (take (cursorCol pb) (cur_line pb)),
      text_after (drop (cursorCol pb) (cur_line pb)) (drop (cursorRow pb + 1) (plines pb)))"

text \<open>The lines around the cursor.\<close>

definition view :: "prompt \<Rightarrow> rune list list \<Rightarrow> rune list \<Rightarrow> rune list \<Rightarrow> rune list list \<Rightarrow> bool" where
  "view pb us p q vs \<longleftrightarrow> plines pb = us @ (p @ q) # vs \<and> cursorRow pb = length us \<and> cursorCol pb = length p"

lemma gap_view: "view pb us p q vs \<Longrightarrow> gap pb = (text_before us p, text_after q vs)"
  by (simp add: view_def gap_def cur_line_def)

lemma view_cur [simp]: "view pb us p q vs \<Longrightarrow> cur_line pb = p @ q"
  by (simp add: view_def cur_line_def)

lemma ok_view:
  assumes "prompt_ok pb"
  obtains us p q vs where "view pb us p q vs" "newline \<notin> set p" "newline \<notin> set q"
    "list_all (\<lambda>l. newline \<notin> set l) us" "list_all (\<lambda>l. newline \<notin> set l) vs"
proof
  let ?r = "cursorRow pb" and ?c = "cursorCol pb"
  have row: "?r < length (plines pb)" using assms by (simp add: prompt_ok_def)
  show "view pb (take ?r (plines pb)) (take ?c (cur_line pb)) (drop ?c (cur_line pb)) (drop (?r + 1) (plines pb))"
    using assms id_take_nth_drop [OF row] by (simp add: view_def prompt_ok_def cur_line_def)
  have nl: "\<And>l. l \<in> set (plines pb) \<Longrightarrow> newline \<notin> set l" using assms by (simp add: prompt_ok_def list_all_iff)
  then have "newline \<notin> set (cur_line pb)" using row by (simp add: cur_line_def)
  then show "newline \<notin> set (take ?c (cur_line pb))" "newline \<notin> set (drop ?c (cur_line pb))"
    by (meson in_set_takeD in_set_dropD)+
  show "list_all (\<lambda>l. newline \<notin> set l) (take ?r (plines pb))" "list_all (\<lambda>l. newline \<notin> set l) (drop (?r + 1) (plines pb))"
    using nl by (auto simp: list_all_iff dest: in_set_takeD in_set_dropD)
qed

lemma view_ok:
  assumes "view pb us p q vs" "newline \<notin> set p" "newline \<notin> set q"
    "list_all (\<lambda>l. newline \<notin> set l) us" "list_all (\<lambda>l. newline \<notin> set l) vs"
    and "-1 \<le> histIdx pb" "histIdx pb < int (length (phistory pb))"
  shows "prompt_ok pb"
  using assms by (simp add: prompt_ok_def cur_line_def view_def)

lemma text_gap:
  assumes "prompt_ok pb"
  shows "Text pb = fst (gap pb) @ snd (gap pb)"
proof -
  have j: "join_lines (l # ls) = l @ concat (map ((#) newline) ls)" for l ls
    by (induction ls arbitrary: l) simp_all
  have "join_lines (us @ l # vs) = concat (map (\<lambda>l. l @ [newline]) us) @ join_lines (l # vs)" for us l vs
    by (induction us rule: induct_list012) (simp_all add: j)
  then show ?thesis
    using ok_view [OF assms] gap_view by (metis Text_def append.assoc fst_conv j snd_conv text_after_def text_before_def view_def)
qed

section \<open>Edits\<close>

datatype edit = EInsert rune | EBreak | ERub | ELeft | ERight | EHome | EEnd | EKillStart | EKillEnd
  | EWordLeft | EWordRight | EKillWord

fun edit_prompt :: "(rune \<Rightarrow> bool) \<Rightarrow> edit \<Rightarrow> prompt \<Rightarrow> prompt" where
  "edit_prompt letter (EInsert r) = InsertChar r"
| "edit_prompt letter EBreak = InsertNewline"
| "edit_prompt letter ERub = Backspace"
| "edit_prompt letter ELeft = MoveLeft"
| "edit_prompt letter ERight = MoveRight"
| "edit_prompt letter EHome = HomeKey"
| "edit_prompt letter EEnd = EndKey"
| "edit_prompt letter EKillStart = DeleteToStart"
| "edit_prompt letter EKillEnd = DeleteToEnd"
| "edit_prompt letter EWordLeft = WordLeft letter"
| "edit_prompt letter EWordRight = WordRight letter"
| "edit_prompt letter EKillWord = DeleteWordBack letter"

text \<open>The same edits on the text before and after the cursor.\<close>

definition line_head :: "rune list \<Rightarrow> rune list" where
  "line_head b = rev (takeWhile (\<lambda>r. r \<noteq> newline) (rev b))"

definition line_rest :: "rune list \<Rightarrow> rune list" where
  "line_rest a = takeWhile (\<lambda>r. r \<noteq> newline) a"

definition word_span :: "(rune \<Rightarrow> bool) \<Rightarrow> rune list \<Rightarrow> rune list" where
  "word_span letter s =
     takeWhile (\<lambda>r. \<not> isWordRune letter r) s
     @ takeWhile (isWordRune letter) (dropWhile (\<lambda>r. \<not> isWordRune letter r) s)"

definition shorten :: "rune list \<Rightarrow> rune list \<Rightarrow> rune list" where
  "shorten b h = take (length b - length h) b"

fun edit_gap :: "(rune \<Rightarrow> bool) \<Rightarrow> edit \<Rightarrow> rune list \<times> rune list \<Rightarrow> rune list \<times> rune list" where
  "edit_gap letter (EInsert r) (b, a) = (b @ [r], a)"
| "edit_gap letter EBreak (b, a) = (b @ [newline], a)"
| "edit_gap letter ERub (b, a) = (butlast b, a)"
| "edit_gap letter ELeft (b, a) = (if b = [] then (b, a) else (butlast b, last b # a))"
| "edit_gap letter ERight (b, a) = (case a of [] \<Rightarrow> (b, a) | r # a \<Rightarrow> (b @ [r], a))"
| "edit_gap letter EHome (b, a) = (shorten b (line_head b), line_head b @ a)"
| "edit_gap letter EEnd (b, a) = (b @ line_rest a, drop (length (line_rest a)) a)"
| "edit_gap letter EKillStart (b, a) = (shorten b (line_head b), a)"
| "edit_gap letter EKillEnd (b, a) = (b, drop (length (line_rest a)) a)"
| "edit_gap letter EWordLeft (b, a) =
     (let w = rev (word_span letter (rev (line_head b))) in (shorten b w, w @ a))"
| "edit_gap letter EWordRight (b, a) =
     (let w = word_span letter (line_rest a) in (b @ w, drop (length w) a))"
| "edit_gap letter EKillWord (b, a) = (shorten b (rev (word_span letter (rev (line_head b)))), a)"

lemma skip_left_eq:
  "col \<le> length line \<Longrightarrow> skip_left P line col = col - length (takeWhile P (rev (take col line)))"
  by (induction P line col rule: skip_left.induct) (simp_all add: take_Suc_conv_app_nth)

lemma skip_right_eq:
  "col \<le> length line \<Longrightarrow> skip_right P line col = col + length (takeWhile P (drop col line))"
proof (induction P line col rule: skip_right.induct)
  case (1 P line col)
  show ?case
  proof (cases "col < length line")
    case True
    then have "drop col line = line ! col # drop (Suc col) line" by (rule Cons_nth_drop_Suc [symmetric])
    with 1 True show ?thesis by (subst skip_right.simps) simp
  qed (use 1 in \<open>simp add: skip_right.simps\<close>)
qed

lemma wordLeft_eq: "wordLeft letter (p @ q) (length p) = length p - length (word_span letter (rev p))"
proof -
  let ?n = "length (takeWhile (\<lambda>r. \<not> isWordRune letter r) (rev p))"
  have "?n \<le> length p" by (metis length_rev length_takeWhile_le)
  have 1: "skip_left (\<lambda>r. \<not> isWordRune letter r) (p @ q) (length p) = length p - ?n"
    by (simp add: skip_left_eq)
  have 2: "rev (take (length p - ?n) p) = dropWhile (\<lambda>r. \<not> isWordRune letter r) (rev p)"
    using \<open>?n \<le> length p\<close> by (simp add: rev_take dropWhile_eq_drop)
  show ?thesis
    by (simp add: wordLeft_def 1 skip_left_eq 2 word_span_def)
qed

lemma wordRight_eq: "wordRight letter (p @ q) (length p) = length p + length (word_span letter q)"
proof -
  let ?n = "length (takeWhile (\<lambda>r. \<not> isWordRune letter r) q)"
  have "?n \<le> length q" by (rule length_takeWhile_le)
  then show ?thesis
    by (simp add: wordRight_def skip_right_eq word_span_def dropWhile_eq_drop)
qed

lemma word_span_prefix: "\<exists>r. s = word_span letter s @ r"
  by (metis append.assoc takeWhile_dropWhile_id word_span_def)

lemma until_newline: "newline \<notin> set p \<Longrightarrow> takeWhile (\<lambda>r. r \<noteq> newline) (p @ s) = p @ takeWhile (\<lambda>r. r \<noteq> newline) s"
  by (induction p) auto

lemma line_head_before: "newline \<notin> set p \<Longrightarrow> line_head (text_before us p) = p"
proof -
  assume p: "newline \<notin> set p"
  have "takeWhile (\<lambda>r. r \<noteq> newline) (rev (concat (map (\<lambda>l. l @ [newline]) us))) = []"
    by (cases us rule: rev_cases) simp_all
  with p show ?thesis by (simp add: line_head_def text_before_def until_newline)
qed

lemma line_rest_after: "newline \<notin> set q \<Longrightarrow> line_rest (text_after q vs) = q"
  using until_newline [of q "[]"] by (cases vs) (simp_all add: line_rest_def text_after_def until_newline)

lemma shorten_before: "p = p' @ h \<Longrightarrow> shorten (text_before us p) h = text_before us p'"
  by (simp add: shorten_def text_before_def)

lemma view_set_line:
  "view pb us p q vs \<Longrightarrow> set_line pb (p' @ q') (length p') = pb\<lparr>plines := us @ (p' @ q') # vs, cursorCol := length p'\<rparr>"
  by (simp add: set_line_def view_def)

lemma view_line:
  "view pb us p q vs \<Longrightarrow> view (set_line pb (p' @ q') (length p')) us p' q' vs"
  by (simp add: view_set_line) (simp add: view_def)

lemma hist_line [simp]:
  "histIdx (set_line pb l c) = histIdx pb" "phistory (set_line pb l c) = phistory pb"
  by (simp_all add: set_line_def)

text \<open>One edit: the lines around the cursor, and the same edit on the gap buffer.\<close>

definition edit_result :: "(rune \<Rightarrow> bool) \<Rightarrow> edit \<Rightarrow> prompt \<Rightarrow> prompt \<Rightarrow> bool" where
  "edit_result letter e pb pb' \<longleftrightarrow> prompt_ok pb' \<and> gap pb' = edit_gap letter e (gap pb)
     \<and> histIdx pb' = histIdx pb \<and> phistory pb' = phistory pb \<and> pdraft pb' = pdraft pb"

lemma edit_resultI:
  assumes "view pb us p q vs" "view pb' us' p' q' vs'"
    and "newline \<notin> set p'" "newline \<notin> set q'" "list_all (\<lambda>l. newline \<notin> set l) us'" "list_all (\<lambda>l. newline \<notin> set l) vs'"
    and "histIdx pb' = histIdx pb" "phistory pb' = phistory pb" "pdraft pb' = pdraft pb"
    and "-1 \<le> histIdx pb" "histIdx pb < int (length (phistory pb))"
    and "(text_before us' p', text_after q' vs') = edit_gap letter e (text_before us p, text_after q vs)"
  shows "edit_result letter e pb pb'"
  using assms view_ok [OF assms(2-6)] by (simp add: edit_result_def gap_view)

lemma edit_steps:
  assumes ok: "prompt_ok pb" and e: "e \<noteq> EInsert newline"
  shows "edit_result letter e pb (edit_prompt letter e pb)"
proof -
  from ok_view [OF ok] obtain us p q vs where v: "view pb us p q vs" and n: "newline \<notin> set p" "newline \<notin> set q"
    "list_all (\<lambda>l. newline \<notin> set l) us" "list_all (\<lambda>l. newline \<notin> set l) vs" by blast
  have h: "-1 \<le> histIdx pb" "histIdx pb < int (length (phistory pb))" using ok by (simp_all add: prompt_ok_def)
  have f: "plines pb = us @ (p @ q) # vs" "cursorRow pb = length us" "cursorCol pb = length p"
    using v by (simp_all add: view_def)
  note facts = view_cur [OF v] f n h line_head_before [OF n(1)] line_rest_after [OF n(2)]
  obtain r where wq: "q = word_span letter q @ r" using word_span_prefix by blast
  obtain r' where wp: "p = r' @ rev (word_span letter (rev p))"
    using word_span_prefix [of "rev p" letter] by (metis rev_append rev_rev_ident)
  have nw: "newline \<notin> set r'" "newline \<notin> set (word_span letter (rev p))"
    using n(1) wp by (metis UnCI set_append set_rev)+
  have nq: "newline \<notin> set r" "newline \<notin> set (word_span letter q)"
    using n(2) wq by (metis UnCI set_append)+
  show ?thesis
  proof (cases e)
    case (EInsert r)
    with e show ?thesis
      by (intro edit_resultI [OF v, of _ us "p @ [r]" q vs])
        (simp_all add: InsertChar_def facts Let_def set_line_def view_def text_before_def)
  next
    case EBreak
    then show ?thesis
      by (intro edit_resultI [OF v, of _ "us @ [p]" "[]" q vs])
        (simp_all add: InsertNewline_def facts Let_def view_def text_before_def)
  next
    case EHome
    then show ?thesis
      by (intro edit_resultI [OF v, of _ us "[]" "p @ q" vs])
        (simp_all add: HomeKey_def facts view_def text_after_def shorten_before [of p "[]"])
  next
    case EEnd
    then show ?thesis
      by (intro edit_resultI [OF v, of _ us "p @ q" "[]" vs])
        (simp_all add: EndKey_def facts line_rest_after [OF n(2), unfolded text_after_def] view_def text_after_def text_before_def)
  next
    case EKillStart
    then show ?thesis
      by (intro edit_resultI [OF v, of _ us "[]" q vs])
        (simp_all add: DeleteToStart_def facts Let_def set_line_def view_def shorten_before [of p "[]"])
  next
    case EKillEnd
    then show ?thesis
      by (intro edit_resultI [OF v, of _ us p "[]" vs])
        (simp_all add: DeleteToEnd_def facts line_rest_after [OF n(2), unfolded text_after_def] Let_def set_line_def view_def text_after_def)
  next
    case EWordLeft
    have "length p - length (word_span letter (rev p)) = length r'"
      by (metis add_diff_cancel_right' length_append length_rev wp)
    with EWordLeft show ?thesis
      using n nw
      by (intro edit_resultI [OF v, of _ us r' "rev (word_span letter (rev p)) @ q" vs])
        (simp_all add: WordLeft_def facts wordLeft_eq view_def text_after_def shorten_before [OF wp], metis wp append.assoc)
  next
    case EKillWord
    have "length p - length (word_span letter (rev p)) = length r'"
      by (metis add_diff_cancel_right' length_append length_rev wp)
    moreover have "take (length r') p = r'" using wp by (metis append_eq_conv_conj)
    ultimately show ?thesis
      using EKillWord n nw
      by (intro edit_resultI [OF v, of _ us r' q vs])
        (auto simp: DeleteWordBack_def facts wordLeft_eq Let_def set_line_def view_def shorten_before [OF wp])
  next
    case EWordRight
    have "drop (length (word_span letter q)) (text_after q vs) = text_after r vs"
      by (subst wq) (simp add: text_after_def)
    with EWordRight show ?thesis
      using n nq wq
      by (intro edit_resultI [OF v, of _ us "p @ word_span letter q" r vs])
        (auto simp: WordRight_def facts wordRight_eq view_def text_before_def)
  next
    case ELeft
    show ?thesis
    proof (cases p rule: rev_cases)
      case (snoc p' x)
      with ELeft show ?thesis
        using n
        by (intro edit_resultI [OF v, of _ us p' "x # q" vs])
          (simp_all add: MoveLeft_def facts view_def text_before_def text_after_def butlast_append)
    next
      case Nil
      show ?thesis
      proof (cases us rule: rev_cases)
        case (snoc us' u)
        with ELeft Nil show ?thesis
          using n
          by (intro edit_resultI [OF v, of _ us' u "[]" "q # vs"])
            (simp_all add: MoveLeft_def facts view_def text_before_def text_after_def butlast_append)
      next
        case 2: Nil
        with ELeft Nil show ?thesis
          using n v by (intro edit_resultI [OF v, of _ us p q vs]) (simp_all add: MoveLeft_def facts text_before_def)
      qed
    qed
  next
    case ERight
    show ?thesis
    proof (cases q)
      case (Cons x q')
      with ERight show ?thesis
        using n
        by (intro edit_resultI [OF v, of _ us "p @ [x]" q' vs])
          (simp_all add: MoveRight_def facts view_def text_before_def text_after_def)
    next
      case Nil
      show ?thesis
      proof (cases vs)
        case (Cons w vs')
        with ERight Nil show ?thesis
          using n
          by (intro edit_resultI [OF v, of _ "us @ [p]" "[]" w vs'])
            (simp_all add: MoveRight_def facts view_def text_before_def text_after_def)
      next
        case 2: Nil
        with ERight Nil show ?thesis
          using n v by (intro edit_resultI [OF v, of _ us p q vs]) (simp_all add: MoveRight_def facts text_after_def)
      qed
    qed
  next
    case ERub
    show ?thesis
    proof (cases p rule: rev_cases)
      case (snoc p' x)
      with ERub show ?thesis
        using n
        by (intro edit_resultI [OF v, of _ us p' q vs])
          (simp_all add: Backspace_def facts Let_def set_line_def view_def text_before_def butlast_append)
    next
      case Nil
      show ?thesis
      proof (cases us rule: rev_cases)
        case (snoc us' u)
        with ERub Nil show ?thesis
          using n
          by (intro edit_resultI [OF v, of _ us' u q vs])
            (simp_all add: Backspace_def facts Let_def view_def text_before_def butlast_append)
      next
        case 2: Nil
        with ERub Nil show ?thesis
          using n v by (intro edit_resultI [OF v, of _ us p q vs]) (simp_all add: Backspace_def facts text_before_def)
      qed
    qed
  qed
qed

text \<open>C31. The prompt editor is a gap buffer: any sequence of edits (characters, line breaks, deletions,
  moves by character, line end and word) on a well-formed prompt gives a well-formed prompt, with the
  cursor on an existing line and not past its end, and does to the text before and after the cursor
  exactly what the same edits do to a pair of strings; the history is not touched.\<close>

theorem prompt_refines_gap:
  assumes "prompt_ok pb" and "EInsert newline \<notin> set es"
  shows "prompt_ok (fold (edit_prompt letter) es pb)
    \<and> gap (fold (edit_prompt letter) es pb) = fold (edit_gap letter) es (gap pb)
    \<and> Text (fold (edit_prompt letter) es pb)
        = fst (fold (edit_gap letter) es (gap pb)) @ snd (fold (edit_gap letter) es (gap pb))
    \<and> phistory (fold (edit_prompt letter) es pb) = phistory pb"
proof -
  have "prompt_ok (fold (edit_prompt letter) es pb)
    \<and> gap (fold (edit_prompt letter) es pb) = fold (edit_gap letter) es (gap pb)
    \<and> phistory (fold (edit_prompt letter) es pb) = phistory pb"
    using assms
  proof (induction es arbitrary: pb)
    case (Cons e es)
    then have "edit_result letter e pb (edit_prompt letter e pb)" by (intro edit_steps) auto
    with Cons show ?case by (auto simp: edit_result_def)
  qed simp
  with text_gap [of "fold (edit_prompt letter) es pb"] show ?thesis by simp
qed

definition sample_edits :: "edit list" where
  "sample_edits = [EInsert 97, EBreak, EInsert 98, EInsert 46, EInsert 99, EKillWord, ELeft, ELeft,
     ERub, EEnd, ERight, EInsert 100]"

lemma prompt_refines_gap_witness:
  "Text (fold (edit_prompt (\<lambda>r. 97 \<le> r)) sample_edits (NewPromptBuffer 1 5 10 [])) = [97, 98, 46, 100]"
proof -
  have ok: "prompt_ok (NewPromptBuffer 1 5 10 [])" by code_simp
  have es: "EInsert newline \<notin> set sample_edits" by (simp add: sample_edits_def)
  have g: "fold (edit_gap (\<lambda>r. 97 \<le> r)) sample_edits (gap (NewPromptBuffer 1 5 10 [])) = ([97, 98, 46, 100], [])"
    by code_simp
  show ?thesis using prompt_refines_gap [OF ok es, of "\<lambda>r. 97 \<le> r"] by (simp add: g)
qed

section \<open>History keeps the draft\<close>

lemma join_split: "join_lines (split_lines s) = s"
proof (induction s rule: split_lines.induct)
  case (2 r s)
  have "split_lines s \<noteq> []" by (cases s) (auto split: list.splits)
  then obtain l ls where ls: "split_lines s = l # ls" by (cases "split_lines s") auto
  with 2 have "join_lines (l # ls) = s" by (cases "r = newline") simp_all
  moreover have "join_lines ((r # l) # ls) = r # join_lines (l # ls)" by (cases ls) simp_all
  ultimately show ?case using ls by auto
qed simp

lemma Text_SetText [simp]: "Text (SetText s pb) = s"
  by (simp add: Text_def SetText_def Let_def join_split)

lemma SetText_frame [simp]:
  "phistory (SetText s pb) = phistory pb" "histIdx (SetText s pb) = histIdx pb" "pdraft (SetText s pb) = pdraft pb"
  by (simp_all add: SetText_def Let_def)

lemma split_lines_ok: "split_lines s \<noteq> [] \<and> list_all (\<lambda>l. newline \<notin> set l) (split_lines s)"
  by (induction s) (auto split: list.splits)

lemma SetText_ok:
  assumes "-1 \<le> histIdx pb" and "histIdx pb < int (length (phistory pb))"
  shows "prompt_ok (SetText s pb)"
  using split_lines_ok [of s] assms
  by (simp add: prompt_ok_def SetText_def Let_def cur_line_def)

lemma prev_first:
  assumes "histIdx pb = -1" and "phistory pb \<noteq> []"
  shows "histIdx (snd (HistoryPrev pb)) = int (length (phistory pb) - 1)"
    "pdraft (snd (HistoryPrev pb)) = Text pb" "phistory (snd (HistoryPrev pb)) = phistory pb"
  using assms by (cases "phistory pb"; simp add: HistoryPrev_def Let_def)+

lemma prev_again:
  assumes "histIdx pb = int (Suc j)"
  shows "histIdx (snd (HistoryPrev pb)) = int j \<or> phistory pb = []"
    "pdraft (snd (HistoryPrev pb)) = pdraft pb" "phistory (snd (HistoryPrev pb)) = phistory pb"
  using assms by (simp_all add: HistoryPrev_def Let_def)

lemma prev_state:
  assumes "histIdx pb = -1" and "k < length (phistory pb)"
  shows "histIdx (((\<lambda>pb. snd (HistoryPrev pb)) ^^ Suc k) pb) = int (length (phistory pb) - Suc k)
    \<and> pdraft (((\<lambda>pb. snd (HistoryPrev pb)) ^^ Suc k) pb) = Text pb
    \<and> phistory (((\<lambda>pb. snd (HistoryPrev pb)) ^^ Suc k) pb) = phistory pb"
  using assms
proof (induction k)
  case 0
  then have "phistory pb \<noteq> []" by auto
  with 0 prev_first [of pb] show ?case by simp
next
  case (Suc k)
  define q where "q = ((\<lambda>pb. snd (HistoryPrev pb)) ^^ Suc k) pb"
  from Suc.prems(2) obtain j where j: "length (phistory pb) - Suc k = Suc j"
    by (metis Suc_diff_Suc)
  have q: "histIdx q = int (Suc j)" "pdraft q = Text pb" "phistory q = phistory pb"
    using Suc.IH [OF Suc.prems(1) Suc_lessD [OF Suc.prems(2)], folded q_def] j by auto
  have "((\<lambda>pb. snd (HistoryPrev pb)) ^^ Suc (Suc k)) pb = snd (HistoryPrev q)" by (simp add: q_def)
  moreover have "phistory pb \<noteq> []" using Suc.prems(2) by auto
  moreover have "length (phistory pb) - Suc (Suc k) = j" using j by simp
  ultimately show ?case using q prev_again [OF q(1)] by metis
qed

lemma next_idx:
  assumes "0 \<le> histIdx pb" and "histIdx pb < int (length (phistory pb))"
  shows "Text (((\<lambda>pb. snd (HistoryNext pb)) ^^ (length (phistory pb) - nat (histIdx pb))) pb) = pdraft pb
    \<and> histIdx (((\<lambda>pb. snd (HistoryNext pb)) ^^ (length (phistory pb) - nat (histIdx pb))) pb) = -1"
  using assms
proof (induction "length (phistory pb) - nat (histIdx pb)" arbitrary: pb)
  case 0
  then show ?case by simp
next
  case (Suc d)
  let ?n = "snd (HistoryNext pb)"
  have step: "((\<lambda>pb. snd (HistoryNext pb)) ^^ (length (phistory pb) - nat (histIdx pb))) pb
      = ((\<lambda>pb. snd (HistoryNext pb)) ^^ d) ?n"
    unfolding Suc.hyps(2) [symmetric] by (simp add: funpow_Suc_right del: funpow.simps)
  show ?case
  proof (cases "histIdx pb < int (length (phistory pb)) - 1")
    case True
    then have n: "histIdx ?n = histIdx pb + 1" "phistory ?n = phistory pb" "pdraft ?n = pdraft pb"
      using Suc.prems by (simp_all add: HistoryNext_def Let_def)
    have "d = length (phistory ?n) - nat (histIdx ?n)" using Suc.hyps(2) n Suc.prems True by auto
    with Suc.hyps(1) [of ?n] n Suc.prems True step show ?thesis by simp
  next
    case False
    then have "d = 0" using Suc.hyps(2) Suc.prems by linarith
    with False Suc.prems step show ?thesis by (simp add: HistoryNext_def)
  qed
qed

text \<open>C32. Looking through the history never loses the draft: after any number of steps back that the
  history allows, as many steps forward show exactly the text that was being written.\<close>

theorem history_returns_draft:
  assumes "histIdx pb = -1" and "0 < k" and "k \<le> length (phistory pb)"
  shows "Text (((\<lambda>pb. snd (HistoryNext pb)) ^^ k) (((\<lambda>pb. snd (HistoryPrev pb)) ^^ k) pb)) = Text pb
    \<and> histIdx (((\<lambda>pb. snd (HistoryNext pb)) ^^ k) (((\<lambda>pb. snd (HistoryPrev pb)) ^^ k) pb)) = -1"
proof -
  from assms obtain j where k: "k = Suc j" "j < length (phistory pb)" by (cases k) auto
  let ?b = "((\<lambda>pb. snd (HistoryPrev pb)) ^^ k) pb"
  have b: "phistory ?b = phistory pb" "histIdx ?b = int (length (phistory pb) - k)" "pdraft ?b = Text pb"
    using prev_state [OF assms(1) k(2), folded k(1)] by blast+
  then have "length (phistory ?b) - nat (histIdx ?b) = k" using assms(3) by simp
  with next_idx [of ?b] b assms show ?thesis by simp
qed

definition sample_history :: "prompt" where
  "sample_history = InsertChar 120 ((NewPromptBuffer 1 5 10 [])\<lparr>phistory := [[97], [98, 10, 99], [100]]\<rparr>)"

lemma history_returns_draft_witness:
  "Text (((\<lambda>pb. snd (HistoryNext pb)) ^^ 3) (((\<lambda>pb. snd (HistoryPrev pb)) ^^ 3) sample_history)) = [120]"
proof -
  have "histIdx sample_history = -1" "(3::nat) \<le> length (phistory sample_history)" "Text sample_history = [120]"
    by (simp_all add: sample_history_def NewPromptBuffer_def InsertChar_def set_line_def cur_line_def Text_def)
  with history_returns_draft [of sample_history 3] show ?thesis by simp
qed

section \<open>The box shows the cursor\<close>

lemma wrap_runes_concat: "concat (wrap_runes cells width cur w s) = cur @ s"
  by (induction cells width cur w s rule: wrap_runes.induct) (simp_all del: append_assoc add: append_assoc [symmetric])

lemma wrapLine_concat: "concat (wrapLine ws width s) = s"
proof -
  have "concat (case wrap_runes (rune_cells ws) width [] 0 s of [] \<Rightarrow> [[]] | ls \<Rightarrow> ls) = s"
    using wrap_runes_concat [of "rune_cells ws" width "[]" 0 s]
    by (cases "wrap_runes (rune_cells ws) width [] 0 s") simp_all
  then show ?thesis by (simp add: wrapLine_def)
qed

lemma show_cursor_block: "block \<in> set (show_cursor l col)"
  by (simp add: show_cursor_def Let_def)

lemma last_block_index:
  assumes "\<exists>w \<in> set ws. block \<in> set w"
  shows "j \<le> last_block d j ws \<and> last_block d j ws < j + length ws
    \<and> block \<in> set (ws ! (last_block d j ws - j))"
proof -
  have "(\<exists>w \<in> set ws. block \<in> set w) \<and> j \<le> last_block d j ws \<and> last_block d j ws < j + length ws
      \<and> block \<in> set (ws ! (last_block d j ws - j))
    \<or> (\<forall>w \<in> set ws. block \<notin> set w) \<and> last_block d j ws = d"
  proof (induction ws arbitrary: d j)
    case (Cons w ws)
    from Cons.IH [where d = "if block \<in> set w then j else d" and j = "Suc j"] show ?case
    proof (elim disjE)
      assume a: "(\<exists>w \<in> set ws. block \<in> set w)
        \<and> Suc j \<le> last_block (if block \<in> set w then j else d) (Suc j) ws
        \<and> last_block (if block \<in> set w then j else d) (Suc j) ws < Suc j + length ws
        \<and> block \<in> set (ws ! (last_block (if block \<in> set w then j else d) (Suc j) ws - Suc j))"
      let ?r = "last_block (if block \<in> set w then j else d) (Suc j) ws"
      from a have "(w # ws) ! (?r - j) = ws ! (?r - Suc j)" by (simp add: nth_Cons')
      with a show ?thesis by auto
    qed auto
  qed simp
  with assms show ?thesis by blast
qed

lemma box_rows_grow: "\<exists>t. fst (box_rows ws width pb ind i ls (res, cur)) = res @ t"
proof (induction ls arbitrary: i res cur)
  case (Cons l ls)
  show ?case by (simp add: Let_def) (metis Cons.IH append.assoc)
qed simp

lemma box_rows_past:
  "cursorRow pb < i \<Longrightarrow> snd (box_rows ws width pb ind i ls (res, cur)) = cur"
  by (induction ls arbitrary: i res cur) (simp_all add: Let_def)

lemma box_rows_cursor:
  assumes "i \<le> cursorRow pb" and "cursorRow pb < i + length ls"
  shows "case box_rows ws width pb ind i ls (res, cur) of (res', cur') \<Rightarrow>
    cur' < length res' \<and> block \<in> set (res' ! cur')"
  using assms
proof (induction ls arbitrary: i res cur)
  case (Cons l ls)
  show ?case
  proof (cases "i = cursorRow pb")
    case True
    define w where "w = wrapLine ws width ((if i = 0 then psymbol pb else ind) @ show_cursor l (cursorCol pb))"
    define c where "c = last_block (length res + length w - 1) (length res) w"
    have "block \<in> set (concat w)" using show_cursor_block unfolding w_def by (simp add: wrapLine_concat)
    then have "\<exists>x \<in> set w. block \<in> set x" by simp
    from last_block_index [OF this, of "length res" "length res + length w - 1", folded c_def]
    have c: "length res \<le> c" "c < length res + length w" "block \<in> set (w ! (c - length res))" by blast+
    obtain t where t: "fst (box_rows ws width pb ind (Suc i) ls (res @ w, c)) = (res @ w) @ t"
      using box_rows_grow by blast
    have "snd (box_rows ws width pb ind (Suc i) ls (res @ w, c)) = c"
      using True by (simp add: box_rows_past)
    with t have e: "box_rows ws width pb ind (Suc i) ls (res @ w, c) = (res @ w @ t, c)"
      by (metis append.assoc prod.collapse)
    have "c - length res < length w" using c by linarith
    with c have ix: "(res @ w @ t) ! c = w ! (c - length res)" by (simp add: nth_append)
    have "box_rows ws width pb ind i (l # ls) (res, cur) = box_rows ws width pb ind (Suc i) ls (res @ w, c)"
      unfolding c_def w_def using True by (simp add: Let_def)
    with e c ix show ?thesis by simp
  next
    case False
    with Cons.prems have "Suc i \<le> cursorRow pb" "cursorRow pb < Suc i + length ls" by simp_all
    from Cons.IH [OF this] False show ?thesis by (simp add: Let_def)
  qed
qed simp

text \<open>The box keeps its height and shows the cursor: whatever the text, the width and the widths of
  the runes, it has at least the smallest and at most the largest number of lines, and one of them carries
  the block that stands for the cursor.\<close>

theorem box_shows_cursor:
  assumes "prompt_ok pb" and "0 < maxLines pb" and "minLines pb \<le> maxLines pb"
  shows "minLines pb \<le> length (prompt_lines ws width pb) \<and> length (prompt_lines ws width pb) \<le> maxLines pb
    \<and> block \<in> set (concat (prompt_lines ws width pb))"
proof -
  let ?ind = "replicate (string_cells ws (psymbol pb)) 32"
  obtain res cur where b: "box_rows ws (nat (max width 10)) pb ?ind 0 (plines pb) ([], 0) = (res, cur)"
    by fastforce
  have "cursorRow pb < length (plines pb)" using assms(1) by (simp add: prompt_ok_def)
  with box_rows_cursor [of 0 pb "plines pb" ws "nat (max width 10)" ?ind "[]" 0] b
  have cur: "cur < length res" "block \<in> set (res ! cur)" by simp_all
  define all where "all = res @ replicate (minLines pb - length res) ?ind"
  have all: "cur < length all" "block \<in> set (all ! cur)" "minLines pb \<le> length all"
    using cur by (simp_all add: all_def nth_append)
  define start where "start = nat (max 0 (min (int cur - int (maxLines pb) + 1) (int (length all) - int (maxLines pb))))"
  have e: "prompt_lines ws width pb = (if maxLines pb < length all then take (maxLines pb) (drop start all) else all)"
    by (simp add: prompt_lines_def Let_def b all_def start_def)
  show ?thesis
  proof (cases "maxLines pb < length all")
    case True
    have s: "start \<le> cur" "cur < start + maxLines pb" "start + maxLines pb \<le> length all"
      using assms(2) all True unfolding start_def by linarith+
    then have "take (maxLines pb) (drop start all) ! (cur - start) = all ! cur" by simp
    moreover have "cur - start < length (take (maxLines pb) (drop start all))" using s by simp
    ultimately have "all ! cur \<in> set (take (maxLines pb) (drop start all))" by (metis nth_mem)
    with all s e True assms(3) show ?thesis by auto
  next
    case False
    with e all nth_mem [OF all(1)] show ?thesis by auto
  qed
qed

lemma box_shows_cursor_witness:
  "length (prompt_lines \<lparr>rune_cells = (\<lambda>r. 1), string_cells = length\<rparr> 0 sample_history) \<le> 5"
proof -
  have "prompt_ok sample_history" "0 < maxLines sample_history" "minLines sample_history \<le> maxLines sample_history"
      "maxLines sample_history = 5"
    by (simp_all add: prompt_ok_def sample_history_def NewPromptBuffer_def InsertChar_def set_line_def cur_line_def)
  with box_shows_cursor [of sample_history "\<lparr>rune_cells = (\<lambda>r. 1), string_cells = length\<rparr>" 0] show ?thesis by simp
qed

end
