(* ===== verification/Spec2Isabelle.thy ===== *)
theory Spec2Isabelle
  imports Markdown Sections Jobs Registry Router Quota Procs Channel Settings PrWait Ansi
    Exec Hook Compact Rebase Prompt
begin

text \<open>
  A verification library of harnez, a command-line tool that wraps coding agents: it installs hooks
  and managed sections into a project, runs commands and background jobs for an agent, keeps
  sessions, test-run quotas, process records and a channel between sessions, and maintains the
  tickets of a repository. The program is Go (\<open>src/cmd/harnez\<close> is the command line, the logic is in
  \<open>src/internal\<close>); the theories model its core packages.

  \<^bold>\<open>How the parts interact.\<close> \<open>harnez apply\<close> selects components, merges the settings of the agent and
  rewrites the managed sections of its files. The installed hook then routes every shell command
  through \<open>harnez exec\<close>, which asks the quota, runs the command under a monitor and keeps the head
  and the tail of its output. \<open>harnez agent\<close> routes turns to sessions through the registry; a running
  session registers an endpoint and receives messages over the channel; background jobs write into
  rings that their session drains. Process records written when an agent starts are what the cleanup
  goes by. A long transcript is compacted with the help of a decision model. The ticket commands read
  and rewrite ticket files under the workflow guard of the repository; \<open>harnez pr\<close> waits on a forge.

  \<^bold>\<open>Theories.\<close>
  \<^item> \<open>GoBase\<close>, \<open>Utf8\<close>, \<open>Json\<close>, \<open>Files\<close>: Go strings as byte lists, UTF-8 decoding, JSON values, and a file
    system whose reads, writes and removals may fail. \<open>Files\<close> states the interface \<open>file_store\<close>.
  \<^item> \<open>Markdown\<close>, \<open>Sections\<close>: \<open>internal/markdown\<close>; managed sections, stop markers, and the
    reconciliation of all sections of a file (\<open>sections.go\<close>). The locale \<open>section_markers\<close> holds what
    the proofs need of a marker pair and is interpreted on the Markdown and Makefile markers.
  \<^item> \<open>Ring\<close>, \<open>Jobs\<close>: the output ring and the background jobs of a session. The locales \<open>tail_sink\<close> and
    \<open>bounded_sink\<close> say what a sink of bounded size promises; they are interpreted on the ring, and
    \<open>tail_sink\<close> again on the buffers of \<open>Exec\<close>.
  \<^item> \<open>Registry\<close>, \<open>Router\<close>: \<open>internal/agent\<close>, \<open>internal/sessionstate\<close> and the turn runners of
    \<open>internal/subagent\<close>; the locale \<open>keyed_store\<close> is the store of sessions by id.
  \<^item> \<open>Quota\<close>, \<open>Exec\<close>, \<open>Hook\<close>: \<open>internal/quota1\<close> and \<open>internal/exec\<close>; the test-run quota, the command
    wrapper with its capture, monitor and time limits, and the hook that rewrites commands and guards
    edits through the shell.
  \<^item> \<open>Procs\<close>: \<open>internal/procs\<close>; process records, their cleanup, and stopping a process tree.
  \<^item> \<open>Endpoints\<close>, \<open>Channel\<close>: \<open>internal/channel\<close>; the registry of endpoints, the receipts, the server
    with its handshake and the client.
  \<^item> \<open>Components\<close>, \<open>Settings\<close>: the component selection and the settings merge of \<open>internal/claude\<close>.
  \<^item> \<open>Forge\<close>, \<open>PrWait\<close>: \<open>internal/forge\<close> and \<open>internal/prwait\<close>; paged requests and the wait for a pull
    request.
  \<^item> \<open>Ansi\<close>, \<open>Prompt\<close>: \<open>internal/tui\<close>; the sanitizer and wrapper of terminal text, and the prompt editor
    with its history and its box.
  \<^item> \<open>Compact\<close>: \<open>internal/decide/compact.go\<close>.
  \<^item> \<open>Gitflow\<close>: \<open>internal/gitflow\<close>, the guard before every commit.
  \<^item> \<open>Tickets\<close>, \<open>Lifecycle\<close>, \<open>Tracker\<close>, \<open>TicketIndex\<close>, \<open>TicketOps\<close>, \<open>Renumber\<close>, \<open>DocsIndex\<close>,
    \<open>Rebase\<close>:
    \<open>internal/issues\<close> and \<open>internal/index\<close>; ids, the parsers and rewriters of a ticket file,
    the categories and status texts of the lifecycle, the tracker directory with the scan, the
    search and the reservation of a ticket, the generated tables, their merge and their
    update, and the status commands with their check mode, rollback and commit guard, and the renumbering
    of colliding tickets as a resumable file transaction; the studies index, the lint, the merge driver,
    and the rebase that replays a branch and repairs its tickets under a recovery state.
  Each theory keeps the order of the code: the state as a record, one function per operation with
  the code's guards and early returns in order, errors as values of a sum or option type, then the
  lemmas. A definition carries the name of its Go function where Isabelle allows it.

  \<^bold>\<open>What the lemma groups show.\<close> Refinement: the section reconciler is the rewriting of a document to
  its list of items, the ring and the capture are a history with a bound, the message queue of the
  registry is a set of messages, the receipts are a ledger. Invariants and idempotence: a second apply
  changes nothing, tool calls and results of a transcript stay paired. Safety: signals only go to
  processes with evidence, tokens and handshakes are checked, foreign hooks survive, a session id is a
  safe file name, a protected branch receives no commit. Termination and liveness: every job ends, a
  wait ends at its time limit, the process tree scan reaches a fixed point. Round trips: a quoted
  command is parsed back to its words, a written ticket status is read back. Where the code does not do
  what it means to, a theorem states the behaviour and the manifest lists it as a finding.

  \<^bold>\<open>Bounds and fuel.\<close> Machine integers are \<open>int\<close> with their range or wrap-around written out where it
  can be reached. Loops that scan shrink their input. The rounds of the process-tree scan are at most
  the size of the listing plus one, since each adds a process; the wait for a pull request has
  timeout over poll interval plus two rounds, since each sleeps one interval; the phases of a stop and the
  polls of a group have the counts of the code's periods; a ticket reservation has the code's hundred
  attempts. In each case the count is the code's own bound, or a theorem shows it suffices.

  \<^bold>\<open>Parameters.\<close> What is not under \<open>src/\<close> is an argument: the kernel (process listing, signals, locks),
  git and the forge's answers, JSON and YAML coding, hashes, the clock, other processes, and the
  decision model. No hypothesis about them is used except where a theorem names it.

  \<^bold>\<open>Not modelled.\<close> The command line glue of \<open>cmd/harnez\<close>; rendering (the other \<open>tui\<close> widgets, \<open>readcard\<close>,
  \<open>statusline\<close>, \<open>uix\<close>); reports over recorded data (\<open>usage\<close>, \<open>usagestore\<close>, \<open>telemetry\<close>, \<open>assess\<close>,
  \<open>bench\<close>), which are SQL and floating-point statistics; the init wizard, the generated agent
  extensions and documentation tools of \<open>internal/claude\<close>; the drivers of external agents in
  \<open>internal/subagent\<close>; HTTP servers and the MCP transport; the release runner, which is a sequence of
  git, forge and signing commands; searches over text (\<open>find\<close>, \<open>finder\<close>, \<open>glossary\<close>, \<open>lint\<close>). They are
  mostly calls of other programs and libraries, or text and numbers with no contract of their own;
  the manifest lists each with its reason.
\<close>

end
